(* ===== verification/Prelude.thy ===== *)
theory Prelude
  imports Main "HOL-Library.Word" "HOL-Library.List_Lexorder" "HOL-Library.Sublist"
begin

text \<open>
  Shared vocabulary of the development: bytes and keys, Go errors as values, the
  three-way comparison \<open>cmp.Compare\<close>, big-endian 64-bit encodings, and the generic
  facts on lexicographic order that the tuple encoding and the ordered key space rest on.
\<close>

unbundle bit_operations_syntax

subsection \<open>Bytes, keys and Go strings\<close>

type_synonym byte = "8 word"
type_synonym bytes = "byte list"
type_synonym key = "byte list"
type_synonym int64 = "64 word"
type_synonym uint64 = "64 word"
type_synonym uint32 = "32 word"

text \<open>A Go string is a byte sequence: \<^typ>\<open>string\<close> holds one \<^typ>\<open>char\<close> per byte.\<close>

definition str_bytes :: "string \<Rightarrow> bytes" where
  "str_bytes s = map (\<lambda>c. word_of_nat (of_char c)) s"

definition bytes_str :: "bytes \<Rightarrow> string" where
  "bytes_str bs = map (\<lambda>b. char_of (unat b)) bs"

text \<open>Collections of facts the component proofs pass to the simplifier.\<close>

named_theorems res_simps "equations of the error monad"
named_theorems enc_simps "equations of the key encodings"
named_theorems kv_simps "laws of the ordered key-value interface"

subsection \<open>Errors as values\<close>

text \<open>
  A Go error is its root: the message it was created with, or one of the sentinel errors the
  code tests with \<open>errors.Is\<close>. Wrapping (\<open>serr.Wrap\<close>) keeps the root, so it is not
  represented. \<open>GoPanic\<close> is a run-time panic.
\<close>

datatype err =
    Msg string
  | ErrTxConflict
  | ErrSeqReset
  | ErrOutOfMemory
  | ErrTxnTooLarge
  | ErrTxNotWritable
  | GoPanic string

type_synonym 'a res = "err + 'a"

definition res_bind :: "'a res \<Rightarrow> ('a \<Rightarrow> 'b res) \<Rightarrow> 'b res" where
  "res_bind m f = (case m of Inl e \<Rightarrow> Inl e | Inr x \<Rightarrow> f x)"

lemma res_bind_Inl [simp, res_simps]: "res_bind (Inl e) f = Inl e"
  by (simp add: res_bind_def)

lemma res_bind_Inr [simp, res_simps]: "res_bind (Inr x) f = f x"
  by (simp add: res_bind_def)

lemma res_bind_eq_Inr [simp]:
  "res_bind m f = Inr y \<longleftrightarrow> (\<exists>x. m = Inr x \<and> f x = Inr y)"
  by (cases m) simp_all

lemma res_bind_eq_Inl:
  "res_bind m f = Inl e \<longleftrightarrow> m = Inl e \<or> (\<exists>x. m = Inr x \<and> f x = Inl e)"
  by (cases m) simp_all

lemma res_bind_cong [fundef_cong]:
  "m = m' \<Longrightarrow> (\<And>x. m' = Inr x \<Longrightarrow> f x = f' x) \<Longrightarrow> res_bind m f = res_bind m' f'"
  by (cases m') simp_all

text \<open>A loop that stops at the first error: \<open>for _, x := range xs { y, err := f(x) ... }\<close>.\<close>

fun res_map :: "('a \<Rightarrow> 'b res) \<Rightarrow> 'a list \<Rightarrow> 'b list res" where
  "res_map f [] = Inr []"
| "res_map f (x # xs) = res_bind (f x) (\<lambda>y. res_bind (res_map f xs) (\<lambda>ys. Inr (y # ys)))"

fun res_fold :: "('a \<Rightarrow> 's \<Rightarrow> 's res) \<Rightarrow> 'a list \<Rightarrow> 's \<Rightarrow> 's res" where
  "res_fold f [] s = Inr s"
| "res_fold f (x # xs) s = res_bind (f x s) (\<lambda>s'. res_fold f xs s')"

lemma res_map_length: "res_map f xs = Inr ys \<Longrightarrow> length ys = length xs"
  by (induction xs arbitrary: ys) auto

lemma res_map_nth:
  "res_map f xs = Inr ys \<Longrightarrow> i < length xs \<Longrightarrow> f (xs ! i) = Inr (ys ! i)"
proof (induction xs arbitrary: ys i)
  case (Cons x xs)
  then show ?case by (cases i) auto
qed simp

lemma res_map_Inr_iff:
  "res_map f xs = Inr ys \<longleftrightarrow> list_all2 (\<lambda>x y. f x = Inr y) xs ys"
  by (induction xs arbitrary: ys) (auto simp: list_all2_Cons1)

lemma res_map_append:
  "res_map f (xs @ ys) = res_bind (res_map f xs) (\<lambda>us. res_bind (res_map f ys) (\<lambda>vs. Inr (us @ vs)))"
  by (induction xs) (auto simp: res_bind_def split: sum.splits)

lemma res_map_total: "(\<And>x. x \<in> set xs \<Longrightarrow> f x = Inr (g x)) \<Longrightarrow> res_map f xs = Inr (map g xs)"
  by (induction xs) simp_all

lemma res_fold_append:
  "res_fold f (xs @ ys) s = res_bind (res_fold f xs s) (res_fold f ys)"
  by (induction xs arbitrary: s) (auto simp: res_bind_def split: sum.splits)

subsection \<open>Three-way comparison\<close>

text \<open>Go's \<open>cmp.Compare\<close>, and \<open>bytes.Compare\<close> as its instance on byte strings.\<close>

definition go_cmp :: "'a::linorder \<Rightarrow> 'a \<Rightarrow> int" where
  "go_cmp a b = (if a < b then -1 else if b < a then 1 else 0)"

lemma go_cmp_simps [simp]:
  "go_cmp a b = 0 \<longleftrightarrow> a = b"
  "go_cmp a b = -1 \<longleftrightarrow> a < b"
  "go_cmp a b = 1 \<longleftrightarrow> b < a"
  by (auto simp: go_cmp_def)

lemma go_cmp_refl [simp]: "go_cmp a a = 0"
  by simp

subsection \<open>Lexicographic order on byte strings\<close>

lemma append_less_append [simp]: "(xs @ ys < xs @ zs) \<longleftrightarrow> (ys < zs)"
  for xs :: "'a::linorder list"
  by (induction xs) simp_all

lemma append_le_append [simp]: "(xs @ ys \<le> xs @ zs) \<longleftrightarrow> (ys \<le> zs)"
  for xs :: "'a::linorder list"
  by (induction xs) simp_all

lemma Nil_less_iff [simp]: "[] < xs \<longleftrightarrow> xs \<noteq> []" for xs :: "'a::linorder list"
  by (cases xs) simp_all

lemma go_cmp_append [simp]: "go_cmp (xs @ ys) (xs @ zs) = go_cmp ys zs"
  for xs :: "'a::linorder list"
  by (simp add: go_cmp_def)

lemma le_append_self [simp]: "xs \<le> xs @ ys" for xs :: "'a::linorder list"
  by (induction xs) simp_all

lemma same_length_append_less:
  fixes as :: "'a::linorder list"
  assumes "length as = length bs"
  shows "as @ xs < bs @ ys \<longleftrightarrow> as < bs \<or> as = bs \<and> xs < ys"
  using assms by (induction as bs rule: list_induct2) auto

lemma prefix_le: "prefix xs ys \<Longrightarrow> xs \<le> ys" for xs :: "'a::linorder list"
  by (auto simp: prefix_def)

text \<open>Two strings diverge when neither is a prefix of the other.\<close>

definition diverge :: "'a list \<Rightarrow> 'a list \<Rightarrow> bool" where
  "diverge xs ys \<longleftrightarrow> \<not> prefix xs ys \<and> \<not> prefix ys xs"

lemma diverge_Cons [simp]: "diverge (x # xs) (y # ys) \<longleftrightarrow> x \<noteq> y \<or> diverge xs ys"
  by (auto simp: diverge_def)

lemma diverge_Nil [simp]: "\<not> diverge [] ys" "\<not> diverge xs []"
  by (simp_all add: diverge_def)

lemma diverge_append_less:
  fixes as :: "'a::linorder list"
  shows "diverge as bs \<Longrightarrow> as @ xs < bs @ ys \<longleftrightarrow> as < bs"
proof (induction as arbitrary: bs)
  case (Cons a as)
  then show ?case by (cases bs) auto
qed simp

lemma diverge_append_neq: "diverge as bs \<Longrightarrow> as @ xs \<noteq> bs @ ys"
proof (induction as arbitrary: bs)
  case (Cons a as)
  then show ?case by (cases bs) auto
qed simp

lemma diverge_map_inj: "inj f \<Longrightarrow> diverge (map f as) (map f bs) \<longleftrightarrow> diverge as bs"
proof (induction as arbitrary: bs)
  case (Cons a as)
  then show ?case by (cases bs) (auto simp: inj_eq)
qed simp

lemma diverge_map_antimono:
  fixes f :: "'a::linorder \<Rightarrow> 'b::linorder"
  assumes "\<And>x y. f x < f y \<longleftrightarrow> y < x"
  shows "diverge as bs \<Longrightarrow> map f as < map f bs \<longleftrightarrow> bs < as"
proof (induction as arbitrary: bs)
  case (Cons a as)
  have inj: "f x = f y \<longleftrightarrow> x = y" for x y
    using assms by (metis linorder_less_linear order_less_irrefl)
  from Cons show ?case by (cases bs) (auto simp: assms inj)
qed simp

subsection \<open>Big-endian integers\<close>

text \<open>
  \<open>binary.BigEndian\<close>: the \<open>k\<close> bytes of a number, most significant first, and the
  number they spell.
\<close>

fun be_bytes :: "nat \<Rightarrow> nat \<Rightarrow> bytes" where
  "be_bytes 0 n = []"
| "be_bytes (Suc k) n = word_of_nat (n div 256 ^ k mod 256) # be_bytes k n"

definition be_nat :: "bytes \<Rightarrow> nat" where
  "be_nat bs = foldl (\<lambda>a b. a * 256 + unat b) 0 bs"

definition be64 :: "uint64 \<Rightarrow> bytes" where
  "be64 w = be_bytes 8 (unat w)"

definition un_be64 :: "bytes \<Rightarrow> uint64" where
  "un_be64 bs = word_of_nat (be_nat (take 8 bs))"

lemma length_be_bytes [simp]: "length (be_bytes k n) = k"
  by (induction k) simp_all

lemma length_be64 [simp]: "length (be64 w) = 8"
  by (simp add: be64_def)

lemma unat_byte_mod [simp]: "unat (word_of_nat (n mod 256) :: byte) = n mod 256"
  by (simp add: unat_of_nat)

lemma be_bytes_mod: "k \<le> j \<Longrightarrow> be_bytes k (n mod 256 ^ j) = be_bytes k n"
proof (induction k)
  case (Suc k)
  have "n mod 256 ^ j div 256 ^ k mod 256 = n div 256 ^ k mod 256"
  proof -
    obtain d where d: "j = k + Suc d" using Suc.prems by (metis add_Suc_right le_Suc_ex add_Suc)
    have "(256::nat) ^ j = 256 ^ k * 256 ^ Suc d" by (simp add: d power_add)
    then have "n mod 256 ^ j div 256 ^ k = n div 256 ^ k mod 256 ^ Suc d"
      by (simp add: mod_mult2_eq)
    then show ?thesis by (simp add: mod_mod_cancel)
  qed
  with Suc show ?case by simp
qed simp

lemma be_bytes_less:
  "n < 256 ^ k \<Longrightarrow> m < 256 ^ k \<Longrightarrow> be_bytes k n < be_bytes k m \<longleftrightarrow> n < m"
proof (induction k arbitrary: n m)
  case (Suc k)
  define a b where "a = n div 256 ^ k" and "b = m div 256 ^ k"
  define c d where "c = n mod 256 ^ k" and "d = m mod 256 ^ k"
  have n: "n = a * 256 ^ k + c" and m: "m = b * 256 ^ k + d"
    by (simp_all only: a_def b_def c_def d_def div_mult_mod_eq)
  have cd: "c < 256 ^ k" "d < 256 ^ k" by (simp_all add: c_def d_def)
  have ab: "a < 256" "b < 256"
    using Suc.prems by (simp_all add: a_def b_def less_mult_imp_div_less)
  have IH: "be_bytes k n < be_bytes k m \<longleftrightarrow> c < d"
    using Suc.IH [OF cd] be_bytes_mod [of k k n] be_bytes_mod [of k k m]
    by (simp add: c_def d_def)
  have w: "(word_of_nat a :: byte) < word_of_nat b \<longleftrightarrow> a < b"
    "(word_of_nat a :: byte) = word_of_nat b \<longleftrightarrow> a = b"
    using ab by (auto simp: word_less_nat_alt unat_of_nat word_unat_eq_iff)
  have step: "x * 256 ^ k + 256 ^ k \<le> y * 256 ^ k" if "x < y" for x y :: nat
    using mult_le_mono1 [OF Suc_leI [OF that], of "256 ^ k"] by simp
  have "n < m \<longleftrightarrow> a < b \<or> a = b \<and> c < d"
  proof (cases a b rule: linorder_cases)
    case less
    then show ?thesis using step [OF less] cd unfolding n m by linarith
  next
    case greater
    then show ?thesis using step [OF greater] cd unfolding n m by linarith
  qed (simp add: n m)
  then show ?case using IH w ab by (simp add: a_def b_def)
qed simp

lemma unat_lt_256_8: "unat (w::uint64) < 256 ^ 8"
  using unsigned_less [of w] by simp

lemma be64_less [simp, enc_simps]: "be64 v < be64 w \<longleftrightarrow> v < w"
  unfolding be64_def word_less_nat_alt by (rule be_bytes_less [OF unat_lt_256_8 unat_lt_256_8])

lemma be64_inj [simp, enc_simps]: "be64 v = be64 w \<longleftrightarrow> v = w"
  by (metis be64_less linorder_less_linear order_less_irrefl)

lemma be_nat_snoc: "be_nat (bs @ [b]) = be_nat bs * 256 + unat b"
  by (simp add: be_nat_def)

lemma foldl_be_acc: "foldl (\<lambda>a b. a * 256 + unat (b::byte)) x bs = x * 256 ^ length bs + be_nat bs"
proof (induction bs arbitrary: x)
  case (Cons b bs)
  show ?case
    using Cons [of "x * 256 + unat b"] Cons [of "unat b"] by (simp add: be_nat_def algebra_simps)
qed (simp add: be_nat_def)

lemma be_nat_Cons: "be_nat (b # bs) = unat b * 256 ^ length bs + be_nat bs"
  using foldl_be_acc [of "unat b" bs] by (simp add: be_nat_def)

lemma be_nat_be_bytes: "be_nat (be_bytes k n) = n mod 256 ^ k"
proof (induction k)
  case (Suc k)
  have "n mod 256 ^ Suc k = n div 256 ^ k mod 256 * 256 ^ k + n mod 256 ^ k"
    by (metis mod_mult2_eq mult.commute power_Suc add.commute)
  then show ?case using Suc by (simp add: be_nat_Cons)
qed (simp add: be_nat_def)

lemma un_be64_be64 [simp, enc_simps]: "un_be64 (be64 w @ rest) = w"
  using unat_lt_256_8 [of w] by (simp add: un_be64_def be64_def be_nat_be_bytes del: be_bytes.simps)

lemma un_be64_be64' [simp]: "un_be64 (be64 w) = w"
  using un_be64_be64 [of w "[]"] by simp

lemma be_nat_bound: "be_nat bs < 256 ^ length bs"
proof (induction bs)
  case (Cons b bs)
  have "Suc (unat b) \<le> 256"
    using unsigned_less [of b, where ?'a = nat] by simp
  then have "Suc (unat b) * 256 ^ length bs \<le> 256 * 256 ^ length bs"
    by (rule mult_le_mono1)
  with Cons show ?case unfolding be_nat_Cons mult_Suc length_Cons power_Suc by linarith
qed (simp add: be_nat_def)

lemma be_bytes_be_nat: "be_bytes (length bs) (be_nat bs) = bs"
proof (induction bs)
  case (Cons b bs)
  have d: "be_nat (b # bs) div 256 ^ length bs = unat b"
    using be_nat_bound [of bs] by (simp add: be_nat_Cons)
  have m: "be_nat (b # bs) mod 256 ^ length bs = be_nat bs"
    using be_nat_bound [of bs] by (simp add: be_nat_Cons)
  have "be_bytes (length bs) (be_nat (b # bs)) = bs"
    using be_bytes_mod [of "length bs" "length bs" "be_nat (b # bs)"] Cons by (simp add: m)
  moreover have "unat b mod 256 = unat b"
    using unsigned_less [of b, where ?'a = nat] by simp
  ultimately show ?case by (simp add: d)
qed (simp add: be_nat_def)

lemma be64_un_be64: "length bs = 8 \<Longrightarrow> be64 (un_be64 bs) = bs"
proof -
  assume l: "length bs = 8"
  have "be_nat bs < 2 ^ 64" using be_nat_bound [of bs] l by simp
  then have "unat (un_be64 bs) = be_nat bs" using l by (simp add: un_be64_def unat_of_nat)
  then show ?thesis using be_bytes_be_nat [of bs] l by (simp add: be64_def del: be_bytes.simps)
qed

lemma not_byte_of_nat: "d < 256 \<Longrightarrow> NOT (word_of_nat d :: byte) = word_of_nat (255 - d)"
proof -
  assume d: "d < 256"
  have "NOT (word_of_nat d :: byte) = - 1 - word_of_nat d"
    by (simp add: not_eq_complement)
  also have "\<dots> = word_of_nat 255 - word_of_nat d" by simp
  also have "\<dots> = word_of_nat (255 - d)" using d by (simp add: of_nat_diff)
  finally show ?thesis .
qed

lemma be_bytes_complement:
  "n < 256 ^ k \<Longrightarrow> be_bytes k (256 ^ k - 1 - n) = map NOT (be_bytes k n)"
proof (induction k arbitrary: n)
  case (Suc k)
  define a c where "a = n div 256 ^ k" and "c = n mod 256 ^ k"
  have n: "n = a * 256 ^ k + c" by (simp only: a_def c_def div_mult_mod_eq)
  have c: "c < 256 ^ k" by (simp add: c_def)
  have a: "a < 256" using Suc.prems by (simp add: a_def less_mult_imp_div_less)
  have eq: "256 ^ Suc k - 1 - n = (255 - a) * 256 ^ k + (256 ^ k - 1 - c)"
  proof -
    have "a * 256 ^ k + (255 - a) * 256 ^ k = 255 * 256 ^ k"
      using a by (simp flip: distrib_right)
    then show ?thesis using c unfolding n power_Suc by linarith
  qed
  have r: "256 ^ k - 1 - c < 256 ^ k" using c by linarith
  have d: "(256 ^ Suc k - 1 - n) div 256 ^ k = 255 - a"
    unfolding eq using r by (metis div_mult_self3 div_less add_0_right power_not_zero zero_neq_numeral)
  have m: "(256 ^ Suc k - 1 - n) mod 256 ^ k = 256 ^ k - 1 - c"
    unfolding eq using r by (metis mod_mult_self3 mod_less)
  have "be_bytes k (256 ^ Suc k - 1 - n) = be_bytes k (256 ^ k - 1 - c)"
    using be_bytes_mod [of k k "256 ^ Suc k - 1 - n"] m by simp
  also have "\<dots> = map NOT (be_bytes k c)" by (rule Suc.IH [OF c])
  also have "be_bytes k c = be_bytes k n" using be_bytes_mod [of k k n] by (simp add: c_def)
  finally have rest: "be_bytes k (256 ^ Suc k - 1 - n) = map NOT (be_bytes k n)" .
  have "word_of_nat ((256 ^ Suc k - 1 - n) div 256 ^ k mod 256) = NOT (word_of_nat (n div 256 ^ k mod 256) :: byte)"
    unfolding d using not_byte_of_nat [OF a] a by (simp add: a_def)
  with rest show ?case unfolding be_bytes.simps list.map by simp
qed simp

lemma unat_NOT: "unat (NOT w) = 2 ^ LENGTH('a) - 1 - unat w" for w :: "'a::len word"
  using unat_sub [of w "- 1"] minus_diff_commute [of 1 w]
  by (simp add: not_eq_complement unsigned_minus_1_eq_mask mask_eq_exp_minus_1)

lemma NOT_less_NOT [simp]: "NOT v < NOT w \<longleftrightarrow> w < v" for v w :: "'a::len word"
proof -
  have "unat v < 2 ^ LENGTH('a)" "unat w < 2 ^ LENGTH('a)" by simp_all
  then show ?thesis unfolding word_less_nat_alt unat_NOT by linarith
qed

lemma be64_NOT [enc_simps]: "be64 (NOT w) = map NOT (be64 w)"
proof -
  have "unat (NOT w) = 256 ^ 8 - 1 - unat w" by (simp add: unat_NOT)
  then show ?thesis
    using be_bytes_complement [OF unat_lt_256_8 [of w]] by (simp add: be64_def del: be_bytes.simps)
qed

lemma sint_eq_iff [simp]: "sint v = sint w \<longleftrightarrow> v = w" for v w :: "'a::len word"
  by (metis signed_word_eqI)

end
