(* ===== verification/Values.thy ===== *)
theory Values
  imports Prelude "HOL-Library.Log_Nat"
begin

text \<open>
  The Go values the engine handles. \<open>any\<close> is the dynamic value a caller passes, one
  constructor per Go type the code's type switches name; \<open>val\<close> is the canonical element
  left after normalization or coercion. A float64 is its IEEE 754 bit pattern, so
  \<open>math.Float64bits\<close> is the identity; the order of two floats is the order of the numbers
  the patterns denote.
\<close>

subsection \<open>Dynamic and canonical values\<close>

record gotime =
  t_sec :: int    \<comment> \<open>seconds since the Unix epoch\<close>
  t_nsec :: int   \<comment> \<open>nanoseconds within the second\<close>
  t_off :: int    \<comment> \<open>zone offset, seconds east of UTC\<close>

datatype any =
    ANil
  | ABool bool
  | AInt int64
  | AInt8 "8 word"
  | AInt16 "16 word"
  | AInt32 "32 word"
  | AInt64 int64
  | AUint uint64
  | AUint8 "8 word"
  | AUint16 "16 word"
  | AUint32 "32 word"
  | AUint64 uint64
  | AFloat32 "32 word"
  | AFloat64 "64 word"
  | AString string
  | ABytes bytes
  | AArr16 bytes           \<comment> \<open>a [16]byte array\<close>
  | AStrings "string list"
  | ATime gotime
  | AOther string          \<comment> \<open>any other Go type, by its name\<close>

datatype val =
    VNull
  | VBool bool
  | VInt int64
  | VFloat "64 word"
  | VBytes bytes
  | VString string

text \<open>A canonical value handed back to code that takes \<open>any\<close>.\<close>

fun any_of :: "val \<Rightarrow> any" where
  "any_of VNull = ANil"
| "any_of (VBool b) = ABool b"
| "any_of (VInt n) = AInt64 n"
| "any_of (VFloat f) = AFloat64 f"
| "any_of (VBytes b) = ABytes b"
| "any_of (VString s) = AString s"

subsection \<open>IEEE 754 doubles as bit patterns\<close>

definition f64_sign :: "64 word \<Rightarrow> bool" where
  "f64_sign b = bit b 63"

definition f64_exp :: "64 word \<Rightarrow> nat" where
  "f64_exp b = unat b div 2 ^ 52 mod 2 ^ 11"

definition f64_man :: "64 word \<Rightarrow> nat" where
  "f64_man b = unat b mod 2 ^ 52"

definition f64_is_nan :: "64 word \<Rightarrow> bool" where
  "f64_is_nan b \<longleftrightarrow> f64_exp b = 2047 \<and> f64_man b \<noteq> 0"

text \<open>
  The magnitude of a double as a multiple of \<open>2 ^ -1074\<close>, the smallest positive double:
  subnormals are their mantissa, normal numbers carry the implicit leading bit. The pattern of
  infinity gets the next power of two, which is above every finite magnitude.
\<close>

definition f64_mag :: "64 word \<Rightarrow> nat" where
  "f64_mag b = (if f64_exp b = 0 then f64_man b else (2 ^ 52 + f64_man b) * 2 ^ (f64_exp b - 1))"

definition f64_num :: "64 word \<Rightarrow> int" where
  "f64_num b = (if f64_sign b then - int (f64_mag b) else int (f64_mag b))"

definition f64_is_zero :: "64 word \<Rightarrow> bool" where
  "f64_is_zero b \<longleftrightarrow> f64_num b = 0"

text \<open>Go's \<open>cmp.Compare\<close> on two doubles that are not NaN.\<close>

definition f64_cmp :: "64 word \<Rightarrow> 64 word \<Rightarrow> int" where
  "f64_cmp a b = go_cmp (f64_num a) (f64_num b)"

text \<open>
  The conversion \<open>float64(x)\<close> of a float32: the exponent is re-biased and the mantissa padded;
  subnormal float32s become normal doubles.
\<close>

definition f32_to_f64 :: "32 word \<Rightarrow> 64 word" where
  "f32_to_f64 w =
     (let s = (if bit w 31 then 2 ^ 63 else 0);
          e = unat w div 2 ^ 23 mod 2 ^ 8;
          m = unat w mod 2 ^ 23
      in word_of_nat
           (if e = 255 then s + 2047 * 2 ^ 52 + m * 2 ^ 29
            else if e = 0 then
              (if m = 0 then s
               else let k = floorlog 2 m - 1
                    in s + (k + 874) * 2 ^ 52 + (m - 2 ^ k) * 2 ^ (52 - k))
            else s + (e + 896) * 2 ^ 52 + m * 2 ^ 29))"

text \<open>The conversion \<open>float64(n)\<close> of an int64, rounding to nearest, ties to even.\<close>

definition i64_to_f64 :: "int64 \<Rightarrow> 64 word" where
  "i64_to_f64 w =
     (let n = sint w; a = nat \<bar>n\<bar>; s = (if n < 0 then 2 ^ 63 else 0)
      in if a = 0 then 0
         else
           (let k = floorlog 2 a - 1
            in if k \<le> 52
               then word_of_nat (s + (k + 1023) * 2 ^ 52 + (a - 2 ^ k) * 2 ^ (52 - k))
               else
                 (let sh = k - 52; q = a div 2 ^ sh; r = a mod 2 ^ sh; half = 2 ^ (sh - 1);
                      q' = (if r > half \<or> (r = half \<and> odd q) then q + 1 else q)
                  in word_of_nat (s + (k + 1023) * 2 ^ 52 + (q' - 2 ^ 52)))))"

subsection \<open>Magnitudes are monotone in the low 63 bits\<close>

definition f64_low :: "64 word \<Rightarrow> nat" where
  "f64_low b = unat b mod 2 ^ 63"

lemma unat_f64: "unat (b::64 word) = (if f64_sign b then 2 ^ 63 else 0) + f64_low b"
proof -
  have "unat b div 2 ^ 63 < 2" using unsigned_less [of b, where ?'a = nat] by simp
  moreover have "bit b 63 \<longleftrightarrow> odd (unat b div 2 ^ 63)"
    using bit_unsigned_iff [where ?'a = nat, of b 63] by (simp add: bit_iff_odd [of "unat b"])
  ultimately have "unat b div 2 ^ 63 = (if bit b 63 then 1 else 0)"
    by (cases "unat b div 2 ^ 63") auto
  moreover have "unat b = unat b div 2 ^ 63 * 2 ^ 63 + unat b mod 2 ^ 63"
    by (rule div_mult_mod_eq [symmetric])
  ultimately show ?thesis by (simp add: f64_sign_def f64_low_def split: if_splits)
qed


lemma f64_low_less: "f64_low b < 2 ^ 63"
  by (simp add: f64_low_def)

lemma f64_exp_low: "f64_exp b = f64_low b div 2 ^ 52"
proof -
  have "unat b mod (2 ^ 52 * 2 ^ 11) = 2 ^ 52 * (unat b div 2 ^ 52 mod 2 ^ 11) + unat b mod 2 ^ 52"
    by (rule mod_mult2_eq)
  then have "f64_low b = 2 ^ 52 * f64_exp b + unat b mod 2 ^ 52"
    by (simp add: f64_low_def f64_exp_def)
  then show ?thesis by simp
qed

lemma f64_man_low: "f64_man b = f64_low b mod 2 ^ 52"
  by (simp add: f64_man_def f64_low_def mod_mod_cancel le_imp_power_dvd)

text \<open>The magnitude as a function of the low 63 bits.\<close>

definition mag_of :: "nat \<Rightarrow> nat" where
  "mag_of n = (if n div 2 ^ 52 = 0 then n mod 2 ^ 52
               else (2 ^ 52 + n mod 2 ^ 52) * 2 ^ (n div 2 ^ 52 - 1))"

lemma f64_mag_low: "f64_mag b = mag_of (f64_low b)"
  by (simp add: f64_mag_def mag_of_def f64_exp_low f64_man_low)

lemma mag_of_Suc: "mag_of n < mag_of (Suc n)"
proof -
  define e m where "e = n div 2 ^ 52" and "m = n mod 2 ^ 52"
  have n: "n = e * 2 ^ 52 + m" by (simp only: e_def m_def div_mult_mod_eq)
  have m: "m < 2 ^ 52" by (simp add: m_def)
  have mag: "mag_of n = (if e = 0 then m else (2 ^ 52 + m) * 2 ^ (e - 1))"
    unfolding mag_of_def e_def m_def ..
  show ?thesis
  proof (cases "Suc m < 2 ^ 52")
    case True
    then have "Suc n div 2 ^ 52 = e" and "Suc n mod 2 ^ 52 = Suc m"
      by (simp_all add: n flip: add_Suc_right)
    then show ?thesis unfolding mag by (simp add: mag_of_def [of "Suc n"])
  next
    case False
    with m have "Suc m = 2 ^ 52" by simp
    then have "Suc n = Suc e * 2 ^ 52" by (simp add: n)
    then have "Suc n div 2 ^ 52 = Suc e" and "Suc n mod 2 ^ 52 = 0" by simp_all
    moreover have "(2 ^ 52 + m) * 2 ^ (e - 1) < 2 ^ 52 * 2 ^ e" if "e \<noteq> 0"
    proof -
      have "(2::nat) ^ e = 2 * 2 ^ (e - 1)" using that by (simp flip: power_Suc)
      then show ?thesis using m by simp
    qed
    ultimately show ?thesis using m unfolding mag by (simp add: mag_of_def [of "Suc n"])
  qed
qed

lemma mag_of_less [simp]: "mag_of n < mag_of m \<longleftrightarrow> n < m"
  by (rule strict_mono_less) (simp add: strict_mono_Suc_iff mag_of_Suc)

lemma mag_of_eq [simp]: "mag_of n = mag_of m \<longleftrightarrow> n = m"
  by (metis linorder_neq_iff mag_of_less)

lemma mag_of_0 [simp]: "mag_of 0 = 0"
  by (simp add: mag_of_def)

lemma f64_is_zero_iff: "f64_is_zero b \<longleftrightarrow> f64_low b = 0"
  using mag_of_eq [of "f64_low b" 0] by (simp add: f64_is_zero_def f64_num_def f64_mag_low del: mag_of_eq)

end
