(* ===== verification/Tuple.thy ===== *)
theory Tuple
  imports Values
begin

text \<open>
  The order-preserving key encoding of \<open>src/tuple/tuple.go\<close>: type tags, escaped byte
  strings, ascending and descending elements, decoding, the reference order \<open>Compare\<close>,
  normalization and the prefix-scan bound \<open>PrefixEnd\<close>. The lemmas show that one encoded
  element is self-delimiting and ordered, that decoding inverts encoding element by element
  and over whole tuples, and that \<open>PrefixEnd\<close> bounds exactly the keys with a given prefix.
\<close>

subsection \<open>Type tags and escapes\<close>

definition tagNull :: byte where "tagNull = 0x01"
definition tagFalse :: byte where "tagFalse = 0x02"
definition tagTrue :: byte where "tagTrue = 0x03"
definition tagInt :: byte where "tagInt = 0x04"
definition tagFloat :: byte where "tagFloat = 0x05"
definition tagBytes :: byte where "tagBytes = 0x06"
definition tagString :: byte where "tagString = 0x07"

definition escByte :: byte where "escByte = 0x00"
definition escaped00 :: byte where "escaped00 = 0xFF"
definition terminator :: byte where "terminator = 0x01"

lemmas tag_defs = tagNull_def tagFalse_def tagTrue_def tagInt_def tagFloat_def tagBytes_def
  tagString_def escByte_def escaped00_def terminator_def

subsection \<open>Normalization\<close>

definition normalizeFloat :: "64 word \<Rightarrow> val res" where
  "normalizeFloat f =
     (if f64_is_nan f then Inl (Msg ''tuple: NaN is not encodable'')
      else if f64_is_zero f then Inr (VFloat 0)
      else Inr (VFloat f))"

fun normalize :: "any \<Rightarrow> val res" where
  "normalize ANil = Inr VNull"
| "normalize (ABool b) = Inr (VBool b)"
| "normalize (AInt64 n) = Inr (VInt n)"
| "normalize (AString s) = Inr (VString s)"
| "normalize (ABytes b) = Inr (VBytes b)"
| "normalize (AInt n) = Inr (VInt n)"
| "normalize (AInt8 n) = Inr (VInt (scast n))"
| "normalize (AInt16 n) = Inr (VInt (scast n))"
| "normalize (AInt32 n) = Inr (VInt (scast n))"
| "normalize (AUint n) =
     (if n > 0x7FFFFFFFFFFFFFFF then Inl (Msg ''tuple: uint value overflows int64'')
      else Inr (VInt n))"
| "normalize (AUint8 n) = Inr (VInt (ucast n))"
| "normalize (AUint16 n) = Inr (VInt (ucast n))"
| "normalize (AUint32 n) = Inr (VInt (ucast n))"
| "normalize (AUint64 n) =
     (if n > 0x7FFFFFFFFFFFFFFF then Inl (Msg ''tuple: uint64 value overflows int64'')
      else Inr (VInt n))"
| "normalize (AFloat32 f) = normalizeFloat (f32_to_f64 f)"
| "normalize (AFloat64 f) = normalizeFloat f"
| "normalize _ = Inl (Msg ''tuple: unsupported element type'')"

subsection \<open>Encoding\<close>

text \<open>\<open>1 << 63\<close>\<close>

definition topBit :: "64 word" where
  "topBit = push_bit 63 1"

lemma bit_topBit [simp]: "bit topBit n \<longleftrightarrow> n = 63"
  unfolding topBit_def bit_push_bit_iff by (auto simp: bit_1_iff)

lemma uint_topBit: "uint topBit = 2 ^ 63"
  by (simp add: topBit_def)

lemma unat_topBit: "unat topBit = 2 ^ 63"
  by (simp add: topBit_def)

lemma topBit_double: "topBit + topBit = 0"
  by (simp add: topBit_def)

fun appendEscaped :: "bytes \<Rightarrow> byte \<Rightarrow> bytes \<Rightarrow> bytes" where
  "appendEscaped buf msk [] = buf @ [escByte XOR msk, terminator XOR msk]"
| "appendEscaped buf msk (c # s) =
     (if c = escByte then appendEscaped (buf @ [escByte XOR msk, escaped00 XOR msk]) msk s
      else appendEscaped (buf @ [c XOR msk]) msk s)"

definition appendU64 :: "bytes \<Rightarrow> byte \<Rightarrow> uint64 \<Rightarrow> bytes" where
  "appendU64 buf msk u = buf @ be64 (if msk \<noteq> 0 then NOT u else u)"

fun appendValue :: "bytes \<Rightarrow> byte \<Rightarrow> val \<Rightarrow> bytes" where
  "appendValue buf msk VNull = buf @ [tagNull XOR msk]"
| "appendValue buf msk (VBool t) =
     (if t then buf @ [tagTrue XOR msk] else buf @ [tagFalse XOR msk])"
| "appendValue buf msk (VInt t) = appendU64 (buf @ [tagInt XOR msk]) msk (t XOR topBit)"
| "appendValue buf msk (VFloat t) =
     (let bits = (if t AND topBit \<noteq> 0 then NOT t else t OR topBit)
      in appendU64 (buf @ [tagFloat XOR msk]) msk bits)"
| "appendValue buf msk (VBytes t) = appendEscaped (buf @ [tagBytes XOR msk]) msk t"
| "appendValue buf msk (VString t) = appendEscaped (buf @ [tagString XOR msk]) msk (str_bytes t)"

fun appendVals :: "bytes \<Rightarrow> byte \<Rightarrow> any list \<Rightarrow> bytes res" where
  "appendVals buf msk [] = Inr buf"
| "appendVals buf msk (v # vals) =
     res_bind (normalize v) (\<lambda>n. appendVals (appendValue buf msk n) msk vals)"

definition Append :: "bytes \<Rightarrow> any list \<Rightarrow> bytes res" where
  "Append buf vals = appendVals buf 0x00 vals"

definition AppendDesc :: "bytes \<Rightarrow> any list \<Rightarrow> bytes res" where
  "AppendDesc buf vals = appendVals buf 0xFF vals"

definition Encode :: "any list \<Rightarrow> bytes res" where
  "Encode vals = Append [] vals"

subsection \<open>Decoding\<close>

text \<open>
  First pass of \<open>unescape\<close>: \<open>n\<close> logical bytes and \<open>escapes\<close> escape pairs seen so
  far, and the index of the terminator if one is found. The list argument is
  \<open>data[i:]\<close>.
\<close>

fun unescapeScan :: "byte \<Rightarrow> nat \<Rightarrow> nat \<Rightarrow> nat \<Rightarrow> bytes \<Rightarrow> (nat \<times> nat \<times> nat option) res" where
  "unescapeScan msk i n escapes [] = Inr (n, escapes, None)"
| "unescapeScan msk i n escapes [b] =
     (if b \<noteq> escByte XOR msk then Inr (n + 1, escapes, None) else Inr (n, escapes, None))"
| "unescapeScan msk i n escapes (b # c # rest) =
     (if b \<noteq> escByte XOR msk then unescapeScan msk (i + 1) (n + 1) escapes (c # rest)
      else if c XOR msk = escaped00 then unescapeScan msk (i + 2) (n + 1) (escapes + 1) rest
      else if c XOR msk = terminator then Inr (n, escapes, Some i)
      else Inl (Msg ''tuple: invalid escape sequence''))"

text \<open>Second pass: the logical bytes of \<open>body\<close>, skipping the second byte of each pair.\<close>

fun unescapeEmit :: "byte \<Rightarrow> bytes \<Rightarrow> bytes" where
  "unescapeEmit msk [] = []"
| "unescapeEmit msk (b # rest) =
     (if b XOR msk = escByte then (b XOR msk) # unescapeEmit msk (tl rest)
      else (b XOR msk) # unescapeEmit msk rest)"

text \<open>Filling a fresh \<open>make([]byte, n)\<close> from the left.\<close>

definition fillBytes :: "nat \<Rightarrow> bytes \<Rightarrow> bytes" where
  "fillBytes n bs = take n bs @ replicate (n - length bs) 0"

definition unescape :: "bytes \<Rightarrow> byte \<Rightarrow> (bytes \<times> bytes) res" where
  "unescape data msk =
     res_bind (unescapeScan msk 0 0 0 data) (\<lambda>(n, escapes, end).
       case end of
         None \<Rightarrow> Inl (Msg ''tuple: unterminated byte-string element'')
       | Some e \<Rightarrow>
           (let rest = drop (e + 2) data; body = take e data
            in if escapes = 0
               then (if msk = 0 then Inr (fillBytes n body, rest)
                     else Inr (fillBytes n (map (\<lambda>b. b XOR msk) body), rest))
               else Inr (fillBytes n (unescapeEmit msk body), rest)))"

definition decodeU64 :: "byte \<Rightarrow> bytes \<Rightarrow> uint64" where
  "decodeU64 msk b = (let u = un_be64 b in if msk \<noteq> 0 then NOT u else u)"

fun decodeOne :: "bytes \<Rightarrow> byte \<Rightarrow> (val \<times> bytes) res" where
  "decodeOne [] msk = Inl (GoPanic ''index out of range'')"
| "decodeOne (b # data) msk =
     (let tag = b XOR msk
      in if tag = tagNull then Inr (VNull, data)
         else if tag = tagFalse then Inr (VBool False, data)
         else if tag = tagTrue then Inr (VBool True, data)
         else if tag = tagInt then
           (if length data < 8 then Inl (Msg ''tuple: truncated int element'')
            else Inr (VInt (decodeU64 msk data XOR topBit), drop 8 data))
         else if tag = tagFloat then
           (if length data < 8 then Inl (Msg ''tuple: truncated float element'')
            else (let bits = decodeU64 msk data
                  in Inr (VFloat (if bits AND topBit \<noteq> 0 then bits AND NOT (topBit)
                                  else NOT bits), drop 8 data)))
         else if tag = tagBytes \<or> tag = tagString then
           res_bind (unescape data msk) (\<lambda>(raw, rest).
             if tag = tagString then Inr (VString (bytes_str raw), rest) else Inr (VBytes raw, rest))
         else Inl (Msg ''tuple: unknown type tag''))"

definition DecodeOne :: "bytes \<Rightarrow> bool \<Rightarrow> (val \<times> bytes) res" where
  "DecodeOne data desc =
     (if data = [] then Inl (Msg ''tuple: empty input'')
      else decodeOne data (if desc then 0xFF else 0))"

lemma unescape_shorter: "unescape data msk = Inr (raw, rest) \<Longrightarrow> length rest \<le> length data"
  by (auto simp: unescape_def Let_def split: option.splits if_splits)

lemma decodeOne_shorter: "decodeOne data msk = Inr (v, rest) \<Longrightarrow> length rest < length data"
  by (cases data) (auto simp: Let_def less_Suc_eq_le split: if_splits dest: unescape_shorter)

function Decode :: "bytes \<Rightarrow> val list res" where
  "Decode data =
     (if data = [] then Inr []
      else res_bind (decodeOne data 0) (\<lambda>(v, rest). res_bind (Decode rest) (\<lambda>vs. Inr (v # vs))))"
  by pat_completeness auto
termination
  by (relation "measure length") (auto dest: decodeOne_shorter)

declare Decode.simps [simp del]

subsection \<open>The reference order\<close>

fun rank :: "val \<Rightarrow> int" where
  "rank VNull = uint tagNull"
| "rank (VBool b) = (if b then uint tagTrue else uint tagFalse)"
| "rank (VInt _) = uint tagInt"
| "rank (VFloat _) = uint tagFloat"
| "rank (VBytes _) = uint tagBytes"
| "rank (VString _) = uint tagString"

text \<open>The comparison of two normalized values.\<close>

fun compareNorm :: "val \<Rightarrow> val \<Rightarrow> int" where
  "compareNorm a b =
     (if go_cmp (rank a) (rank b) \<noteq> 0 then go_cmp (rank a) (rank b)
      else (case (a, b) of
              (VInt s, VInt t) \<Rightarrow> go_cmp (sint s) (sint t)
            | (VFloat s, VFloat t) \<Rightarrow> f64_cmp s t
            | (VBytes s, VBytes t) \<Rightarrow> go_cmp s t
            | (VString s, VString t) \<Rightarrow> go_cmp (str_bytes s) (str_bytes t)
            | _ \<Rightarrow> 0))"

text \<open>\<open>if err != nil { panic(err) }\<close>.\<close>

fun orPanic :: "'a res \<Rightarrow> 'a res" where
  "orPanic (Inl (Msg m)) = Inl (GoPanic m)"
| "orPanic r = r"

definition compareValues :: "any \<Rightarrow> any \<Rightarrow> int res" where
  "compareValues av bv =
     res_bind (orPanic (normalize av)) (\<lambda>a.
       res_bind (orPanic (normalize bv)) (\<lambda>b. Inr (compareNorm a b)))"

fun Compare :: "any list \<Rightarrow> any list \<Rightarrow> int res" where
  "Compare (a # as) (b # bs) =
     res_bind (compareValues a b) (\<lambda>c. if c \<noteq> 0 then Inr c else Compare as bs)"
| "Compare as bs = Inr (go_cmp (length as) (length bs))"

subsection \<open>Prefix bounds\<close>

definition PrefixEnd :: "bytes \<Rightarrow> bytes option" where
  "PrefixEnd p =
     (case dropWhile (\<lambda>b. b = 0xFF) (rev p) of
        [] \<Rightarrow> None
      | b # bs \<Rightarrow> Some (rev ((b + 1) # bs)))"

text \<open>\<open>string(tuple.PrefixEnd(p))\<close>: Go turns the nil bound into the empty string.\<close>

definition prefixEndKey :: "bytes \<Rightarrow> key" where
  "prefixEndKey p = (case PrefixEnd p of None \<Rightarrow> [] | Some e \<Rightarrow> e)"

subsection \<open>Appending is appending\<close>

lemma appendEscaped_buf: "appendEscaped buf msk s = buf @ appendEscaped [] msk s"
proof (induction s arbitrary: buf)
  case (Cons c s)
  show ?case
    using Cons [of "buf @ [escByte XOR msk, escaped00 XOR msk]"] Cons [of "[escByte XOR msk, escaped00 XOR msk]"]
      Cons [of "buf @ [c XOR msk]"] Cons [of "[c XOR msk]"]
    by simp
qed simp

lemma appendValue_buf: "appendValue buf msk v = buf @ appendValue [] msk v"
proof (cases v)
  case (VBytes t)
  then show ?thesis using appendEscaped_buf [of "buf @ [tagBytes XOR msk]" msk t]
      appendEscaped_buf [of "[tagBytes XOR msk]" msk t] by simp
next
  case (VString t)
  then show ?thesis using appendEscaped_buf [of "buf @ [tagString XOR msk]" msk "str_bytes t"]
      appendEscaped_buf [of "[tagString XOR msk]" msk "str_bytes t"] by simp
qed (simp_all add: appendU64_def Let_def)

abbreviation encVal :: "byte \<Rightarrow> val \<Rightarrow> bytes" where
  "encVal msk v \<equiv> appendValue [] msk v"

lemma escaped_Nil: "appendEscaped [] msk [] = [escByte XOR msk, terminator XOR msk]"
  by simp

lemma escaped_Cons:
  "appendEscaped [] msk (c # s) =
     (if c = escByte then (escByte XOR msk) # (escaped00 XOR msk) # appendEscaped [] msk s
      else (c XOR msk) # appendEscaped [] msk s)"
  using appendEscaped_buf [of "[escByte XOR msk, escaped00 XOR msk]" msk s]
    appendEscaped_buf [of "[c XOR msk]" msk s]
  by simp

declare appendEscaped.simps [simp del]

lemma encVal_bytes: "encVal msk (VBytes t) = (tagBytes XOR msk) # appendEscaped [] msk t"
  using appendEscaped_buf [of "[tagBytes XOR msk]" msk t] by simp

lemma encVal_string: "encVal msk (VString t) = (tagString XOR msk) # appendEscaped [] msk (str_bytes t)"
  using appendEscaped_buf [of "[tagString XOR msk]" msk "str_bytes t"] by simp

declare appendValue.simps(5,6) [simp del]

lemmas encVal_str = encVal_bytes encVal_string

lemma appendVals_buf:
  "appendVals buf msk vals = res_bind (appendVals [] msk vals) (\<lambda>bs. Inr (buf @ bs))"
proof (induction vals arbitrary: buf)
  case (Cons v vals)
  show ?case
  proof (cases "normalize v")
    case (Inr n)
    have "appendVals (appendValue buf msk n) msk vals
        = res_bind (appendVals [] msk vals) (\<lambda>bs. Inr ((buf @ encVal msk n) @ bs))"
      using Cons [of "appendValue buf msk n"] appendValue_buf [of buf msk n] by simp
    moreover have "appendVals (encVal msk n) msk vals
        = res_bind (appendVals [] msk vals) (\<lambda>bs. Inr (encVal msk n @ bs))"
      by (rule Cons)
    ultimately show ?thesis using Inr by (auto simp: res_bind_def split: sum.splits)
  qed simp
qed simp

text \<open>An encoded tuple is the concatenation of its encoded elements.\<close>

lemma appendVals_concat:
  "appendVals buf msk vals =
     res_bind (res_map normalize vals) (\<lambda>ns. Inr (buf @ concat (map (encVal msk) ns)))"
proof (induction vals arbitrary: buf)
  case (Cons v vals)
  show ?case
  proof (cases "normalize v")
    case (Inr n)
    then show ?thesis using Cons [of "appendValue buf msk n"] appendValue_buf [of buf msk n]
      by (auto simp: res_bind_def split: sum.splits)
  qed simp
qed simp

lemma Append_concat:
  "Append buf vals = res_bind (res_map normalize vals) (\<lambda>ns. Inr (buf @ concat (map (encVal 0) ns)))"
  by (simp add: Append_def appendVals_concat)

lemma Encode_concat:
  "Encode vals = res_bind (res_map normalize vals) (\<lambda>ns. Inr (concat (map (encVal 0) ns)))"
  by (simp add: Encode_def Append_concat)

subsection \<open>Descending elements are complemented ascending ones\<close>

lemma xor_ff [simp]: "(b::byte) XOR 0xFF = NOT b"
proof -
  have "(0xFF::byte) = -1" by simp
  then show ?thesis by (simp only: bit.xor_one_right)
qed

lemma escaped_desc: "appendEscaped [] 0xFF s = map NOT (appendEscaped [] 0 s)"
  by (induction s) (simp_all add: escaped_Cons escaped_Nil)

lemma encVal_desc: "encVal 0xFF v = map NOT (encVal 0 v)"
  by (cases v)
    (simp_all add: encVal_str escaped_desc appendU64_def be64_NOT Let_def)

subsection \<open>One element: order and self-delimitation\<close>

text \<open>
  The comparison of two escaped strings, whatever follows each of them: the terminator sorts
  below every continuation.
\<close>

lemma escaped_less:
  "appendEscaped [] 0 s @ xs < appendEscaped [] 0 t @ ys \<longleftrightarrow> s < t \<or> s = t \<and> xs < ys"
proof (induction s arbitrary: t)
  case Nil
  show ?case
  proof (cases t)
    case (Cons c t')
    have "escByte < c" if "c \<noteq> escByte" using that by (simp add: escByte_def word_neq_0_conv)
    then show ?thesis by (auto simp: Cons escaped_Nil escaped_Cons escaped00_def terminator_def)
  qed (simp add: escaped_Nil)
next
  case (Cons b s)
  have pos: "\<not> c < escByte" "c \<noteq> escByte \<Longrightarrow> escByte < c" for c
    by (simp_all add: escByte_def word_neq_0_conv)
  show ?case
  proof (cases t)
    case Nil
    then show ?thesis using pos by (auto simp: escaped_Nil escaped_Cons escaped00_def terminator_def)
  next
    case t: (Cons c t')
    show ?thesis using Cons.IH [of t'] pos [of b] pos [of c]
      by (auto simp: t escaped_Cons)
  qed
qed

text \<open>Adding the top bit and flipping it are the same.\<close>

lemma and_topBit: "\<not> bit w 63 \<longleftrightarrow> w AND topBit = 0"
proof
  show "w AND topBit = 0" if "\<not> bit w 63"
    using that by (auto intro!: bit_eqI simp: bit_simps)
  show "\<not> bit w 63" if "w AND topBit = 0"
    using arg_cong [OF that, of "\<lambda>x. bit x 63"] by (simp add: bit_simps)
qed

lemma xor_topBit_disj: "w AND topBit = 0 \<Longrightarrow> w XOR topBit = w + topBit"
  by (metis disjunctive_xor_eq_or disjunctive_add_eq_or)

lemma or_topBit_disj: "w AND topBit = 0 \<Longrightarrow> w OR topBit = w + topBit"
  by (metis disjunctive_add_eq_or)

lemma xor_topBit: "w XOR topBit = w + topBit"
proof (cases "bit w 63")
  case False
  then show ?thesis by (simp add: and_topBit xor_topBit_disj)
next
  case True
  define v where "v = w XOR topBit"
  have "v AND topBit = 0"
    using True by (auto intro!: bit_eqI simp: bit_simps v_def)
  then have "v XOR topBit = v + topBit" by (rule xor_topBit_disj)
  moreover have "v XOR topBit = w" by (simp add: v_def xor.assoc)
  ultimately have "w + topBit = v + (topBit + topBit)" by simp
  then show ?thesis by (simp add: topBit_double v_def)
qed

lemma xor_topBit_inj [simp]: "v XOR topBit = w XOR topBit \<longleftrightarrow> v = w"
  by (simp add: xor_topBit)

lemma uint_xor_topBit: "uint (w XOR topBit) = sint w + 2 ^ 63"
  by (simp add: xor_topBit uint_topBit sint_uint signed_take_bit_eq_take_bit_shift
      uint_word_ariths take_bit_eq_mod)

lemma int_enc_less: "v XOR topBit < w XOR topBit \<longleftrightarrow> sint v < sint w"
  unfolding word_less_def uint_xor_topBit by simp

text \<open>The sortable form of a double, as a number.\<close>

definition floatBits :: "64 word \<Rightarrow> 64 word" where
  "floatBits t = (if t AND topBit \<noteq> 0 then NOT t else t OR topBit)"

lemma unat_floatBits:
  "unat (floatBits t) = (if f64_sign t then 2 ^ 63 - 1 - f64_low t else 2 ^ 63 + f64_low t)"
proof (cases "bit t 63")
  case True
  then show ?thesis using unat_f64 [of t] and_topBit [of t]
    by (simp add: floatBits_def f64_sign_def unat_NOT)
next
  case False
  then have "t AND topBit = 0" by (simp add: and_topBit)
  moreover have "unat (t + topBit) = 2 ^ 63 + f64_low t"
    using unat_f64 [of t] False f64_low_less [of t]
    by (simp add: unat_word_ariths unat_topBit f64_sign_def)
  ultimately show ?thesis using False
    by (simp add: floatBits_def f64_sign_def or_topBit_disj)
qed

text \<open>A float element as the encoder sees it: not NaN and not negative zero.\<close>

fun normalVal :: "val \<Rightarrow> bool" where
  "normalVal (VFloat f) \<longleftrightarrow> \<not> f64_is_nan f \<and> (f64_is_zero f \<longrightarrow> f = 0)"
| "normalVal _ \<longleftrightarrow> True"

lemma floatBits_less:
  assumes "normalVal (VFloat s)" and "normalVal (VFloat t)"
  shows "floatBits s < floatBits t \<longleftrightarrow> f64_num s < f64_num t"
proof -
  have neg0: "f64_low u \<noteq> 0" if "f64_sign u" "normalVal (VFloat u)" for u
    using that by (auto simp: f64_is_zero_iff f64_sign_def)
  have mono: "int (mag_of n) < int (mag_of m) \<longleftrightarrow> n < m" for n m by simp
  have pos: "0 < mag_of n \<longleftrightarrow> 0 < n" for n using mag_of_less [of 0 n] by (simp del: mag_of_less)
  have "f64_low s < 2 ^ 63" "f64_low t < 2 ^ 63" by (rule f64_low_less)+
  then show ?thesis
    using neg0 [of s] neg0 [of t] assms pos [of "f64_low s"] pos [of "f64_low t"]
    by (auto simp: word_less_nat_alt unat_floatBits f64_num_def f64_mag_low)
qed

lemma compareNorm_refl: "normalVal v \<Longrightarrow> compareNorm v v = 0"
  by (cases v) (auto simp: f64_cmp_def)

lemma str_bytes_inj [simp]: "str_bytes s = str_bytes t \<longleftrightarrow> s = t"
proof -
  have "(word_of_nat (of_char c) :: byte) = word_of_nat (of_char d) \<longleftrightarrow> c = d" for c d
  proof -
    have "(of_char c :: nat) < 256" "(of_char d :: nat) < 256" by simp_all
    then show ?thesis by (simp add: word_unat_eq_iff unat_of_nat)
  qed
  then have "inj (\<lambda>c. word_of_nat (of_char c) :: byte)" by (simp add: inj_def)
  then show ?thesis by (auto simp: str_bytes_def dest: map_injective)
qed

lemma bytes_str_bytes [simp]: "bytes_str (str_bytes s) = s"
proof -
  have "char_of (unat (word_of_nat (of_char c) :: byte)) = c" for c
  proof -
    have "unat (word_of_nat (of_char c) :: byte) = (of_char c :: nat)" by (simp add: unat_of_nat)
    then show ?thesis by simp
  qed
  then show ?thesis by (simp add: bytes_str_def str_bytes_def o_def)
qed

lemma str_bytes_str [simp]: "str_bytes (bytes_str bs) = bs"
proof -
  have "word_of_nat (of_char (char_of (unat b))) = b" for b :: byte
  proof -
    have "unat b mod 256 = unat b" using unsigned_less [of b, where ?'a = nat] by simp
    then show ?thesis by simp
  qed
  then show ?thesis by (simp add: bytes_str_def str_bytes_def o_def)
qed

lemma floatBits_inj: "floatBits s = floatBits t \<longleftrightarrow> s = t"
proof
  assume "floatBits s = floatBits t"
  then have eq: "unat (floatBits s) = unat (floatBits t)" by simp
  have low: "f64_low s < 2 ^ 63" "f64_low t < 2 ^ 63" by (rule f64_low_less)+
  from eq low have "f64_sign s = f64_sign t \<and> f64_low s = f64_low t"
    by (auto simp: unat_floatBits split: if_splits)
  then have "unat s = unat t" using unat_f64 [of s] unat_f64 [of t] by simp
  then show "s = t" by (simp add: word_unat_eq_iff)
qed simp

lemma f64_num_inj:
  assumes "normalVal (VFloat s)" and "normalVal (VFloat t)"
  shows "f64_num s = f64_num t \<longleftrightarrow> s = t"
  using floatBits_less [OF assms] floatBits_less [OF assms(2,1)] floatBits_inj [of s t]
  by (metis linorder_neq_iff)

lemma compareNorm_eq0:
  assumes "normalVal a" and "normalVal b"
  shows "compareNorm a b = 0 \<longleftrightarrow> a = b"
proof (cases a)
  case (VFloat s)
  note a = this
  show ?thesis
  proof (cases b)
    case (VFloat t)
    with a assms f64_num_inj [of s t] show ?thesis by (simp add: f64_cmp_def del: normalVal.simps)
  qed (simp_all add: a tag_defs)
next
  case (VInt s)
  then show ?thesis by (cases b) (simp_all add: tag_defs)
next
  case VNull
  then show ?thesis by (cases b) (simp_all add: tag_defs)
next
  case (VBool s)
  then show ?thesis by (cases b) (simp_all add: tag_defs)
next
  case (VBytes s)
  then show ?thesis by (cases b) (simp_all add: tag_defs)
next
  case (VString s)
  then show ?thesis by (cases b) (simp_all add: tag_defs)
qed

lemma encVal_float: "encVal msk (VFloat t) = appendU64 [tagFloat XOR msk] msk (floatBits t)"
  by (simp add: floatBits_def)

declare appendValue.simps(4) [simp del]

text \<open>
  The central fact: two encoded elements compare like the elements, whatever follows them.
\<close>

lemma encVal_less:
  assumes "normalVal a" and "normalVal b"
  shows "encVal 0 a @ xs < encVal 0 b @ ys \<longleftrightarrow> compareNorm a b = -1 \<or> a = b \<and> xs < ys"
proof (cases a)
  case (VInt s)
  then show ?thesis
    by (cases b) (auto simp: appendU64_def encVal_str encVal_float tag_defs same_length_append_less
        int_enc_less split: if_splits)
next
  case (VFloat s)
  note a = this
  show ?thesis
  proof (cases b)
    case (VFloat t)
    with a assms floatBits_less [of s t] show ?thesis
      by (auto simp: appendU64_def encVal_float same_length_append_less floatBits_inj f64_cmp_def
          simp del: normalVal.simps)
  qed (auto simp: a appendU64_def encVal_str encVal_float tag_defs)
next
  case (VBytes s)
  then show ?thesis
    by (cases b) (auto simp: appendU64_def encVal_str encVal_float tag_defs escaped_less split: if_splits)
next
  case (VString s)
  then show ?thesis
    by (cases b) (auto simp: appendU64_def encVal_str encVal_float tag_defs escaped_less split: if_splits)
next
  case VNull
  then show ?thesis by (cases b) (auto simp: appendU64_def encVal_str encVal_float tag_defs)
next
  case (VBool s)
  then show ?thesis by (cases b) (auto simp: appendU64_def encVal_str encVal_float tag_defs)
qed

lemma compareNorm_swap: "compareNorm b a = - compareNorm a b"
  by (cases a; cases b) (auto simp: tag_defs f64_cmp_def go_cmp_def)

text \<open>Encodings of different elements diverge: no element is a proper prefix of another.\<close>

lemma encVal_not_prefix:
  assumes "normalVal a" and "normalVal b" and "a \<noteq> b"
  shows "\<not> prefix (encVal 0 a) (encVal 0 b)"
proof
  assume "prefix (encVal 0 a) (encVal 0 b)"
  then obtain z where z: "encVal 0 b = encVal 0 a @ z" by (auto simp: prefix_def)
  have "xs < z @ ys \<longleftrightarrow> compareNorm a b = -1" for xs ys
    using encVal_less [OF assms(1,2), of xs ys] assms(3) by (simp add: z)
  from this [of "z @ []" "[]"] this [of "[]" "[0]"] show False
    by (cases z) auto
qed

lemma encVal_diverge:
  assumes "normalVal a" and "normalVal b" and "a \<noteq> b"
  shows "diverge (encVal 0 a) (encVal 0 b)"
  using encVal_not_prefix [OF assms] encVal_not_prefix [OF assms(2,1)] assms(3)
  by (auto simp: diverge_def)

lemma encVal_desc_less:
  assumes "normalVal a" and "normalVal b"
  shows "encVal 0xFF a @ xs < encVal 0xFF b @ ys \<longleftrightarrow> compareNorm a b = 1 \<or> a = b \<and> xs < ys"
proof (cases "a = b")
  case True
  with compareNorm_refl [OF assms(2)] show ?thesis by simp
next
  case False
  have div: "diverge (encVal 0 a) (encVal 0 b)" by (rule encVal_diverge [OF assms False])
  then have "diverge (encVal 0xFF a) (encVal 0xFF b)"
    unfolding encVal_desc by (simp add: diverge_map_inj inj_def)
  then have "encVal 0xFF a @ xs < encVal 0xFF b @ ys \<longleftrightarrow> encVal 0xFF a < encVal 0xFF b"
    by (rule diverge_append_less)
  also have "\<dots> \<longleftrightarrow> encVal 0 b < encVal 0 a"
    unfolding encVal_desc by (rule diverge_map_antimono [OF NOT_less_NOT div])
  also have "\<dots> \<longleftrightarrow> compareNorm b a = -1"
    using encVal_less [OF assms(2,1), of "[]" "[]"] False by simp
  also have "\<dots> \<longleftrightarrow> compareNorm a b = 1" using compareNorm_swap [of b a] by simp
  finally show ?thesis using False by simp
qed

subsection \<open>The two-pass unescape accepts exactly the escaped strings\<close>

definition escBody :: "byte \<Rightarrow> bytes \<Rightarrow> bytes" where
  "escBody msk s =
     concat (map (\<lambda>c. if c = escByte then [escByte XOR msk, escaped00 XOR msk] else [c XOR msk]) s)"

lemma escBody_simps [simp]:
  "escBody msk [] = []"
  "escBody msk (c # s) =
     (if c = escByte then (escByte XOR msk) # (escaped00 XOR msk) # escBody msk s
      else (c XOR msk) # escBody msk s)"
  by (simp_all add: escBody_def)

lemma appendEscaped_body:
  "appendEscaped [] msk s = escBody msk s @ [escByte XOR msk, terminator XOR msk]"
  by (induction s) (simp_all add: escaped_Nil escaped_Cons)

lemma xor_cancel [simp]: "a XOR m = b XOR m \<longleftrightarrow> a = b" for a b m :: "'a::len word"
  by (metis xor.assoc xor.right_neutral xor_self_eq)

lemma xor_twice [simp]: "(a XOR m) XOR m = a" for a m :: "'a::len word"
  by (simp add: xor.assoc)

lemma escaped_distinct [simp]: "escaped00 \<noteq> terminator" "terminator \<noteq> escaped00"
  by (simp_all add: tag_defs)

lemma unescapeScan_lit:
  "b \<noteq> escByte XOR msk \<Longrightarrow> unescapeScan msk i n e (b # xs) = unescapeScan msk (i + 1) (n + 1) e xs"
  by (cases xs) simp_all

lemma unescapeScan_body:
  "unescapeScan msk i n e (escBody msk s @ (escByte XOR msk) # (terminator XOR msk) # rest)
     = Inr (n + length s, e + count_list s escByte, Some (i + length (escBody msk s)))"
  by (induction s arbitrary: i n e) (simp_all add: unescapeScan_lit)

lemma unescapeScan_complete:
  "unescapeScan msk i n e data = Inr (n', e', Some j) \<Longrightarrow>
     \<exists>s rest. data = escBody msk s @ (escByte XOR msk) # (terminator XOR msk) # rest"
proof (induction msk i n e data rule: unescapeScan.induct)
  case (3 msk i n e b c rest)
  consider (lit) "b \<noteq> escByte XOR msk"
    | (esc) "b = escByte XOR msk" "c XOR msk = escaped00"
    | (fin) "b = escByte XOR msk" "c XOR msk = terminator"
    using "3.prems" by (auto split: if_splits)
  then show ?case
  proof cases
    case lit
    with "3.prems" have "unescapeScan msk (i + 1) (n + 1) e (c # rest) = Inr (n', e', Some j)" by simp
    with "3.IH"(1) [OF lit] obtain s r
      where "c # rest = escBody msk s @ (escByte XOR msk) # (terminator XOR msk) # r" by blast
    moreover have "b = (b XOR msk) XOR msk" by simp
    moreover have "b XOR msk \<noteq> escByte" using lit by (metis xor_twice)
    ultimately have "b # c # rest = escBody msk ((b XOR msk) # s) @ (escByte XOR msk) # (terminator XOR msk) # r"
      by simp
    then show ?thesis by blast
  next
    case esc
    with "3.prems" have "unescapeScan msk (i + 2) (n + 1) (e + 1) rest = Inr (n', e', Some j)" by simp
    with "3.IH"(2) esc obtain s r
      where "rest = escBody msk s @ (escByte XOR msk) # (terminator XOR msk) # r" by blast
    moreover have "c = escaped00 XOR msk" using esc(2) by (metis xor_twice)
    ultimately have "b # c # rest = escBody msk (escByte # s) @ (escByte XOR msk) # (terminator XOR msk) # r"
      using esc(1) by simp
    then show ?thesis by blast
  next
    case fin
    then have "c = terminator XOR msk" by (metis xor_twice)
    with fin have "b # c # rest = escBody msk [] @ (escByte XOR msk) # (terminator XOR msk) # rest" by simp
    then show ?thesis by blast
  qed
qed (auto split: if_splits)

lemma unescapeEmit_body: "unescapeEmit msk (escBody msk s) = s"
  by (induction s) auto

lemma escBody_plain: "count_list s escByte = 0 \<Longrightarrow> escBody msk s = map (\<lambda>c. c XOR msk) s"
  by (induction s) (auto split: if_splits)

lemma fillBytes_exact [simp]: "fillBytes (length s) s = s"
  by (simp add: fillBytes_def)

lemma unescape_escaped: "unescape (appendEscaped [] msk s @ rest) msk = Inr (s, rest)"
proof -
  let ?b = "escBody msk s"
  let ?data = "?b @ (escByte XOR msk) # (terminator XOR msk) # rest"
  have parts: "take (length ?b) ?data = ?b" "drop (length ?b + 2) ?data = rest" by simp_all
  have scan: "unescapeScan msk 0 0 0 ?data = Inr (length s, count_list s escByte, Some (length ?b))"
    using unescapeScan_body [of msk 0 0 0 s rest] by simp
  have "?b = s" if "count_list s escByte = 0" "msk = 0"
    using escBody_plain [OF that(1), of msk] that(2) by simp
  moreover have "map (\<lambda>b. b XOR msk) ?b = s" if "count_list s escByte = 0"
    using escBody_plain [OF that, of msk] by (simp add: o_def)
  ultimately have "unescape ?data msk = Inr (s, rest)"
    unfolding unescape_def scan by (simp add: unescapeEmit_body Let_def)
  then show ?thesis by (simp add: appendEscaped_body)
qed

lemma unescape_iff:
  "unescape data msk = Inr (raw, rest) \<longleftrightarrow> data = appendEscaped [] msk raw @ rest"
proof
  assume *: "unescape data msk = Inr (raw, rest)"
  then obtain n e j where "unescapeScan msk 0 0 0 data = Inr (n, e, Some j)"
    by (auto simp: unescape_def Let_def split: option.splits)
  from unescapeScan_complete [OF this] obtain s r where d: "data = appendEscaped [] msk s @ r"
    by (auto simp: appendEscaped_body)
  with * show "data = appendEscaped [] msk raw @ rest" by (simp add: unescape_escaped)
qed (simp add: unescape_escaped)

subsection \<open>Decoding inverts encoding\<close>

text \<open>The mask of a key column: ascending or descending.\<close>

definition dirMask :: "bool \<Rightarrow> byte" where
  "dirMask desc = (if desc then 0xFF else 0)"

lemma floatBits_inverse:
  "(if floatBits t AND topBit \<noteq> 0 then floatBits t AND NOT topBit else NOT (floatBits t)) = t"
proof (cases "bit t 63")
  case True
  then have "floatBits t = NOT t" using and_topBit [of t] by (simp add: floatBits_def)
  moreover have "NOT t AND topBit = 0" using True and_topBit [of "NOT t"] by (simp add: bit_simps)
  ultimately show ?thesis by simp
next
  case False
  then have fb: "floatBits t = t OR topBit" using and_topBit [of t] by (simp add: floatBits_def)
  have "(t OR topBit) AND topBit \<noteq> 0" using and_topBit [of "t OR topBit"] by (simp add: bit_simps)
  moreover have "(t OR topBit) AND NOT topBit = t"
    using False by (auto intro!: bit_eqI simp: bit_simps)
  ultimately show ?thesis by (simp add: fb)
qed

lemma floatBits_surj:
  "floatBits (if b AND topBit \<noteq> 0 then b AND NOT topBit else NOT b) = b"
proof (cases "bit b 63")
  case True
  have "(b AND NOT topBit) AND topBit = 0" using and_topBit [of "b AND NOT topBit"] by (simp add: bit_simps)
  moreover have "(b AND NOT topBit) OR topBit = b"
    using True by (auto intro!: bit_eqI simp: bit_simps)
  ultimately show ?thesis using True and_topBit [of b] by (simp add: floatBits_def)
next
  case False
  have "NOT b AND topBit \<noteq> 0" using False and_topBit [of "NOT b"] by (simp add: bit_simps)
  then show ?thesis using False and_topBit [of b] by (simp add: floatBits_def)
qed

lemma floatBits_surjs:
  "b AND topBit \<noteq> 0 \<Longrightarrow> floatBits (b AND NOT topBit) = b"
  "b AND topBit = 0 \<Longrightarrow> floatBits (NOT b) = b"
  using floatBits_surj [of b] by simp_all

lemma decodeU64_append:
  "decodeU64 msk (be64 (if msk \<noteq> 0 then NOT u else u) @ rest) = u"
  by (simp add: decodeU64_def)

lemma be64_decodeU64:
  assumes "8 \<le> length data"
  shows "be64 (if msk \<noteq> 0 then NOT (decodeU64 msk data) else decodeU64 msk data) @ drop 8 data = data"
proof -
  have "un_be64 data = un_be64 (take 8 data)" by (simp add: un_be64_def)
  then have "be64 (un_be64 data) = take 8 data" using assms be64_un_be64 [of "take 8 data"] by simp
  then show ?thesis by (simp add: decodeU64_def)
qed

lemma tag_xor_eq: "b XOR msk = t \<longleftrightarrow> b = t XOR msk" for b msk t :: byte
  by (metis xor_twice)

lemma decodeOne_encVal: "decodeOne (encVal msk v @ rest) msk = Inr (v, rest)"
proof (cases v)
  case (VFloat t)
  then show ?thesis using floatBits_inverse [of t]
    by (simp add: encVal_float appendU64_def decodeU64_append tag_defs Let_def)
qed (auto simp: appendU64_def decodeU64_append encVal_str unescape_escaped tag_defs Let_def xor.assoc)

lemma decodeOne_complete:
  assumes "decodeOne data msk = Inr (v, rest)"
  shows "data = encVal msk v @ rest"
proof (cases data)
  case Nil
  with assms show ?thesis by simp
next
  case (Cons b ds)
  have u: "be64 (if msk \<noteq> 0 then NOT (decodeU64 msk ds) else decodeU64 msk ds) @ drop 8 ds = ds"
    if "\<not> length ds < 8"
    using that by (intro be64_decodeU64) simp
  show ?thesis using assms Cons u
    by (auto simp: Let_def tag_xor_eq appendU64_def encVal_str encVal_float floatBits_surjs unescape_iff
        split: if_splits)
qed

lemma decodeOne_iff: "decodeOne data msk = Inr (v, rest) \<longleftrightarrow> data = encVal msk v @ rest"
  using decodeOne_complete decodeOne_encVal by blast

lemma encVal_nonempty [simp]: "encVal msk v \<noteq> []" "[] \<noteq> encVal msk v"
  using decodeOne_encVal [of msk v "[]"] by auto

lemma DecodeOne_iff:
  "DecodeOne data desc = Inr (v, rest) \<longleftrightarrow> data = encVal (dirMask desc) v @ rest"
  using decodeOne_iff [of data "dirMask desc" v rest]
  by (auto simp: DecodeOne_def dirMask_def)

lemma Decode_iff: "Decode data = Inr vs \<longleftrightarrow> data = concat (map (encVal 0) vs)"
proof (induction data arbitrary: vs rule: Decode.induct)
  case (1 data)
  show ?case
  proof (cases "data = []")
    case True
    then show ?thesis by (cases vs) (auto simp: Decode.simps)
  next
    case False
    show ?thesis
    proof
      assume "Decode data = Inr vs"
      with False obtain v rest ws where one: "decodeOne data 0 = Inr (v, rest)"
        and ws: "Decode rest = Inr ws" and vs: "vs = v # ws"
        by (auto simp: Decode.simps [of data])
      from iffD1 [OF "1.IH" [OF False one refl] ws] have "rest = concat (map (encVal 0) ws)" .
      with one vs show "data = concat (map (encVal 0) vs)" by (simp add: decodeOne_iff)
    next
      assume d: "data = concat (map (encVal 0) vs)"
      with False obtain v ws where vs: "vs = v # ws" by (cases vs) auto
      with d have one: "decodeOne data 0 = Inr (v, concat (map (encVal 0) ws))"
        by (simp add: decodeOne_encVal)
      from "1.IH" [OF False one refl] have "Decode (concat (map (encVal 0) ws)) = Inr ws" by simp
      with False one vs show "Decode data = Inr vs" by (simp add: Decode.simps [of data])
    qed
  qed
qed

lemma Decode_concat [simp]: "Decode (concat (map (encVal 0) vs)) = Inr vs"
  by (simp add: Decode_iff)

subsection \<open>Whole tuples\<close>

lemma normalize_normal: "normalize v = Inr n \<Longrightarrow> normalVal n"
proof -
  have nf: "normalVal n" if "normalizeFloat f = Inr n" for f
    using that by (auto simp: normalizeFloat_def f64_is_zero_def f64_is_nan_def f64_exp_def split: if_splits)
  show "normalize v = Inr n \<Longrightarrow> normalVal n"
    by (cases v) (auto split: if_splits intro: nf)
qed

lemma res_map_normalize_normal:
  "res_map normalize vs = Inr ns \<Longrightarrow> list_all normalVal ns"
  by (induction vs arbitrary: ns) (auto intro: normalize_normal)

lemma normalize_any_of: "normalVal n \<Longrightarrow> normalize (any_of n) = Inr n"
  by (cases n) (auto simp: normalizeFloat_def)

lemma res_map_normalize_any_of:
  "list_all normalVal ns \<Longrightarrow> res_map normalize (map any_of ns) = Inr ns"
  by (induction ns) (simp_all add: normalize_any_of)

text \<open>\<open>Compare\<close> on normalized tuples.\<close>

fun compareTuple :: "val list \<Rightarrow> val list \<Rightarrow> int" where
  "compareTuple (a # as) (b # bs) =
     (if compareNorm a b \<noteq> 0 then compareNorm a b else compareTuple as bs)"
| "compareTuple as bs = go_cmp (length as) (length bs)"

lemma orPanic_Inr [simp]: "orPanic (Inr x) = Inr x"
  by simp

declare compareNorm.simps [simp del]

lemma Compare_norm:
  assumes "res_map normalize as = Inr ns" and "res_map normalize bs = Inr ms"
  shows "Compare as bs = Inr (compareTuple ns ms)"
  using assms
proof (induction as bs arbitrary: ns ms rule: Compare.induct)
  case (1 a as b bs)
  then show ?case by (auto simp: compareValues_def)
qed (auto dest!: res_map_length)

lemma compareNorm_range: "compareNorm a b \<in> {-1, 0, 1}"
  by (cases a; cases b) (auto simp: go_cmp_def f64_cmp_def compareNorm.simps)

lemma concat_enc_Nil:
  "go_cmp [] (concat (map (encVal 0) ms)) = go_cmp 0 (length ms)"
  "go_cmp (concat (map (encVal 0) ms)) [] = go_cmp (length ms) 0"
  by (cases ms; auto simp: go_cmp_def order_le_less)+

lemma concat_enc_cmp:
  assumes "list_all normalVal ns" and "list_all normalVal ms"
  shows "go_cmp (concat (map (encVal 0) ns)) (concat (map (encVal 0) ms)) = compareTuple ns ms"
  using assms
proof (induction ns ms rule: compareTuple.induct)
  case (1 a as b bs)
  then have n: "normalVal a" "normalVal b" by simp_all
  let ?as = "concat (map (encVal 0) as)" and ?bs = "concat (map (encVal 0) bs)"
  have lt: "encVal 0 a @ ?as < encVal 0 b @ ?bs \<longleftrightarrow> compareNorm a b = -1 \<or> a = b \<and> ?as < ?bs"
    and gt: "encVal 0 b @ ?bs < encVal 0 a @ ?as \<longleftrightarrow> compareNorm a b = 1 \<or> a = b \<and> ?bs < ?as"
    using encVal_less [OF n] encVal_less [OF n(2,1)] compareNorm_swap [of b a] by auto
  show ?case
  proof (cases "a = b")
    case True
    with "1.IH" "1.prems" compareNorm_refl [OF n(1)] show ?thesis by simp
  next
    case False
    with compareNorm_eq0 [OF n] have "compareNorm a b \<noteq> 0" by simp
    with lt gt False compareNorm_range [of a b] show ?thesis
      by (auto simp: go_cmp_def)
  qed
qed (simp_all add: concat_enc_Nil)

text \<open>C1. The encoding preserves order: on tuples that encode, \<open>bytes.Compare\<close> of the encodings is
  \<open>Compare\<close> of the tuples.\<close>

theorem encode_order:
  assumes "Encode as = Inr ea" and "Encode bs = Inr eb"
  shows "Compare as bs = Inr (go_cmp ea eb)"
proof -
  from assms obtain ns ms where n: "res_map normalize as = Inr ns" and m: "res_map normalize bs = Inr ms"
    and ea: "ea = concat (map (encVal 0) ns)" and eb: "eb = concat (map (encVal 0) ms)"
    by (auto simp: Encode_concat)
  from Compare_norm [OF n m] concat_enc_cmp [OF res_map_normalize_normal [OF n] res_map_normalize_normal [OF m]]
  show ?thesis by (simp add: ea eb)
qed

theorem encode_order_witness:
  "Compare [AInt 0x8000000000000000, AString ''a''] [AInt64 3] = Inr (-1)"
proof -
  let ?a = "[AInt 0x8000000000000000, AString ''a'']" and ?b = "[AInt64 3]"
  obtain ea where a: "Encode ?a = Inr ea" by (simp add: Encode_concat)
  obtain eb where b: "Encode ?b = Inr eb" by (simp add: Encode_concat)
  have "be64 0 @ encVal 0 (VString ''a'') < be64 0x8000000000000003"
    using same_length_append_less [of "be64 0" "be64 0x8000000000000003" "encVal 0 (VString ''a'')" "[]"] by simp
  then have "go_cmp ea eb = -1" using a b
    by (auto simp: Encode_concat appendU64_def topBit_def)
  with encode_order [OF a b] show ?thesis by simp
qed

text \<open>C2. Decoding inverts encoding: a tuple that encodes decodes to its normalized elements, and
  nothing else decodes to them.\<close>

theorem decode_encode:
  assumes "Encode as = Inr bs"
  shows "Decode bs = res_map normalize as \<and> (\<forall>cs. Decode cs = Decode bs \<longrightarrow> cs = bs)"
proof -
  from assms obtain ns where n: "res_map normalize as = Inr ns" and bs: "bs = concat (map (encVal 0) ns)"
    by (auto simp: Encode_concat)
  then show ?thesis by (auto simp: Decode_iff)
qed

theorem decode_encode_witness:
  "\<exists>bs. Encode [ANil, AString ''x'', ABytes [0, 7]] = Inr bs \<and>
     Decode bs = Inr [VNull, VString ''x'', VBytes [0, 7]]"
proof -
  obtain bs where b: "Encode [ANil, AString ''x'', ABytes [0, 7]] = Inr bs" by (simp add: Encode_concat)
  from b decode_encode [OF b] show ?thesis by simp
qed

text \<open>C3. Whatever \<open>Decode\<close> accepts re-encodes to the same bytes, when no element is NaN or
  negative zero (which the encoder never writes).\<close>

theorem encode_decode:
  assumes "Decode bs = Inr vs" and "list_all normalVal vs"
  shows "Encode (map any_of vs) = Inr bs"
  using assms by (simp add: Decode_iff Encode_concat res_map_normalize_any_of)

theorem encode_decode_witness:
  "Decode [3, 6, 9, 0, 1] = Inr [VBool True, VBytes [9]] \<and>
   Encode [ABool True, ABytes [9]] = Inr [3, 6, 9, 0, 1]"
proof -
  have d: "Decode [3, 6, 9, 0, 1] = Inr [VBool True, VBytes [9]]"
    by (simp add: Decode_iff encVal_str escaped_Nil escaped_Cons tag_defs)
  show ?thesis using d encode_decode [OF d] by simp
qed

text \<open>C4. The two-pass \<open>unescape\<close> of one element accepts exactly the byte strings \<open>appendEscaped\<close>
  writes, in either direction, and returns the logical bytes and what follows.\<close>

theorem unescape_correct:
  "unescape data msk = Inr (raw, rest) \<longleftrightarrow> data = appendEscaped [] msk raw @ rest"
  by (rule unescape_iff)

subsection \<open>Directed elements\<close>

text \<open>
  Elements of a key that mixes directions: a descending element is encoded with the
  complementing mask.
\<close>

definition encDir :: "bool \<Rightarrow> val \<Rightarrow> bytes" where
  "encDir desc v = encVal (dirMask desc) v"

definition compareDir :: "bool \<Rightarrow> val \<Rightarrow> val \<Rightarrow> int" where
  "compareDir desc a b = (if desc then - compareNorm a b else compareNorm a b)"

lemma encDir_less:
  assumes "normalVal a" and "normalVal b"
  shows "encDir d a @ xs < encDir d b @ ys \<longleftrightarrow> compareDir d a b = -1 \<or> a = b \<and> xs < ys"
  using encVal_less [OF assms] encVal_desc_less [OF assms]
  by (auto simp: encDir_def dirMask_def compareDir_def)

lemma DecodeOne_encDir: "DecodeOne (encDir d v @ rest) d = Inr (v, rest)"
  by (simp add: encDir_def DecodeOne_iff)

lemma encDir_append_inj: "encDir d v @ xs = encDir d w @ ys \<longleftrightarrow> v = w \<and> xs = ys"
  by (metis DecodeOne_encDir prod.inject sum.inject(2))

lemma encVal_append_inj [simp]: "encVal msk v @ xs = encVal msk w @ ys \<longleftrightarrow> v = w \<and> xs = ys"
  by (metis decodeOne_encVal prod.inject sum.inject(2))

lemma encVal_concat_inj [simp]:
  "concat (map (encVal 0) vs) = concat (map (encVal 0) ws) \<longleftrightarrow> vs = ws"
  by (metis Decode_concat sum.inject(2))

subsection \<open>Prefix bounds\<close>

lemma PrefixEnd_snoc:
  "PrefixEnd (p @ [b]) = (if b = 0xFF then PrefixEnd p else Some (p @ [b + 1]))"
  by (simp add: PrefixEnd_def)

lemma byte_succ_le: "(b::byte) \<noteq> 0xFF \<Longrightarrow> c < b + 1 \<longleftrightarrow> c \<le> b"
proof -
  assume "b \<noteq> 0xFF"
  then have "1 + b \<noteq> 0" by (auto simp: add_eq_0_iff)
  from unatSuc [OF this] have "unat (b + 1) = Suc (unat b)" by (simp add: add.commute)
  then show ?thesis by (simp add: word_less_nat_alt word_le_nat_alt less_Suc_eq_le)
qed

lemma snoc_succ_bound:
  assumes "(b::byte) \<noteq> 0xFF"
  shows "p @ [b] \<le> k \<and> k < p @ [b + 1] \<longleftrightarrow> prefix (p @ [b]) k"
proof (induction p arbitrary: k)
  case Nil
  show ?case
  proof (cases k)
    case (Cons c r)
    have "b \<le> c \<and> c < b + 1 \<longleftrightarrow> b = c"
      unfolding byte_succ_le [OF assms] by (rule order_eq_iff [symmetric])
    moreover have "[b] \<le> c # r \<longleftrightarrow> b \<le> c"
      by (simp only: Cons_le_Cons Nil_le_Cons simp_thms) (simp add: order_le_less)
    moreover have "c # r < [b + 1] \<longleftrightarrow> c < b + 1" by (simp only: Cons_less_Cons not_less_Nil simp_thms)
    ultimately have "[b] \<le> c # r \<and> c # r < [b + 1] \<longleftrightarrow> b = c" by (simp only:)
    then show ?thesis by (simp only: Cons append_Nil Cons_prefix_Cons Nil_prefix simp_thms)
  qed simp
next
  case (Cons a p)
  show ?case
  proof (cases k)
    case k: (Cons c r)
    show ?thesis using Cons.IH [of r]
      unfolding k append_Cons Cons_le_Cons Cons_less_Cons Cons_prefix_Cons by auto
  qed simp
qed

lemma PrefixEnd_bound: "PrefixEnd p = Some e \<Longrightarrow> p \<le> k \<and> k < e \<longleftrightarrow> prefix p k"
proof (induction p arbitrary: e k rule: rev_induct)
  case Nil
  then show ?case by (simp add: PrefixEnd_def)
next
  case (snoc b p)
  show ?case
  proof (cases "b = 0xFF")
    case False
    with snoc.prems snoc_succ_bound [OF False, of p k] show ?thesis by (auto simp: PrefixEnd_snoc)
  next
    case True
    with snoc.prems have e: "PrefixEnd p = Some e" by (simp add: PrefixEnd_snoc)
    have top: "\<not> (0xFF::byte) < c" for c :: byte
      using unsigned_less [of c, where ?'a = nat] by (simp add: word_less_nat_alt)
    show ?thesis
    proof
      assume *: "p @ [b] \<le> k \<and> k < e"
      then have "p \<le> k" by (metis le_append_self order_trans)
      with * snoc.IH [OF e] obtain r where r: "k = p @ r" by (auto simp: prefix_def)
      with * have "[b] \<le> r" by simp
      with True top have "prefix [b] r" by (cases r) auto
      with r show "prefix (p @ [b]) k" by simp
    next
      assume *: "prefix (p @ [b]) k"
      then have "prefix p k" by (rule append_prefixD)
      with snoc.IH [OF e] prefix_le [OF *] show "p @ [b] \<le> k \<and> k < e" by blast
    qed
  qed
qed

lemma PrefixEnd_None: "PrefixEnd p = None \<longleftrightarrow> set p \<subseteq> {0xFF}"
proof (induction p rule: rev_induct)
  case Nil
  show ?case by (simp add: PrefixEnd_def)
qed (auto simp: PrefixEnd_snoc)

text \<open>C5. \<open>PrefixEnd\<close> is the exclusive bound of a prefix scan: a key lies in \<open>[p, PrefixEnd p)\<close>
  exactly when it has \<open>p\<close> as a prefix, and there is no bound exactly when every byte is 0xFF.\<close>

theorem prefix_end_exact:
  "(case PrefixEnd p of
      Some e \<Rightarrow> (\<forall>k. p \<le> k \<and> k < e \<longleftrightarrow> prefix p k)
    | None \<Rightarrow> set p \<subseteq> {0xFF} \<and> (\<forall>k. p \<le> k \<longleftrightarrow> prefix p k))"
proof (cases "PrefixEnd p")
  case None
  then have ff: "set p \<subseteq> {0xFF}" by (simp add: PrefixEnd_None)
  have top: "\<not> (0xFF::byte) < c" for c :: byte
    using unsigned_less [of c, where ?'a = nat] by (simp add: word_less_nat_alt)
  have "p \<le> k \<longleftrightarrow> prefix p k" for k
    using ff
  proof (induction p arbitrary: k)
    case (Cons a p)
    then show ?case using top by (cases k) auto
  qed simp
  with None ff show ?thesis by simp
next
  case (Some e)
  with PrefixEnd_bound [OF Some] show ?thesis by simp
qed

end
