(* ===== verification/Types.thy ===== *)
theory Types
  imports Values
begin

text \<open>
  The value syntaxes of \<open>src/types.go\<close>: UUIDs, one-dimensional text arrays, timestamps,
  dates and jsonb. What the file takes from Go's \<open>time\<close> and \<open>encoding/json\<close> packages is the
  parameter record \<open>golib\<close>. The lemmas show that formatted UUIDs and text arrays parse back
  to the value they came from, whatever bytes the elements hold, so the canonical text the
  engine stores is one spelling per value.
\<close>

subsection \<open>The library functions the code calls\<close>

text \<open>A document as \<open>encoding/json\<close> decodes it with \<open>UseNumber\<close>.\<close>

datatype json =
    JNull
  | JBool bool
  | JNumber string
  | JString string
  | JArray "json list"
  | JObject "(string \<times> json) list"

record golib =
  time_Parse :: "string \<Rightarrow> string \<Rightarrow> gotime option"   \<comment> \<open>layout, value\<close>
  json_Decode :: "string \<Rightarrow> (json \<times> string) option"   \<comment> \<open>one document and what follows it\<close>
  json_Encode :: "json \<Rightarrow> string"                       \<comment> \<open>without HTML escaping, newline at the end\<close>
  strconv_ParseFloat :: "string \<Rightarrow> 64 word option"   \<comment> \<open>to the nearest double; none on an error\<close>
  strconv_FormatFloat :: "64 word \<Rightarrow> string"         \<comment> \<open>the shortest form that parses back\<close>

subsection \<open>String helpers of the standard library\<close>

definition chr :: "nat \<Rightarrow> char" where
  "chr n = char_of n"

text \<open>\<open>strings.Trim(s, cutset)\<close> for an ASCII cutset.\<close>

definition trimSet :: "(char \<Rightarrow> bool) \<Rightarrow> string \<Rightarrow> string" where
  "trimSet P s = rev (dropWhile P (rev (dropWhile P s)))"

text \<open>The UTF-8 forms of the runes \<open>unicode.IsSpace\<close> accepts.\<close>

definition goSpaces :: "string list" where
  "goSpaces =
     [[chr 9], [chr 10], [chr 11], [chr 12], [chr 13], [chr 32],
      [chr 0xC2, chr 0x85], [chr 0xC2, chr 0xA0], [chr 0xE1, chr 0x9A, chr 0x80]]
     @ map (\<lambda>b. [chr 0xE2, chr 0x80, chr b]) ([0x80..<0x8B] @ [0xA8, 0xA9, 0xAF])
     @ [[chr 0xE2, chr 0x81, chr 0x9F], [chr 0xE3, chr 0x80, chr 0x80]]"

lemma goSpaces_nonempty: "p \<in> set goSpaces \<Longrightarrow> p \<noteq> []"
  by (auto simp: goSpaces_def)

function trimLeft :: "string \<Rightarrow> string" where
  "trimLeft s =
     (case find (\<lambda>p. prefix p s) goSpaces of
        None \<Rightarrow> s
      | Some p \<Rightarrow> trimLeft (drop (length p) s))"
  by pat_completeness auto
termination
proof (relation "measure length")
  fix s p
  assume "find (\<lambda>p. prefix p s) goSpaces = Some p"
  then have p: "prefix p s" "p \<noteq> []"
    by (auto simp: find_Some_iff goSpaces_nonempty)
  then have "length p \<le> length s" "0 < length p" by (auto simp: prefix_length_le)
  then have "length (drop (length p) s) < length s" unfolding length_drop by linarith
  then show "(drop (length p) s, s) \<in> measure length" by (simp only: in_measure)
qed simp

function trimRight :: "string \<Rightarrow> string" where
  "trimRight s =
     (case find (\<lambda>p. suffix p s) goSpaces of
        None \<Rightarrow> s
      | Some p \<Rightarrow> trimRight (take (length s - length p) s))"
  by pat_completeness auto
termination
proof (relation "measure length")
  fix s p
  assume "find (\<lambda>p. suffix p s) goSpaces = Some p"
  then have p: "suffix p s" "p \<noteq> []"
    by (auto simp: find_Some_iff goSpaces_nonempty)
  then have "length p \<le> length s" "0 < length p" by (auto simp: suffix_length_le)
  then have "length (take (length s - length p) s) < length s" unfolding length_take by linarith
  then show "(take (length s - length p) s, s) \<in> measure length" by (simp only: in_measure)
qed simp

declare trimLeft.simps [simp del] trimRight.simps [simp del]

definition TrimSpace :: "string \<Rightarrow> string" where
  "TrimSpace s = trimRight (trimLeft s)"

text \<open>
  \<open>strings.EqualFold(s, t)\<close> for an ASCII \<open>t\<close> none of whose letters has a non-ASCII fold
  (every letter but \<open>k\<close> and \<open>s\<close>).
\<close>

definition lowerAscii :: "char \<Rightarrow> char" where
  "lowerAscii c = (let n = of_char c :: nat in if 65 \<le> n \<and> n \<le> 90 then char_of (n + 32) else c)"

definition equalFoldAscii :: "string \<Rightarrow> string \<Rightarrow> bool" where
  "equalFoldAscii s t \<longleftrightarrow> map lowerAscii s = map lowerAscii t"

text \<open>\<open>strconv.FormatInt(v, 10)\<close>.\<close>

fun decDigits :: "nat \<Rightarrow> string" where
  "decDigits n = (if n < 10 then [chr (48 + n)] else decDigits (n div 10) @ [chr (48 + n mod 10)])"

declare decDigits.simps [simp del]

definition fmtInt :: "int \<Rightarrow> string" where
  "fmtInt v = (if v < 0 then CHR ''-'' # decDigits (nat (- v)) else decDigits (nat v))"

subsection \<open>Timestamps and dates\<close>

definition tsLayouts :: "string list" where
  "tsLayouts =
     [''2006-01-02 15:04:05.999999999Z07:00'',
      ''2006-01-02 15:04:05.999999999Z0700'',
      ''2006-01-02 15:04:05.999999999-07'',
      ''2006-01-02 15:04:05.999999999'',
      ''2006-01-02T15:04:05.999999999Z07:00'',
      ''2006-01-02T15:04:05.999999999Z0700'',
      ''2006-01-02T15:04:05.999999999-07'',
      ''2006-01-02T15:04:05.999999999'',
      ''2006-01-02'']"

text \<open>\<open>t.UnixMicro()\<close>\<close>

definition unixMicro :: "gotime \<Rightarrow> int64" where
  "unixMicro t = word_of_int (t_sec t * 1000000 + t_nsec t div 1000)"

text \<open>
  The day number of the date \<open>t.Date()\<close> shows in \<open>t\<close>'s own zone: midnight UTC of that date is a
  whole number of days, so \<open>time.Date(y, m, d, ..., time.UTC).Unix() / 86400\<close> is exact.
\<close>

definition dateDays :: "gotime \<Rightarrow> int64" where
  "dateDays t = word_of_int ((t_sec t + t_off t) div 86400)"

fun firstLayout :: "golib \<Rightarrow> string list \<Rightarrow> string \<Rightarrow> gotime option" where
  "firstLayout L [] s = None"
| "firstLayout L (l # ls) s =
     (case time_Parse L l s of Some t \<Rightarrow> Some t | None \<Rightarrow> firstLayout L ls s)"

definition ParseTimestamp :: "golib \<Rightarrow> string \<Rightarrow> int64 res" where
  "ParseTimestamp L s0 =
     (let s = TrimSpace s0
      in case firstLayout L tsLayouts s of
           Some t \<Rightarrow> Inr (unixMicro t)
         | None \<Rightarrow> Inl (Msg ''invalid input syntax for type timestamp''))"

definition ParseDate :: "golib \<Rightarrow> string \<Rightarrow> int64 res" where
  "ParseDate L s0 =
     (let s = TrimSpace s0
      in case time_Parse L ''2006-01-02'' s of
           Some t \<Rightarrow> Inr (dateDays t)
         | None \<Rightarrow>
             (case firstLayout L tsLayouts s of
                Some t \<Rightarrow> Inr (dateDays t)
              | None \<Rightarrow> Inl (Msg ''invalid input syntax for type date'')))"

subsection \<open>UUIDs\<close>

definition hexDigit :: "nat \<Rightarrow> char" where
  "hexDigit n = (if n < 10 then chr (48 + n) else chr (87 + n))"

definition unhexDigit :: "char \<Rightarrow> nat option" where
  "unhexDigit c =
     (let n = of_char c :: nat
      in if 48 \<le> n \<and> n \<le> 57 then Some (n - 48)
         else if 97 \<le> n \<and> n \<le> 102 then Some (n - 87)
         else if 65 \<le> n \<and> n \<le> 70 then Some (n - 55)
         else None)"

text \<open>\<open>fmt.Sprintf("%x", b)\<close> and \<open>hex.DecodeString\<close>.\<close>

definition hexString :: "bytes \<Rightarrow> string" where
  "hexString bs = concat (map (\<lambda>b. [hexDigit (unat b div 16), hexDigit (unat b mod 16)]) bs)"

fun hexDecode :: "string \<Rightarrow> bytes option" where
  "hexDecode [] = Some []"
| "hexDecode [_] = None"
| "hexDecode (a # b # s) =
     (case (unhexDigit a, unhexDigit b) of
        (Some x, Some y) \<Rightarrow> map_option (\<lambda>bs. word_of_nat (x * 16 + y) # bs) (hexDecode s)
      | _ \<Rightarrow> None)"

definition ParseUUID :: "string \<Rightarrow> bytes res" where
  "ParseUUID s0 =
     (let s = TrimSpace s0; bad = Inl (Msg ''invalid input syntax for type uuid'')
      in if length s = 36 \<and>
            (s ! 8 \<noteq> CHR ''-'' \<or> s ! 13 \<noteq> CHR ''-'' \<or> s ! 18 \<noteq> CHR ''-'' \<or> s ! 23 \<noteq> CHR ''-'')
         then bad
         else
           (let h = (if length s = 36
                     then take 8 s @ take 4 (drop 9 s) @ take 4 (drop 14 s) @ take 4 (drop 19 s)
                          @ drop 24 s
                     else s)
            in if length h \<noteq> 32 then bad
               else case hexDecode h of None \<Rightarrow> bad | Some b \<Rightarrow> Inr b))"

definition FormatUUID :: "bytes \<Rightarrow> string" where
  "FormatUUID b =
     (if length b \<noteq> 16 then chr 92 # CHR ''x'' # hexString b
      else hexString (take 4 b) @ ''-'' @ hexString (take 2 (drop 4 b)) @ ''-''
           @ hexString (take 2 (drop 6 b)) @ ''-'' @ hexString (take 2 (drop 8 b)) @ ''-''
           @ hexString (drop 10 b))"

subsection \<open>Text arrays\<close>

definition isArraySpace :: "char \<Rightarrow> bool" where
  "isArraySpace c \<longleftrightarrow> c \<in> set [CHR '' '', chr 9, chr 10, chr 13, chr 11, chr 12]"

text \<open>A quoted element, from after the opening quote: its content and the rest of the body.\<close>

fun quotedElem :: "string \<Rightarrow> (string \<times> string) option" where
  "quotedElem [] = None"
| "quotedElem [c] = (if c = CHR 0x22 then Some ([], []) else None)"
| "quotedElem (c # d # s) =
     (if c = chr 92 then map_option (\<lambda>(t, r). (d # t, r)) (quotedElem s)
      else if c = CHR 0x22 then Some ([], d # s)
      else map_option (\<lambda>(t, r). (c # t, r)) (quotedElem (d # s)))"

text \<open>An unquoted element up to the next comma; a brace or a quote in it is malformed.\<close>

fun unquotedElem :: "string \<Rightarrow> (string \<times> string) option" where
  "unquotedElem [] = Some ([], [])"
| "unquotedElem (c # s) =
     (if c = CHR '','' then Some ([], c # s)
      else if c = CHR ''{'' \<or> c = CHR ''}'' \<or> c = CHR 0x22 then None
      else map_option (\<lambda>(t, r). (c # t, r)) (unquotedElem s))"

definition malformedArray :: "string \<Rightarrow> err" where
  "malformedArray s = Msg (''malformed array literal: '' @ [CHR 0x22] @ s @ [CHR 0x22])"

text \<open>One element at the start of \<open>body\<close>, leading whitespace skipped.\<close>

definition arrayElem :: "string \<Rightarrow> string \<Rightarrow> (string option \<times> string) res" where
  "arrayElem s body0 =
     (let body = dropWhile isArraySpace body0
      in case body of
           [] \<Rightarrow> Inl (malformedArray s)
         | c # rest \<Rightarrow>
             if c = CHR ''{'' then Inl (Msg ''multidimensional arrays are not supported'')
             else if c = CHR 0x22 then
               (case quotedElem rest of
                  None \<Rightarrow> Inl (malformedArray s)
                | Some (t, r) \<Rightarrow> Inr (Some t, r))
             else
               (case unquotedElem body of
                  None \<Rightarrow> Inl (malformedArray s)
                | Some (t, r) \<Rightarrow>
                    (let tok = trimSet isArraySpace t
                     in if tok = [] then Inl (malformedArray s)
                        else if equalFoldAscii tok ''null'' then Inr (None, r)
                        else Inr (Some tok, r))))"

lemma quotedElem_shorter: "quotedElem s = Some (t, r) \<Longrightarrow> length r < length s"
  by (induction s arbitrary: t r rule: quotedElem.induct) (fastforce split: if_splits)+

lemma unquotedElem_shorter: "unquotedElem s = Some (t, r) \<Longrightarrow> length r \<le> length s"
  by (induction s arbitrary: t r) (fastforce split: if_splits)+

lemma trimSet_Nil [simp]: "trimSet P [] = []"
  by (simp add: trimSet_def)

lemma arrayElem_shorter: "arrayElem s body = Inr (e, r) \<Longrightarrow> length r \<le> length body"
proof -
  assume "arrayElem s body = Inr (e, r)"
  then have "length r \<le> length (dropWhile isArraySpace body)"
    by (cases "dropWhile isArraySpace body")
      (auto simp: arrayElem_def Let_def split: if_splits option.splits
        dest!: quotedElem_shorter unquotedElem_shorter)
  then show ?thesis by (meson length_dropWhile_le order_trans)
qed

function arrayElems :: "string \<Rightarrow> string \<Rightarrow> string option list res" where
  "arrayElems s body =
     res_bind (arrayElem s body) (\<lambda>(e, r).
       case dropWhile isArraySpace r of
         [] \<Rightarrow> Inr [e]
       | c # r' \<Rightarrow>
           if c \<noteq> CHR '','' then Inl (malformedArray s)
           else res_bind (arrayElems s r') (\<lambda>es. Inr (e # es)))"
  by pat_completeness auto
termination
proof (relation "measure (\<lambda>(s, body). length body)", goal_cases)
  case (2 s body x e r c r')
  then have "length r \<le> length body" by (auto dest: arrayElem_shorter)
  moreover have "length (c # r') \<le> length r" using 2 by (metis length_dropWhile_le)
  ultimately show ?case by simp
qed simp

declare arrayElems.simps [simp del]

definition ParseTextArray :: "string \<Rightarrow> string option list res" where
  "ParseTextArray s =
     (let t = trimSet isArraySpace s
      in if length t < 2 \<or> hd t \<noteq> CHR ''{'' \<or> last t \<noteq> CHR ''}'' then Inl (malformedArray s)
         else
           (let body = butlast (tl t)
            in if trimSet isArraySpace body = [] then Inr [] else arrayElems s body))"

definition textArrayNeedsQuotes :: "string \<Rightarrow> bool" where
  "textArrayNeedsQuotes s \<longleftrightarrow>
     s = [] \<or> equalFoldAscii s ''null'' \<or>
     list_ex (\<lambda>c. c \<in> set [CHR ''{'', CHR ''}'', CHR '','', CHR 0x22, chr 92] \<or> isArraySpace c) s"

definition escapeElem :: "string \<Rightarrow> string" where
  "escapeElem s = concat (map (\<lambda>c. if c = CHR 0x22 \<or> c = chr 92 then [chr 92, c] else [c]) s)"

definition formatElem :: "string option \<Rightarrow> string" where
  "formatElem e =
     (case e of
        None \<Rightarrow> ''NULL''
      | Some s \<Rightarrow> if \<not> textArrayNeedsQuotes s then s
                  else [CHR 0x22] @ escapeElem s @ [CHR 0x22])"

fun joinComma :: "string list \<Rightarrow> string" where
  "joinComma [] = []"
| "joinComma [x] = x"
| "joinComma (x # y # xs) = x @ [CHR '',''] @ joinComma (y # xs)"

definition FormatTextArray :: "string option list \<Rightarrow> string" where
  "FormatTextArray elems = ''{'' @ joinComma (map formatElem elems) @ ''}''"

definition CanonTextArray :: "string \<Rightarrow> string res" where
  "CanonTextArray s = res_bind (ParseTextArray s) (\<lambda>elems. Inr (FormatTextArray elems))"

subsection \<open>jsonb\<close>

text \<open>Only whitespace of the JSON grammar may follow the one document.\<close>

definition isJsonSpace :: "char \<Rightarrow> bool" where
  "isJsonSpace c \<longleftrightarrow> c \<in> set [CHR '' '', chr 9, chr 10, chr 13]"

definition trimNewline :: "string \<Rightarrow> string" where
  "trimNewline s = (if s \<noteq> [] \<and> last s = chr 10 then butlast s else s)"

definition CanonJSONB :: "golib \<Rightarrow> string \<Rightarrow> string res" where
  "CanonJSONB L s =
     (case json_Decode L s of
        None \<Rightarrow> Inl (Msg ''invalid input syntax for type json'')
      | Some (v, rest) \<Rightarrow>
          if dropWhile isJsonSpace rest \<noteq> [] then Inl (Msg ''invalid input syntax for type json'')
          else Inr (trimNewline (json_Encode L v)))"

subsection \<open>Text arrays read back\<close>

lemma quotedElem_plain:
  "t \<noteq> [] \<Longrightarrow> c \<noteq> chr 92 \<Longrightarrow> c \<noteq> CHR 0x22 \<Longrightarrow>
   quotedElem (c # t) = map_option (\<lambda>(u, r). (c # u, r)) (quotedElem t)"
  by (cases t) auto

lemma chr_quotes [simp]: "chr 92 \<noteq> CHR 0x22" "CHR 0x22 \<noteq> chr 92"
  by (auto simp: chr_def char_of_def)

lemma quotedElem_escape: "quotedElem (escapeElem s @ CHR 0x22 # r) = Some (s, r)"
proof (induction s)
  case Nil
  then show ?case by (cases r) (auto simp: escapeElem_def)
next
  case (Cons c s)
  then show ?case
    by (cases "c = CHR 0x22 \<or> c = chr 92") (auto simp: escapeElem_def quotedElem_plain)
qed

lemma unquotedElem_plain:
  "set t \<inter> {CHR '','', CHR ''{'', CHR ''}'', CHR 0x22} = {} \<Longrightarrow> r = [] \<or> hd r = CHR '','' \<Longrightarrow>
   unquotedElem (t @ r) = Some (t, r)"
  by (induction t) (cases r; auto)+

lemma trimSet_none: "\<forall>c\<in>set t. \<not> P c \<Longrightarrow> trimSet P t = t"
  unfolding trimSet_def
  by (metis dropWhile_eq_self_iff hd_in_set rev_rev_ident set_rev rev_is_Nil_conv)

lemma trimSet_ends: "\<not> P (hd t) \<Longrightarrow> \<not> P (last t) \<Longrightarrow> trimSet P t = t"
  unfolding trimSet_def
  by (metis dropWhile_eq_self_iff hd_rev rev_rev_ident)

lemma arraySpace_structural [simp]:
  "\<not> isArraySpace CHR 0x22" "\<not> isArraySpace CHR '',''" "\<not> isArraySpace CHR ''{''"
  "\<not> isArraySpace CHR ''}''" "\<not> isArraySpace CHR ''N''"
  by (auto simp: isArraySpace_def chr_def char_of_def)

lemma bareElem_chars:
  assumes "\<not> textArrayNeedsQuotes t"
  shows "t \<noteq> []" "set t \<inter> {CHR '','', CHR ''{'', CHR ''}'', CHR 0x22} = {}"
    "\<forall>c\<in>set t. \<not> isArraySpace c" "\<not> equalFoldAscii t ''null''"
  using assms by (auto simp: textArrayNeedsQuotes_def list_ex_iff)

lemma arrayElem_bare:
  assumes "t \<noteq> []" "set t \<inter> {CHR '','', CHR ''{'', CHR ''}'', CHR 0x22} = {}"
    "\<forall>c\<in>set t. \<not> isArraySpace c" "r = [] \<or> hd r = CHR '',''"
  shows "arrayElem s (t @ r) = Inr (if equalFoldAscii t ''null'' then None else Some t, r)"
proof -
  obtain c u where t: "t = c # u" using assms(1) by (cases t) auto
  have "dropWhile isArraySpace (t @ r) = t @ r" using assms(3) t by simp
  moreover have "unquotedElem (t @ r) = Some (t, r)" using assms by (intro unquotedElem_plain)
  moreover have "trimSet isArraySpace t = t" using assms(3) by (rule trimSet_none)
  ultimately show ?thesis using assms(2) t by (auto simp: arrayElem_def Let_def)
qed

lemma arrayElem_format:
  assumes "r = [] \<or> hd r = CHR '',''"
  shows "arrayElem s (formatElem e @ r) = Inr (e, r)"
proof (cases e)
  case None
  have "\<forall>c\<in>set ''NULL''. \<not> isArraySpace c" by (auto simp: isArraySpace_def chr_def char_of_def)
  moreover have "equalFoldAscii ''NULL'' ''null''"
    by code_simp
  ultimately show ?thesis
    using arrayElem_bare [of "''NULL''" r s] assms None by (simp add: formatElem_def)
next
  case (Some t)
  show ?thesis
  proof (cases "textArrayNeedsQuotes t")
    case True
    then show ?thesis using Some
      by (simp add: formatElem_def arrayElem_def Let_def quotedElem_escape)
  next
    case False
    then show ?thesis
      using Some arrayElem_bare [of t r s] bareElem_chars [of t] assms by (simp add: formatElem_def)
  qed
qed

lemma arrayElems_format:
  "es \<noteq> [] \<Longrightarrow> arrayElems s (joinComma (map formatElem es)) = Inr es"
proof (induction es rule: induct_list012)
  case (2 e)
  then show ?case using arrayElem_format [of "[]" s e]
    by (subst arrayElems.simps) simp
next
  case (3 e f es)
  then show ?case
    using arrayElem_format [of "CHR '','' # joinComma (map formatElem (f # es))" s e]
    by (subst arrayElems.simps) simp
qed simp

lemma formatElem_not_space: "\<exists>c\<in>set (formatElem e). \<not> isArraySpace c"
proof (cases "e = None \<or> (\<exists>t. e = Some t \<and> textArrayNeedsQuotes t)")
  case True
  then show ?thesis by (auto simp: formatElem_def)
next
  case False
  then obtain t where "e = Some t" "\<not> textArrayNeedsQuotes t" by auto
  then show ?thesis using bareElem_chars [of t] by (cases t) (auto simp: formatElem_def)
qed

lemma joinComma_not_space:
  assumes "es \<noteq> []"
  shows "trimSet isArraySpace (joinComma (map formatElem es)) \<noteq> []"
proof -
  obtain e fs where es: "es = e # fs" using assms by (cases es) auto
  have "set (formatElem e) \<subseteq> set (joinComma (map formatElem es))"
    using es by (cases fs) auto
  then obtain c where "c \<in> set (joinComma (map formatElem es))" "\<not> isArraySpace c"
    using formatElem_not_space [of e] by blast
  moreover have "trimSet P t = [] \<Longrightarrow> \<forall>c\<in>set t. P c" for P t
    by (metis trimSet_def dropWhile_eq_Nil_conv hd_dropWhile hd_in_set rev_is_Nil_conv set_rev)
  ultimately show ?thesis by blast
qed

lemma ParseTextArray_format: "ParseTextArray (FormatTextArray es) = Inr es"
proof -
  let ?b = "joinComma (map formatElem es)"
  have "trimSet isArraySpace (FormatTextArray es) = CHR ''{'' # ?b @ ''}''"
    by (subst trimSet_ends) (simp_all add: FormatTextArray_def)
  then have "ParseTextArray (FormatTextArray es) =
      (if trimSet isArraySpace ?b = [] then Inr [] else arrayElems (FormatTextArray es) ?b)"
    by (simp add: ParseTextArray_def Let_def butlast_append)
  then show ?thesis
    by (cases "es = []") (simp_all add: arrayElems_format joinComma_not_space)
qed

subsection \<open>UUIDs read back\<close>

lemma unhexDigit_hexDigit: "n < 16 \<Longrightarrow> unhexDigit (hexDigit n) = Some n"
  by (simp add: unhexDigit_def hexDigit_def chr_def Let_def)

lemma hexDecode_hexString: "hexDecode (hexString bs) = Some bs"
proof (induction bs)
  case (Cons b bs)
  have "unat b < 256" using unsigned_less [of b, where ?'a = nat] by simp
  then have "unhexDigit (hexDigit (unat b div 16)) = Some (unat b div 16)"
    "unhexDigit (hexDigit (unat b mod 16)) = Some (unat b mod 16)"
    by (auto intro!: unhexDigit_hexDigit)
  then show ?case using Cons by (simp add: hexString_def)
qed (simp add: hexString_def)

lemma length_hexString [simp]: "length (hexString bs) = 2 * length bs"
  by (induction bs) (auto simp: hexString_def)

lemma hexString_append: "hexString (a @ b) = hexString a @ hexString b"
  by (simp add: hexString_def)

lemma hexDecode_length: "hexDecode s = Some b \<Longrightarrow> length s = 2 * length b"
  by (induction s arbitrary: b rule: hexDecode.induct) (auto split: option.splits)

lemma goSpaces_codes:
  "p \<in> set goSpaces \<Longrightarrow> c \<in> set p \<Longrightarrow> (of_char c :: nat) \<le> 32 \<or> 128 \<le> (of_char c :: nat)"
  by (auto simp: goSpaces_def chr_def)

lemma hexDigit_not_space:
  assumes "n < 16" "p \<in> set goSpaces"
  shows "hexDigit n \<notin> set p"
proof -
  have "32 < (of_char (hexDigit n) :: nat)" "(of_char (hexDigit n) :: nat) < 128"
    using assms(1) by (auto simp: hexDigit_def chr_def)
  then show ?thesis using goSpaces_codes [OF assms(2)] by fastforce
qed

lemma hexString_chars: "c \<in> set (hexString bs) \<Longrightarrow> \<exists>n<16. c = hexDigit n"
proof (induction bs)
  case (Cons b bs)
  have "unat b < 256" using unsigned_less [of b, where ?'a = nat] by simp
  then have "unat b div 16 < 16" "unat b mod 16 < 16" by auto
  moreover from Cons.prems consider "c = hexDigit (unat b div 16)" | "c = hexDigit (unat b mod 16)"
    | "c \<in> set (hexString bs)" by (auto simp: hexString_def)
  ultimately show ?case using Cons.IH by cases blast+
qed (simp add: hexString_def)

lemma TrimSpace_id:
  assumes "\<And>p. p \<in> set goSpaces \<Longrightarrow> hd s \<notin> set p \<and> last s \<notin> set p"
  shows "TrimSpace s = s"
proof -
  have "\<not> prefix p s \<and> \<not> suffix p s" if "p \<in> set goSpaces" for p
    using assms [OF that] goSpaces_nonempty [OF that]
    by (metis hd_append2 hd_in_set last_appendR last_in_set prefix_def suffix_def)
  then have "find (\<lambda>p. prefix p s) goSpaces = None" "find (\<lambda>p. suffix p s) goSpaces = None"
    by (auto simp: find_None_iff)
  then show ?thesis by (simp add: TrimSpace_def trimLeft.simps trimRight.simps)
qed

lemma hexString_ends:
  assumes "bs \<noteq> []" "p \<in> set goSpaces"
  shows "hd (hexString bs @ t) \<notin> set p" "last (t @ hexString bs) \<notin> set p"
proof -
  have ne: "hexString bs \<noteq> []" using assms(1) length_hexString [of bs] by (metis length_0_conv mult_is_0 zero_neq_numeral)
  then have "hd (hexString bs) \<in> set (hexString bs)" "last (hexString bs) \<in> set (hexString bs)" by auto
  then show "hd (hexString bs @ t) \<notin> set p" "last (t @ hexString bs) \<notin> set p"
    using hexDigit_not_space [OF _ assms(2)] hexString_chars ne by (metis hd_append2 last_appendR)+
qed

lemma take_drop_join: "take n (drop m b) @ drop (m + n) b = drop m b"
  by (metis add.commute append_take_drop_id drop_drop)

lemma ParseUUID_FormatUUID:
  assumes "length b = 16"
  shows "ParseUUID (FormatUUID b) = Inr b"
proof -
  let ?h = "\<lambda>i n. hexString (take n (drop i b))"
  define s where "s = FormatUUID b"
  have s: "s = ?h 0 4 @ ''-'' @ ?h 4 2 @ ''-'' @ ?h 6 2 @ ''-'' @ ?h 8 2 @ ''-'' @ hexString (drop 10 b)"
    using assms by (simp add: s_def FormatUUID_def)
  have "take 4 b \<noteq> []" "drop 10 b \<noteq> []" using assms by auto
  then have "hd s \<notin> set p \<and> last s \<notin> set p" if "p \<in> set goSpaces" for p
    unfolding s using hexString_ends [OF _ that] by (metis append_assoc drop0)
  then have t: "TrimSpace s = s" by (rule TrimSpace_id)
  have n: "length s = 36" using assms by (simp add: s)
  have d: "s ! 8 = CHR ''-''" "s ! 13 = CHR ''-''" "s ! 18 = CHR ''-''" "s ! 23 = CHR ''-''"
    using assms by (simp_all add: s nth_append)
  have "b = take 4 b @ take 2 (drop 4 b) @ take 2 (drop 6 b) @ take 2 (drop 8 b) @ drop 10 b"
    using take_drop_join [of 2 8 b] take_drop_join [of 2 6 b] take_drop_join [of 2 4 b] by simp
  then have "take 8 s @ take 4 (drop 9 s) @ take 4 (drop 14 s) @ take 4 (drop 19 s) @ drop 24 s
      = hexString b"
    using assms by (simp add: s hexString_append [symmetric])
  then show ?thesis
    using n d assms unfolding s_def [symmetric] by (simp add: ParseUUID_def t Let_def hexDecode_hexString)
qed

subsection \<open>Properties\<close>

text \<open>C6. Canonical text arrays: every list of elements, whatever bytes and NULLs it holds, is
  read back from its rendering; canonical text is a fixed point of \<open>CanonTextArray\<close> that denotes
  the same elements; and two literals have equal canonical text exactly when they denote the same
  elements, so string equality on a text[] column is element-wise equality.\<close>

theorem canon_text_array:
  assumes "CanonTextArray s = Inr c" "CanonTextArray t = Inr d"
  shows "ParseTextArray (FormatTextArray es) = Inr es \<and> CanonTextArray c = Inr c \<and>
    ParseTextArray c = ParseTextArray s \<and> (c = d \<longleftrightarrow> ParseTextArray s = ParseTextArray t)"
proof -
  obtain u v where u: "ParseTextArray s = Inr u" "c = FormatTextArray u"
    and v: "ParseTextArray t = Inr v" "d = FormatTextArray v"
    using assms by (auto simp: CanonTextArray_def)
  have "c = d \<longleftrightarrow> ParseTextArray s = ParseTextArray t"
    using u v ParseTextArray_format by (metis sum.inject(2))
  then show ?thesis using u by (simp add: CanonTextArray_def ParseTextArray_format)
qed

theorem canon_text_array_witness:
  "CanonTextArray ''{ a, null,b}'' = Inr ''{a,NULL,b}'' \<and>
   CanonTextArray ''{a,NULL,b}'' = Inr ''{a,NULL,b}''"
proof -
  have "CanonTextArray ''{ a, null,b}'' = Inr ''{a,NULL,b}''" by code_simp
  with canon_text_array [OF this this] show ?thesis by simp
qed

text \<open>UUIDs: the dashed rendering of sixteen bytes parses back to those bytes, and every
  accepted UUID text denotes exactly sixteen bytes.\<close>

lemma uuid_roundtrip:
  "(length b = 16 \<longrightarrow> ParseUUID (FormatUUID b) = Inr b) \<and>
   (ParseUUID s = Inr b' \<longrightarrow> length b' = 16 \<and> ParseUUID (FormatUUID b') = Inr b')"
proof -
  have "length b' = 16" if "ParseUUID s = Inr b'"
    using that by (auto simp: ParseUUID_def Let_def split: if_splits option.splits dest!: hexDecode_length)
  then show ?thesis by (simp add: ParseUUID_FormatUUID)
qed

end
