(* ===== verification/Kv.thy ===== *)
theory Kv
  imports Prelude
begin

text \<open>
  The key-value store the engine runs on. btypedb is a separate module, so its transactions are a
  parameter of the model: a record of the operations the engine calls, on a state type of their
  own. What the engine relies on is the locale \<open>kv_tx\<close>: a transaction's content is a finite map
  from keys to byte strings, reads see it, writes update it or fail without effect, and iteration
  is in key order. \<open>kv_tracking\<close> adds the read set of a serializable transaction, \<open>kv_db\<close> the
  store a transaction starts from and commits to. The sorted association list at the end is an
  implementation of the whole contract.

  Stateful code is a function from a state to a result and the state left behind, so a failing
  operation shows what it had already changed.
\<close>

subsection \<open>Actions on a state\<close>

type_synonym ('s, 'a) act = "'s \<Rightarrow> 'a res \<times> 's"

definition act_return :: "'a \<Rightarrow> ('s, 'a) act" where
  "act_return x s = (Inr x, s)"

definition act_fail :: "err \<Rightarrow> ('s, 'a) act" where
  "act_fail e s = (Inl e, s)"

definition act_lift :: "'a res \<Rightarrow> ('s, 'a) act" where
  "act_lift r s = (r, s)"

definition act_get :: "('s \<Rightarrow> 'a) \<Rightarrow> ('s, 'a) act" where
  "act_get f s = (Inr (f s), s)"

definition act_modify :: "('s \<Rightarrow> 's) \<Rightarrow> ('s, unit) act" where
  "act_modify f s = (Inr (), f s)"

definition act_bind :: "('s, 'a) act \<Rightarrow> ('a \<Rightarrow> ('s, 'b) act) \<Rightarrow> ('s, 'b) act" where
  "act_bind m f s = (case m s of (Inl e, s') \<Rightarrow> (Inl e, s') | (Inr x, s') \<Rightarrow> f x s')"

lemma act_simps [simp, res_simps]:
  "act_return x s = (Inr x, s)" "act_fail e s = (Inl e, s)" "act_lift r s = (r, s)"
  "act_get f s = (Inr (f s), s)" "act_modify g s = (Inr (), g s)"
  by (simp_all add: act_return_def act_fail_def act_lift_def act_get_def act_modify_def)

lemma act_bind_simps [simp, res_simps]:
  "m s = (Inl e, s') \<Longrightarrow> act_bind m f s = (Inl e, s')"
  "m s = (Inr x, s') \<Longrightarrow> act_bind m f s = f x s'"
  by (simp_all add: act_bind_def)

lemma act_bind_Inr:
  "act_bind m f s = (Inr y, s'') \<longleftrightarrow> (\<exists>x s'. m s = (Inr x, s') \<and> f x s' = (Inr y, s''))"
  by (auto simp: act_bind_def split: prod.splits sum.splits)

lemma act_bind_Inl:
  "act_bind m f s = (Inl e, s'') \<longleftrightarrow>
     m s = (Inl e, s'') \<or> (\<exists>x s'. m s = (Inr x, s') \<and> f x s' = (Inl e, s''))"
  by (auto simp: act_bind_def split: prod.splits sum.splits)

lemma act_bind_cases:
  assumes "act_bind m f s = (r, s'')"
  obtains (err) e where "m s = (Inl e, s'')" "r = Inl e"
    | (ok) x s' where "m s = (Inr x, s')" "f x s' = (r, s'')"
  using assms by (cases "m s"; cases "fst (m s)") (auto simp: act_bind_def)

lemma act_bind_lift [simp]:
  "act_bind (act_lift r) f s = (case r of Inl e \<Rightarrow> (Inl e, s) | Inr x \<Rightarrow> f x s)"
  by (cases r) (simp_all add: act_bind_def)

fun act_iter :: "('a \<Rightarrow> ('s, unit) act) \<Rightarrow> 'a list \<Rightarrow> ('s, unit) act" where
  "act_iter f [] s = (Inr (), s)"
| "act_iter f (x # xs) s = act_bind (f x) (\<lambda>_. act_iter f xs) s"

text \<open>An action that leaves every successor state in a set it started in.\<close>

definition act_keeps :: "('s \<Rightarrow> bool) \<Rightarrow> ('s, 'a) act \<Rightarrow> bool" where
  "act_keeps P m \<longleftrightarrow> (\<forall>s r s'. P s \<longrightarrow> m s = (r, s') \<longrightarrow> P s')"

lemma act_keepsD: "act_keeps P m \<Longrightarrow> P s \<Longrightarrow> m s = (r, s') \<Longrightarrow> P s'"
  by (auto simp: act_keeps_def)

lemma act_keeps_bind [intro]:
  "act_keeps P m \<Longrightarrow> (\<And>x. act_keeps P (f x)) \<Longrightarrow> act_keeps P (act_bind m f)"
  unfolding act_keeps_def by (metis act_bind_cases)

lemma act_keeps_pure [intro!, simp]:
  "act_keeps P (act_return x)" "act_keeps P (act_fail e)" "act_keeps P (act_lift r)"
  "act_keeps P (act_get f)"
  by (auto simp: act_keeps_def)

lemma act_keeps_iter [intro]:
  "(\<And>x. x \<in> set xs \<Longrightarrow> act_keeps P (f x)) \<Longrightarrow> act_keeps P (act_iter f xs)"
proof (induction xs)
  case (Cons x xs)
  then have "act_keeps P (act_bind (f x) (\<lambda>_. act_iter f xs))" by auto
  then show ?case by (simp add: act_keeps_def)
qed (auto simp: act_keeps_def)

subsection \<open>Transactions\<close>

record 'tx kvops =
  kv_Get :: "key \<Rightarrow> 'tx \<Rightarrow> bytes option"
  kv_Contains :: "key \<Rightarrow> 'tx \<Rightarrow> bool"
  kv_Ascend :: "key \<Rightarrow> 'tx \<Rightarrow> (key \<times> bytes) list"
  kv_Descend :: "key \<Rightarrow> 'tx \<Rightarrow> (key \<times> bytes) list"
  kv_Set :: "key \<Rightarrow> bytes \<Rightarrow> ('tx, unit) act"
  kv_Delete :: "key \<Rightarrow> ('tx, bool) act"
  kv_DeleteRange :: "key \<Rightarrow> key \<Rightarrow> ('tx, nat) act"
  kv_MarkRead :: "key \<Rightarrow> 'tx \<Rightarrow> 'tx"
  kv_MarkReadRange :: "key \<Rightarrow> key \<Rightarrow> 'tx \<Rightarrow> 'tx"
  kv_MarkExclusive :: "'tx \<Rightarrow> 'tx"
  kv_TrackReads :: "'tx \<Rightarrow> 'tx"
  kv_Writable :: "'tx \<Rightarrow> bool"
  kv_Savepoint :: "('tx, nat) act"
  kv_RollbackTo :: "nat \<Rightarrow> ('tx, unit) act"
  kv_Release :: "nat \<Rightarrow> ('tx, unit) act"

locale kv_tx =
  fixes K :: "'tx kvops"
    and wf :: "'tx \<Rightarrow> bool"
    and content :: "'tx \<Rightarrow> key \<Rightarrow> bytes option"
  assumes Get: "wf t \<Longrightarrow> kv_Get K k t = content t k"
    and Contains: "wf t \<Longrightarrow> kv_Contains K k t \<longleftrightarrow> content t k \<noteq> None"
    and Ascend_sorted: "wf t \<Longrightarrow> sorted_wrt (<) (map fst (kv_Ascend K k t))"
    and Ascend_set: "wf t \<Longrightarrow> set (kv_Ascend K k t) = {(k', v). k \<le> k' \<and> content t k' = Some v}"
    and Descend_sorted: "wf t \<Longrightarrow> sorted_wrt (>) (map fst (kv_Descend K k t))"
    and Descend_set: "wf t \<Longrightarrow> set (kv_Descend K k t) = {(k', v). k' \<le> k \<and> content t k' = Some v}"
    and Set: "wf t \<Longrightarrow> kv_Set K k v t = (r, t') \<Longrightarrow>
      wf t' \<and> content t' = (if r = Inr () then (content t)(k \<mapsto> v) else content t)"
    and Delete: "wf t \<Longrightarrow> kv_Delete K k t = (b, t') \<Longrightarrow>
      wf t' \<and> (b = Inr (content t k \<noteq> None) \<and> content t' = (content t)(k := None) \<or>
               (\<exists>e. b = Inl e) \<and> content t' = content t)"
    and DeleteRange: "wf t \<Longrightarrow> kv_DeleteRange K lo hi t = (n, t') \<Longrightarrow>
      wf t' \<and> ((\<exists>m. n = Inr m) \<and>
                content t' = (\<lambda>k. if lo \<le> k \<and> k < hi then None else content t k) \<or>
               (\<exists>e. n = Inl e) \<and> content t' = content t)"
    and MarkRead: "wf t \<Longrightarrow> wf (kv_MarkRead K k t) \<and> content (kv_MarkRead K k t) = content t"
    and MarkReadRange: "wf t \<Longrightarrow>
      wf (kv_MarkReadRange K lo hi t) \<and> content (kv_MarkReadRange K lo hi t) = content t"
    and MarkExclusive: "wf t \<Longrightarrow> wf (kv_MarkExclusive K t) \<and> content (kv_MarkExclusive K t) = content t"
    and TrackReads: "wf t \<Longrightarrow> wf (kv_TrackReads K t) \<and> content (kv_TrackReads K t) = content t"
begin

lemmas mark_simps [simp] = MarkRead [THEN conjunct1] MarkRead [THEN conjunct2]
  MarkReadRange [THEN conjunct1] MarkReadRange [THEN conjunct2]
  MarkExclusive [THEN conjunct1] MarkExclusive [THEN conjunct2]
  TrackReads [THEN conjunct1] TrackReads [THEN conjunct2]

lemma Set_ok: "wf t \<Longrightarrow> kv_Set K k v t = (Inr u, t') \<Longrightarrow> wf t' \<and> content t' = (content t)(k \<mapsto> v)"
  using Set by fastforce

lemma Set_err: "wf t \<Longrightarrow> kv_Set K k v t = (Inl e, t') \<Longrightarrow> wf t' \<and> content t' = content t"
  using Set by fastforce

lemma Delete_ok:
  "wf t \<Longrightarrow> kv_Delete K k t = (Inr b, t') \<Longrightarrow>
   wf t' \<and> b = (content t k \<noteq> None) \<and> content t' = (content t)(k := None)"
  using Delete by fastforce

lemma Delete_err: "wf t \<Longrightarrow> kv_Delete K k t = (Inl e, t') \<Longrightarrow> wf t' \<and> content t' = content t"
  using Delete by fastforce

lemma DeleteRange_ok:
  "wf t \<Longrightarrow> kv_DeleteRange K lo hi t = (Inr b, t') \<Longrightarrow>
   wf t' \<and> content t' = (\<lambda>k. if lo \<le> k \<and> k < hi then None else content t k)"
  using DeleteRange by fastforce

lemma DeleteRange_err:
  "wf t \<Longrightarrow> kv_DeleteRange K lo hi t = (Inl e, t') \<Longrightarrow> wf t' \<and> content t' = content t"
  using DeleteRange by fastforce

text \<open>Iteration up to an exclusive bound yields the content of the interval, in key order.\<close>

lemma takeWhile_sorted:
  "sorted_wrt (<) (map fst xs) \<Longrightarrow>
   takeWhile (\<lambda>x. fst x < hi) xs = filter (\<lambda>x. fst x < (hi::key)) xs"
proof (induction xs)
  case (Cons x xs)
  show ?case
  proof (cases "fst x < hi")
    case True
    then show ?thesis using Cons by simp
  next
    case False
    have "\<forall>y\<in>set xs. fst x < fst y" using Cons.prems by simp
    with False have "\<forall>y\<in>set xs. \<not> fst y < hi" by (meson order.strict_trans)
    then show ?thesis using False by (simp add: filter_empty_conv)
  qed
qed simp

lemma Ascend_interval:
  assumes "wf t"
  shows "sorted_wrt (<) (map fst (takeWhile (\<lambda>x. fst x < hi) (kv_Ascend K lo t)))"
    "set (takeWhile (\<lambda>x. fst x < hi) (kv_Ascend K lo t)) =
       {(k, v). lo \<le> k \<and> k < hi \<and> content t k = Some v}"
proof -
  have *: "takeWhile (\<lambda>x. fst x < hi) (kv_Ascend K lo t)
      = filter (\<lambda>x. fst x < hi) (kv_Ascend K lo t)"
    by (rule takeWhile_sorted) (rule Ascend_sorted [OF assms])
  show "sorted_wrt (<) (map fst (takeWhile (\<lambda>x. fst x < hi) (kv_Ascend K lo t)))"
    unfolding * using Ascend_sorted [OF assms, of lo] by (simp add: sorted_wrt_map sorted_wrt_filter)
  show "set (takeWhile (\<lambda>x. fst x < hi) (kv_Ascend K lo t)) =
       {(k, v). lo \<le> k \<and> k < hi \<and> content t k = Some v}"
    unfolding * by (auto simp: Ascend_set [OF assms])
qed

end

text \<open>
  A writable transaction accepts every write, a read-only one refuses it and is unchanged. Marking
  reads does not change which of the two a transaction is.
\<close>

locale kv_rw = kv_tx K wf content
  for K :: "'tx kvops" and wf and content +
  assumes rw_Set: "wf t \<Longrightarrow> kv_Writable K t \<Longrightarrow> \<exists>t'. kv_Set K k v t = (Inr (), t') \<and> kv_Writable K t'"
    and rw_Delete: "wf t \<Longrightarrow> kv_Writable K t \<Longrightarrow> \<exists>b t'. kv_Delete K k t = (Inr b, t') \<and> kv_Writable K t'"
    and rw_DeleteRange: "wf t \<Longrightarrow> kv_Writable K t \<Longrightarrow>
      \<exists>n t'. kv_DeleteRange K lo hi t = (Inr n, t') \<and> kv_Writable K t'"
    and ro_Set: "wf t \<Longrightarrow> \<not> kv_Writable K t \<Longrightarrow> kv_Set K k v t = (Inl ErrTxNotWritable, t)"
    and ro_Delete: "wf t \<Longrightarrow> \<not> kv_Writable K t \<Longrightarrow> kv_Delete K k t = (Inl ErrTxNotWritable, t)"
    and ro_DeleteRange: "wf t \<Longrightarrow> \<not> kv_Writable K t \<Longrightarrow>
      kv_DeleteRange K lo hi t = (Inl ErrTxNotWritable, t)"
    and rw_Mark: "wf t \<Longrightarrow> kv_Writable K (kv_MarkRead K k t) = kv_Writable K t \<and>
      kv_Writable K (kv_MarkReadRange K lo hi t) = kv_Writable K t"
    and rw_Mode: "wf t \<Longrightarrow> kv_Writable K (kv_MarkExclusive K t) = kv_Writable K t \<and>
      kv_Writable K (kv_TrackReads K t) = kv_Writable K t"
begin

lemmas rw_mark_simps [simp] = rw_Mark [THEN conjunct1] rw_Mark [THEN conjunct2]
  rw_Mode [THEN conjunct1] rw_Mode [THEN conjunct2]

lemma put:
  assumes "wf t" "kv_Writable K t"
  obtains t' where "kv_Set K k v t = (Inr (), t')" "wf t'" "kv_Writable K t'" "content t' = (content t)(k \<mapsto> v)"
proof -
  obtain t' where "kv_Set K k v t = (Inr (), t')" "kv_Writable K t'" using rw_Set [OF assms] by blast
  then show thesis using Set_ok [OF assms(1), of k v "()" t'] that [of t'] by simp
qed

lemma del:
  assumes "wf t" "kv_Writable K t"
  obtains t' where "kv_Delete K k t = (Inr (content t k \<noteq> None), t')" "wf t'" "kv_Writable K t'"
    "content t' = (content t)(k := None)"
proof -
  obtain b t' where "kv_Delete K k t = (Inr b, t')" "kv_Writable K t'" using rw_Delete [OF assms] by blast
  then show thesis using Delete_ok [OF assms(1), of k b t'] that [of t'] by simp
qed

lemma delRange:
  assumes "wf t" "kv_Writable K t"
  obtains n t' where "kv_DeleteRange K lo hi t = (Inr n, t')" "wf t'" "kv_Writable K t'"
    "content t' = (\<lambda>k. if lo \<le> k \<and> k < hi then None else content t k)"
proof -
  obtain n t' where "kv_DeleteRange K lo hi t = (Inr n, t')" "kv_Writable K t'" using rw_DeleteRange [OF assms] by blast
  then show thesis using DeleteRange_ok [OF assms(1), of lo hi n t'] that [of n t'] by simp
qed

text \<open>A list of writes leaves the content overridden by them, later ones first.\<close>

lemma putList:
  assumes "wf t" "kv_Writable K t"
  shows "\<exists>t'. act_iter (\<lambda>(k, v). kv_Set K k v) es t = (Inr (), t') \<and> wf t' \<and> kv_Writable K t' \<and>
    content t' = content t ++ map_of (rev es)"
  using assms
proof (induction es arbitrary: t)
  case (Cons e es)
  obtain k v where e: "e = (k, v)" by (cases e)
  obtain t' where t': "kv_Set K k v t = (Inr (), t')" "wf t'" "kv_Writable K t'" "content t' = (content t)(k \<mapsto> v)"
    using put [OF Cons.prems] .
  obtain t'' where "act_iter (\<lambda>(k, v). kv_Set K k v) es t' = (Inr (), t'')" "wf t''" "kv_Writable K t''"
    "content t'' = content t' ++ map_of (rev es)"
    using Cons.IH [OF t'(2,3)] by blast
  moreover have "content t' ++ map_of (rev es) = content t ++ map_of (rev (e # es))"
    unfolding e t'(4) by (auto simp: map_add_def fun_eq_iff split: option.splits)
  ultimately show ?case using t'(1) e by simp
qed simp

end

text \<open>A strictly sorted list of pairs is determined by its set.\<close>

lemma sorted_pairs_unique:
  fixes xs ys :: "('k::linorder \<times> 'v) list"
  assumes "sorted_wrt (<) (map fst xs)" "sorted_wrt (<) (map fst ys)" "set xs = set ys"
  shows "xs = ys"
proof -
  have "map fst xs = map fst ys"
    using assms by (intro sorted_distinct_set_unique) (auto simp: strict_sorted_iff)
  moreover have "distinct (map fst xs)" "distinct (map fst ys)"
    using assms by (auto simp: strict_sorted_iff)
  moreover have "snd (xs ! i) = snd (ys ! i)" if "i < length xs" for i
  proof -
    have n: "length xs = length ys" using calculation(1) by (metis length_map)
    have f: "fst (xs ! i) = fst (ys ! i)" using calculation(1) that n by (metis nth_map)
    have "xs ! i \<in> set ys" "ys ! i \<in> set ys" using that n assms(3) nth_mem by auto
    then show ?thesis using f calculation(3) by (metis eq_key_imp_eq_value prod.collapse)
  qed
  ultimately show ?thesis
    by (intro nth_equalityI prod_eqI) (metis length_map nth_map)+
qed

text \<open>
  Savepoints nest: rolling back to one restores its state and discards the later ones, releasing
  one discards it and the later ones and keeps the state.
\<close>

locale kv_save = kv_rw K wf content
  for K :: "'tx kvops" and wf and content +
  fixes saves :: "'tx \<Rightarrow> (nat \<times> (key \<Rightarrow> bytes option)) list"
  assumes Savepoint: "wf t \<Longrightarrow> kv_Savepoint K t = (q, t') \<Longrightarrow>
      wf t' \<and> content t' = content t \<and> kv_Writable K t' = kv_Writable K t \<and>
      (case q of Inl e \<Rightarrow> saves t' = saves t
               | Inr sp \<Rightarrow> saves t' = saves t @ [(sp, content t)] \<and> sp \<notin> fst ` set (saves t))"
    and RollbackTo: "wf t \<Longrightarrow> kv_RollbackTo K sp t = (r, t') \<Longrightarrow>
      wf t' \<and> kv_Writable K t' = kv_Writable K t \<and>
      (case r of Inl e \<Rightarrow> content t' = content t \<and> saves t' = saves t
               | Inr u \<Rightarrow> \<exists>pre m post. saves t = pre @ (sp, m) # post \<and> saves t' = pre @ [(sp, m)] \<and> content t' = m)"
    and Release: "wf t \<Longrightarrow> kv_Release K sp t = (r, t') \<Longrightarrow>
      wf t' \<and> kv_Writable K t' = kv_Writable K t \<and> content t' = content t \<and>
      (case r of Inl e \<Rightarrow> saves t' = saves t
               | Inr u \<Rightarrow> \<exists>pre m post. saves t = pre @ (sp, m) # post \<and> saves t' = pre)"
    and saves_distinct: "wf t \<Longrightarrow> distinct (map fst (saves t))"
    and saves_Set: "wf t \<Longrightarrow> kv_Set K k v t = (b, t') \<Longrightarrow> saves t' = saves t"
    and saves_Delete: "wf t \<Longrightarrow> kv_Delete K k t = (c, t') \<Longrightarrow> saves t' = saves t"
    and saves_DeleteRange: "wf t \<Longrightarrow> kv_DeleteRange K lo hi t = (n, t') \<Longrightarrow> saves t' = saves t"
    and saves_Mark: "wf t \<Longrightarrow> saves (kv_MarkRead K k t) = saves t \<and> saves (kv_MarkReadRange K lo hi t) = saves t \<and>
      saves (kv_MarkExclusive K t) = saves t \<and> saves (kv_TrackReads K t) = saves t"

subsection \<open>Read tracking and the store\<close>

text \<open>
  A serializable transaction records the keys its result depends on. Only such a transaction
  keeps a read set; on every other view the marking calls change nothing.
\<close>

locale kv_tracking = kv_tx K wf content
  for K :: "'tx kvops" and wf and content +
  fixes reads :: "'tx \<Rightarrow> key set"
  assumes reads_MarkRead: "wf t \<Longrightarrow> reads (kv_MarkRead K k t) = insert k (reads t)"
    and reads_MarkReadRange: "wf t \<Longrightarrow>
      reads (kv_MarkReadRange K lo hi t) = reads t \<union> {k. lo \<le> k \<and> k < hi}"

record ('db, 'tx) dbops =
  db_Get :: "key \<Rightarrow> 'db \<Rightarrow> bytes option"
  db_Ascend :: "key \<Rightarrow> 'db \<Rightarrow> (key \<times> bytes) list"
  db_Begin :: "bool \<Rightarrow> ('db, 'tx) act"
  db_BeginExclusive :: "('db, 'tx) act"
  db_Commit :: "'tx \<Rightarrow> ('db, unit) act"
  db_Rollback :: "'tx \<Rightarrow> ('db, unit) act"

text \<open>
  The store: a transaction starts on a snapshot of it and a commit applies the keys the
  transaction wrote. A commit succeeds only when none of those keys moved since the snapshot; one
  refused for that reason has no effect, any other failed commit may or may not have been applied.
\<close>

locale kv_db = kv_tx K wf content
  for K :: "'tx kvops" and wf and content +
  fixes D :: "('db, 'tx) dbops"
    and dwf :: "'db \<Rightarrow> bool"
    and dcontent :: "'db \<Rightarrow> key \<Rightarrow> bytes option"
    and base :: "'tx \<Rightarrow> key \<Rightarrow> bytes option"
    and written :: "'tx \<Rightarrow> key set"
  assumes db_Get: "dwf d \<Longrightarrow> db_Get D k d = dcontent d k"
    and db_Ascend_sorted: "dwf d \<Longrightarrow> sorted_wrt (<) (map fst (db_Ascend D k d))"
    and db_Ascend_set: "dwf d \<Longrightarrow> set (db_Ascend D k d) = {(k', v). k \<le> k' \<and> dcontent d k' = Some v}"
    and db_Begin: "dwf d \<Longrightarrow> db_Begin D rw d = (Inr t, d') \<Longrightarrow>
      wf t \<and> content t = dcontent d \<and> base t = dcontent d \<and> written t = {} \<and>
      dwf d' \<and> dcontent d' = dcontent d"
    and db_Begin_err: "dwf d \<Longrightarrow> db_Begin D rw d = (Inl e, d') \<Longrightarrow> dwf d' \<and> dcontent d' = dcontent d"
    and db_BeginExclusive: "dwf d \<Longrightarrow> db_BeginExclusive D d = (Inr t, d') \<Longrightarrow>
      wf t \<and> content t = dcontent d \<and> base t = dcontent d \<and> written t = {} \<and>
      dwf d' \<and> dcontent d' = dcontent d"
    and db_BeginExclusive_err: "dwf d \<Longrightarrow> db_BeginExclusive D d = (Inl e, d') \<Longrightarrow>
      dwf d' \<and> dcontent d' = dcontent d"
    and unwritten: "wf t \<Longrightarrow> k \<notin> written t \<Longrightarrow> content t k = base t k"
    and base_Set: "wf t \<Longrightarrow> kv_Set K k v t = (r, t') \<Longrightarrow>
      base t' = base t \<and> written t' = (if r = Inr () then insert k (written t) else written t)"
    and base_Delete: "wf t \<Longrightarrow> kv_Delete K k t = (b, t') \<Longrightarrow>
      base t' = base t \<and> written t \<subseteq> written t' \<and> written t' \<subseteq> insert k (written t)"
    and base_DeleteRange: "wf t \<Longrightarrow> kv_DeleteRange K lo hi t = (n, t') \<Longrightarrow>
      base t' = base t \<and> written t \<subseteq> written t' \<and>
      written t' \<subseteq> written t \<union> {k. lo \<le> k \<and> k < hi}"
    and base_Mark: "wf t \<Longrightarrow>
      base (kv_MarkRead K k t) = base t \<and> written (kv_MarkRead K k t) = written t \<and>
      base (kv_MarkReadRange K lo hi t) = base t \<and>
      written (kv_MarkReadRange K lo hi t) = written t \<and>
      base (kv_MarkExclusive K t) = base t \<and> written (kv_MarkExclusive K t) = written t \<and>
      base (kv_TrackReads K t) = base t \<and> written (kv_TrackReads K t) = written t"
    and Commit: "dwf d \<Longrightarrow> wf t \<Longrightarrow> db_Commit D t d = (Inr u, d') \<Longrightarrow>
      dwf d' \<and> (\<forall>k\<in>written t. dcontent d k = base t k) \<and>
      dcontent d' = (\<lambda>k. if k \<in> written t then content t k else dcontent d k)"
    and Commit_err: "dwf d \<Longrightarrow> wf t \<Longrightarrow> db_Commit D t d = (Inl e, d') \<Longrightarrow>
      dwf d' \<and> (dcontent d' = dcontent d \<or>
        e \<noteq> ErrTxConflict \<and> dcontent d' = (\<lambda>k. if k \<in> written t then content t k else dcontent d k))"
    and Begin_rw: "dwf d \<Longrightarrow> db_Begin D rw d = (Inr t, d') \<Longrightarrow> kv_Writable K t = rw"
    and BeginExclusive_rw: "dwf d \<Longrightarrow> db_BeginExclusive D d = (Inr t, d') \<Longrightarrow> kv_Writable K t"
    and Rollback: "dwf d \<Longrightarrow> wf t \<Longrightarrow> db_Rollback D t d = (r, d') \<Longrightarrow> dwf d' \<and> dcontent d' = dcontent d"
begin

text \<open>A commit onto the store the transaction started from leaves the transaction's content.\<close>

lemma Commit_unmoved:
  assumes "dwf d" "wf t" "db_Commit D t d = (Inr u, d')" "base t = dcontent d"
  shows "dwf d' \<and> dcontent d' = content t"
  using Commit [OF assms(1-3)] unwritten [OF assms(2)] assms(4) by fastforce

end

subsection \<open>An implementation: sorted association lists\<close>

type_synonym alist = "(key \<times> bytes) list"

fun al_set :: "key \<Rightarrow> bytes \<Rightarrow> alist \<Rightarrow> alist" where
  "al_set k v [] = [(k, v)]"
| "al_set k v ((a, b) # xs) =
     (if k < a then (k, v) # (a, b) # xs
      else if k = a then (k, v) # xs
      else (a, b) # al_set k v xs)"

definition al_del :: "key \<Rightarrow> alist \<Rightarrow> alist" where
  "al_del k xs = filter (\<lambda>x. fst x \<noteq> k) xs"

abbreviation al_sorted :: "alist \<Rightarrow> bool" where
  "al_sorted xs \<equiv> sorted_wrt (<) (map fst xs)"

lemma map_of_al_set [simp]: "al_sorted xs \<Longrightarrow> map_of (al_set k v xs) = (map_of xs)(k \<mapsto> v)"
  by (induction k v xs rule: al_set.induct) (auto simp: fun_upd_twist)

lemma keys_al_set: "set (map fst (al_set k v xs)) = insert k (set (map fst xs))"
  by (induction k v xs rule: al_set.induct) auto

lemma sorted_al_set [simp]: "al_sorted xs \<Longrightarrow> al_sorted (al_set k v xs)"
proof (induction k v xs rule: al_set.induct)
  case (2 k v a b xs)
  then show ?case
    using keys_al_set [of k v xs] by (auto dest: order.strict_trans)
qed simp

lemma map_of_al_del [simp]: "map_of (al_del k xs) = (map_of xs)(k := None)"
  by (induction xs) (auto simp: al_del_def)

lemma sorted_filter_fst: "al_sorted xs \<Longrightarrow> al_sorted (filter P xs)"
  by (simp add: sorted_wrt_map sorted_wrt_filter)

lemma sorted_al_del [simp]: "al_sorted xs \<Longrightarrow> al_sorted (al_del k xs)"
  by (simp add: al_del_def sorted_filter_fst)

lemma al_set_iff: "al_sorted xs \<Longrightarrow> (k, v) \<in> set xs \<longleftrightarrow> map_of xs k = Some v"
  by (auto simp: strict_sorted_iff map_of_eq_Some_iff)

record memTx =
  mt_map :: alist
  mt_base :: alist
  mt_wrote :: "key list"
  mt_reads :: "(key \<times> key) list"
  mt_track :: bool
  mt_rw :: bool
  mt_saves :: "(nat \<times> alist \<times> key list) list"

definition mem_write :: "key list \<Rightarrow> (alist \<Rightarrow> alist) \<Rightarrow> 'a \<Rightarrow> (memTx, 'a) act" where
  "mem_write ks f x t =
     (if mt_rw t then (Inr x, t\<lparr>mt_map := f (mt_map t), mt_wrote := ks @ mt_wrote t\<rparr>)
      else (Inl ErrTxNotWritable, t))"

definition mem_mark :: "(key \<times> key) \<Rightarrow> memTx \<Rightarrow> memTx" where
  "mem_mark r t = t\<lparr>mt_reads := r # mt_reads t\<rparr>"

definition mem_between :: "key \<Rightarrow> key \<Rightarrow> alist \<Rightarrow> alist" where
  "mem_between lo hi xs = filter (\<lambda>x. lo \<le> fst x \<and> fst x < hi) xs"

definition memKv :: "memTx kvops" where
  "memKv = \<lparr>
     kv_Get = (\<lambda>k t. map_of (mt_map t) k),
     kv_Contains = (\<lambda>k t. map_of (mt_map t) k \<noteq> None),
     kv_Ascend = (\<lambda>k t. filter (\<lambda>x. k \<le> fst x) (mt_map t)),
     kv_Descend = (\<lambda>k t. rev (filter (\<lambda>x. fst x \<le> k) (mt_map t))),
     kv_Set = (\<lambda>k v. mem_write [k] (al_set k v) ()),
     kv_Delete = (\<lambda>k t. mem_write [k] (al_del k) (map_of (mt_map t) k \<noteq> None) t),
     kv_DeleteRange = (\<lambda>lo hi t.
       mem_write (map fst (mem_between lo hi (mt_map t)))
         (filter (\<lambda>x. \<not> (lo \<le> fst x \<and> fst x < hi))) (length (mem_between lo hi (mt_map t))) t),
     kv_MarkRead = (\<lambda>k. mem_mark (k, k @ [0])),
     kv_MarkReadRange = (\<lambda>lo hi. mem_mark (lo, hi)),
     kv_MarkExclusive = (\<lambda>t. t\<lparr>mt_reads := ([], replicate 1 255) # mt_reads t\<rparr>),
     kv_TrackReads = (\<lambda>t. t\<lparr>mt_track := True\<rparr>),
     kv_Writable = mt_rw,
     kv_Savepoint = (\<lambda>t. let n = length (mt_saves t)
       in (Inr n, t\<lparr>mt_saves := (n, mt_map t, mt_wrote t) # mt_saves t\<rparr>)),
     kv_RollbackTo = (\<lambda>n t.
       case dropWhile (\<lambda>x. fst x \<noteq> n) (mt_saves t) of
         [] \<Rightarrow> (Inl (Msg ''no such savepoint''), t)
       | (i, m, w) # sv \<Rightarrow>
           (Inr (), t\<lparr>mt_map := m, mt_wrote := mt_wrote t @ w, mt_saves := (i, m, w) # sv\<rparr>)),
     kv_Release = (\<lambda>n t.
       case dropWhile (\<lambda>x. fst x \<noteq> n) (mt_saves t) of
         [] \<Rightarrow> (Inl (Msg ''no such savepoint''), t)
       | _ # sv \<Rightarrow> (Inr (), t\<lparr>mt_saves := sv\<rparr>))\<rparr>"

definition mem_content :: "memTx \<Rightarrow> key \<Rightarrow> bytes option" where
  "mem_content t = map_of (mt_map t)"

definition mem_base :: "memTx \<Rightarrow> key \<Rightarrow> bytes option" where
  "mem_base t = map_of (mt_base t)"

text \<open>The savepoint stack, newest first: numbered from the bottom, each a state on the same base.\<close>

definition saves_ok :: "alist \<Rightarrow> (nat \<times> alist \<times> key list) list \<Rightarrow> bool" where
  "saves_ok b sv \<longleftrightarrow> map fst sv = rev [0..<length sv] \<and>
     (\<forall>(i, m, w)\<in>set sv. al_sorted m \<and> (\<forall>k. k \<notin> set w \<longrightarrow> map_of m k = map_of b k))"

definition mem_wf :: "memTx \<Rightarrow> bool" where
  "mem_wf t \<longleftrightarrow> al_sorted (mt_map t) \<and> al_sorted (mt_base t) \<and>
     (\<forall>k. k \<notin> set (mt_wrote t) \<longrightarrow> mem_content t k = mem_base t k) \<and>
     saves_ok (mt_base t) (mt_saves t)"

definition mem_reads :: "memTx \<Rightarrow> key set" where
  "mem_reads t = {k. \<exists>(lo, hi)\<in>set (mt_reads t). lo \<le> k \<and> k < hi}"

text \<open>The successor of a key in the byte order is the key with a zero byte appended.\<close>

lemma between_succ: "k \<le> k' \<and> k' < k @ [0] \<longleftrightarrow> k' = (k::key)"
proof
  assume a: "k \<le> k' \<and> k' < k @ [0]"
  show "k' = k"
  proof (rule ccontr)
    assume "k' \<noteq> k"
    then have "k < k'" using a by (metis order_le_less)
    then have "k @ [0] \<le> k'"
    proof (induction k arbitrary: k')
      case Nil
      then show ?case by (cases k') (auto simp: order_le_less word_gt_0)
    next
      case (Cons x k)
      then show ?case by (cases k') (auto simp: order_le_less)
    qed
    then show False using a by (metis leD)
  qed
next
  assume "k' = k"
  then show "k \<le> k' \<and> k' < k @ [0]"
    using le_append_self [of k "[0]"] by (metis append_self_conv list.distinct(1) order_le_less order_refl)
qed

lemma map_of_outside:
  "map_of (filter (\<lambda>x. lo \<le> fst x \<longrightarrow> \<not> fst x < hi) xs) =
   (\<lambda>k. if lo \<le> k \<and> k < hi then None else map_of xs (k::key))"
  by (induction xs) auto

lemma map_of_absent:
  "k \<notin> fst ` {x \<in> set m. lo \<le> fst x \<and> fst x < hi} \<Longrightarrow> lo \<le> k \<Longrightarrow> k < hi \<Longrightarrow> map_of m (k::key) = None"
  by (force simp: map_of_eq_None_iff)

interpretation mem: kv_tx memKv mem_wf mem_content
proof (unfold_locales, goal_cases)
  case (3 t k)
  then show ?case by (simp add: memKv_def mem_wf_def sorted_filter_fst)
next
  case (4 t k)
  then show ?case by (auto simp: memKv_def mem_wf_def mem_content_def al_set_iff)
next
  case (5 t k)
  then show ?case
    by (simp add: memKv_def mem_wf_def rev_map [symmetric] sorted_wrt_rev sorted_filter_fst)
next
  case (6 t k)
  then show ?case by (auto simp: memKv_def mem_wf_def mem_content_def al_set_iff)
next
  case (9 t lo hi n t')
  then show ?case
    by (auto simp: memKv_def mem_write_def mem_wf_def mem_content_def mem_base_def sorted_filter_fst
        map_of_outside mem_between_def split: if_splits) (drule (2) map_of_absent, simp)
qed (auto simp: memKv_def mem_wf_def mem_content_def mem_base_def mem_write_def mem_mark_def
    split: if_splits)

interpretation mem: kv_rw memKv mem_wf mem_content
  by unfold_locales (auto simp: memKv_def mem_write_def mem_mark_def)

definition mem_saves :: "memTx \<Rightarrow> (nat \<times> (key \<Rightarrow> bytes option)) list" where
  "mem_saves t = rev (map (\<lambda>(i, m, w). (i, map_of m)) (mt_saves t))"

lemma dropWhile_split:
  assumes "dropWhile (\<lambda>x. fst x \<noteq> n) xs = y # ys"
  shows "\<exists>pre. xs = pre @ y # ys \<and> fst y = n"
  using assms takeWhile_dropWhile_id [of "\<lambda>x. fst x \<noteq> n" xs] hd_dropWhile [of "\<lambda>x. fst x \<noteq> n" xs]
  by (metis list.discI list.sel(1))

lemma rev_upt_suffix:
  assumes "xs @ ys = rev [0..<n]"
  shows "ys = rev [0..<length ys]"
proof -
  have "ys = drop (length xs) (rev [0..<n])" using assms by (metis append_eq_conv_conj)
  also have "\<dots> = rev (take (n - length xs) [0..<n])" by (simp add: drop_rev)
  finally show ?thesis using assms by (metis length_rev rev_rev_ident take_upt add.commute add_0 length_upt nat_le_linear take_all diff_zero length_take min.absorb2 diff_le_self)
qed

lemma saves_ok_push:
  "saves_ok b sv \<Longrightarrow> al_sorted m \<Longrightarrow> \<forall>k. k \<notin> set w \<longrightarrow> map_of m k = map_of b k \<Longrightarrow>
   saves_ok b ((length sv, m, w) # sv) \<and> length sv \<notin> fst ` set sv"
  by (auto simp: saves_ok_def simp flip: set_map)

lemma saves_ok_suffix: "saves_ok b (pre @ sv) \<Longrightarrow> saves_ok b sv"
  using rev_upt_suffix [of "map fst pre" "map fst sv" "length (pre @ sv)"] by (auto simp: saves_ok_def)

lemma saves_ok_top:
  "saves_ok b ((i, m, w) # sv) \<Longrightarrow> al_sorted m \<and> (\<forall>k. k \<notin> set w \<longrightarrow> map_of m k = map_of b k)"
  by (auto simp: saves_ok_def)

interpretation mem: kv_save memKv mem_wf mem_content mem_saves
proof (unfold_locales, goal_cases)
  case (1 t q t')
  then show ?case using saves_ok_push [of "mt_base t" "mt_saves t" "mt_map t" "mt_wrote t"]
    by (auto simp: memKv_def mem_saves_def mem_wf_def mem_content_def mem_base_def Let_def image_image case_prod_beta)
next
  case (2 t sp r t')
  show ?case
  proof (cases "dropWhile (\<lambda>x. fst x \<noteq> sp) (mt_saves t)")
    case Nil
    then show ?thesis using 2 by (auto simp: memKv_def simp del: dropWhile_eq_Nil_conv)
  next
    case (Cons y sv)
    obtain i m w where y: "y = (i, m, w)" by (cases y)
    obtain pre where p: "mt_saves t = pre @ y # sv" "fst y = sp" using dropWhile_split [OF Cons] by blast
    have s: "saves_ok (mt_base t) ((i, m, w) # sv)" using 2(1) saves_ok_suffix [of "mt_base t" pre] by (simp add: mem_wf_def p(1) y)
    show ?thesis using 2 Cons y p s saves_ok_top [OF s]
      by (auto simp: memKv_def mem_saves_def mem_wf_def mem_content_def mem_base_def)
  qed
next
  case (3 t sp r t')
  show ?case
  proof (cases "dropWhile (\<lambda>x. fst x \<noteq> sp) (mt_saves t)")
    case Nil
    then show ?thesis using 3 by (auto simp: memKv_def simp del: dropWhile_eq_Nil_conv)
  next
    case (Cons y sv)
    obtain i m w where y: "y = (i, m, w)" by (cases y)
    obtain pre where p: "mt_saves t = pre @ y # sv" "fst y = sp" using dropWhile_split [OF Cons] by blast
    have "saves_ok (mt_base t) sv" using 3(1) saves_ok_suffix [of "mt_base t" "pre @ [y]"] by (simp add: mem_wf_def p(1))
    then show ?thesis using 3 Cons p y
      by (auto simp: memKv_def mem_saves_def mem_wf_def mem_content_def mem_base_def)
  qed
next
  case (4 t)
  have "map fst (mem_saves t) = rev (map fst (mt_saves t))" by (simp add: mem_saves_def rev_map comp_def case_prod_beta)
  then show ?case using 4 by (simp add: mem_wf_def saves_ok_def)
qed (auto simp: memKv_def mem_write_def mem_mark_def mem_saves_def split: if_splits)

interpretation mem: kv_tracking memKv mem_wf mem_content mem_reads
  by unfold_locales (auto simp: memKv_def mem_mark_def mem_reads_def between_succ)

text \<open>The store: the committed list; a commit validates and then applies the written keys.\<close>

fun al_apply :: "alist \<Rightarrow> key list \<Rightarrow> alist \<Rightarrow> alist" where
  "al_apply m [] d = d"
| "al_apply m (k # ks) d =
     al_apply m ks (case map_of m k of None \<Rightarrow> al_del k d | Some v \<Rightarrow> al_set k v d)"

definition mem_apply :: "memTx \<Rightarrow> alist \<Rightarrow> alist" where
  "mem_apply t d = al_apply (mt_map t) (mt_wrote t) d"

lemma sorted_al_apply: "al_sorted d \<Longrightarrow> al_sorted (al_apply m ks d)"
  by (induction ks arbitrary: d) (auto split: option.splits)

lemma map_of_al_apply:
  "al_sorted d \<Longrightarrow> map_of (al_apply m ks d) k = (if k \<in> set ks then map_of m k else map_of d k)"
proof (induction ks arbitrary: d)
  case (Cons a ks)
  then show ?case by (cases "map_of m a") simp_all
qed simp

definition mem_conflict :: "memTx \<Rightarrow> alist \<Rightarrow> bool" where
  "mem_conflict t d \<longleftrightarrow>
     list_ex (\<lambda>k. map_of (mt_base t) k \<noteq> map_of d k) (mt_wrote t) \<or>
     mt_track t \<and> list_ex (\<lambda>(lo, hi). mem_between lo hi (mt_base t) \<noteq> mem_between lo hi d) (mt_reads t)"

definition mem_begin :: "bool \<Rightarrow> alist \<Rightarrow> memTx" where
  "mem_begin rw d = \<lparr>mt_map = d, mt_base = d, mt_wrote = [], mt_reads = [], mt_track = False,
     mt_rw = rw, mt_saves = []\<rparr>"

definition memDb :: "(alist, memTx) dbops" where
  "memDb = \<lparr>
     db_Get = (\<lambda>k d. map_of d k),
     db_Ascend = (\<lambda>k d. filter (\<lambda>x. k \<le> fst x) d),
     db_Begin = (\<lambda>rw d. (Inr (mem_begin rw d), d)),
     db_BeginExclusive = (\<lambda>d. (Inr (mem_begin True d), d)),
     db_Commit = (\<lambda>t d.
       if \<not> mt_rw t then (Inl ErrTxNotWritable, d)
       else if mem_conflict t d then (Inl ErrTxConflict, d)
       else (Inr (), mem_apply t d)),
     db_Rollback = (\<lambda>t d. (Inr (), d))\<rparr>"

lemma mem_apply_props:
  assumes "al_sorted d"
  shows "al_sorted (mem_apply t d)"
    "map_of (mem_apply t d) = (\<lambda>k. if k \<in> set (mt_wrote t) then mem_content t k else map_of d k)"
  using assms sorted_al_apply map_of_al_apply by (auto simp: mem_apply_def mem_content_def intro!: ext)

interpretation mem: kv_db memKv mem_wf mem_content memDb al_sorted map_of mem_base
  "\<lambda>t. set (mt_wrote t)"
proof (unfold_locales, goal_cases)
  case (4 d rw t d')
  then show ?case by (auto simp: memDb_def mem_begin_def mem_wf_def mem_content_def mem_base_def saves_ok_def)
next
  case (6 d t d')
  then show ?case by (auto simp: memDb_def mem_begin_def mem_wf_def mem_content_def mem_base_def saves_ok_def)
next
  case (13 d t u d')
  then show ?case
    by (auto simp: memDb_def mem_apply_props mem_conflict_def list_ex_iff mem_base_def split: if_splits)
next
  case (2 d k)
  then show ?case by (simp add: memDb_def sorted_filter_fst)
next
  case (3 d k)
  then show ?case by (auto simp: memDb_def al_set_iff)
next
  case (11 t lo hi n t')
  then show ?case
    by (auto simp: memKv_def mem_write_def mem_base_def mem_between_def split: if_splits)
qed (auto simp: memDb_def memKv_def mem_begin_def mem_wf_def mem_content_def mem_base_def
    mem_write_def mem_mark_def split: if_splits)

end
