(* ===== verification/Catalog.thy ===== *)
theory Catalog
  imports Tuple Types Kv
begin

text \<open>
  Table descriptors and the key space (\<open>src/engine.go\<close>). A descriptor is what the catalog stores
  for a table: columns with stable IDs, the primary key and the indexes by column ordinal, checks
  and foreign keys. The key helpers build every key the engine writes as an encoded tuple headed
  by a table ID and an index ID. The lemmas show that the ID lookup table built at parse time
  agrees with the linear search it replaces, and that the regions of the key space (each table's
  rows, each of its indexes, the descriptors, counters, sequences and views) are disjoint.
\<close>

subsection \<open>Descriptors\<close>

definition sysIDSeqTableID :: uint64 where "sysIDSeqTableID = 0"
definition sysDescTableID :: uint64 where "sysDescTableID = 1"
definition sysSeqTableID :: uint64 where "sysSeqTableID = 2"
definition sysViewTableID :: uint64 where "sysViewTableID = 3"
definition firstUserTableID :: uint64 where "firstUserTableID = 100"
definition primaryIndexID :: uint64 where "primaryIndexID = 1"
definition identitySeqIndexID :: uint64 where "identitySeqIndexID = 2"
definition sqlSeqIndexID :: uint64 where "sqlSeqIndexID = 3"

lemmas sys_ids = sysIDSeqTableID_def sysDescTableID_def sysSeqTableID_def sysViewTableID_def
  firstUserTableID_def primaryIndexID_def identitySeqIndexID_def sqlSeqIndexID_def

text \<open>\<open>ColType\<close> is a string; \<open>TOther\<close> is one that is none of the declared constants.\<close>

datatype colType =
    TBool | TInt | TFloat | TString | TBytes | TTimestamp | TDate | TUUID | TTextArray | TJSONB
  | TOther string

record column =
  c_Name :: string
  c_Type :: colType
  c_ID :: uint32
  c_NotNull :: bool
  c_Identity :: bool
  c_Default :: string
  c_MaxLen :: int

record checkDesc =
  chk_Name :: string
  chk_Expr :: string

record fkDesc =
  fk_Name :: string
  fk_Cols :: "nat list"
  fk_RefTable :: string
  fk_RefCols :: "string list"
  fk_OnDelete :: string

record indexDesc =
  x_ID :: uint64
  x_Name :: string
  x_Cols :: "nat list"
  x_Unique :: bool
  x_Desc :: "bool list"

record tableDesc =
  d_FormatVersion :: uint32
  d_ID :: uint64
  d_Name :: string
  d_Columns :: "column list"
  d_PKCols :: "nat list"
  d_Indexes :: "indexDesc list"
  d_Checks :: "checkDesc list"
  d_ForeignKeys :: "fkDesc list"
  d_NextColID :: uint32
  d_ordByID :: "int list option"   \<comment> \<open>nil or the ID lookup table\<close>

definition DescAt :: "indexDesc \<Rightarrow> nat \<Rightarrow> bool" where
  "DescAt x i \<longleftrightarrow> i < length (x_Desc x) \<and> x_Desc x ! i"

definition findIndex :: "tableDesc \<Rightarrow> string \<Rightarrow> indexDesc option" where
  "findIndex d name = find (\<lambda>x. x_Name x = name) (d_Indexes d)"

definition clone :: "tableDesc \<Rightarrow> tableDesc" where
  "clone d = d\<lparr>d_ordByID := None\<rparr>"

text \<open>The position of the first element that satisfies \<open>P\<close>; \<open>-1\<close> in the code is \<open>None\<close> here.\<close>

fun firstPos :: "('a \<Rightarrow> bool) \<Rightarrow> 'a list \<Rightarrow> nat option" where
  "firstPos P [] = None"
| "firstPos P (x # xs) = (if P x then Some 0 else map_option Suc (firstPos P xs))"

definition ColIndex :: "tableDesc \<Rightarrow> string \<Rightarrow> nat option" where
  "ColIndex d name = firstPos (\<lambda>c. c_Name c = name) (d_Columns d)"

definition isPK :: "tableDesc \<Rightarrow> nat \<Rightarrow> bool" where
  "isPK d ordinal \<longleftrightarrow> ordinal \<in> set (d_PKCols d)"

definition colOrdinalByID :: "tableDesc \<Rightarrow> uint32 \<Rightarrow> int" where
  "colOrdinalByID d cid =
     (case d_ordByID d of
        Some t \<Rightarrow> if unat cid < length t then t ! unat cid else -1
      | None \<Rightarrow>
          (case firstPos (\<lambda>c. c_ID c = cid) (d_Columns d) of Some i \<Rightarrow> int i | None \<Rightarrow> -1))"

definition maxColID :: "column list \<Rightarrow> uint32" where
  "maxColID cols = fold (\<lambda>c m. max m (c_ID c)) cols 0"

fun fillOrd :: "nat \<Rightarrow> column list \<Rightarrow> int list \<Rightarrow> int list" where
  "fillOrd i [] t = t"
| "fillOrd i (c # cs) t = fillOrd (i + 1) cs (t[unat (c_ID c) := int i])"

definition buildOrdByID :: "tableDesc \<Rightarrow> tableDesc" where
  "buildOrdByID d =
     (let maxID = maxColID (d_Columns d)
      in if maxID > 4096 then d
         else d\<lparr>d_ordByID :=
                  Some (fillOrd 0 (d_Columns d) (replicate (unat maxID + 1) (-1)))\<rparr>)"

definition hasIdentity :: "tableDesc \<Rightarrow> bool" where
  "hasIdentity d \<longleftrightarrow> list_ex c_Identity (d_Columns d)"

subsection \<open>Storing descriptors\<close>

definition descFormatVersion :: uint32 where "descFormatVersion = 1"

text \<open>
  The JSON form of a descriptor is a parameter: \<open>json.Marshal\<close> and \<open>json.Unmarshal\<close> on the
  exported fields (the lookup table is not one of them).
\<close>

record descCodec =
  desc_Marshal :: "tableDesc \<Rightarrow> bytes res"
  desc_Unmarshal :: "bytes \<Rightarrow> tableDesc res"

text \<open>The descriptors the codec carries faithfully come back with no lookup table.\<close>

definition codecOk :: "descCodec \<Rightarrow> (tableDesc \<Rightarrow> bool) \<Rightarrow> bool" where
  "codecOk C ok \<longleftrightarrow>
     (\<forall>d. ok d \<longrightarrow> (\<exists>b. desc_Marshal C d = Inr b \<and> desc_Unmarshal C b = Inr (clone d)))"

definition marshalDesc :: "descCodec \<Rightarrow> tableDesc \<Rightarrow> bytes res" where
  "marshalDesc C desc = desc_Marshal C (desc\<lparr>d_FormatVersion := descFormatVersion\<rparr>)"

definition parseDesc :: "descCodec \<Rightarrow> bytes \<Rightarrow> tableDesc res" where
  "parseDesc C blob =
     res_bind (desc_Unmarshal C blob) (\<lambda>desc.
       if d_FormatVersion desc > descFormatVersion
       then Inl (Msg ''descriptor format version is newer than this bytdb supports; upgrade bytdb'')
       else Inr (buildOrdByID desc))"

subsection \<open>Keys\<close>

text \<open>
  \<open>mustEncode\<close> panics when an element does not encode; the helpers only pass integers and strings,
  which always do (\<open>mustEncode_key\<close>), so the panicking branch has no value of its own here.
\<close>

definition mustEncode :: "any list \<Rightarrow> bytes" where
  "mustEncode vals = (case Encode vals of Inr b \<Rightarrow> b | Inl _ \<Rightarrow> [])"

definition tableSpace :: "uint64 \<Rightarrow> bytes" where
  "tableSpace tableID = mustEncode [AInt64 tableID]"

definition indexPrefix :: "uint64 \<Rightarrow> uint64 \<Rightarrow> bytes" where
  "indexPrefix tableID indexID = mustEncode [AInt64 tableID, AInt64 indexID]"

definition tablePrefix :: "uint64 \<Rightarrow> bytes" where
  "tablePrefix tableID = indexPrefix tableID primaryIndexID"

definition descTablePrefix :: key where
  "descTablePrefix = tablePrefix sysDescTableID"

definition descKey :: "string \<Rightarrow> key" where
  "descKey name = mustEncode [AInt64 sysDescTableID, AInt64 primaryIndexID, AString name]"

definition seqKey :: key where
  "seqKey = mustEncode [AInt64 sysIDSeqTableID]"

definition seqNameKey :: "string \<Rightarrow> key" where
  "seqNameKey name = mustEncode [AInt64 sysSeqTableID, AInt64 primaryIndexID, AString name]"

definition identitySeqKey :: "uint64 \<Rightarrow> uint32 \<Rightarrow> key" where
  "identitySeqKey tableID colID =
     mustEncode [AInt64 sysSeqTableID, AInt64 identitySeqIndexID, AInt64 tableID, AInt64 (ucast colID)]"

definition identitySeqTablePrefix :: "uint64 \<Rightarrow> bytes" where
  "identitySeqTablePrefix tableID =
     mustEncode [AInt64 sysSeqTableID, AInt64 identitySeqIndexID, AInt64 tableID]"

definition sqlSeqKey :: "string \<Rightarrow> key" where
  "sqlSeqKey name = mustEncode [AInt64 sysSeqTableID, AInt64 sqlSeqIndexID, AString name]"

definition sqlSeqPrefix :: bytes where
  "sqlSeqPrefix = mustEncode [AInt64 sysSeqTableID, AInt64 sqlSeqIndexID]"

definition viewKey :: "string \<Rightarrow> key" where
  "viewKey name = mustEncode [AInt64 sysViewTableID, AInt64 primaryIndexID, AString name]"

definition rowKey :: "tableDesc \<Rightarrow> val list \<Rightarrow> key res" where
  "rowKey d pkVals = Append (tablePrefix (d_ID d)) (map any_of pkVals)"

definition descKeyName :: "key \<Rightarrow> string" where
  "descKeyName k =
     (case Decode k of
        Inr [_, _, VString s] \<Rightarrow> s
      | _ \<Rightarrow> ''key '' @ bytes_str k)"

subsection \<open>The lookup table\<close>

lemma firstPos_Some:
  "firstPos P xs = Some i \<longleftrightarrow> i < length xs \<and> P (xs ! i) \<and> (\<forall>j<i. \<not> P (xs ! j))"
proof (induction xs arbitrary: i)
  case (Cons x xs)
  then show ?case by (cases i) (auto simp: less_Suc_eq_0_disj)
qed simp

lemma firstPos_None: "firstPos P xs = None \<longleftrightarrow> (\<forall>x\<in>set xs. \<not> P x)"
  by (induction xs) auto

lemma firstPos_distinct:
  assumes "distinct (map f xs)" "i < length xs"
  shows "firstPos (\<lambda>x. f x = f (xs ! i)) xs = Some i"
  unfolding firstPos_Some using assms
  by (auto simp: distinct_conv_nth)

lemma maxColID_ge: "c \<in> set cols \<Longrightarrow> c_ID c \<le> maxColID cols"
proof -
  have "m \<le> fold (\<lambda>c m. max m (c_ID c)) cols m \<and>
    (c \<in> set cols \<longrightarrow> c_ID c \<le> fold (\<lambda>c m. max m (c_ID c)) cols m)" for m
    by (induction cols arbitrary: m) (auto, (meson max.bounded_iff order_trans)+)
  then show "c \<in> set cols \<Longrightarrow> c_ID c \<le> maxColID cols" by (simp add: maxColID_def)
qed

lemma length_fillOrd [simp]: "length (fillOrd i cs t) = length t"
  by (induction i cs t rule: fillOrd.induct) auto

lemma fillOrd_nth:
  assumes "distinct (map c_ID cs)" "\<forall>c\<in>set cs. unat (c_ID c) < length t" "n < length t"
  shows "fillOrd i cs t ! n =
    (case firstPos (\<lambda>c. unat (c_ID c) = n) cs of Some j \<Rightarrow> int (i + j) | None \<Rightarrow> t ! n)"
  using assms
proof (induction i cs t rule: fillOrd.induct)
  case (2 i c cs t)
  show ?case
  proof (cases "unat (c_ID c) = n")
    case True
    then have "firstPos (\<lambda>c. unat (c_ID c) = n) cs = None"
      using "2.prems" by (auto simp: firstPos_None word_unat_eq_iff [symmetric] image_iff)
    then show ?thesis using True 2 by simp
  next
    case False
    then show ?thesis using 2 by (auto split: option.splits)
  qed
qed simp

text \<open>The lookup built by \<open>buildOrdByID\<close> answers what the linear search answers.\<close>

lemma colOrdinalByID_build:
  assumes "distinct (map c_ID (d_Columns d))" "d_ordByID d = None"
  shows "colOrdinalByID (buildOrdByID d) cid = colOrdinalByID d cid"
proof (cases "maxColID (d_Columns d) > 4096")
  case False
  let ?cs = "d_Columns d"
  let ?n = "unat (maxColID ?cs) + 1"
  have lt: "\<forall>c\<in>set ?cs. unat (c_ID c) < ?n"
    using maxColID_ge [of _ ?cs] by (auto simp: word_le_nat_alt less_Suc_eq_le)
  have eq: "(\<lambda>c. unat (c_ID c) = unat cid) = (\<lambda>c::column. c_ID c = cid)"
    by (auto simp: fun_eq_iff word_unat_eq_iff [symmetric])
  have big: "firstPos (\<lambda>c. c_ID c = cid) ?cs = None" if "\<not> unat cid < ?n"
    using lt that by (auto simp: firstPos_None)
  show ?thesis
  proof (cases "unat cid < ?n")
    case True
    then have "fillOrd 0 ?cs (replicate ?n (-1)) ! unat cid =
        (case firstPos (\<lambda>c. c_ID c = cid) ?cs of Some j \<Rightarrow> int j | None \<Rightarrow> -1)"
      using fillOrd_nth [OF assms(1), of "replicate ?n (-1)" "unat cid" 0] lt eq
      by (auto simp del: replicate_Suc split: option.splits)
    then show ?thesis using False True assms(2)
      by (simp add: colOrdinalByID_def buildOrdByID_def Let_def)
  next
    case nlt: False
    then show ?thesis using False assms(2) big
      by (simp add: colOrdinalByID_def buildOrdByID_def Let_def)
  qed
qed (simp add: buildOrdByID_def Let_def)

subsection \<open>The shape of the keys\<close>

declare appendValue.simps [simp del]

text \<open>Every key is an encoded tuple of canonical values.\<close>

abbreviation encTup :: "val list \<Rightarrow> bytes" where
  "encTup vs \<equiv> concat (map (encVal 0) vs)"

lemma mustEncode_key:
  "list_all normalVal vs \<Longrightarrow> Encode (map any_of vs) = Inr (encTup vs) \<and> mustEncode (map any_of vs) = encTup vs"
  by (simp add: mustEncode_def Encode_concat res_map_normalize_any_of)

lemma mustEncode_ints:
  "mustEncode [AInt64 a] = encTup [VInt a]"
  "mustEncode [AInt64 a, AInt64 b] = encTup [VInt a, VInt b]"
  "mustEncode [AInt64 a, AInt64 b, AInt64 c] = encTup [VInt a, VInt b, VInt c]"
  "mustEncode [AInt64 a, AInt64 b, AString n] = encTup [VInt a, VInt b, VString n]"
  "mustEncode [AInt64 a, AInt64 b, AInt64 c, AInt64 e] = encTup [VInt a, VInt b, VInt c, VInt e]"
  by (simp_all add: mustEncode_def Encode_concat)

lemmas key_shapes [enc_simps] =
  tableSpace_def [unfolded mustEncode_ints] indexPrefix_def [unfolded mustEncode_ints]
  tablePrefix_def [unfolded indexPrefix_def mustEncode_ints]
  descKey_def [unfolded mustEncode_ints] seqKey_def [unfolded mustEncode_ints]
  seqNameKey_def [unfolded mustEncode_ints] identitySeqKey_def [unfolded mustEncode_ints]
  identitySeqTablePrefix_def [unfolded mustEncode_ints]
  sqlSeqKey_def [unfolded mustEncode_ints] sqlSeqPrefix_def [unfolded mustEncode_ints]
  viewKey_def [unfolded mustEncode_ints]

lemma rowKey_normal:
  "list_all normalVal vs \<Longrightarrow> rowKey d vs = Inr (encTup (VInt (d_ID d) # VInt primaryIndexID # vs))"
  by (simp add: rowKey_def Append_concat res_map_normalize_any_of key_shapes)

text \<open>Prefixes of encoded tuples are encoded prefixes, because elements delimit themselves.\<close>

lemma encTup_prefix_iff: "prefix (encTup us) (encTup vs) \<longleftrightarrow> prefix us vs"
proof (induction us arbitrary: vs)
  case (Cons u us)
  show ?case
  proof (cases vs)
    case v: (Cons v vs')
    have "prefix (encTup (u # us)) (encTup vs) \<longleftrightarrow>
        (\<exists>r. encVal 0 v @ encTup vs' = encVal 0 u @ encTup us @ r)" by (simp add: v prefix_def)
    also have "\<dots> \<longleftrightarrow> v = u \<and> prefix (encTup us) (encTup vs')" by (auto simp: prefix_def)
    finally show ?thesis using Cons.IH v by auto
  qed simp
qed simp

lemma encTup_append_eq: "encTup vs @ r = encTup ws \<Longrightarrow> \<exists>us. ws = vs @ us \<and> r = encTup us"
proof -
  assume a: "encTup vs @ r = encTup ws"
  then have "prefix (encTup vs) (encTup ws)" by (metis prefixI)
  then have "prefix vs ws" by (simp only: encTup_prefix_iff)
  with a show ?thesis by (auto simp: prefix_def)
qed

text \<open>No encoded prefix is a run of 0xFF bytes, so its scan bound is always a real one.\<close>

lemma encVal_head: "hd (encVal 0 v) \<noteq> 0xFF"
  by (cases v) (simp_all add: encVal_str encVal_float appendValue.simps(1,2,3) appendU64_def tag_defs)

lemma PrefixEnd_encTup:
  assumes "vs \<noteq> []"
  shows "\<exists>e. PrefixEnd (encTup vs @ r) = Some e"
proof -
  obtain v ws where v: "vs = v # ws" using assms by (cases vs) auto
  have "hd (encVal 0 v) \<in> set (encTup vs @ r)" by (simp add: v)
  then have "\<not> set (encTup vs @ r) \<subseteq> {0xFF}" using encVal_head [of v] by blast
  then show ?thesis using PrefixEnd_None [of "encTup vs @ r"] by (cases "PrefixEnd (encTup vs @ r)") auto
qed

lemma prefix_interval:
  assumes "vs \<noteq> []"
  shows "encTup vs @ r \<le> k \<and> k < prefixEndKey (encTup vs @ r) \<longleftrightarrow> prefix (encTup vs @ r) k"
proof -
  obtain e where e: "PrefixEnd (encTup vs @ r) = Some e" using PrefixEnd_encTup [OF assms] by blast
  then have "prefixEndKey (encTup vs @ r) = e" by (simp add: prefixEndKey_def)
  then show ?thesis using PrefixEnd_bound [OF e] by simp
qed

lemmas prefix_interval' = prefix_interval [of _ "[]", unfolded append_Nil2]

text \<open>A key in the interval a table's row scan covers is one with the table's row prefix.\<close>

lemma tablePrefix_interval:
  "tablePrefix i \<le> k \<and> k < prefixEndKey (tablePrefix i) \<longleftrightarrow> prefix (tablePrefix i) k"
  unfolding key_shapes by (rule prefix_interval') simp

lemma indexPrefix_interval:
  "indexPrefix i j \<le> k \<and> k < prefixEndKey (indexPrefix i j) \<longleftrightarrow> prefix (indexPrefix i j) k"
  unfolding key_shapes by (rule prefix_interval') simp

lemma tableSpace_interval:
  "tableSpace i \<le> k \<and> k < prefixEndKey (tableSpace i) \<longleftrightarrow> prefix (tableSpace i) k"
  unfolding key_shapes by (rule prefix_interval') simp

subsection \<open>Regions are disjoint\<close>

lemma tableSpace_disjoint:
  "prefix (tableSpace i) k \<Longrightarrow> prefix (tableSpace j) k \<Longrightarrow> i = j"
  unfolding key_shapes by (auto simp: prefix_def)

lemma indexPrefix_space: "prefix (indexPrefix i j) k \<Longrightarrow> prefix (tableSpace i) k"
  unfolding key_shapes by (auto simp: prefix_def)

lemma indexPrefix_disjoint:
  "prefix (indexPrefix i j) k \<Longrightarrow> prefix (indexPrefix i' j') k \<Longrightarrow> i = i' \<and> j = j'"
  unfolding key_shapes by (auto simp: prefix_def)

lemma tablePrefix_space: "prefix (tablePrefix i) k \<Longrightarrow> prefix (tableSpace i) k"
  by (simp add: tablePrefix_def indexPrefix_space)

definition userTable :: "uint64 \<Rightarrow> bool" where
  "userTable i \<longleftrightarrow> firstUserTableID \<le> i"

lemma userTable_sys: "userTable i \<Longrightarrow> i \<notin> {sysIDSeqTableID, sysDescTableID, sysSeqTableID, sysViewTableID}"
  by (auto simp: userTable_def sys_ids word_le_nat_alt)

text \<open>The engine's own keys lie outside every user table's space.\<close>

lemma sys_keys_outside:
  assumes "userTable i"
  shows "\<not> prefix (tableSpace i) (descKey n)" "\<not> prefix (tableSpace i) seqKey"
    "\<not> prefix (tableSpace i) (seqNameKey n)" "\<not> prefix (tableSpace i) (identitySeqKey t c)"
    "\<not> prefix (tableSpace i) (sqlSeqKey n)" "\<not> prefix (tableSpace i) (viewKey n)"
  using userTable_sys [OF assms] unfolding key_shapes encTup_prefix_iff by auto

text \<open>The engine's own keys never collide with each other.\<close>

lemma unat_ucast_64: "unat (ucast (c::uint32) :: uint64) = unat c"
proof -
  have "unat c < 2 ^ 64" using unsigned_less [of c, where ?'a = nat] by simp
  then show ?thesis by (simp add: unsigned_ucast_eq take_bit_nat_eq_self)
qed

lemma ucast_inj_up [simp]: "(ucast (a::uint32) :: uint64) = ucast b \<longleftrightarrow> a = b"
  by (metis unat_ucast_64 word_unat_eq_iff)

lemma ucast_down_up [simp]: "(ucast (ucast (c::uint32) :: uint64) :: uint32) = c"
  unfolding word_unat_eq_iff [of _ c] unsigned_ucast_eq [where ?'a = nat and w = "ucast c :: uint64"] unat_ucast_64
  using unsigned_less [of c, where ?'a = nat] by (simp add: take_bit_nat_eq_self)

lemma sys_keys_inj [simp]:
  "descKey a = descKey b \<longleftrightarrow> a = b" "seqNameKey a = seqNameKey b \<longleftrightarrow> a = b"
  "sqlSeqKey a = sqlSeqKey b \<longleftrightarrow> a = b" "viewKey a = viewKey b \<longleftrightarrow> a = b"
  "identitySeqKey i c = identitySeqKey j e \<longleftrightarrow> i = j \<and> c = e"
  unfolding key_shapes encVal_concat_inj by (auto simp: ucast_inj_up)

lemma sys_keys_distinct [simp]:
  "descKey a \<noteq> seqKey" "descKey a \<noteq> seqNameKey b" "descKey a \<noteq> identitySeqKey i c"
  "descKey a \<noteq> sqlSeqKey b" "descKey a \<noteq> viewKey b"
  "seqKey \<noteq> seqNameKey b" "seqKey \<noteq> identitySeqKey i c" "seqKey \<noteq> sqlSeqKey b" "seqKey \<noteq> viewKey b"
  "seqNameKey a \<noteq> identitySeqKey i c" "seqNameKey a \<noteq> sqlSeqKey b" "seqNameKey a \<noteq> viewKey b"
  "identitySeqKey i c \<noteq> sqlSeqKey b" "identitySeqKey i c \<noteq> viewKey b" "sqlSeqKey a \<noteq> viewKey b"
  unfolding key_shapes encVal_concat_inj by (simp_all add: sys_ids)

end
