(* ===== verification/Utf8.thy ===== *)
theory Utf8
  imports Prelude
begin

text \<open>
  The conversions \<open>[]rune(s)\<close> and \<open>string(runes)\<close> of Go strings, which the VARCHAR limit counts
  with: bytes that are not well-formed UTF-8 decode, one byte at a time, to U+FFFD. Encoding a
  decoded rune and decoding it again gives it back.
\<close>

definition runeError :: nat where "runeError = 0xFFFD"

definition contByte :: "nat \<Rightarrow> bool" where
  "contByte b \<longleftrightarrow> 0x80 \<le> b \<and> b \<le> 0xBF"

text \<open>The range of the second byte after a three- or four-byte lead.\<close>

definition secondOk :: "nat \<Rightarrow> nat \<Rightarrow> bool" where
  "secondOk b0 b1 \<longleftrightarrow>
     (if b0 = 0xE0 then 0xA0 \<le> b1 \<and> b1 \<le> 0xBF
      else if b0 = 0xED then 0x80 \<le> b1 \<and> b1 \<le> 0x9F
      else if b0 = 0xF0 then 0x90 \<le> b1 \<and> b1 \<le> 0xBF
      else if b0 = 0xF4 then 0x80 \<le> b1 \<and> b1 \<le> 0x8F
      else contByte b1)"

text \<open>The first rune of a nonempty byte sequence and the bytes it takes.\<close>

fun decodeRune :: "nat list \<Rightarrow> nat \<times> nat" where
  "decodeRune [] = (runeError, 0)"
| "decodeRune (b0 # bs) =
     (if b0 < 0x80 then (b0, 1)
      else if 0xC2 \<le> b0 \<and> b0 \<le> 0xDF then
        (case bs of
           b1 # _ \<Rightarrow> if contByte b1 then ((b0 - 0xC0) * 64 + (b1 - 0x80), 2) else (runeError, 1)
         | _ \<Rightarrow> (runeError, 1))
      else if 0xE0 \<le> b0 \<and> b0 \<le> 0xEF then
        (case bs of
           b1 # b2 # _ \<Rightarrow>
             if secondOk b0 b1 \<and> contByte b2
             then ((b0 - 0xE0) * 4096 + (b1 - 0x80) * 64 + (b2 - 0x80), 3) else (runeError, 1)
         | _ \<Rightarrow> (runeError, 1))
      else if 0xF0 \<le> b0 \<and> b0 \<le> 0xF4 then
        (case bs of
           b1 # b2 # b3 # _ \<Rightarrow>
             if secondOk b0 b1 \<and> contByte b2 \<and> contByte b3
             then ((b0 - 0xF0) * 262144 + (b1 - 0x80) * 4096 + (b2 - 0x80) * 64 + (b3 - 0x80), 4)
             else (runeError, 1)
         | _ \<Rightarrow> (runeError, 1))
      else (runeError, 1))"

lemma decodeRune_size:
  "bs \<noteq> [] \<Longrightarrow> 0 < snd (decodeRune bs) \<and> snd (decodeRune bs) \<le> length bs"
  by (cases bs) (auto split: list.splits)

function runesOf :: "nat list \<Rightarrow> nat list" where
  "runesOf bs =
     (if bs = [] then [] else fst (decodeRune bs) # runesOf (drop (snd (decodeRune bs)) bs))"
  by pat_completeness auto
termination
proof (relation "measure length")
  fix bs :: "nat list"
  assume "bs \<noteq> []"
  with decodeRune_size [OF this] have "length (drop (snd (decodeRune bs)) bs) < length bs"
    unfolding length_drop by linarith
  then show "(drop (snd (decodeRune bs)) bs, bs) \<in> measure length" by (simp only: in_measure)
qed simp

declare runesOf.simps [simp del]

definition validRune :: "nat \<Rightarrow> bool" where
  "validRune r \<longleftrightarrow> r < 0xD800 \<or> 0xDFFF < r \<and> r \<le> 0x10FFFF"

definition encodeRune :: "nat \<Rightarrow> nat list" where
  "encodeRune r =
     (let r = (if validRune r then r else runeError)
      in if r < 0x80 then [r]
         else if r < 0x800 then [0xC0 + r div 64, 0x80 + r mod 64]
         else if r < 0x10000 then [0xE0 + r div 4096, 0x80 + r div 64 mod 64, 0x80 + r mod 64]
         else [0xF0 + r div 262144, 0x80 + r div 4096 mod 64, 0x80 + r div 64 mod 64, 0x80 + r mod 64])"

definition codes :: "string \<Rightarrow> nat list" where
  "codes s = map of_char s"

definition uncodes :: "nat list \<Rightarrow> string" where
  "uncodes ns = map char_of ns"

text \<open>\<open>[]rune(s)\<close> and \<open>string(rs)\<close>.\<close>

definition goRunes :: "string \<Rightarrow> nat list" where
  "goRunes s = runesOf (codes s)"

definition runesString :: "nat list \<Rightarrow> string" where
  "runesString rs = uncodes (concat (map encodeRune rs))"

subsection \<open>Round trip\<close>

lemma contByte_mod [simp]: "contByte (128 + n mod 64)"
  by (auto simp: contByte_def)

lemma secondOk_bounds:
  "secondOk b0 b1 \<Longrightarrow>
   0x80 \<le> b1 \<and> b1 \<le> 0xBF \<and> (b0 = 0xED \<longrightarrow> b1 \<le> 0x9F) \<and> (b0 = 0xF4 \<longrightarrow> b1 \<le> 0x8F)
    \<and> (b0 = 0xF0 \<longrightarrow> 0x90 \<le> b1)"
  by (auto simp: secondOk_def contByte_def split: if_splits)

lemma validRune_three:
  assumes "0xE0 \<le> b0" "b0 \<le> 0xEF" "secondOk b0 b1" "contByte b2"
  shows "validRune ((b0 - 0xE0) * 4096 + (b1 - 0x80) * 64 + (b2 - 0x80))"
proof -
  obtain x y z where xyz: "b0 = 0xE0 + x" "b1 = 0x80 + y" "b2 = 0x80 + z"
    using assms secondOk_bounds [OF assms(3)] by (metis contByte_def le_iff_add)
  have b: "x \<le> 15" "y \<le> 63" "z \<le> 63" "x = 13 \<longrightarrow> y \<le> 31"
    using assms secondOk_bounds [OF assms(3)] xyz by (auto simp: contByte_def)
  then consider "x \<le> 12" | "x = 13" "y \<le> 31" | "14 \<le> x" by linarith
  then show ?thesis using b xyz by cases (auto simp: validRune_def)
qed

lemma validRune_four:
  assumes "0xF0 \<le> b0" "b0 \<le> 0xF4" "secondOk b0 b1" "contByte b2" "contByte b3"
  shows "validRune ((b0 - 0xF0) * 262144 + (b1 - 0x80) * 4096 + (b2 - 0x80) * 64 + (b3 - 0x80))"
proof -
  obtain x y z u where xyz: "b0 = 0xF0 + x" "b1 = 0x80 + y" "b2 = 0x80 + z" "b3 = 0x80 + u"
    using assms secondOk_bounds [OF assms(3)] by (metis contByte_def le_iff_add)
  have b: "x \<le> 4" "y \<le> 63" "z \<le> 63" "u \<le> 63" "x = 4 \<longrightarrow> y \<le> 15" "x = 0 \<longrightarrow> 16 \<le> y"
    using assms secondOk_bounds [OF assms(3)] xyz by (auto simp: contByte_def)
  then consider "x = 0" "16 \<le> y" | "1 \<le> x" "x \<le> 3" | "x = 4" "y \<le> 15" by linarith
  then show ?thesis using b xyz by cases (auto simp: validRune_def)
qed

lemma decodeRune_valid: "validRune (fst (decodeRune bs))"
proof (cases bs)
  case (Cons b0 t)
  have "validRune runeError" by (simp add: validRune_def runeError_def)
  moreover have "validRune ((b0 - 0xC0) * 64 + (b1 - 0x80))" if "b0 \<le> 0xDF" "contByte b1" for b1
    using that by (auto simp: validRune_def contByte_def)
  moreover have "validRune b0" if "b0 < 0x80" using that by (simp add: validRune_def)
  ultimately show ?thesis
    using validRune_three [of b0] validRune_four [of b0] unfolding Cons
    by (simp split: list.splits)
qed (simp add: validRune_def runeError_def)

lemma div_parts: "(n::nat) div 4096 * 4096 + n div 64 mod 64 * 64 + n mod 64 = n"
proof -
  have "n div 4096 = n div 64 div 64" by (simp add: div_mult2_eq [symmetric])
  moreover have "n div 64 div 64 * 64 + n div 64 mod 64 = n div 64" by (rule div_mult_mod_eq)
  moreover have "n div 64 * 64 + n mod 64 = n" by (rule div_mult_mod_eq)
  ultimately show ?thesis by linarith
qed

lemma div_parts4:
  "(n::nat) div 262144 * 262144 + n div 4096 mod 64 * 4096 + n div 64 mod 64 * 64 + n mod 64 = n"
proof -
  have "n div 262144 = n div 4096 div 64" by (simp add: div_mult2_eq [symmetric])
  moreover have "n div 4096 div 64 * 64 + n div 4096 mod 64 = n div 4096" by (rule div_mult_mod_eq)
  ultimately show ?thesis using div_parts [of n] by linarith
qed

lemma decodeRune_encodeRune:
  assumes "validRune r"
  shows "decodeRune (encodeRune r @ rest) = (r, length (encodeRune r))"
proof -
  consider "r < 0x80" | "0x80 \<le> r" "r < 0x800" | "0x800 \<le> r" "r < 0x10000"
    | "0x10000 \<le> r" "r \<le> 0x10FFFF"
    using assms by (fastforce simp: validRune_def)
  then show ?thesis
  proof cases
    case 1
    then show ?thesis using assms by (simp add: encodeRune_def)
  next
    case 2
    then have "2 \<le> r div 64" "r div 64 \<le> 31" by auto
    then show ?thesis using assms 2 by (simp add: encodeRune_def)
  next
    case 3
    have d: "r div 4096 \<le> 15" using 3 by auto
    have p: "r div 64 = r div 4096 * 64 + r div 64 mod 64"
      using div_mult_mod_eq [of "r div 64" 64] by (simp add: div_mult2_eq [symmetric])
    have "secondOk (224 + r div 4096) (128 + r div 64 mod 64)"
    proof -
      have "r div 64 < 864 \<or> 895 < r div 64" using assms 3 by (auto simp: validRune_def)
      moreover have "32 \<le> r div 64" using 3 by auto
      ultimately show ?thesis using p d by (auto simp: secondOk_def)
    qed
    then show ?thesis using assms 3 d div_parts [of r] by (simp add: encodeRune_def)
  next
    case 4
    have d: "r div 262144 \<le> 4" using 4 by auto
    have p: "r div 4096 = r div 262144 * 64 + r div 4096 mod 64"
      using div_mult_mod_eq [of "r div 4096" 64] by (simp add: div_mult2_eq [symmetric])
    have "secondOk (240 + r div 262144) (128 + r div 4096 mod 64)"
    proof -
      have "16 \<le> r div 4096" "r div 4096 \<le> 271" using 4 by auto
      then show ?thesis using p d by (auto simp: secondOk_def)
    qed
    then show ?thesis using assms 4 d div_parts4 [of r] by (simp add: encodeRune_def)
  qed
qed

lemma encodeRune_nonempty [simp]: "encodeRune r \<noteq> []"
  by (auto simp: encodeRune_def Let_def)

lemma encodeRune_byte: "b \<in> set (encodeRune r) \<Longrightarrow> b < 256"
  by (auto simp: encodeRune_def Let_def validRune_def runeError_def split: if_splits)

lemma runesOf_encode:
  "list_all validRune rs \<Longrightarrow> runesOf (concat (map encodeRune rs)) = rs"
proof (induction rs)
  case (Cons r rs)
  then show ?case
    by (subst runesOf.simps) (simp add: decodeRune_encodeRune)
qed (simp add: runesOf.simps)

lemma runesOf_valid: "list_all validRune (runesOf bs)"
proof (induction bs rule: runesOf.induct)
  case (1 bs)
  then show ?case by (subst runesOf.simps) (simp add: decodeRune_valid)
qed

lemma length_runesOf: "length (runesOf bs) \<le> length bs"
proof (induction bs rule: runesOf.induct)
  case (1 bs)
  show ?case
  proof (cases "bs = []")
    case False
    then have "length (runesOf (drop (snd (decodeRune bs)) bs)) \<le> length bs - snd (decodeRune bs)"
      using 1 by simp
    moreover have "0 < snd (decodeRune bs)" "snd (decodeRune bs) \<le> length bs"
      using decodeRune_size [OF False] by auto
    ultimately show ?thesis using False by (subst runesOf.simps) simp
  qed (simp add: runesOf.simps)
qed

lemma codes_uncodes: "\<forall>b\<in>set ns. b < 256 \<Longrightarrow> codes (uncodes ns) = ns"
  by (induction ns) (auto simp: codes_def uncodes_def)

lemma goRunes_runesString: "list_all validRune rs \<Longrightarrow> goRunes (runesString rs) = rs"
  unfolding goRunes_def runesString_def
  by (subst codes_uncodes) (auto dest: encodeRune_byte simp: runesOf_encode)

lemma goRunes_valid: "list_all validRune (goRunes s)"
  by (simp add: goRunes_def runesOf_valid)

lemma length_goRunes: "length (goRunes s) \<le> length s"
  using length_runesOf [of "codes s"] by (simp add: goRunes_def codes_def)

text \<open>ASCII strings are valid UTF-8, one rune per byte.\<close>

lemma goRunes_ascii:
  assumes "\<forall>c\<in>set s. (of_char c :: nat) < 128"
  shows "goRunes s = codes s" "runesString (goRunes s) = s"
proof -
  have r: "list_all (\<lambda>b. b < 128) bs \<Longrightarrow> runesOf bs = bs" for bs
    by (induction bs) (simp_all add: runesOf.simps)
  have a: "list_all (\<lambda>b. b < 128) (codes s)" using assms by (simp add: codes_def list_all_iff)
  show g: "goRunes s = codes s" unfolding goRunes_def by (rule r [OF a])
  have e: "list_all (\<lambda>b. b < 128) bs \<Longrightarrow> concat (map encodeRune bs) = bs" for bs
    by (induction bs) (simp_all add: encodeRune_def validRune_def)
  have "uncodes (codes s) = s" by (induction s) (simp_all add: uncodes_def codes_def)
  then show "runesString (goRunes s) = s" unfolding g runesString_def e [OF a] .
qed

end
