(* ===== verification/Rows.thy ===== *)
theory Rows
  imports Catalog Utf8
begin

text \<open>
  Rows (\<open>src/dml.go\<close>): coercion of dynamic values to column types, the VARCHAR limit, key
  construction from full and partial primary keys, and the stored form of a row. A row's key
  columns are in its key; its other non-NULL columns are (column ID, value) pairs in its value.
  The lemmas show what decoding gives under any descriptor of the table, so a row written before
  a column was added or dropped still reads correctly, and that coercion yields typed values.
\<close>

subsection \<open>Coercion\<close>

fun coerceInt :: "any \<Rightarrow> int64 option" where
  "coerceInt (AInt n) = Some n"
| "coerceInt (AInt8 n) = Some (scast n)"
| "coerceInt (AInt16 n) = Some (scast n)"
| "coerceInt (AInt32 n) = Some (scast n)"
| "coerceInt (AInt64 n) = Some n"
| "coerceInt (AUint8 n) = Some (ucast n)"
| "coerceInt (AUint16 n) = Some (ucast n)"
| "coerceInt (AUint32 n) = Some (ucast n)"
| "coerceInt _ = None"

definition misfit :: "'a res" where
  "misfit = Inl (Msg ''value does not fit column type'')"

fun coerceBool :: "any \<Rightarrow> val res" where
  "coerceBool (ABool b) = Inr (VBool b)"
| "coerceBool v =
     (case coerceInt v of
        Some n \<Rightarrow> if n = 0 then Inr (VBool False) else if n = 1 then Inr (VBool True)
                  else Inl (Msg ''integer for a bool column must be 0 or 1'')
      | None \<Rightarrow> misfit)"

fun coerceFloat :: "any \<Rightarrow> val res" where
  "coerceFloat (AFloat64 n) = Inr (VFloat n)"
| "coerceFloat (AFloat32 n) = Inr (VFloat (f32_to_f64 n))"
| "coerceFloat (AInt n) = Inr (VFloat (i64_to_f64 n))"
| "coerceFloat (AInt64 n) = Inr (VFloat (i64_to_f64 n))"
| "coerceFloat _ = misfit"

fun coerceTimestamp :: "golib \<Rightarrow> any \<Rightarrow> val res" where
  "coerceTimestamp L (AInt64 x) = Inr (VInt x)"
| "coerceTimestamp L (ATime x) = Inr (VInt (unixMicro x))"
| "coerceTimestamp L (AString x) = res_bind (ParseTimestamp L x) (\<lambda>n. Inr (VInt n))"
| "coerceTimestamp L _ = misfit"

fun coerceDate :: "golib \<Rightarrow> any \<Rightarrow> val res" where
  "coerceDate L (AInt64 x) = Inr (VInt x)"
| "coerceDate L (ATime x) = Inr (VInt (dateDays (x\<lparr>t_off := 0\<rparr>)))"
| "coerceDate L (AString x) = res_bind (ParseDate L x) (\<lambda>n. Inr (VInt n))"
| "coerceDate L _ = misfit"

fun coerceUUID :: "any \<Rightarrow> val res" where
  "coerceUUID (ABytes x) =
     (if length x = 16 then Inr (VBytes x) else Inl (Msg ''uuid value must be 16 bytes''))"
| "coerceUUID (AArr16 x) = Inr (VBytes x)"
| "coerceUUID (AString x) = res_bind (ParseUUID x) (\<lambda>b. Inr (VBytes b))"
| "coerceUUID _ = misfit"

fun coerceTextArray :: "any \<Rightarrow> val res" where
  "coerceTextArray (AString x) = res_bind (CanonTextArray x) (\<lambda>s. Inr (VString s))"
| "coerceTextArray (AStrings xs) = Inr (VString (FormatTextArray (map Some xs)))"
| "coerceTextArray _ = misfit"

fun coerceJSONB :: "golib \<Rightarrow> any \<Rightarrow> val res" where
  "coerceJSONB L (AString x) = res_bind (CanonJSONB L x) (\<lambda>s. Inr (VString s))"
| "coerceJSONB L (ABytes x) = res_bind (CanonJSONB L (bytes_str x)) (\<lambda>s. Inr (VString s))"
| "coerceJSONB L _ = misfit"

definition coerce :: "golib \<Rightarrow> any \<Rightarrow> colType \<Rightarrow> val res" where
  "coerce L v t =
     (if v = ANil then Inr VNull
      else (case t of
              TBool \<Rightarrow> coerceBool v
            | TInt \<Rightarrow> (case coerceInt v of Some n \<Rightarrow> Inr (VInt n) | None \<Rightarrow> misfit)
            | TFloat \<Rightarrow> coerceFloat v
            | TString \<Rightarrow> (case v of AString s \<Rightarrow> Inr (VString s) | _ \<Rightarrow> misfit)
            | TBytes \<Rightarrow> (case v of ABytes b \<Rightarrow> Inr (VBytes b) | _ \<Rightarrow> misfit)
            | TTimestamp \<Rightarrow> coerceTimestamp L v
            | TDate \<Rightarrow> coerceDate L v
            | TUUID \<Rightarrow> coerceUUID v
            | TTextArray \<Rightarrow> coerceTextArray v
            | TJSONB \<Rightarrow> coerceJSONB L v
            | TOther _ \<Rightarrow> misfit))"

definition tooLong :: "int \<Rightarrow> err" where
  "tooLong n = Msg (''value too long for type character varying('' @ fmtInt n @ '')'')"

definition enforceMaxLen :: "val \<Rightarrow> column \<Rightarrow> val res" where
  "enforceMaxLen v c =
     (if c_MaxLen c \<le> 0 then Inr v
      else (case v of
              VString s \<Rightarrow>
                if int (length s) \<le> c_MaxLen c then Inr v
                else
                  (let runes = goRunes s; n = nat (c_MaxLen c)
                   in if length runes \<le> n then Inr v
                      else if list_ex (\<lambda>r. r \<noteq> 32) (drop n runes) then Inl (tooLong (c_MaxLen c))
                      else Inr (VString (runesString (take n runes))))
            | _ \<Rightarrow> Inr v))"

definition notNullErr :: "tableDesc \<Rightarrow> string \<Rightarrow> err" where
  "notNullErr desc col =
     Msg (''null value in column '' @ [CHR 0x22] @ col @ [CHR 0x22] @ '' of relation '' @ [CHR 0x22]
          @ d_Name desc @ [CHR 0x22] @ '' violates not-null constraint'')"

text \<open>One column of \<open>coerceRow\<close>'s loop.\<close>

definition coerceCol :: "golib \<Rightarrow> tableDesc \<Rightarrow> nat \<Rightarrow> any \<Rightarrow> val res" where
  "coerceCol L desc i v =
     (let c = d_Columns desc ! i
      in res_bind (coerce L v (c_Type c)) (\<lambda>cv0.
           res_bind (enforceMaxLen cv0 c) (\<lambda>cv.
             if cv = VNull \<and> isPK desc i then Inl (Msg ''primary key column may not be NULL'')
             else if cv = VNull \<and> (c_NotNull c \<or> c_Identity c) then Inl (notNullErr desc (c_Name c))
             else Inr cv)))"

definition coerceRow :: "golib \<Rightarrow> tableDesc \<Rightarrow> any list \<Rightarrow> val list res" where
  "coerceRow L desc vals =
     (if length vals \<noteq> length (d_Columns desc) then Inl (Msg ''wrong number of values'')
      else res_map (\<lambda>(i, v). coerceCol L desc i v) (enumerate 0 vals))"

subsection \<open>Primary keys and scan bounds\<close>

definition pkValues :: "tableDesc \<Rightarrow> val list \<Rightarrow> val list" where
  "pkValues desc row = map (\<lambda>ord. row ! ord) (d_PKCols desc)"

definition coercePK :: "golib \<Rightarrow> tableDesc \<Rightarrow> any list \<Rightarrow> val list res" where
  "coercePK L desc pkVals =
     res_map (\<lambda>(i, v).
       res_bind (coerce L v (c_Type (d_Columns desc ! (d_PKCols desc ! i)))) (\<lambda>cv.
         if cv = VNull then Inl (Msg ''primary key value may not be NULL'') else Inr cv))
       (enumerate 0 pkVals)"

definition fullPKKey :: "golib \<Rightarrow> tableDesc \<Rightarrow> any list \<Rightarrow> key res" where
  "fullPKKey L desc pkVals =
     (if length pkVals \<noteq> length (d_PKCols desc)
      then Inl (Msg ''wrong number of primary key values'')
      else res_bind (coercePK L desc pkVals) (\<lambda>coerced. rowKey desc coerced))"

definition boundKey :: "golib \<Rightarrow> tableDesc \<Rightarrow> bytes \<Rightarrow> any list \<Rightarrow> key res" where
  "boundKey L desc p pkVals =
     (if length pkVals > length (d_PKCols desc)
      then Inl (Msg ''too many primary key values in scan bound'')
      else res_bind (coercePK L desc pkVals) (\<lambda>coerced. Append p (map any_of coerced)))"

subsection \<open>The stored row\<close>

definition encodeRowValue :: "tableDesc \<Rightarrow> val list \<Rightarrow> bytes res" where
  "encodeRowValue desc row =
     res_fold (\<lambda>i buf.
       if isPK desc i \<or> row ! i = VNull then Inr buf
       else Append buf [AInt64 (ucast (c_ID (d_Columns desc ! i))), any_of (row ! i)])
       [0..<length (d_Columns desc)] []"

text \<open>The loop over the (column ID, value) pairs; unknown IDs are dropped columns.\<close>

fun decodePairs :: "tableDesc \<Rightarrow> val list \<Rightarrow> val list \<Rightarrow> val list res" where
  "decodePairs desc (VInt cid # v # pairs) vals =
     (let ord = colOrdinalByID desc (ucast cid)
      in decodePairs desc pairs (if ord \<ge> 0 then vals[nat ord := v] else vals))"
| "decodePairs desc [] vals = Inr vals"
| "decodePairs desc _ vals = Inl (Msg ''row value column tag is not an ID'')"

definition placePK :: "tableDesc \<Rightarrow> val list \<Rightarrow> val list \<Rightarrow> val list" where
  "placePK desc keyVals vals = fold (\<lambda>(ord, v) vs. vs[ord := v]) (zip (d_PKCols desc) keyVals) vals"

definition decodeRow :: "tableDesc \<Rightarrow> key \<Rightarrow> bytes \<Rightarrow> val list res" where
  "decodeRow desc k val =
     res_bind (Decode k) (\<lambda>keyVals.
       if length keyVals \<noteq> 2 + length (d_PKCols desc) then Inl (Msg ''row key has wrong arity'')
       else
         res_bind (Decode val) (\<lambda>pairs.
           if odd (length pairs) then Inl (Msg ''row value has dangling column tag'')
           else decodePairs desc pairs
                  (placePK desc (drop 2 keyVals) (replicate (length (d_Columns desc)) VNull))))"

subsection \<open>Well-formed descriptors and rows\<close>

text \<open>A Go value: a \<open>[16]byte\<close> has sixteen bytes.\<close>

fun goValue :: "any \<Rightarrow> bool" where
  "goValue (AArr16 b) \<longleftrightarrow> length b = 16"
| "goValue _ \<longleftrightarrow> True"

text \<open>The canonical representation of each column type.\<close>

fun valOk :: "colType \<Rightarrow> val \<Rightarrow> bool" where
  "valOk t VNull \<longleftrightarrow> True"
| "valOk TBool v \<longleftrightarrow> (case v of VBool _ \<Rightarrow> True | _ \<Rightarrow> False)"
| "valOk TInt v \<longleftrightarrow> (case v of VInt _ \<Rightarrow> True | _ \<Rightarrow> False)"
| "valOk TTimestamp v \<longleftrightarrow> (case v of VInt _ \<Rightarrow> True | _ \<Rightarrow> False)"
| "valOk TDate v \<longleftrightarrow> (case v of VInt _ \<Rightarrow> True | _ \<Rightarrow> False)"
| "valOk TFloat v \<longleftrightarrow> (case v of VFloat _ \<Rightarrow> True | _ \<Rightarrow> False)"
| "valOk TString v \<longleftrightarrow> (case v of VString _ \<Rightarrow> True | _ \<Rightarrow> False)"
| "valOk TBytes v \<longleftrightarrow> (case v of VBytes _ \<Rightarrow> True | _ \<Rightarrow> False)"
| "valOk TUUID v \<longleftrightarrow> (case v of VBytes b \<Rightarrow> length b = 16 | _ \<Rightarrow> False)"
| "valOk TTextArray v \<longleftrightarrow> (case v of VString s \<Rightarrow> CanonTextArray s = Inr s | _ \<Rightarrow> False)"
| "valOk TJSONB v \<longleftrightarrow> (case v of VString _ \<Rightarrow> True | _ \<Rightarrow> False)"
| "valOk (TOther _) v \<longleftrightarrow> False"

definition maxLenOk :: "column \<Rightarrow> val \<Rightarrow> bool" where
  "maxLenOk c v \<longleftrightarrow>
     (case v of VString s \<Rightarrow> c_MaxLen c \<le> 0 \<or> int (length (goRunes s)) \<le> c_MaxLen c | _ \<Rightarrow> True)"

text \<open>
  \<open>CreateTable\<close> admits a length limit on string columns only, and the engine's own descriptors
  have distinct column and index IDs, in-range ordinals, and a next column ID above all they use.
\<close>

definition colOk :: "column \<Rightarrow> bool" where
  "colOk c \<longleftrightarrow> (c_MaxLen c \<le> 0 \<or> c_Type c = TString)"

definition ordOk :: "tableDesc \<Rightarrow> bool" where
  "ordOk d \<longleftrightarrow> d_ordByID d = None \<or> d_ordByID d = d_ordByID (buildOrdByID (clone d))"

definition descOk :: "tableDesc \<Rightarrow> bool" where
  "descOk d \<longleftrightarrow>
     distinct (map c_ID (d_Columns d)) \<and> ordOk d \<and> list_all colOk (d_Columns d) \<and>
     d_PKCols d \<noteq> [] \<and> distinct (d_PKCols d) \<and>
     list_all (\<lambda>i. i < length (d_Columns d)) (d_PKCols d) \<and>
     list_all (\<lambda>x. x_Cols x \<noteq> [] \<and> list_all (\<lambda>i. i < length (d_Columns d)) (x_Cols x)) (d_Indexes d) \<and>
     distinct (map x_ID (d_Indexes d)) \<and> primaryIndexID \<notin> set (map x_ID (d_Indexes d)) \<and>
     userTable (d_ID d) \<and> list_all (\<lambda>c. c_ID c < d_NextColID d) (d_Columns d)"

definition colValOk :: "tableDesc \<Rightarrow> nat \<Rightarrow> val \<Rightarrow> bool" where
  "colValOk d i v \<longleftrightarrow>
     (let c = d_Columns d ! i
      in valOk (c_Type c) v \<and> maxLenOk c v \<and>
         (v = VNull \<longrightarrow> \<not> isPK d i \<and> \<not> c_NotNull c \<and> \<not> c_Identity c))"

definition rowOk :: "tableDesc \<Rightarrow> val list \<Rightarrow> bool" where
  "rowOk d row \<longleftrightarrow> length row = length (d_Columns d) \<and> list_all normalVal row \<and>
     list_all (\<lambda>i. colValOk d i (row ! i)) [0..<length row]"

lemma rowOk_simps:
  "rowOk d row \<longleftrightarrow> length row = length (d_Columns d) \<and> (\<forall>v\<in>set row. normalVal v) \<and>
     (\<forall>i<length row. colValOk d i (row ! i))"
  by (auto simp: rowOk_def list_all_iff)

subsection \<open>Coercion is typed\<close>

lemma coerceInt_nil [simp]: "coerceInt ANil = None" by simp

lemma FormatTextArray_canon: "CanonTextArray (FormatTextArray es) = Inr (FormatTextArray es)"
  by (simp add: CanonTextArray_def ParseTextArray_format)

lemma CanonTextArray_fix: "CanonTextArray x = Inr s \<Longrightarrow> CanonTextArray s = Inr s"
  by (auto simp: CanonTextArray_def ParseTextArray_format)

lemma ParseUUID_length: "ParseUUID s = Inr b \<Longrightarrow> length b = 16"
  by (auto simp: ParseUUID_def Let_def split: if_splits option.splits dest!: hexDecode_length)

lemma coerce_typed:
  assumes "coerce L v t = Inr w" "goValue v"
  shows "valOk t w" "w = VNull \<longleftrightarrow> v = ANil"
proof -
  have "valOk t w \<and> (w = VNull \<longleftrightarrow> v = ANil)"
  proof (cases t)
    case TBool
    then show ?thesis using assms
      by (cases v) (auto simp: coerce_def misfit_def split: if_splits option.splits)
  next
    case TUUID
    then show ?thesis using assms
      by (cases v) (auto simp: coerce_def misfit_def ParseUUID_length split: if_splits)
  next
    case TTextArray
    then show ?thesis using assms
      by (cases v) (auto simp: coerce_def misfit_def FormatTextArray_canon CanonTextArray_fix split: if_splits)
  qed (use assms in \<open>cases v; auto simp: coerce_def misfit_def split: if_splits option.splits\<close>)+
  then show "valOk t w" "w = VNull \<longleftrightarrow> v = ANil" by simp_all
qed

lemma enforceMaxLen_props:
  assumes "enforceMaxLen v c = Inr w"
  shows "maxLenOk c w" "c_MaxLen c \<le> 0 \<or> c_Type c = TString \<Longrightarrow> valOk (c_Type c) v \<Longrightarrow> valOk (c_Type c) w"
    "w = VNull \<longleftrightarrow> v = VNull"
proof -
  show "maxLenOk c w"
  proof (cases v)
    case (VString s)
    have "length (goRunes (runesString (take n (goRunes s)))) \<le> n" for n
      using goRunes_valid [of s]
      by (subst goRunes_runesString) (auto simp: list_all_iff dest: in_set_takeD)
    moreover have "int (length (goRunes s)) \<le> int (length s)" using length_goRunes [of s] by simp
    ultimately show ?thesis using assms VString
      by (auto simp: enforceMaxLen_def maxLenOk_def Let_def nat_le_iff split: if_splits)
        (smt (verit) int_nat_eq of_nat_le_iff)+
  qed (use assms in \<open>auto simp: enforceMaxLen_def maxLenOk_def split: if_splits\<close>)
  show "w = VNull \<longleftrightarrow> v = VNull"
    using assms by (cases v) (auto simp: enforceMaxLen_def Let_def split: if_splits)
  show "valOk (c_Type c) w" if "c_MaxLen c \<le> 0 \<or> c_Type c = TString" "valOk (c_Type c) v"
    using assms that by (cases v) (auto simp: enforceMaxLen_def Let_def split: if_splits)
qed

subsection \<open>The value a stored element reads back as\<close>

text \<open>The encoder refuses NaN and writes negative zero as zero; nothing else changes.\<close>

definition isNaN :: "val \<Rightarrow> bool" where
  "isNaN v \<longleftrightarrow> (case v of VFloat f \<Rightarrow> f64_is_nan f | _ \<Rightarrow> False)"

definition canonVal :: "val \<Rightarrow> val" where
  "canonVal v = (case v of VFloat f \<Rightarrow> if f64_is_zero f then VFloat 0 else v | _ \<Rightarrow> v)"

abbreviation nanErr :: err where
  "nanErr \<equiv> Msg ''tuple: NaN is not encodable''"

lemma normalize_any: "normalize (any_of v) = (if isNaN v then Inl nanErr else Inr (canonVal v))"
  by (cases v) (auto simp: isNaN_def canonVal_def normalizeFloat_def)

lemma res_map_normalize_any:
  "res_map normalize (map any_of vs) =
     (if list_ex isNaN vs then Inl nanErr else Inr (map canonVal vs))"
  by (induction vs) (auto simp: normalize_any)

lemma canonVal_normal: "normalVal v \<Longrightarrow> canonVal v = v \<and> \<not> isNaN v"
  using normalize_any_of [of v] by (auto simp: normalize_any split: if_splits)

lemma normal_canonVal: "\<not> isNaN v \<Longrightarrow> normalVal (canonVal v)"
  using normalize_normal [of "any_of v" "canonVal v"] by (simp add: normalize_any)

lemma canonVal_VNull [simp]: "canonVal v = VNull \<longleftrightarrow> v = VNull"
  by (cases v) (auto simp: canonVal_def)

lemma canonVal_VNull' [simp]: "canonVal VNull = VNull"
  by (simp add: canonVal_def)

lemma map_canonVal_normal: "\<forall>v\<in>set vs. normalVal v \<Longrightarrow> map canonVal vs = vs \<and> \<not> list_ex isNaN vs"
  by (induction vs) (auto simp: canonVal_normal)

lemma valOk_canonVal [simp]: "valOk t (canonVal v) \<longleftrightarrow> valOk t v"
  by (cases v; cases t) (auto simp: canonVal_def)

lemma maxLenOk_canonVal [simp]: "maxLenOk c (canonVal v) \<longleftrightarrow> maxLenOk c v"
  by (cases v) (auto simp: canonVal_def maxLenOk_def)

lemma colValOk_canonVal [simp]: "colValOk d i (canonVal v) \<longleftrightarrow> colValOk d i v"
  by (simp add: colValOk_def Let_def)

lemma rowKey_any:
  "rowKey d pk = (if list_ex isNaN pk then Inl nanErr
     else Inr (encTup (VInt (d_ID d) # VInt primaryIndexID # map canonVal pk)))"
  by (simp add: rowKey_def Append_concat res_map_normalize_any key_shapes)

subsection \<open>The pairs of a stored row\<close>

definition rowPairs :: "tableDesc \<Rightarrow> val list \<Rightarrow> (uint32 \<times> val) list" where
  "rowPairs d row =
     map (\<lambda>i. (c_ID (d_Columns d ! i), row ! i))
       (filter (\<lambda>i. \<not> (isPK d i \<or> row ! i = VNull)) [0..<length (d_Columns d)])"

definition flatPairs :: "(uint32 \<times> val) list \<Rightarrow> val list" where
  "flatPairs ps = concat (map (\<lambda>(i, v). [VInt (ucast i), v]) ps)"

lemma flatPairs_simps [simp]:
  "flatPairs [] = []" "flatPairs ((i, v) # ps) = VInt (ucast i) # v # flatPairs ps"
  by (simp_all add: flatPairs_def)

lemma even_flatPairs [simp]: "even (length (flatPairs ps))"
  by (induction ps) auto

lemma Append_pair:
  "Append buf [AInt64 a, any_of v] =
     (if isNaN v then Inl nanErr else Inr (buf @ encVal 0 (VInt a) @ encVal 0 (canonVal v)))"
  by (simp add: Append_concat normalize_any)

lemma encodeRowValue_eq:
  assumes "length row = length (d_Columns d)"
  shows "encodeRowValue d row =
    (if \<exists>i<length row. \<not> isPK d i \<and> isNaN (row ! i) then Inl nanErr
     else Inr (encTup (flatPairs (rowPairs d (map canonVal row)))))"
proof -
  define F where "F = (\<lambda>i buf. if isPK d i \<or> row ! i = VNull then Inr buf
       else Append buf [AInt64 (ucast (c_ID (d_Columns d ! i))), any_of (row ! i)])"
  have "res_fold F is buf =
    (if \<exists>i\<in>set is. \<not> isPK d i \<and> isNaN (row ! i) then Inl nanErr
     else Inr (buf @ encTup (flatPairs (map (\<lambda>i. (c_ID (d_Columns d ! i), canonVal (row ! i)))
       (filter (\<lambda>i. \<not> (isPK d i \<or> row ! i = VNull)) is)))))" for "is" buf
  proof (induction "is" arbitrary: buf)
    case (Cons i js)
    have "\<not> isNaN VNull" by (simp add: isNaN_def)
    then show ?case using Cons by (auto simp: F_def Append_pair)
  qed simp
  note fold = this [of "[0..<length row]" "[]"]
  have "rowPairs d (map canonVal row) = map (\<lambda>i. (c_ID (d_Columns d ! i), canonVal (row ! i)))
       (filter (\<lambda>i. \<not> (isPK d i \<or> row ! i = VNull)) [0..<length row])"
    unfolding rowPairs_def assms [symmetric] by (intro map_cong filter_cong) auto
  moreover have "(\<exists>i\<in>set [0..<length row]. \<not> isPK d i \<and> isNaN (row ! i)) \<longleftrightarrow>
      (\<exists>i<length row. \<not> isPK d i \<and> isNaN (row ! i))" by auto
  moreover have "encodeRowValue d row = res_fold F [0..<length row] []"
    by (simp add: encodeRowValue_def F_def assms)
  ultimately show ?thesis using fold by simp
qed

lemma distinct_rowPairs:
  "distinct (map c_ID (d_Columns d)) \<Longrightarrow> distinct (map fst (rowPairs d row))"
  by (auto simp: rowPairs_def distinct_map inj_on_def) (metis nth_eq_iff_index_eq nth_mem)

lemma map_of_rowPairs:
  assumes "distinct (map c_ID (d_Columns d))" "i < length (d_Columns d)"
  shows "map_of (rowPairs d row) (c_ID (d_Columns d ! i)) =
    (if isPK d i \<or> row ! i = VNull then None else Some (row ! i))"
proof (cases "isPK d i \<or> row ! i = VNull")
  case True
  have "j = i" if "j < length (d_Columns d)" "c_ID (d_Columns d ! i) = c_ID (d_Columns d ! j)" for j
    using assms that by (metis length_map nth_eq_iff_index_eq nth_map)
  with True have "c_ID (d_Columns d ! i) \<noteq> c_ID (d_Columns d ! j)"
    if "j < length (d_Columns d)" "\<not> (isPK d j \<or> row ! j = VNull)" for j
    using that by blast
  then have "c_ID (d_Columns d ! i) \<notin> fst ` set (rowPairs d row)"
    by (fastforce simp: rowPairs_def)
  then show ?thesis using True by (simp add: map_of_eq_None_iff)
next
  case False
  then have "(c_ID (d_Columns d ! i), row ! i) \<in> set (rowPairs d row)"
    using assms(2) by (auto simp: rowPairs_def)
  then show ?thesis using False distinct_rowPairs [OF assms(1)] by simp
qed

subsection \<open>Decoding under any descriptor of the table\<close>

lemma colOrdinalByID_eq:
  assumes "descOk d"
  shows "colOrdinalByID d cid =
    (case firstPos (\<lambda>c. c_ID c = cid) (d_Columns d) of Some i \<Rightarrow> int i | None \<Rightarrow> -1)"
proof (cases "d_ordByID d")
  case None
  then show ?thesis by (simp add: colOrdinalByID_def)
next
  case (Some t)
  have "colOrdinalByID d cid = colOrdinalByID (buildOrdByID (clone d)) cid"
    using assms Some by (auto simp: descOk_def ordOk_def colOrdinalByID_def split: option.splits)
  also have "\<dots> = colOrdinalByID (clone d) cid"
    using assms by (intro colOrdinalByID_build) (auto simp: descOk_def clone_def)
  finally show ?thesis by (simp add: colOrdinalByID_def clone_def)
qed

lemma decodePairs_flat:
  assumes "descOk d" "distinct (map fst ps)" "length vals = length (d_Columns d)"
  shows "\<exists>vals'. decodePairs d (flatPairs ps) vals = Inr vals' \<and> length vals' = length vals \<and>
    (\<forall>j<length vals. vals' ! j =
      (case map_of ps (c_ID (d_Columns d ! j)) of Some v \<Rightarrow> v | None \<Rightarrow> vals ! j))"
  using assms(2,3)
proof (induction ps arbitrary: vals)
  case (Cons p ps)
  obtain cid v where p: "p = (cid, v)" by (cases p)
  have dist: "distinct (map c_ID (d_Columns d))" using assms(1) by (simp add: descOk_def)
  let ?vs = "case firstPos (\<lambda>c. c_ID c = cid) (d_Columns d) of Some i \<Rightarrow> vals[i := v] | None \<Rightarrow> vals"
  have step: "decodePairs d (flatPairs (p # ps)) vals = decodePairs d (flatPairs ps) ?vs"
    by (simp add: p colOrdinalByID_eq [OF assms(1)] split: option.splits)
  have "length ?vs = length vals" by (simp split: option.splits)
  then obtain vals' where v': "decodePairs d (flatPairs ps) ?vs = Inr vals'" "length vals' = length vals"
    "\<forall>j<length vals. vals' ! j = (case map_of ps (c_ID (d_Columns d ! j)) of Some v \<Rightarrow> v | None \<Rightarrow> ?vs ! j)"
    using Cons.IH [of ?vs] Cons.prems by auto
  have nth: "?vs ! j = (if c_ID (d_Columns d ! j) = cid then v else vals ! j)" if "j < length vals" for j
  proof (cases "c_ID (d_Columns d ! j) = cid")
    case True
    then have "firstPos (\<lambda>c. c_ID c = cid) (d_Columns d) = Some j"
      using firstPos_distinct [OF dist, of j] that Cons.prems(2) by simp
    then show ?thesis using True that by simp
  next
    case False
    then have "i \<noteq> j" if "firstPos (\<lambda>c. c_ID c = cid) (d_Columns d) = Some i" for i
      using that by (auto simp: firstPos_Some)
    then show ?thesis using False
      by (cases "firstPos (\<lambda>c. c_ID c = cid) (d_Columns d)") simp_all
  qed
  have none: "map_of ps cid = None" using Cons.prems(1) p by (auto simp: map_of_eq_None_iff)
  have "vals' ! j = (case map_of (p # ps) (c_ID (d_Columns d ! j)) of Some v \<Rightarrow> v | None \<Rightarrow> vals ! j)"
    if "j < length vals" for j
    using v'(3) nth [OF that] none that
    by (cases "map_of ps (c_ID (d_Columns d ! j))") (auto simp: p)
  then show ?case using step v'(1,2) by auto
qed simp

lemma length_placePK [simp]: "length (placePK d pk vals) = length vals"
proof -
  have "length (fold (\<lambda>(ord, v) vs. vs[ord := v]) ps vals) = length vals" for ps :: "(nat \<times> val) list"
    by (induction ps arbitrary: vals) auto
  then show ?thesis by (simp add: placePK_def)
qed

lemma placePK_nth:
  assumes "distinct (d_PKCols d)" "length pk = length (d_PKCols d)" "j < length vals"
  shows "placePK d pk vals ! j =
    (case map_of (zip (d_PKCols d) pk) j of Some v \<Rightarrow> v | None \<Rightarrow> vals ! j)"
proof -
  have "fold (\<lambda>(ord, v) vs. vs[ord := v]) ps vals ! j =
      (case map_of ps j of Some v \<Rightarrow> v | None \<Rightarrow> vals ! j)"
    if "distinct (map fst ps)" for ps
    using that assms(3)
  proof (induction ps arbitrary: vals)
    case (Cons p ps)
    obtain a b where p: "p = (a, b)" by (cases p)
    have "map_of ps a = None" using Cons.prems by (simp add: p map_of_eq_None_iff)
    then show ?case using Cons.IH [of "vals[a := b]"] Cons.prems
      by (cases "a = j"; cases "map_of ps j") (simp_all add: p)
  qed simp
  then show ?thesis using assms by (simp add: placePK_def)
qed

text \<open>
  A row of the table read under a descriptor \<open>d\<close>: key columns come from the key by position,
  every other column from the pair that carries its ID, NULL when there is none.
\<close>

lemma decodeRow_any:
  assumes "descOk d" "distinct (map fst ps)" "length pk = length (d_PKCols d)"
  shows "\<exists>row. decodeRow d (encTup (a # b # pk)) (encTup (flatPairs ps)) = Inr row \<and>
    length row = length (d_Columns d) \<and>
    (\<forall>j<length row. row ! j =
       (case map_of ps (c_ID (d_Columns d ! j)) of
          Some v \<Rightarrow> v
        | None \<Rightarrow> (case map_of (zip (d_PKCols d) pk) j of Some v \<Rightarrow> v | None \<Rightarrow> VNull)))"
proof -
  let ?n = "length (d_Columns d)"
  let ?vs = "placePK d pk (replicate ?n VNull)"
  have pk: "distinct (d_PKCols d)" using assms(1) by (simp add: descOk_def)
  have len: "length ?vs = ?n" by simp
  have "Decode (encTup (a # b # pk)) = Inr (a # b # pk)" by (rule Decode_concat)
  then have "decodeRow d (encTup (a # b # pk)) (encTup (flatPairs ps)) = decodePairs d (flatPairs ps) ?vs"
    using assms(3) by (simp only: decodeRow_def Decode_concat res_bind_Inr) simp
  moreover obtain row where "decodePairs d (flatPairs ps) ?vs = Inr row" "length row = ?n"
    "\<forall>j<?n. row ! j = (case map_of ps (c_ID (d_Columns d ! j)) of Some v \<Rightarrow> v | None \<Rightarrow> ?vs ! j)"
    using decodePairs_flat [OF assms(1,2), of ?vs] len by auto
  ultimately show ?thesis
    using placePK_nth [OF pk assms(3), of _ "replicate ?n VNull"]
    by (auto split: option.splits)
qed

text \<open>Two descriptors of one table: the same key columns, by ID and in the same order.\<close>

definition pkIDs :: "tableDesc \<Rightarrow> uint32 list" where
  "pkIDs d = map (\<lambda>i. c_ID (d_Columns d ! i)) (d_PKCols d)"

definition sameKey :: "tableDesc \<Rightarrow> tableDesc \<Rightarrow> bool" where
  "sameKey d d' \<longleftrightarrow> d_ID d = d_ID d' \<and> pkIDs d = pkIDs d'"

lemma descOkD:
  assumes "descOk d"
  shows "distinct (map c_ID (d_Columns d))" "distinct (d_PKCols d)" "d_PKCols d \<noteq> []"
    "\<And>i. i \<in> set (d_PKCols d) \<Longrightarrow> i < length (d_Columns d)"
    "\<And>x i. x \<in> set (d_Indexes d) \<Longrightarrow> i \<in> set (x_Cols x) \<Longrightarrow> i < length (d_Columns d)"
    "\<And>x. x \<in> set (d_Indexes d) \<Longrightarrow> x_ID x \<noteq> primaryIndexID"
    "distinct (map x_ID (d_Indexes d))" "userTable (d_ID d)"
    "\<And>c. c \<in> set (d_Columns d) \<Longrightarrow> colOk c" "\<And>c. c \<in> set (d_Columns d) \<Longrightarrow> c_ID c < d_NextColID d"
  using assms by (auto simp: descOk_def list_all_iff) (metis image_eqI)

lemma map_of_zip_absent: "(\<And>p. p < length xs \<Longrightarrow> j \<noteq> xs ! p) \<Longrightarrow> map_of (zip xs ys) j = None"
  by (metis in_set_conv_nth map_of_SomeD not_None_eq set_zip_leftD)

lemma col_ID_inj:
  "descOk d \<Longrightarrow> i < length (d_Columns d) \<Longrightarrow> j < length (d_Columns d) \<Longrightarrow>
   c_ID (d_Columns d ! i) = c_ID (d_Columns d ! j) \<longleftrightarrow> i = j"
  using descOkD(1) [of d] by (metis length_map nth_eq_iff_index_eq nth_map)

lemma firstPos_ID:
  "descOk d \<Longrightarrow> i < length (d_Columns d) \<Longrightarrow>
   firstPos (\<lambda>c. c_ID c = c_ID (d_Columns d ! i)) (d_Columns d) = Some i"
  by (rule firstPos_distinct [OF descOkD(1)])

text \<open>Reading a stored row under another descriptor of its table: values follow column IDs.\<close>

lemma decodeRow_sameKey:
  assumes d: "descOk d" and d': "descOk d'" and same: "sameKey d d'"
    and len: "length row = length (d_Columns d)"
    and k: "rowKey d (pkValues d row) = Inr k" and b: "encodeRowValue d row = Inr b"
  shows "\<exists>row'. decodeRow d' k b = Inr row' \<and> length row' = length (d_Columns d') \<and>
    (\<forall>j<length row'. row' ! j =
      (case firstPos (\<lambda>c. c_ID c = c_ID (d_Columns d' ! j)) (d_Columns d) of
         Some i \<Rightarrow> canonVal (row ! i) | None \<Rightarrow> VNull))"
proof -
  let ?row = "map canonVal row" and ?pk = "map canonVal (pkValues d row)"
  let ?ps = "rowPairs d ?row"
  have k': "k = encTup (VInt (d_ID d) # VInt primaryIndexID # ?pk)"
    using k by (auto simp: rowKey_any split: if_splits)
  have b': "b = encTup (flatPairs ?ps)" using b by (auto simp: encodeRowValue_eq [OF len] split: if_splits)
  have ids: "pkIDs d = pkIDs d'" using same by (simp add: sameKey_def)
  then have lpk: "length (d_PKCols d) = length (d_PKCols d')" by (metis length_map pkIDs_def)
  then have lp: "length ?pk = length (d_PKCols d')" by (simp add: pkValues_def)
  obtain row' where r: "decodeRow d' k b = Inr row'" "length row' = length (d_Columns d')"
    and nth: "\<And>j. j < length row' \<Longrightarrow> row' ! j = (case map_of ?ps (c_ID (d_Columns d' ! j)) of
        Some v \<Rightarrow> v | None \<Rightarrow> (case map_of (zip (d_PKCols d') ?pk) j of Some v \<Rightarrow> v | None \<Rightarrow> VNull))"
    using decodeRow_any [OF d' distinct_rowPairs [OF descOkD(1) [OF d]] lp] unfolding k' b' by metis
  have idp: "c_ID (d_Columns d ! (d_PKCols d ! p)) = c_ID (d_Columns d' ! (d_PKCols d' ! p))"
    if "p < length (d_PKCols d)" for p
    using ids that lpk by (metis nth_map pkIDs_def)
  have "row' ! j = (case firstPos (\<lambda>c. c_ID c = c_ID (d_Columns d' ! j)) (d_Columns d) of
      Some i \<Rightarrow> canonVal (row ! i) | None \<Rightarrow> VNull)" if j: "j < length row'" for j
  proof (cases "firstPos (\<lambda>c. c_ID c = c_ID (d_Columns d' ! j)) (d_Columns d)")
    case None
    then have no: "c_ID (d_Columns d' ! j) \<noteq> c_ID (d_Columns d ! i)" if "i < length (d_Columns d)" for i
      using that by (auto simp: firstPos_None)
    have "map_of ?ps (c_ID (d_Columns d' ! j)) = None"
      using no by (fastforce simp: map_of_eq_None_iff rowPairs_def)
    moreover have "j \<noteq> d_PKCols d' ! p" if "p < length (d_PKCols d')" for p
      using no [of "d_PKCols d ! p"] idp [of p] that lpk descOkD(4) [OF d] nth_mem by metis
    then have "map_of (zip (d_PKCols d') ?pk) j = None" by (rule map_of_zip_absent)
    ultimately show ?thesis using None nth [OF j] by simp
  next
    case (Some i)
    then have i: "i < length (d_Columns d)" and e: "c_ID (d_Columns d ! i) = c_ID (d_Columns d' ! j)"
      by (auto simp: firstPos_Some)
    have mp: "map_of ?ps (c_ID (d_Columns d' ! j)) =
        (if isPK d i \<or> ?row ! i = VNull then None else Some (?row ! i))"
      using map_of_rowPairs [OF descOkD(1) [OF d] i] e by simp
    show ?thesis
    proof (cases "isPK d i")
      case True
      then obtain p where p: "p < length (d_PKCols d)" "d_PKCols d ! p = i"
        by (auto simp: isPK_def in_set_conv_nth)
      then have "d_PKCols d' ! p = j"
        using idp [of p] e col_ID_inj [OF d'] j r(2) lpk descOkD(4) [OF d'] by (metis nth_mem)
      then have "map_of (zip (d_PKCols d') ?pk) j = Some (?pk ! p)"
        using p lp lpk descOkD(2) [OF d'] by (metis map_of_zip_nth)
      moreover have "?pk ! p = canonVal (row ! i)" using p by (simp add: pkValues_def)
      ultimately show ?thesis using Some nth [OF j] mp True by simp
    next
      case False
      have "j \<noteq> d_PKCols d' ! p" if "p < length (d_PKCols d')" for p
      proof
        assume "j = d_PKCols d' ! p"
        then have "c_ID (d_Columns d ! (d_PKCols d ! p)) = c_ID (d_Columns d ! i)"
          using idp [of p] that lpk e by simp
        then have "d_PKCols d ! p = i" using col_ID_inj [OF d] i that lpk descOkD(4) [OF d] by (metis nth_mem)
        then show False using False that lpk by (auto simp: isPK_def)
      qed
      then have "map_of (zip (d_PKCols d') ?pk) j = None" by (rule map_of_zip_absent)
      then show ?thesis using Some nth [OF j] mp False i len by (cases "row ! i = VNull") simp_all
    qed
  qed
  then show ?thesis using r by blast
qed

lemma decodeRow_row:
  assumes "descOk d" "length row = length (d_Columns d)"
    "rowKey d (pkValues d row) = Inr k" "encodeRowValue d row = Inr b"
  shows "decodeRow d k b = Inr (map canonVal row)"
proof -
  obtain row' where r: "decodeRow d k b = Inr row'" "length row' = length (d_Columns d)"
    "\<forall>j<length row'. row' ! j =
      (case firstPos (\<lambda>c. c_ID c = c_ID (d_Columns d ! j)) (d_Columns d) of
         Some i \<Rightarrow> canonVal (row ! i) | None \<Rightarrow> VNull)"
    using decodeRow_sameKey [OF assms(1,1) _ assms(2-4)] by (auto simp: sameKey_def)
  then have "row' = map canonVal row"
    using assms(2) firstPos_ID [OF assms(1)] by (intro nth_equalityI) auto
  then show ?thesis using r by simp
qed

lemma coerceRow_ok:
  assumes "coerceRow L d vals = Inr row" "descOk d" "\<forall>v\<in>set vals. goValue v"
  shows "length row = length (d_Columns d)" "\<And>i. i < length row \<Longrightarrow> colValOk d i (row ! i)"
proof -
  have l: "length vals = length (d_Columns d)"
    and m: "res_map (\<lambda>(i, v). coerceCol L d i v) (enumerate 0 vals) = Inr row"
    using assms(1) by (auto simp: coerceRow_def split: if_splits)
  show len: "length row = length (d_Columns d)" using res_map_length [OF m] l by simp
  fix i
  assume i: "i < length row"
  have "coerceCol L d i (vals ! i) = Inr (row ! i)"
    using res_map_nth [OF m, of i] i len l by (simp add: nth_enumerate_eq)
  then obtain w where w: "coerce L (vals ! i) (c_Type (d_Columns d ! i)) = Inr w"
    "enforceMaxLen w (d_Columns d ! i) = Inr (row ! i)"
    and nn: "row ! i = VNull \<longrightarrow> \<not> isPK d i \<and> \<not> c_NotNull (d_Columns d ! i) \<and> \<not> c_Identity (d_Columns d ! i)"
    by (auto simp: coerceCol_def Let_def split: if_splits)
  have "goValue (vals ! i)" using assms(3) i len l by simp
  moreover have "colOk (d_Columns d ! i)" using descOkD(9) [OF assms(2)] i len by simp
  ultimately show "colValOk d i (row ! i)"
    using coerce_typed(1) [OF w(1)] enforceMaxLen_props [OF w(2)] nn
    by (auto simp: colValOk_def Let_def colOk_def)
qed

lemma coerceRow_rowOk:
  assumes "coerceRow L d vals = Inr row" "descOk d" "\<forall>v\<in>set vals. goValue v" "\<not> list_ex isNaN row"
  shows "rowOk d (map canonVal row)"
  using coerceRow_ok [OF assms(1-3)] assms(4) by (auto simp: rowOk_simps normal_canonVal list_ex_iff)

text \<open>A row's key and value encode together exactly when no element is NaN.\<close>

lemma encode_row_NaN:
  assumes "descOk d" "length row = length (d_Columns d)"
    "rowKey d (pkValues d row) = Inr k" "encodeRowValue d row = Inr b"
  shows "\<not> list_ex isNaN row"
proof -
  have "\<not> isNaN (row ! i)" if "i < length row" for i
  proof (cases "isPK d i")
    case True
    then have "row ! i \<in> set (pkValues d row)" by (auto simp: pkValues_def isPK_def)
    then show ?thesis using assms(3) by (auto simp: rowKey_any list_ex_iff split: if_splits)
  next
    case False
    then show ?thesis using assms(4) that by (auto simp: encodeRowValue_eq [OF assms(2)] split: if_splits)
  qed
  then show ?thesis by (auto simp: list_ex_iff in_set_conv_nth)
qed

end
