(* ===== verification/Index.thy ===== *)
theory Index
  imports Rows
begin

text \<open>
  Secondary indexes (\<open>src/index.go\<close>) and the scans over rows and index entries
  (\<open>src/dml.go\<close>, \<open>src/index.go\<close>). An index entry's key is the index prefix, the indexed values
  each in its direction, and the primary key; an entry of a unique index whose values are all
  non-NULL has the primary key as its value instead. A scan is a Go iterator: \<open>yield\<close> is the
  consumer's loop body, with its own state, and stops the scan by returning False.
\<close>

subsection \<open>Entries\<close>

definition appendDirected :: "bytes \<Rightarrow> indexDesc \<Rightarrow> val list \<Rightarrow> bytes res" where
  "appendDirected buf idx vals =
     res_fold (\<lambda>(i, v) buf.
       if DescAt idx i then AppendDesc buf [any_of v] else Append buf [any_of v])
       (enumerate 0 vals) buf"

definition indexEntry :: "tableDesc \<Rightarrow> indexDesc \<Rightarrow> val list \<Rightarrow> (key \<times> bytes \<times> bool) res" where
  "indexEntry desc idx row =
     (let vals = map (\<lambda>ord. row ! ord) (x_Cols idx);
          hasNull = VNull \<in> set vals
      in res_bind (appendDirected (indexPrefix (d_ID desc) (x_ID idx)) idx vals) (\<lambda>buf.
           let pk = pkValues desc row
           in if x_Unique idx \<and> \<not> hasNull
              then res_bind (Encode (map any_of pk)) (\<lambda>pkVal. Inr (buf, pkVal, True))
              else res_bind (Append buf (map any_of pk)) (\<lambda>buf'. Inr (buf', [], False))))"

definition indexBound :: "golib \<Rightarrow> tableDesc \<Rightarrow> indexDesc \<Rightarrow> bytes \<Rightarrow> any list \<Rightarrow> key res" where
  "indexBound L desc idx p vals =
     (if length vals > length (x_Cols idx) then Inl (Msg ''too many values in index scan bound'')
      else res_bind
             (res_map (\<lambda>(i, v). coerce L v (c_Type (d_Columns desc ! (x_Cols idx ! i)))) (enumerate 0 vals))
             (\<lambda>coerced. appendDirected p idx coerced))"

text \<open>Skipping the header and the indexed values of an entry key: elements \<open>i, i + 1, \<dots>\<close>.\<close>

fun skipElems :: "indexDesc \<Rightarrow> nat \<Rightarrow> nat \<Rightarrow> bytes \<Rightarrow> bytes res" where
  "skipElems idx i 0 data = Inr data"
| "skipElems idx i (Suc n) data =
     res_bind (DecodeOne data (2 \<le> i \<and> DescAt idx (i - 2))) (\<lambda>(_, rest). skipElems idx (i + 1) n rest)"

definition rowFromIndexEntry ::
  "'tx kvops \<Rightarrow> tableDesc \<Rightarrow> indexDesc \<Rightarrow> key \<Rightarrow> bytes \<Rightarrow> ('tx, val list) act" where
  "rowFromIndexEntry K desc idx k val =
     act_bind (act_lift (skipElems idx 0 (2 + length (x_Cols idx)) k)) (\<lambda>data.
       act_bind (act_lift (if data \<noteq> [] then Decode data else Decode val)) (\<lambda>pk.
         if length pk \<noteq> length (d_PKCols desc)
         then act_fail (Msg ''index entry primary key has wrong arity'')
         else act_bind (act_lift (rowKey desc pk)) (\<lambda>rk.
           act_bind (act_modify (kv_MarkRead K rk)) (\<lambda>_.
             act_bind (act_get (kv_Get K rk)) (\<lambda>rv.
               case rv of
                 None \<Rightarrow> act_fail (Msg ''index entry points at a missing row'')
               | Some v \<Rightarrow> act_lift (decodeRow desc rk v))))))"

subsection \<open>Scans\<close>

type_synonym 'c yield = "val list res \<Rightarrow> 'c \<Rightarrow> bool \<times> 'c"

text \<open>The consumer that keeps everything it is given.\<close>

definition collect :: "val list res list yield" where
  "collect r rs = (True, rs @ [r])"

fun scanLoop ::
  "(key \<times> bytes \<Rightarrow> ('tx, val list) act) \<Rightarrow> 'c yield \<Rightarrow> (key \<times> bytes) list \<Rightarrow> 'c \<times> 'tx \<Rightarrow> 'c \<times> 'tx" where
  "scanLoop f yield [] (c, t) = (c, t)"
| "scanLoop f yield (kv # kvs) (c, t) =
     (let (r, t') = f kv t; (go, c') = yield r c
      in if \<not> go \<or> isl r then (c', t') else scanLoop f yield kvs (c', t'))"

text \<open>A bound that is not given, or fails to encode, or replaces the default.\<close>

definition orBound :: "key \<Rightarrow> ('a \<Rightarrow> key res) \<Rightarrow> 'a option \<Rightarrow> key res" where
  "orBound dflt f b = (case b of None \<Rightarrow> Inr dflt | Some x \<Rightarrow> f x)"

definition scanBounded ::
  "'tx kvops \<Rightarrow> key res \<Rightarrow> key res \<Rightarrow> (key \<Rightarrow> key \<Rightarrow> 'tx \<Rightarrow> (key \<times> bytes) list) \<Rightarrow>
   (key \<times> bytes \<Rightarrow> ('tx, val list) act) \<Rightarrow> 'c yield \<Rightarrow> 'c \<times> 'tx \<Rightarrow> 'c \<times> 'tx" where
  "scanBounded K start end iter f yield ct =
     (case start of
        Inl e \<Rightarrow> (snd (yield (Inl e) (fst ct)), snd ct)
      | Inr s \<Rightarrow>
          (case end of
             Inl e \<Rightarrow> (snd (yield (Inl e) (fst ct)), snd ct)
           | Inr en \<Rightarrow>
               (let t = kv_MarkReadRange K s en (snd ct)
                in scanLoop f yield (iter s en t) (fst ct, t))))"

text \<open>\<open>for k := range v.Ascend(start) { if k >= end { return } ... }\<close>\<close>

definition iterAscend :: "'tx kvops \<Rightarrow> key \<Rightarrow> key \<Rightarrow> 'tx \<Rightarrow> (key \<times> bytes) list" where
  "iterAscend K start end t = takeWhile (\<lambda>x. fst x < end) (kv_Ascend K start t)"

text \<open>\<open>for k := range v.Descend(end) { if k >= end { continue }; if k < start { return } ... }\<close>\<close>

fun skipThenTake :: "key \<Rightarrow> key \<Rightarrow> (key \<times> bytes) list \<Rightarrow> (key \<times> bytes) list" where
  "skipThenTake start end [] = []"
| "skipThenTake start end (x # xs) =
     (if fst x \<ge> end then skipThenTake start end xs
      else if fst x < start then []
      else x # skipThenTake start end xs)"

definition iterDescend :: "'tx kvops \<Rightarrow> key \<Rightarrow> key \<Rightarrow> 'tx \<Rightarrow> (key \<times> bytes) list" where
  "iterDescend K start end t = skipThenTake start end (kv_Descend K end t)"

definition scanRows ::
  "'tx kvops \<Rightarrow> golib \<Rightarrow> tableDesc \<Rightarrow> any list option \<Rightarrow> any list option \<Rightarrow> 'c yield \<Rightarrow>
   'c \<times> 'tx \<Rightarrow> 'c \<times> 'tx" where
  "scanRows K L desc fromPK toPK yield =
     (let p = tablePrefix (d_ID desc)
      in scanBounded K
           (orBound p (boundKey L desc p) fromPK)
           (orBound (prefixEndKey p) (boundKey L desc p) toPK)
           (iterAscend K) (\<lambda>(k, v). act_lift (decodeRow desc k v)) yield)"

definition scanRowsRev ::
  "'tx kvops \<Rightarrow> golib \<Rightarrow> tableDesc \<Rightarrow> any list option \<Rightarrow> any list option \<Rightarrow> bool \<Rightarrow> 'c yield \<Rightarrow>
   'c \<times> 'tx \<Rightarrow> 'c \<times> 'tx" where
  "scanRowsRev K L desc fromPK toPK toIncl yield =
     (let p = tablePrefix (d_ID desc)
      in scanBounded K
           (orBound p (boundKey L desc p) fromPK)
           (orBound (prefixEndKey p)
              (\<lambda>pk. res_bind (boundKey L desc p pk) (\<lambda>e. Inr (if toIncl then prefixEndKey e else e))) toPK)
           (iterDescend K) (\<lambda>(k, v). act_lift (decodeRow desc k v)) yield)"

definition scanIndexRows ::
  "'tx kvops \<Rightarrow> golib \<Rightarrow> tableDesc \<Rightarrow> indexDesc \<Rightarrow> any list option \<Rightarrow> any list option \<Rightarrow> 'c yield \<Rightarrow>
   'c \<times> 'tx \<Rightarrow> 'c \<times> 'tx" where
  "scanIndexRows K L desc idx from to yield =
     (let p = indexPrefix (d_ID desc) (x_ID idx)
      in scanBounded K
           (orBound p (indexBound L desc idx p) from)
           (orBound (prefixEndKey p) (indexBound L desc idx p) to)
           (iterAscend K) (\<lambda>(k, v). rowFromIndexEntry K desc idx k v) yield)"

definition scanIndexRowsRev ::
  "'tx kvops \<Rightarrow> golib \<Rightarrow> tableDesc \<Rightarrow> indexDesc \<Rightarrow> any list option \<Rightarrow> any list option \<Rightarrow> bool \<Rightarrow> 'c yield \<Rightarrow>
   'c \<times> 'tx \<Rightarrow> 'c \<times> 'tx" where
  "scanIndexRowsRev K L desc idx from to toIncl yield =
     (let p = indexPrefix (d_ID desc) (x_ID idx)
      in scanBounded K
           (orBound p (indexBound L desc idx p) from)
           (orBound (prefixEndKey p)
              (\<lambda>vs. res_bind (indexBound L desc idx p vs) (\<lambda>e. Inr (if toIncl then prefixEndKey e else e))) to)
           (iterDescend K) (\<lambda>(k, v). rowFromIndexEntry K desc idx k v) yield)"

subsection \<open>The shape of an entry\<close>

definition encDirs :: "indexDesc \<Rightarrow> nat \<Rightarrow> val list \<Rightarrow> bytes" where
  "encDirs idx i vs = concat (map (\<lambda>(j, v). encDir (DescAt idx j) v) (enumerate i vs))"

lemma encDirs_simps [simp]:
  "encDirs idx i [] = []" "encDirs idx i (v # vs) = encDir (DescAt idx i) v @ encDirs idx (Suc i) vs"
  by (simp_all add: encDirs_def)

lemma append_one_dir:
  "(if d then AppendDesc buf [any_of v] else Append buf [any_of v]) =
     (if isNaN v then Inl nanErr else Inr (buf @ encDir d (canonVal v)))"
  by (simp add: AppendDesc_def Append_def appendVals_concat normalize_any encDir_def dirMask_def)

lemma appendDirected_eq:
  "appendDirected buf idx vs =
     (if list_ex isNaN vs then Inl nanErr else Inr (buf @ encDirs idx 0 (map canonVal vs)))"
proof -
  have "res_fold (\<lambda>(i, v) buf. if DescAt idx i then AppendDesc buf [any_of v] else Append buf [any_of v])
      (enumerate i vs) buf =
     (if list_ex isNaN vs then Inl nanErr else Inr (buf @ encDirs idx i (map canonVal vs)))" for i buf
    by (induction vs arbitrary: i buf) (simp_all add: append_one_dir)
  then show ?thesis by (simp add: appendDirected_def)
qed

definition indexVals :: "indexDesc \<Rightarrow> val list \<Rightarrow> val list" where
  "indexVals idx row = map (\<lambda>ord. row ! ord) (x_Cols idx)"

text \<open>Whether an entry takes part in uniqueness.\<close>

definition enforced :: "indexDesc \<Rightarrow> val list \<Rightarrow> bool" where
  "enforced idx row \<longleftrightarrow> x_Unique idx \<and> VNull \<notin> set (indexVals idx row)"

definition entryKey :: "tableDesc \<Rightarrow> indexDesc \<Rightarrow> val list \<Rightarrow> key" where
  "entryKey d idx row = indexPrefix (d_ID d) (x_ID idx) @ encDirs idx 0 (indexVals idx row) @
     (if enforced idx row then [] else encTup (pkValues d row))"

definition entryVal :: "tableDesc \<Rightarrow> indexDesc \<Rightarrow> val list \<Rightarrow> bytes" where
  "entryVal d idx row = (if enforced idx row then encTup (pkValues d row) else [])"

lemma pkValues_canon:
  "descOk d \<Longrightarrow> length row = length (d_Columns d) \<Longrightarrow>
   pkValues d (map canonVal row) = map canonVal (pkValues d row)"
  by (auto simp: pkValues_def descOkD(4))

lemma indexVals_canon:
  "descOk d \<Longrightarrow> idx \<in> set (d_Indexes d) \<Longrightarrow> length row = length (d_Columns d) \<Longrightarrow>
   indexVals idx (map canonVal row) = map canonVal (indexVals idx row)"
  using descOkD(5) by (auto simp: indexVals_def)

lemma enforced_canon:
  assumes "descOk d" "idx \<in> set (d_Indexes d)" "length row = length (d_Columns d)"
  shows "enforced idx (map canonVal row) \<longleftrightarrow> enforced idx row"
proof -
  have "VNull \<in> canonVal ` S \<longleftrightarrow> VNull \<in> S" for S by (metis canonVal_VNull image_iff)
  then show ?thesis using indexVals_canon [OF assms] by (simp add: enforced_def)
qed

lemma indexEntry_eq:
  assumes "descOk d" "idx \<in> set (d_Indexes d)" "length row = length (d_Columns d)" "\<not> list_ex isNaN row"
  shows "indexEntry d idx row =
    Inr (entryKey d idx (map canonVal row), entryVal d idx (map canonVal row), enforced idx row)"
proof -
  have "\<not> list_ex isNaN (indexVals idx row)"
    using assms(3,4) descOkD(5) [OF assms(1,2)] by (auto simp: indexVals_def list_ex_iff)
  moreover have "\<not> list_ex isNaN (pkValues d row)"
    using assms(3,4) descOkD(4) [OF assms(1)] by (auto simp: pkValues_def list_ex_iff)
  ultimately show ?thesis
    using enforced_canon [OF assms(1-3)] pkValues_canon [OF assms(1,3)] indexVals_canon [OF assms(1-3)]
    unfolding indexEntry_def indexVals_def [of idx row, symmetric]
    by (simp add: Let_def appendDirected_eq Encode_concat Append_concat
        res_map_normalize_any entryKey_def entryVal_def enforced_def [symmetric])
qed

lemma encDirs_append_inj:
  "length vs = length ws \<Longrightarrow>
   encDirs idx i vs @ xs = encDirs idx i ws @ ys \<longleftrightarrow> vs = ws \<and> xs = ys"
  by (induction vs ws arbitrary: i rule: list_induct2) (auto simp: encDir_append_inj)

text \<open>The bytes after the indexed values of an entry key.\<close>

lemma skipElems_dirs: "skipElems idx (i + 2) (length vs) (encDirs idx i vs @ rest) = Inr rest"
proof (induction vs arbitrary: i)
  case (Cons v vs)
  then show ?case using Cons [of "Suc i"] by (simp add: DecodeOne_encDir)
qed simp

lemma skipElems_entry:
  "length vs = length (x_Cols idx) \<Longrightarrow>
   skipElems idx 0 (2 + length (x_Cols idx)) (indexPrefix a b @ encDirs idx 0 vs @ rest) = Inr rest"
  using skipElems_dirs [of idx 0 vs rest]
  by (simp add: key_shapes DecodeOne_iff dirMask_def numeral_2_eq_2)

end
