(* ===== verification/Store.thy ===== *)
theory Store
  imports Index
begin

text \<open>
  The table a transaction's content represents. \<open>stores d R m\<close>: within the key space of table
  \<open>d\<close>, the map \<open>m\<close> holds the rows in \<open>R\<close> and their index entries and nothing else. It is the
  abstraction the row operations and scans are verified against: the invariant says that every
  index agrees with the rows, and it implies that primary keys and enforced unique values are
  unique. \<open>stores_replace\<close> is the one lemma insert, update and delete rest on.
\<close>

definition rowKeyOf :: "tableDesc \<Rightarrow> val list \<Rightarrow> key" where
  "rowKeyOf d row = encTup (VInt (d_ID d) # VInt primaryIndexID # pkValues d row)"

definition rowValOf :: "tableDesc \<Rightarrow> val list \<Rightarrow> bytes" where
  "rowValOf d row = encTup (flatPairs (rowPairs d row))"

definition rowEntries :: "tableDesc \<Rightarrow> val list \<Rightarrow> (key \<times> bytes) list" where
  "rowEntries d row =
     (rowKeyOf d row, rowValOf d row) # map (\<lambda>x. (entryKey d x row, entryVal d x row)) (d_Indexes d)"

abbreviation rowKeys :: "tableDesc \<Rightarrow> val list \<Rightarrow> key set" where
  "rowKeys d row \<equiv> fst ` set (rowEntries d row)"

text \<open>
  The bytes \<open>v\<close> hold the row \<open>r\<close>: they are a list of (column ID, value) pairs that gives every column
  outside the key its value. There may be more pairs than columns, since a dropped column leaves its
  data behind under the retired ID; every ID is below the next one to be given out.
\<close>

definition holdsRow :: "tableDesc \<Rightarrow> val list \<Rightarrow> bytes \<Rightarrow> bool" where
  "holdsRow d r v \<longleftrightarrow> (\<exists>ps. v = encTup (flatPairs ps) \<and> distinct (map fst ps) \<and>
     (\<forall>p\<in>set ps. fst p < d_NextColID d \<and> snd p \<noteq> VNull) \<and>
     (\<forall>i<length (d_Columns d). map_of ps (c_ID (d_Columns d ! i)) =
        (if isPK d i \<or> r ! i = VNull then None else Some (r ! i))))"

definition entryOf :: "tableDesc \<Rightarrow> val list \<Rightarrow> key \<Rightarrow> bytes \<Rightarrow> bool" where
  "entryOf d r k v \<longleftrightarrow> k = rowKeyOf d r \<and> holdsRow d r v \<or>
     (\<exists>x\<in>set (d_Indexes d). k = entryKey d x r \<and> v = entryVal d x r)"

definition stores :: "tableDesc \<Rightarrow> val list set \<Rightarrow> (key \<Rightarrow> bytes option) \<Rightarrow> bool" where
  "stores d R m \<longleftrightarrow>
     (\<forall>r\<in>R. rowOk d r \<and> (\<exists>v. m (rowKeyOf d r) = Some v \<and> holdsRow d r v) \<and>
        (\<forall>x\<in>set (d_Indexes d). m (entryKey d x r) = Some (entryVal d x r))) \<and>
     (\<forall>k v. prefix (tableSpace (d_ID d)) k \<longrightarrow> m k = Some v \<longrightarrow> (\<exists>r\<in>R. entryOf d r k v))"

text \<open>The bytes a stored row has.\<close>

definition rowBytes :: "tableDesc \<Rightarrow> (key \<Rightarrow> bytes option) \<Rightarrow> val list \<Rightarrow> bytes" where
  "rowBytes d m r = the (m (rowKeyOf d r))"

lemma rowEntries_iff:
  "(k, v) \<in> set (rowEntries d r) \<longleftrightarrow> k = rowKeyOf d r \<and> v = rowValOf d r \<or>
     (\<exists>x\<in>set (d_Indexes d). k = entryKey d x r \<and> v = entryVal d x r)"
  by (auto simp: rowEntries_def)

lemma rowKeys_iff: "k \<in> rowKeys d r \<longleftrightarrow> k = rowKeyOf d r \<or> (\<exists>x\<in>set (d_Indexes d). k = entryKey d x r)"
  by (auto simp: rowEntries_def image_iff)

lemma storesD:
  assumes "stores d R m"
  shows "r \<in> R \<Longrightarrow> rowOk d r"
    "prefix (tableSpace (d_ID d)) k \<Longrightarrow> m k = Some v \<Longrightarrow> \<exists>r\<in>R. entryOf d r k v"
    "r \<in> R \<Longrightarrow> m (rowKeyOf d r) = Some (rowBytes d m r) \<and> holdsRow d r (rowBytes d m r)"
    "r \<in> R \<Longrightarrow> x \<in> set (d_Indexes d) \<Longrightarrow> m (entryKey d x r) = Some (entryVal d x r)"
  using assms by (auto simp: stores_def rowBytes_def)

subsection \<open>Encodings of a valid row\<close>

lemma rowOkD:
  assumes "rowOk d r"
  shows "length r = length (d_Columns d)" "map canonVal r = r" "\<not> list_ex isNaN r"
    "\<And>v. v \<in> set r \<Longrightarrow> normalVal v"
  using assms map_canonVal_normal [of r] by (auto simp: rowOk_simps)

lemma rowOk_pk_normal: "descOk d \<Longrightarrow> rowOk d r \<Longrightarrow> v \<in> set (pkValues d r) \<Longrightarrow> normalVal v"
  using descOkD(4) [of d] rowOkD(1,4) [of d r] by (auto simp: pkValues_def)

lemma rowOk_ix_normal:
  "descOk d \<Longrightarrow> x \<in> set (d_Indexes d) \<Longrightarrow> rowOk d r \<Longrightarrow> v \<in> set (indexVals x r) \<Longrightarrow> normalVal v"
  using descOkD(5) [of d x] rowOkD(1,4) [of d r] by (auto simp: indexVals_def)

lemma length_pkValues [simp]: "length (pkValues d r) = length (d_PKCols d)"
  by (simp add: pkValues_def)

lemma length_indexVals [simp]: "length (indexVals x r) = length (x_Cols x)"
  by (simp add: indexVals_def)

lemma rowKey_of:
  assumes "descOk d" "length row = length (d_Columns d)" "\<not> list_ex isNaN row"
  shows "rowKey d (pkValues d row) = Inr (rowKeyOf d (map canonVal row))"
proof -
  have "\<not> list_ex isNaN (pkValues d row)"
    using assms(2,3) descOkD(4) [OF assms(1)] by (auto simp: pkValues_def list_ex_iff)
  then show ?thesis using pkValues_canon [OF assms(1,2)] by (simp add: rowKey_any rowKeyOf_def)
qed

lemma encodeRowValue_of:
  assumes "length row = length (d_Columns d)" "\<not> list_ex isNaN row"
  shows "encodeRowValue d row = Inr (rowValOf d (map canonVal row))"
  using assms by (auto simp: encodeRowValue_eq rowValOf_def list_ex_iff)

lemma decodeRow_of:
  assumes "descOk d" "rowOk d r"
  shows "decodeRow d (rowKeyOf d r) (rowValOf d r) = Inr r"
proof -
  note r = rowOkD [OF assms(2)]
  show ?thesis
    using decodeRow_row [OF assms(1) r(1)] rowKey_of [OF assms(1) r(1,3)] encodeRowValue_of [OF r(1,3)] r(2)
    by simp
qed

lemma holdsRow_rowValOf:
  assumes "descOk d"
  shows "holdsRow d r (rowValOf d r)"
  unfolding holdsRow_def rowValOf_def
proof (intro exI conjI)
  show "distinct (map fst (rowPairs d r))" by (rule distinct_rowPairs [OF descOkD(1) [OF assms]])
  show "\<forall>p\<in>set (rowPairs d r). fst p < d_NextColID d \<and> snd p \<noteq> VNull"
    using descOkD(10) [OF assms] by (auto simp: rowPairs_def)
  show "\<forall>i<length (d_Columns d). map_of (rowPairs d r) (c_ID (d_Columns d ! i)) =
      (if isPK d i \<or> r ! i = VNull then None else Some (r ! i))"
    using map_of_rowPairs [OF descOkD(1) [OF assms]] by blast
qed simp

lemma decodeRow_holds:
  assumes d: "descOk d" and r: "length r = length (d_Columns d)" and h: "holdsRow d r v"
  shows "decodeRow d (rowKeyOf d r) v = Inr r"
proof -
  obtain ps where ps: "v = encTup (flatPairs ps)" "distinct (map fst ps)"
    and at: "\<And>i. i < length (d_Columns d) \<Longrightarrow> map_of ps (c_ID (d_Columns d ! i)) =
        (if isPK d i \<or> r ! i = VNull then None else Some (r ! i))"
    using h unfolding holdsRow_def by blast
  have l: "length (pkValues d r) = length (d_PKCols d)" by (simp add: pkValues_def)
  obtain row where row: "decodeRow d (rowKeyOf d r) v = Inr row" "length row = length (d_Columns d)"
    and nth: "\<And>j. j < length row \<Longrightarrow> row ! j = (case map_of ps (c_ID (d_Columns d ! j)) of Some v \<Rightarrow> v
        | None \<Rightarrow> (case map_of (zip (d_PKCols d) (pkValues d r)) j of Some v \<Rightarrow> v | None \<Rightarrow> VNull))"
    using decodeRow_any [OF d ps(2) l] unfolding ps(1) rowKeyOf_def by metis
  have "row ! j = r ! j" if j: "j < length row" for j
  proof (cases "isPK d j")
    case True
    then obtain p where p: "p < length (d_PKCols d)" "d_PKCols d ! p = j" by (auto simp: isPK_def in_set_conv_nth)
    then have "map_of (zip (d_PKCols d) (pkValues d r)) j = Some (pkValues d r ! p)"
      using descOkD(2) [OF d] l by (metis map_of_zip_nth)
    then show ?thesis using nth [OF j] at [of j] True j row(2) p by (simp add: pkValues_def)
  next
    case False
    then have "j \<noteq> d_PKCols d ! p" if "p < length (d_PKCols d)" for p using that by (auto simp: isPK_def)
    then have "map_of (zip (d_PKCols d) (pkValues d r)) j = None" by (rule map_of_zip_absent)
    note n = nth [OF j, unfolded this]
    show ?thesis using n at [of j] False j row(2) by simp
  qed
  then have "row = r" using row(2) r by (intro nth_equalityI) auto
  then show ?thesis using row(1) by simp
qed

lemma indexEntry_of:
  "descOk d \<Longrightarrow> x \<in> set (d_Indexes d) \<Longrightarrow> rowOk d r \<Longrightarrow>
   indexEntry d x r = Inr (entryKey d x r, entryVal d x r, enforced x r)"
  using indexEntry_eq [of d x r] rowOkD(1-3) [of d r] by simp

text \<open>Where the keys of a row lie.\<close>

lemma rowKeyOf_prefix: "prefix (tablePrefix (d_ID d)) (rowKeyOf d r)"
  by (simp add: rowKeyOf_def key_shapes prefix_def)

lemma entryKey_prefix: "prefix (indexPrefix (d_ID d) (x_ID x)) (entryKey d x r)"
  by (simp add: entryKey_def)

lemma rowEntries_space: "(k, v) \<in> set (rowEntries d r) \<Longrightarrow> prefix (tableSpace (d_ID d)) k"
  using rowKeyOf_prefix [of d r] entryKey_prefix [of d _ r]
  by (auto simp: rowEntries_def intro: tablePrefix_space indexPrefix_space)

lemma rowKeyOf_inj [simp]: "rowKeyOf d r = rowKeyOf d r' \<longleftrightarrow> pkValues d r = pkValues d r'"
  unfolding rowKeyOf_def encVal_concat_inj by simp

lemma rowKeyOf_neq_entry:
  assumes "descOk d" "x \<in> set (d_Indexes d)"
  shows "rowKeyOf d r \<noteq> entryKey d x r'"
  using rowKeyOf_prefix [of d r] entryKey_prefix [of d x r'] indexPrefix_disjoint descOkD(6) [OF assms]
  by (metis tablePrefix_def)

lemma entryKey_neq:
  assumes "descOk d" "x \<in> set (d_Indexes d)" "y \<in> set (d_Indexes d)" "entryKey d x r = entryKey d y r'"
  shows "x = y"
proof -
  have "x_ID x = x_ID y" using entryKey_prefix [of d x r] entryKey_prefix [of d y r'] assms(4)
    by (metis indexPrefix_disjoint)
  then show ?thesis using descOkD(7) [OF assms(1)] assms(2,3) by (auto simp: distinct_map inj_on_def)
qed

lemma entryKey_eq:
  "entryKey d x r = entryKey d x r' \<longleftrightarrow>
     indexVals x r = indexVals x r' \<and> (enforced x r \<or> pkValues d r = pkValues d r')"
proof
  assume "entryKey d x r = entryKey d x r'"
  then have "encDirs x 0 (indexVals x r) @ (if enforced x r then [] else encTup (pkValues d r)) =
      encDirs x 0 (indexVals x r') @ (if enforced x r' then [] else encTup (pkValues d r'))"
    by (simp add: entryKey_def)
  then have v: "indexVals x r = indexVals x r'"
    and s: "(if enforced x r then [] else encTup (pkValues d r)) =
      (if enforced x r' then [] else encTup (pkValues d r'))"
    by (simp_all add: encDirs_append_inj)
  then have "enforced x r = enforced x r'" by (simp add: enforced_def)
  with v s show "indexVals x r = indexVals x r' \<and> (enforced x r \<or> pkValues d r = pkValues d r')"
    by (auto split: if_splits)
next
  assume "indexVals x r = indexVals x r' \<and> (enforced x r \<or> pkValues d r = pkValues d r')"
  then show "entryKey d x r = entryKey d x r'" by (auto simp: entryKey_def enforced_def)
qed

lemma distinct_rowEntries: "descOk d \<Longrightarrow> distinct (map fst (rowEntries d r))"
  using entryKey_neq [of d] rowKeyOf_neq_entry [of d] descOkD(7) [of d]
  by (fastforce simp: rowEntries_def distinct_map inj_on_def)

text \<open>An entry, key and value together, names the primary key of its row.\<close>

lemma entryOf_space: "entryOf d r k v \<Longrightarrow> prefix (tableSpace (d_ID d)) k"
  using rowKeyOf_prefix [of d r] entryKey_prefix [of d _ r]
  by (auto simp: entryOf_def intro: tablePrefix_space indexPrefix_space)

lemma entryOf_key: "entryOf d r k v \<Longrightarrow> k \<in> rowKeys d r"
  unfolding rowKeys_iff entryOf_def by blast

lemma entryOf_row: "descOk d \<Longrightarrow> entryOf d r (rowKeyOf d r') v \<longleftrightarrow> pkValues d r' = pkValues d r \<and> holdsRow d r v"
  using rowKeyOf_neq_entry [of d] unfolding entryOf_def by auto

lemma entryOf_index:
  assumes "descOk d" "x \<in> set (d_Indexes d)"
  shows "entryOf d r (entryKey d x r') v \<longleftrightarrow> entryKey d x r' = entryKey d x r \<and> v = entryVal d x r"
  using rowKeyOf_neq_entry [OF assms] entryKey_neq [OF assms] assms(2) unfolding entryOf_def by metis

lemma entry_pk:
  assumes "descOk d" "entryOf d r k v" "entryOf d r' k v"
  shows "pkValues d r = pkValues d r'"
proof -
  from assms(2) consider "k = rowKeyOf d r"
    | x where "x \<in> set (d_Indexes d)" "k = entryKey d x r" "v = entryVal d x r"
    unfolding entryOf_def by blast
  then show ?thesis
  proof cases
    case 1
    then show ?thesis using assms(3) entryOf_row [OF assms(1)] by simp
  next
    case 2
    then have e: "entryKey d x r = entryKey d x r'" "entryVal d x r = entryVal d x r'"
      using assms(3) entryOf_index [OF assms(1) 2(1)] by auto
    then have "indexVals x r = indexVals x r'" "enforced x r \<or> pkValues d r = pkValues d r'"
      using entryKey_eq [of d x r r'] by auto
    moreover from this have "enforced x r' = enforced x r" by (simp add: enforced_def)
    ultimately show ?thesis using e(2) by (auto simp: entryVal_def split: if_splits)
  qed
qed

lemma row_entry [simp]: "(rowKeyOf d r, rowValOf d r) \<in> set (rowEntries d r)"
  by (simp add: rowEntries_def)

text \<open>Primary keys are unique, and so are enforced unique values.\<close>

lemma stores_at:
  assumes "stores d R m" "r \<in> R" "k \<in> rowKeys d r"
  shows "\<exists>v. m k = Some v \<and> entryOf d r k v"
  using assms(3) storesD(3,4) [OF assms(1,2)] unfolding rowKeys_iff entryOf_def by blast

lemma decodeRow_stored:
  "descOk d \<Longrightarrow> stores d R m \<Longrightarrow> r \<in> R \<Longrightarrow> decodeRow d (rowKeyOf d r) (rowBytes d m r) = Inr r"
  using decodeRow_holds [of d r] storesD(1,3) [of d R m r] rowOkD(1) [of d r] by blast

lemma stores_pk_unique:
  assumes "descOk d" "stores d R m" "r \<in> R" "r' \<in> R" "pkValues d r = pkValues d r'"
  shows "r = r'"
proof -
  have k: "rowKeyOf d r = rowKeyOf d r'" using assms(5) by simp
  then have "rowBytes d m r = rowBytes d m r'" unfolding rowBytes_def by (simp only:)
  then show ?thesis using decodeRow_stored [OF assms(1,2)] assms(3,4) k by (metis sum.inject(2))
qed

lemma stores_entry_unique:
  assumes "descOk d" "stores d R m" "r \<in> R" "r' \<in> R" "k \<in> rowKeys d r" "k \<in> rowKeys d r'"
  shows "r = r'"
proof -
  obtain v where "entryOf d r k v" "entryOf d r' k v"
    using stores_at [OF assms(2,3,5)] stores_at [OF assms(2,4,6)] by auto
  then have "pkValues d r = pkValues d r'" by (rule entry_pk [OF assms(1)])
  then show ?thesis by (rule stores_pk_unique [OF assms(1-4)])
qed

lemma stores_unique_index:
  assumes "descOk d" "stores d R m" "r \<in> R" "r' \<in> R" "x \<in> set (d_Indexes d)" "x_Unique x"
    "indexVals x r = indexVals x r'" "VNull \<notin> set (indexVals x r)"
  shows "r = r'"
proof (rule stores_entry_unique [OF assms(1-4)])
  have "enforced x r" using assms by (simp add: enforced_def)
  then have "entryKey d x r = entryKey d x r'" using assms by (simp add: entryKey_eq)
  then show "entryKey d x r \<in> rowKeys d r" "entryKey d x r \<in> rowKeys d r'"
    using assms(5) unfolding rowKeys_iff by blast+
qed

text \<open>Only the table's own key space matters.\<close>

lemma stores_cong:
  assumes "\<And>k. prefix (tableSpace (d_ID d)) k \<Longrightarrow> m' k = m k"
  shows "stores d R m' \<longleftrightarrow> stores d R m"
proof -
  have "m' (rowKeyOf d r) = m (rowKeyOf d r)" "m' (entryKey d x r) = m (entryKey d x r)" for r x
    by (intro assms tablePrefix_space rowKeyOf_prefix indexPrefix_space [OF entryKey_prefix])+
  then show ?thesis using assms by (simp add: stores_def)
qed

lemma stores_empty: "stores d {} m \<longleftrightarrow> (\<forall>k. prefix (tableSpace (d_ID d)) k \<longrightarrow> m k = None)"
  by (auto simp: stores_def)

subsection \<open>Replacing rows\<close>

text \<open>What the writes of an operation leave: the new entries, then holes for the old ones.\<close>

definition replaced ::
  "tableDesc \<Rightarrow> val list set \<Rightarrow> val list option \<Rightarrow> (key \<Rightarrow> bytes option) \<Rightarrow> key \<Rightarrow> bytes option" where
  "replaced d old new m k =
     (case (case new of None \<Rightarrow> None | Some r \<Rightarrow> map_of (rowEntries d r) k) of
        Some v \<Rightarrow> Some v
      | None \<Rightarrow> if \<exists>r\<in>old. k \<in> rowKeys d r then None else m k)"

lemma stores_replace:
  assumes d: "descOk d" and st: "stores d R m" and old: "old \<subseteq> R"
    and new: "\<And>r. new = Some r \<Longrightarrow> rowOk d r"
    and fresh: "\<And>r k. new = Some r \<Longrightarrow> k \<in> rowKeys d r \<Longrightarrow> m k = None \<or> (\<exists>u\<in>old. k \<in> rowKeys d u)"
    and m': "\<And>k. prefix (tableSpace (d_ID d)) k \<Longrightarrow> m' k = replaced d old new m k"
  shows "stores d (set_option new \<union> (R - old)) m'"
proof -
  have sp: "prefix (tableSpace (d_ID d)) k" if "k \<in> rowKeys d r" for k r using that rowEntries_space by force
  have other: "k \<notin> rowKeys d u" if "r \<in> R - old" "k \<in> rowKeys d r" "u \<in> old" for r u k
    using stores_entry_unique [OF d st, of r u k] that old by blast
  have away: "k \<notin> rowKeys d n" if "r \<in> R - old" "k \<in> rowKeys d r" "new = Some n" for r k n
  proof
    assume "k \<in> rowKeys d n"
    moreover have "m k \<noteq> None" using stores_at [OF st _ that(2)] that(1) by auto
    ultimately show False using fresh [OF that(3)] other [OF that(1,2)] by metis
  qed
  have kept: "m' k = m k" if "r \<in> R - old" "k \<in> rowKeys d r" for r k
  proof -
    have "map_of (rowEntries d n) k = None" if "new = Some n" for n
      using away [OF \<open>r \<in> R - old\<close> \<open>k \<in> rowKeys d r\<close> that] by (simp add: map_of_eq_None_iff)
    then show ?thesis using other [OF that] by (auto simp: m' [OF sp [OF that(2)]] replaced_def split: option.splits)
  qed
  have put: "m' k = Some v" if "new = Some n" "(k, v) \<in> set (rowEntries d n)" for n k v
    using that distinct_rowEntries [OF d] m' [OF rowEntries_space [OF that(2)]] by (simp add: replaced_def)
  have keys: "rowKeyOf d r \<in> rowKeys d r" "x \<in> set (d_Indexes d) \<Longrightarrow> entryKey d x r \<in> rowKeys d r" for r x
    unfolding rowKeys_iff by blast+
  show ?thesis
    unfolding stores_def
  proof (intro conjI allI impI ballI)
    fix r
    assume r: "r \<in> set_option new \<union> (R - old)"
    then show "rowOk d r" using new storesD(1) [OF st] by auto
    show "\<exists>v. m' (rowKeyOf d r) = Some v \<and> holdsRow d r v"
      using r storesD(3) [OF st, of r] kept [OF _ keys(1)] put [OF _ row_entry, of r] holdsRow_rowValOf [OF d, of r] by auto
    fix x
    assume x: "x \<in> set (d_Indexes d)"
    then have "(entryKey d x r, entryVal d x r) \<in> set (rowEntries d r)" by (auto simp: rowEntries_iff)
    then show "m' (entryKey d x r) = Some (entryVal d x r)"
      using r storesD(4) [OF st _ x, of r] kept [OF _ keys(2) [OF x]] put by auto
  next
    fix k v
    assume sk: "prefix (tableSpace (d_ID d)) k" and "m' k = Some v"
    then have r: "replaced d old new m k = Some v" using m' by simp
    show "\<exists>r\<in>set_option new \<union> (R - old). entryOf d r k v"
    proof (cases "\<exists>n. new = Some n \<and> map_of (rowEntries d n) k = Some v")
      case True
      then obtain n where "new = Some n" "(k, v) \<in> set (rowEntries d n)" using map_of_SomeD by metis
      then show ?thesis using holdsRow_rowValOf [OF d] unfolding rowEntries_iff entryOf_def by fastforce
    next
      case False
      then have "m k = Some v" "\<not> (\<exists>r\<in>old. k \<in> rowKeys d r)"
        using r by (auto simp: replaced_def split: option.splits if_splits)
      then show ?thesis using storesD(2) [OF st sk, of v] entryOf_key by blast
    qed
  qed
qed

text \<open>
  The probes an insert or update makes are enough: when the row key and the enforced entry keys
  are free, or belong to the row being replaced, every key of the new row is.
\<close>

lemma probes_enough:
  assumes d: "descOk d" and st: "stores d R m" and old: "old \<subseteq> R"
    and row: "m (rowKeyOf d n) = None \<or> (\<exists>u\<in>old. rowKeyOf d n = rowKeyOf d u)"
    and uniq: "\<And>x. x \<in> set (d_Indexes d) \<Longrightarrow> enforced x n \<Longrightarrow>
      m (entryKey d x n) = None \<or> (\<exists>u\<in>old. entryKey d x n = entryKey d x u)"
    and k: "k \<in> rowKeys d n"
  shows "m k = None \<or> (\<exists>u\<in>old. k \<in> rowKeys d u)"
proof -
  have mem: "rowKeyOf d u \<in> rowKeys d u" "x \<in> set (d_Indexes d) \<Longrightarrow> entryKey d x u \<in> rowKeys d u" for u x
    unfolding rowKeys_iff by blast+
  from k consider "k = rowKeyOf d n"
    | x where "x \<in> set (d_Indexes d)" "k = entryKey d x n" "enforced x n"
    | x where "x \<in> set (d_Indexes d)" "k = entryKey d x n" "\<not> enforced x n"
    unfolding rowKeys_iff by blast
  then show ?thesis
  proof cases
    case 1
    then show ?thesis using row mem(1) by metis
  next
    case 2
    then show ?thesis using uniq [OF 2(1,3)] mem(2) by metis
  next
    case 3
    show ?thesis
    proof (rule disjCI)
      assume no: "\<not> (\<exists>u\<in>old. k \<in> rowKeys d u)"
      show "m k = None"
      proof (rule ccontr)
        assume "m k \<noteq> None"
        then obtain v where "m k = Some v" by auto
        moreover have "prefix (tableSpace (d_ID d)) k"
          using 3(2) entryKey_prefix [of d x n] by (auto intro: indexPrefix_space)
        ultimately obtain r where r: "r \<in> R" "entryOf d r k v"
          using storesD(2) [OF st] by blast
        then have "k = entryKey d x r" using 3 entryOf_index [OF d 3(1)] by simp
        then have "pkValues d n = pkValues d r" using 3 entryKey_eq [of d x n r] by auto
        then have e: "rowKeyOf d n = rowKeyOf d r" by simp
        then have "m (rowKeyOf d n) \<noteq> None" using storesD(3) [OF st r(1)] unfolding e by simp
        then obtain u where "u \<in> old" "rowKeyOf d n = rowKeyOf d u" using row by auto
        then have "r = u" using e old r(1) stores_pk_unique [OF d st] by (metis rowKeyOf_inj subsetD)
        then show False using no \<open>u \<in> old\<close> entryOf_key [OF r(2)] by blast
      qed
    qed
  qed
qed

end
