(* ===== verification/Sample.thy ===== *)
theory Sample
  imports Store
begin

text \<open>
  A small table for the concrete instances of the theorems: three columns, a unique index, a
  descending one, and a store that holds two rows of it. Nothing here models code.
\<close>

definition sampleDesc :: tableDesc where
  "sampleDesc = \<lparr>d_FormatVersion = 1, d_ID = 100, d_Name = ''users'',
     d_Columns =
       [\<lparr>c_Name = ''id'', c_Type = TInt, c_ID = 1, c_NotNull = True, c_Identity = False,
         c_Default = [], c_MaxLen = 0\<rparr>,
        \<lparr>c_Name = ''name'', c_Type = TString, c_ID = 2, c_NotNull = True, c_Identity = False,
         c_Default = [], c_MaxLen = 5\<rparr>,
        \<lparr>c_Name = ''age'', c_Type = TInt, c_ID = 3, c_NotNull = False, c_Identity = False,
         c_Default = [], c_MaxLen = 0\<rparr>],
     d_PKCols = [0],
     d_Indexes =
       [\<lparr>x_ID = 2, x_Name = ''by_name'', x_Cols = [1], x_Unique = True, x_Desc = []\<rparr>,
        \<lparr>x_ID = 3, x_Name = ''by_age'', x_Cols = [2], x_Unique = False, x_Desc = [True]\<rparr>],
     d_Checks = [], d_ForeignKeys = [], d_NextColID = 4, d_ordByID = None\<rparr>"

definition rowAnn :: "val list" where "rowAnn = [VInt 1, VString ''ann'', VInt 30]"
definition rowBob :: "val list" where "rowBob = [VInt 2, VString ''bob'', VNull]"

text \<open>A standard library whose time, JSON and float parts accept nothing.\<close>

definition noLib :: golib where
  "noLib = \<lparr>time_Parse = (\<lambda>_ _. None), json_Decode = (\<lambda>_. None), json_Encode = (\<lambda>_. []),
     strconv_ParseFloat = (\<lambda>_. None), strconv_FormatFloat = (\<lambda>_. [])\<rparr>"

definition putAll :: "(key \<times> bytes) list \<Rightarrow> alist \<Rightarrow> alist" where
  "putAll es m = fold (\<lambda>(k, v). al_set k v) es m"

definition sampleStore :: alist where
  "sampleStore = putAll (rowEntries sampleDesc rowBob) (putAll (rowEntries sampleDesc rowAnn) [])"

abbreviation sampleTx :: memTx where
  "sampleTx \<equiv> mem_begin True sampleStore"

lemma sampleDesc_ok: "descOk sampleDesc"
  by code_simp

lemma rowAnn_ok: "rowOk sampleDesc rowAnn"
  by code_simp

lemma rowBob_ok: "rowOk sampleDesc rowBob"
  by code_simp

lemma putAll_props:
  assumes "al_sorted m" "distinct (map fst es)"
  shows "al_sorted (putAll es m)" "map_of (putAll es m) = (\<lambda>k. case map_of es k of Some v \<Rightarrow> Some v | None \<Rightarrow> map_of m k)"
proof -
  have "al_sorted (putAll es m) \<and>
    map_of (putAll es m) = (\<lambda>k. case map_of es k of Some v \<Rightarrow> Some v | None \<Rightarrow> map_of m k)"
    using assms
  proof (induction es arbitrary: m)
    case (Cons e es)
    obtain k v where e: "e = (k, v)" by (cases e)
    have "map_of es k = None" using Cons.prems(2) by (simp add: e map_of_eq_None_iff)
    then show ?case using Cons.IH [of "al_set k v m"] Cons.prems
      by (auto simp: e putAll_def intro!: ext split: option.splits)
  qed (simp add: putAll_def)
  then show "al_sorted (putAll es m)" "map_of (putAll es m) = (\<lambda>k. case map_of es k of Some v \<Rightarrow> Some v | None \<Rightarrow> map_of m k)"
    by simp_all
qed

text \<open>Adding a row with a new key and new unique values to a stored table.\<close>

lemma stores_putAll:
  assumes d: "descOk d" and st: "stores d R (map_of m)" and s: "al_sorted m" and n: "rowOk d n"
    and free: "map_of m (rowKeyOf d n) = None"
      "\<And>x. x \<in> set (d_Indexes d) \<Longrightarrow> enforced x n \<Longrightarrow> map_of m (entryKey d x n) = None"
  shows "stores d (insert n R) (map_of (putAll (rowEntries d n) m))" "al_sorted (putAll (rowEntries d n) m)"
proof -
  have "stores d (set_option (Some n) \<union> (R - {})) (map_of (putAll (rowEntries d n) m))"
  proof (rule stores_replace [OF d st])
    show "map_of m k = None \<or> (\<exists>u\<in>{}. k \<in> rowKeys d u)" if "Some n = Some r" "k \<in> rowKeys d r" for r k
      using probes_enough [OF d st, of "{}" r k] free that by auto
    show "map_of (putAll (rowEntries d n) m) k = replaced d {} (Some n) (map_of m) k" for k
      by (simp add: putAll_props [OF s distinct_rowEntries [OF d]] replaced_def)
  qed (use n in auto)
  then show "stores d (insert n R) (map_of (putAll (rowEntries d n) m))" by simp
  show "al_sorted (putAll (rowEntries d n) m)" by (rule putAll_props [OF s distinct_rowEntries [OF d]])
qed

lemma sample_stores: "stores sampleDesc {rowAnn, rowBob} (map_of sampleStore)" "al_sorted sampleStore"
proof -
  have e: "stores sampleDesc {} (map_of [])" by (simp add: stores_def)
  note ann = stores_putAll [OF sampleDesc_ok e _ rowAnn_ok]
  have s1: "stores sampleDesc {rowAnn} (map_of (putAll (rowEntries sampleDesc rowAnn) []))"
    "al_sorted (putAll (rowEntries sampleDesc rowAnn) [])" using ann by simp_all
  have pk: "pkValues sampleDesc rowBob \<noteq> pkValues sampleDesc rowAnn" by code_simp
  have ix: "list_all (\<lambda>x. indexVals x rowBob \<noteq> indexVals x rowAnn) (d_Indexes sampleDesc)" by code_simp
  have none: "map_of (putAll (rowEntries sampleDesc rowAnn) []) k = None" if "k \<notin> rowKeys sampleDesc rowAnn" for k
  proof -
    have "map_of (rowEntries sampleDesc rowAnn) k = None" using that by (simp only: map_of_eq_None_iff) simp
    then show ?thesis by (simp add: putAll_props(2) [OF _ distinct_rowEntries [OF sampleDesc_ok]])
  qed
  have f1: "map_of (putAll (rowEntries sampleDesc rowAnn) []) (rowKeyOf sampleDesc rowBob) = None"
    using pk rowKeyOf_neq_entry [OF sampleDesc_ok] by (intro none) (auto simp: rowKeys_iff )
  have f2: "map_of (putAll (rowEntries sampleDesc rowAnn) []) (entryKey sampleDesc x rowBob) = None"
    if "x \<in> set (d_Indexes sampleDesc)" for x
  proof (rule none)
    have "entryKey sampleDesc x rowBob \<noteq> entryKey sampleDesc y rowAnn" if "y \<in> set (d_Indexes sampleDesc)" for y
      using entryKey_neq [OF sampleDesc_ok \<open>x \<in> _\<close> that] ix that unfolding list_all_iff by (metis entryKey_eq)
    then show "entryKey sampleDesc x rowBob \<notin> rowKeys sampleDesc rowAnn"
      using rowKeyOf_neq_entry [OF sampleDesc_ok that] unfolding rowKeys_iff by metis
  qed
  note bob = stores_putAll [OF sampleDesc_ok s1 rowBob_ok f1]
  have "stores sampleDesc (insert rowBob {rowAnn}) (map_of sampleStore)"
    unfolding sampleStore_def by (intro bob(1) f2)
  then show "stores sampleDesc {rowAnn, rowBob} (map_of sampleStore)" by (simp add: insert_commute)
  show "al_sorted sampleStore"
    unfolding sampleStore_def by (intro bob(2) f2)
qed

lemma sampleTx_ok: "mem_wf sampleTx" "stores sampleDesc {rowAnn, rowBob} (mem_content sampleTx)"
  using sample_stores by (simp_all add: mem_begin_def mem_wf_def mem_content_def mem_base_def saves_ok_def)

text \<open>A writable transaction on an empty store.\<close>

abbreviation emptyTx :: memTx where
  "emptyTx \<equiv> mem_begin True []"

lemma emptyTx_ok: "mem_wf emptyTx" "kv_Writable memKv emptyTx" "mem_content emptyTx k = None"
  by (simp_all add: mem_begin_def mem_wf_def mem_content_def mem_base_def memKv_def saves_ok_def)

lemma sampleTx_rw: "kv_Writable memKv sampleTx"
  by (simp add: mem_begin_def memKv_def)

text \<open>A descriptor codec for a given list of descriptors: the position of one stands for it.\<close>

definition listCodec :: "tableDesc list \<Rightarrow> descCodec" where
  "listCodec ds = \<lparr>
     desc_Marshal = (\<lambda>d. case firstPos (\<lambda>x. x = d) ds of Some i \<Rightarrow> Inr [word_of_nat i] | None \<Rightarrow> Inl (Msg ''unknown descriptor'')),
     desc_Unmarshal = (\<lambda>b. case b of [i] \<Rightarrow> if unat i < length ds then Inr (clone (ds ! unat i)) else Inl (Msg ''corrupt'')
                           | _ \<Rightarrow> Inl (Msg ''corrupt''))\<rparr>"

lemma listCodec_ok: "length ds \<le> 256 \<Longrightarrow> codecOk (listCodec ds) (\<lambda>d. d \<in> set ds)"
  unfolding codecOk_def
proof (intro allI impI)
  fix d
  assume l: "length ds \<le> 256" and d: "d \<in> set ds"
  obtain i where i: "firstPos (\<lambda>x. x = d) ds = Some i" using d firstPos_None [of "\<lambda>x. x = d" ds] by auto
  then have "i < length ds" "ds ! i = d" by (auto simp: firstPos_Some)
  then show "\<exists>b. desc_Marshal (listCodec ds) d = Inr b \<and> desc_Unmarshal (listCodec ds) b = Inr (clone d)"
    using l i by (simp add: listCodec_def unat_of_nat)
qed

abbreviation sampleCodec :: descCodec where
  "sampleCodec \<equiv> listCodec [sampleDesc]"

end
