(* ===== verification/Counter.thy ===== *)
theory Counter
  imports Sample
begin

text \<open>
  Named counters inside a transaction (\<open>src/seq.go\<close>): one key holds the next value to hand out as
  a big-endian 64-bit number. The lemmas show what a draw, a bump and a set do to the counter, and
  that a run of draws hands out consecutive values with no gap and no repeat until the counter is
  exhausted, without wrapping.
\<close>

definition maxUint64 :: uint64 where "maxUint64 = -1"

abbreviation corruptErr :: err where
  "corruptErr \<equiv> Msg ''sequence value is corrupt''"

abbreviation exhaustedErr :: err where
  "exhaustedErr \<equiv> Msg ''sequence exhausted''"

text \<open>A stored counter value, refusing one that is not eight bytes.\<close>

definition readCounter :: "bytes \<Rightarrow> uint64 res" where
  "readCounter raw = (if length raw \<noteq> 8 then Inl corruptErr else Inr (un_be64 raw))"

definition nextFromCounter :: "'tx kvops \<Rightarrow> key \<Rightarrow> uint64 \<Rightarrow> ('tx, uint64) act" where
  "nextFromCounter K k start =
     act_bind (act_get (kv_Get K k)) (\<lambda>raw.
       act_bind (act_lift (case raw of Some b \<Rightarrow> readCounter b | None \<Rightarrow> Inr start)) (\<lambda>next.
         if next = maxUint64 then act_fail exhaustedErr
         else act_bind (kv_Set K k (be64 (next + 1))) (\<lambda>_. act_return next)))"

definition bumpCounterTo :: "'tx kvops \<Rightarrow> key \<Rightarrow> uint64 \<Rightarrow> ('tx, unit) act" where
  "bumpCounterTo K k next =
     act_bind (act_get (kv_Get K k)) (\<lambda>raw.
       case raw of
         Some b \<Rightarrow>
           act_bind (act_lift (readCounter b)) (\<lambda>c.
             if c \<ge> next then act_return () else kv_Set K k (be64 next))
       | None \<Rightarrow> if next \<le> 1 then act_return () else kv_Set K k (be64 next))"

definition checkSeqName :: "string \<Rightarrow> unit res" where
  "checkSeqName name = (if name = [] then Inl (Msg ''sequence name is required'') else Inr ())"

definition nextSeqIn :: "'tx kvops \<Rightarrow> string \<Rightarrow> ('tx, uint64) act" where
  "nextSeqIn K name =
     act_bind (act_lift (checkSeqName name)) (\<lambda>_. nextFromCounter K (seqNameKey name) 1)"

definition setSeqIn :: "'tx kvops \<Rightarrow> string \<Rightarrow> uint64 \<Rightarrow> ('tx, unit) act" where
  "setSeqIn K name next =
     act_bind (act_lift (checkSeqName name)) (\<lambda>_. kv_Set K (seqNameKey name) (be64 next))"

definition peekSeqIn :: "'tx kvops \<Rightarrow> string \<Rightarrow> ('tx, uint64 option) act" where
  "peekSeqIn K name =
     act_bind (act_lift (checkSeqName name)) (\<lambda>_.
       act_bind (act_get (kv_Get K (seqNameKey name))) (\<lambda>raw.
         case raw of
           None \<Rightarrow> act_return None
         | Some b \<Rightarrow> act_bind (act_lift (readCounter b)) (\<lambda>v. act_return (Some v))))"

definition deleteSeqIn :: "'tx kvops \<Rightarrow> string \<Rightarrow> ('tx, bool) act" where
  "deleteSeqIn K name =
     act_bind (act_lift (checkSeqName name)) (\<lambda>_. kv_Delete K (seqNameKey name))"

subsection \<open>The counter a key holds\<close>

text \<open>The next value a counter hands out: the stored one, or the start of an absent counter.\<close>

definition counterVal :: "(key \<Rightarrow> bytes option) \<Rightarrow> key \<Rightarrow> uint64 \<Rightarrow> uint64 res" where
  "counterVal m k start = (case m k of None \<Rightarrow> Inr start | Some b \<Rightarrow> readCounter b)"

lemma readCounter_be64 [simp]: "readCounter (be64 w) = Inr w"
  by (simp add: readCounter_def)

lemma counterVal_upd [simp]:
  "counterVal (m(k \<mapsto> be64 w)) k start = Inr w"
  "k \<noteq> k' \<Longrightarrow> counterVal (m(k' := v)) k start = counterVal m k start"
  "counterVal (m(k := None)) k start = Inr start"
  by (simp_all add: counterVal_def)

text \<open>A run of draws.\<close>

fun drawMany :: "'tx kvops \<Rightarrow> key \<Rightarrow> uint64 \<Rightarrow> nat \<Rightarrow> ('tx, uint64 list) act" where
  "drawMany K k start 0 = act_return []"
| "drawMany K k start (Suc n) =
     act_bind (nextFromCounter K k start) (\<lambda>v.
       act_bind (drawMany K k start n) (\<lambda>vs. act_return (v # vs)))"

definition valuesFrom :: "uint64 \<Rightarrow> nat \<Rightarrow> uint64 list" where
  "valuesFrom c n = map (\<lambda>i. c + word_of_nat i) [0..<n]"

lemma valuesFrom_Suc: "valuesFrom c (Suc n) = c # valuesFrom (c + 1) n"
  unfolding valuesFrom_def by (simp add: upt_conv_Cons map_Suc_upt [symmetric] add.assoc del: upt_Suc)

lemma distinct_valuesFrom: "n < 2 ^ 64 \<Longrightarrow> distinct (valuesFrom c n)"
  by (auto simp: valuesFrom_def distinct_map inj_on_def word_of_nat_eq_iff take_bit_nat_eq_self)

lemma length_valuesFrom [simp]: "length (valuesFrom c n) = n"
  by (simp add: valuesFrom_def)

lemma unat_plus1: "c \<noteq> maxUint64 \<Longrightarrow> unat (c + 1) = Suc (unat c)"
  using unatSuc [of c] by (auto simp: maxUint64_def add.commute eq_neg_iff_add_eq_0)

lemma unat_maxUint64: "unat maxUint64 = 2 ^ 64 - 1"
  by (simp add: maxUint64_def unsigned_minus_1_eq_mask mask_eq_exp_minus_1)

lemma valuesFrom_nth: "unat c + n \<le> 2 ^ 64 - 1 \<Longrightarrow> i < n \<Longrightarrow> unat (valuesFrom c n ! i) = unat c + i"
  by (simp add: valuesFrom_def unat_word_ariths unat_of_nat)

context kv_rw
begin

lemma nextFromCounter_eq:
  assumes t: "wf t" and w: "kv_Writable K t"
  shows "case counterVal (content t) k start of
      Inl e \<Rightarrow> nextFromCounter K k start t = (Inl e, t)
    | Inr c \<Rightarrow>
        if c = maxUint64 then nextFromCounter K k start t = (Inl exhaustedErr, t)
        else \<exists>t'. nextFromCounter K k start t = (Inr c, t') \<and> wf t' \<and> kv_Writable K t' \<and>
               content t' = (content t)(k \<mapsto> be64 (c + 1))"
proof (cases "counterVal (content t) k start")
  case (Inr c)
  obtain t' where t': "kv_Set K k (be64 (c + 1)) t = (Inr (), t')" "wf t'" "kv_Writable K t'"
    "content t' = (content t)(k \<mapsto> be64 (c + 1))" using put [OF t w] .
  show ?thesis using Inr t' t by (auto simp: nextFromCounter_def counterVal_def Get split: option.splits)
qed (use t in \<open>auto simp: nextFromCounter_def counterVal_def Get split: option.splits\<close>)

text \<open>A draw that reports an error changed nothing, whether or not the transaction is writable.\<close>

lemma nextFromCounter_err:
  assumes "wf t" "nextFromCounter K k start t = (Inl e, t')"
  shows "wf t' \<and> content t' = content t"
  using assms Set_err [of t]
  by (auto simp: nextFromCounter_def readCounter_def act_bind_Inl Get split: if_splits option.splits)

lemma bumpCounterTo_eq:
  assumes t: "wf t" and w: "kv_Writable K t" and c: "counterVal (content t) k 1 = Inr c"
  shows "\<exists>t'. bumpCounterTo K k next t = (Inr (), t') \<and> wf t' \<and> kv_Writable K t' \<and>
    counterVal (content t') k 1 = Inr (max c next) \<and> (\<forall>k'. k' \<noteq> k \<longrightarrow> content t' k' = content t k')"
proof -
  obtain t' where t': "kv_Set K k (be64 next) t = (Inr (), t')" "wf t'" "kv_Writable K t'"
    "content t' = (content t)(k \<mapsto> be64 next)" using put [OF t w] .
  show ?thesis
  proof (cases "content t k")
    case None
    then have "c = 1" using c by (simp add: counterVal_def)
    then show ?thesis using None t w t' c by (auto simp: bumpCounterTo_def Get max_def)
  next
    case (Some b)
    then have "readCounter b = Inr c" using c by (simp add: counterVal_def)
    then show ?thesis using Some t w t' c
      by (cases "c \<ge> next") (auto simp: bumpCounterTo_def Get max_def counterVal_def)
  qed
qed

lemma bumpCounterTo_corrupt:
  assumes "wf t" "counterVal (content t) k 1 = Inl e"
  shows "bumpCounterTo K k next t = (Inl e, t)"
  using assms by (auto simp: bumpCounterTo_def counterVal_def Get split: option.splits)

lemma drawMany_eq:
  assumes "wf t" "kv_Writable K t" "counterVal (content t) k start = Inr c" "unat c + n \<le> 2 ^ 64 - 1"
  shows "\<exists>t'. drawMany K k start n t = (Inr (valuesFrom c n), t') \<and> wf t' \<and> kv_Writable K t' \<and>
    counterVal (content t') k start = Inr (c + word_of_nat n) \<and> (\<forall>k'. k' \<noteq> k \<longrightarrow> content t' k' = content t k')"
  using assms
proof (induction n arbitrary: c t)
  case 0
  then show ?case by (auto simp: valuesFrom_def)
next
  case (Suc n)
  have c: "c \<noteq> maxUint64" using Suc.prems(4) by (auto simp: unat_maxUint64)
  then obtain t1 where t1: "nextFromCounter K k start t = (Inr c, t1)" "wf t1" "kv_Writable K t1"
    "content t1 = (content t)(k \<mapsto> be64 (c + 1))"
    using nextFromCounter_eq [OF Suc.prems(1,2), of k start] Suc.prems(3) by auto
  have v: "counterVal (content t1) k start = Inr (c + 1)" unfolding t1(4) by (rule counterVal_upd)
  obtain t2 where "drawMany K k start n t1 = (Inr (valuesFrom (c + 1) n), t2)" "wf t2" "kv_Writable K t2"
    "counterVal (content t2) k start = Inr (c + 1 + word_of_nat n)"
    "\<forall>k'. k' \<noteq> k \<longrightarrow> content t2 k' = content t1 k'"
    using Suc.IH [OF t1(2,3) v] Suc.prems(4) unat_plus1 [OF c] by auto
  then show ?case using t1 by (auto simp: valuesFrom_Suc add.assoc)
qed

end

text \<open>C30. Draws from a counter inside one transaction are consecutive: \<open>n\<close> draws of a counter at \<open>c\<close>
  (its start value when it does not exist) return \<open>c, c+1, ..., c+n-1\<close>, all distinct, and leave every
  other key alone. A counter that holds the largest 64-bit value refuses to draw instead of wrapping,
  and a malformed one is refused instead of restarted.\<close>

theorem counter_draws:
  assumes kv: "kv_rw K ok content" and t: "ok t" "kv_Writable K t"
  shows "case counterVal (content t) k start of
      Inl e \<Rightarrow> nextFromCounter K k start t = (Inl e, t)
    | Inr c \<Rightarrow>
        (unat c + n \<le> 2 ^ 64 - 1 \<longrightarrow>
           (\<exists>t'. drawMany K k start n t = (Inr (valuesFrom c n), t') \<and> distinct (valuesFrom c n) \<and>
                 (\<forall>i<n. unat (valuesFrom c n ! i) = unat c + i) \<and>
                 counterVal (content t') k start = Inr (c + word_of_nat n) \<and>
                 (\<forall>k'. k' \<noteq> k \<longrightarrow> content t' k' = content t k'))) \<and>
        (c = maxUint64 \<longrightarrow> nextFromCounter K k start t = (Inl exhaustedErr, t))"
proof (cases "counterVal (content t) k start")
  case (Inl e)
  then show ?thesis using kv_rw.nextFromCounter_eq [OF kv t, of k start] by simp
next
  case (Inr c)
  then show ?thesis
    using kv_rw.nextFromCounter_eq [OF kv t, of k start] kv_rw.drawMany_eq [OF kv t Inr, of n]
      distinct_valuesFrom [of n c] valuesFrom_nth [of c n]
    by (auto split: if_splits)
qed

theorem counter_draws_witness:
  "\<exists>t'. drawMany memKv seqKey 100 3 emptyTx = (Inr [100, 101, 102], t')"
proof -
  have v: "counterVal (mem_content emptyTx) seqKey 100 = Inr 100"
    by (simp add: emptyTx_ok counterVal_def)
  show ?thesis
    using counter_draws [OF mem.kv_rw_axioms emptyTx_ok(1,2), of seqKey 100 3, unfolded v]
    by (auto simp: valuesFrom_def upt_conv_Cons)
qed

end
