(* ===== verification/SeqObj.thy ===== *)
theory SeqObj
  imports Counter
begin

text \<open>
  Sequence objects (\<open>src/seqobj.go\<close>, with the option handling of \<open>src/sql/sequence.go\<close>): the
  descriptor, its validation, the step function both allocation modes share, and the record as it is
  read and written inside a transaction. Values are 64-bit words compared as signed integers, so a
  step can wrap; the lemmas show that the code's wrap-around test is exact, that a drawn value
  lies within the declared bounds, and how many draws an ascending sequence gives before it refuses.
\<close>

subsection \<open>The descriptor\<close>

record seqDesc =
  s_FormatVersion :: uint32
  s_ID :: uint64
  s_Name :: string
  s_Type :: string
  s_Start :: int64
  s_Increment :: int64
  s_Min :: int64
  s_Max :: int64
  s_Cycle :: bool
  s_Cache :: int64
  s_Last :: int64
  s_Called :: bool

abbreviation fmtI :: "int64 \<Rightarrow> string" where
  "fmtI v \<equiv> fmtInt (sint v)"

definition checkSeqDesc :: "seqDesc \<Rightarrow> unit res" where
  "checkSeqDesc d =
     (if s_Increment d = 0 then Inl (Msg ''INCREMENT must not be zero'')
      else if s_Max d <s s_Min d then
        Inl (Msg (''MINVALUE ('' @ fmtI (s_Min d) @ '') must be less than MAXVALUE ('' @ fmtI (s_Max d) @ '')''))
      else if s_Start d <s s_Min d then
        Inl (Msg (''START value ('' @ fmtI (s_Start d) @ '') cannot be less than MINVALUE ('' @ fmtI (s_Min d) @ '')''))
      else if s_Max d <s s_Start d then
        Inl (Msg (''START value ('' @ fmtI (s_Start d) @ '') cannot be greater than MAXVALUE ('' @ fmtI (s_Max d) @ '')''))
      else if s_Cache d <s 1 then Inl (Msg (''CACHE ('' @ fmtI (s_Cache d) @ '') must be greater than zero''))
      else Inr ())"

definition quoted :: "string \<Rightarrow> string" where
  "quoted s = [CHR 0x22] @ s @ [CHR 0x22]"

definition seqReached :: "string \<Rightarrow> string \<Rightarrow> int64 \<Rightarrow> err" where
  "seqReached word name bound =
     Msg (''nextval: reached '' @ word @ '' value of sequence '' @ quoted name @ '' ('' @ fmtI bound @ '')'')"

definition stepSeq :: "string \<Rightarrow> (seqDesc, int64) act" where
  "stepSeq name d =
     (if \<not> s_Called d then (Inr (s_Last d), d\<lparr>s_Called := True\<rparr>)
      else
        (let next = s_Last d + s_Increment d;
             over = 0 <s s_Increment d \<and> (s_Max d <s next \<or> next <s s_Last d);
             under = s_Increment d <s 0 \<and> (next <s s_Min d \<or> s_Last d <s next)
         in if (over \<or> under) \<and> \<not> s_Cycle d
            then (Inl (if under then seqReached ''minimum'' name (s_Min d)
                       else seqReached ''maximum'' name (s_Max d)), d)
            else
              (let next' = (if over then s_Min d else if under then s_Max d else next)
               in (Inr next', d\<lparr>s_Last := next'\<rparr>))))"

text \<open>\<open>setval\<close>: reposition within the bounds, shared by the two write modes.\<close>

definition setValErr :: "string \<Rightarrow> int64 \<Rightarrow> seqDesc \<Rightarrow> err" where
  "setValErr name v d =
     Msg (''setval: value '' @ fmtI v @ '' is out of bounds for sequence '' @ quoted name @ '' ('' @
          fmtI (s_Min d) @ ''..'' @ fmtI (s_Max d) @ '')'')"

definition setValDesc :: "string \<Rightarrow> int64 \<Rightarrow> bool \<Rightarrow> seqDesc \<Rightarrow> seqDesc res" where
  "setValDesc name v called d =
     (if v <s s_Min d \<or> s_Max d <s v then Inl (setValErr name v d)
      else Inr (d\<lparr>s_Last := v, s_Called := called\<rparr>))"

subsection \<open>The stored record\<close>

text \<open>
  The JSON form is a parameter: \<open>json.Marshal\<close> and \<open>json.Unmarshal\<close> on the descriptor. It carries
  every descriptor whose strings are valid UTF-8; invalid bytes come back as replacement runes.
\<close>

record seqCodec =
  seq_Marshal :: "seqDesc \<Rightarrow> bytes res"
  seq_Unmarshal :: "bytes \<Rightarrow> seqDesc res"

definition validUtf8 :: "string \<Rightarrow> bool" where
  "validUtf8 s \<longleftrightarrow> runesString (goRunes s) = s"

definition seqCodecOk :: "seqCodec \<Rightarrow> bool" where
  "seqCodecOk C \<longleftrightarrow> (\<forall>d. validUtf8 (s_Name d) \<and> validUtf8 (s_Type d) \<longrightarrow>
     (\<exists>b. seq_Marshal C d = Inr b \<and> seq_Unmarshal C b = Inr d))"

definition noRelation :: "string \<Rightarrow> err" where
  "noRelation name = Msg (''relation '' @ quoted name @ '' does not exist'')"

definition seqDescIn :: "seqCodec \<Rightarrow> 'tx kvops \<Rightarrow> string \<Rightarrow> ('tx, seqDesc) act" where
  "seqDescIn C K name =
     act_bind (act_lift (checkSeqName name)) (\<lambda>_.
       act_bind (act_get (kv_Get K (sqlSeqKey name))) (\<lambda>raw.
         case raw of None \<Rightarrow> act_fail (noRelation name) | Some b \<Rightarrow> act_lift (seq_Unmarshal C b)))"

definition writeSeqDescIn :: "seqCodec \<Rightarrow> 'tx kvops \<Rightarrow> seqDesc \<Rightarrow> ('tx, unit) act" where
  "writeSeqDescIn C K desc =
     act_bind (act_lift (seq_Marshal C (desc\<lparr>s_FormatVersion := descFormatVersion\<rparr>)))
       (\<lambda>blob. kv_Set K (sqlSeqKey (s_Name desc)) blob)"

text \<open>The serialized write mode's \<open>NextVal\<close> and \<open>SetVal\<close>, inside the caller's transaction.\<close>

definition nextValIn :: "seqCodec \<Rightarrow> 'tx kvops \<Rightarrow> string \<Rightarrow> ('tx, int64) act" where
  "nextValIn C K name =
     act_bind (seqDescIn C K name) (\<lambda>desc.
       case stepSeq name desc of
         (Inl e, _) \<Rightarrow> act_fail e
       | (Inr v, desc') \<Rightarrow> act_bind (writeSeqDescIn C K desc') (\<lambda>_. act_return v))"

definition setValIn :: "seqCodec \<Rightarrow> 'tx kvops \<Rightarrow> string \<Rightarrow> int64 \<Rightarrow> bool \<Rightarrow> ('tx, unit) act" where
  "setValIn C K name v called =
     act_bind (seqDescIn C K name) (\<lambda>desc.
       act_bind (act_lift (setValDesc name v called desc)) (writeSeqDescIn C K))"

subsection \<open>The options of CREATE and ALTER SEQUENCE\<close>

record seqOptions =
  o_AsType :: string
  o_Increment :: "int64 option"
  o_Min :: "int64 option"
  o_Max :: "int64 option"
  o_NoMin :: bool
  o_NoMax :: bool
  o_Start :: "int64 option"
  o_Restart :: bool
  o_RestartWith :: "int64 option"
  o_Cache :: "int64 option"
  o_Cycle :: "bool option"

definition seqTypeBounds :: "string \<Rightarrow> int64 \<times> int64" where
  "seqTypeBounds asType =
     (if asType = ''smallint'' then (- (2 ^ 15), 2 ^ 15 - 1)
      else if asType = ''integer'' then (- (2 ^ 31), 2 ^ 31 - 1)
      else (- (2 ^ 63), 2 ^ 63 - 1))"

definition seqTypeName :: "string \<Rightarrow> string" where
  "seqTypeName t = (if t = [] then ''bigint'' else t)"

definition checkSeqTypeRange :: "seqDesc \<Rightarrow> unit res" where
  "checkSeqTypeRange d =
     (let (tmin, tmax) = seqTypeBounds (s_Type d)
      in if s_Min d <s tmin then
           Inl (Msg (''MINVALUE ('' @ fmtI (s_Min d) @ '') is out of range for sequence data type '' @ seqTypeName (s_Type d)))
         else if tmax <s s_Max d then
           Inl (Msg (''MAXVALUE ('' @ fmtI (s_Max d) @ '') is out of range for sequence data type '' @ seqTypeName (s_Type d)))
         else Inr ())"

definition orElse :: "'a option \<Rightarrow> 'a \<Rightarrow> 'a" where
  "orElse p d = (case p of Some x \<Rightarrow> x | None \<Rightarrow> d)"

definition buildSeqDesc :: "string \<Rightarrow> seqOptions \<Rightarrow> seqDesc res" where
  "buildSeqDesc name o' =
     (let inc = orElse (o_Increment o') 1;
          (tmin, tmax) = seqTypeBounds (o_AsType o');
          lo = orElse (o_Min o') (if 0 <=s inc then 1 else tmin);
          hi = orElse (o_Max o') (if 0 <=s inc then tmax else -1);
          d = \<lparr>s_FormatVersion = 0, s_ID = 0, s_Name = name, s_Type = o_AsType o',
               s_Start = orElse (o_Start o') (if 0 <=s inc then lo else hi),
               s_Increment = inc, s_Min = lo, s_Max = hi, s_Cycle = orElse (o_Cycle o') False,
               s_Cache = orElse (o_Cache o') 1, s_Last = 0, s_Called = False\<rparr>
      in res_bind (checkSeqTypeRange d) (\<lambda>_. Inr d))"

definition restartErr :: "int64 \<Rightarrow> string \<Rightarrow> int64 \<Rightarrow> err" where
  "restartErr v what b = Msg (''RESTART value ('' @ fmtI v @ '') cannot be '' @ what @ '' ('' @ fmtI b @ '')'')"

definition applySeqOptions :: "seqOptions \<Rightarrow> seqDesc \<Rightarrow> seqDesc res" where
  "applySeqOptions o' d0 =
     (let ty = (if o_AsType o' \<noteq> [] then o_AsType o' else s_Type d0);
          inc = orElse (o_Increment o') (s_Increment d0);
          (tmin, tmax) = seqTypeBounds ty;
          lo = (case o_Min o' of Some v \<Rightarrow> v
                | None \<Rightarrow> if o_NoMin o' then (if 0 <=s inc then 1 else tmin) else s_Min d0);
          hi = (case o_Max o' of Some v \<Rightarrow> v
                | None \<Rightarrow> if o_NoMax o' then (if 0 <=s inc then tmax else -1) else s_Max d0);
          d = d0\<lparr>s_Type := ty, s_Increment := inc, s_Min := lo, s_Max := hi,
                s_Start := orElse (o_Start o') (s_Start d0), s_Cache := orElse (o_Cache o') (s_Cache d0),
                s_Cycle := orElse (o_Cycle o') (s_Cycle d0)\<rparr>
      in res_bind (checkSeqTypeRange d) (\<lambda>_.
           if \<not> o_Restart o' then Inr d
           else
             (let v = orElse (o_RestartWith o') (s_Start d)
              in if v <s lo then Inl (restartErr v ''less than MINVALUE'' lo)
                 else if hi <s v then Inl (restartErr v ''greater than MAXVALUE'' hi)
                 else Inr (d\<lparr>s_Last := v, s_Called := False\<rparr>))))"

subsection \<open>The step against unbounded integers\<close>

lemma sint64_range: "- (2 ^ 63) \<le> sint (w::int64)" "sint (w::int64) < 2 ^ 63"
  using sint_greater_eq [of w] sint_less [of w] by simp_all

lemma mod_near:
  fixes x N :: int
  assumes "- N \<le> x" "x < N + N"
  shows "x mod N = (if N \<le> x then x - N else if x < 0 then x + N else x)"
proof -
  consider "N \<le> x" | "x < 0" | "0 \<le> x" "x < N" using assms by linarith
  then show ?thesis
  proof cases
    case 1
    then have "(x - N) mod N = x - N" using assms by (intro mod_pos_pos_trivial) simp_all
    then show ?thesis using 1 by simp
  next
    case 2
    then have "(x + N) mod N = x + N" using assms by (intro mod_pos_pos_trivial) simp_all
    then show ?thesis using 2 assms by simp
  qed (simp add: mod_pos_pos_trivial)
qed

lemma sint_plus64:
  fixes a b :: int64
  shows "sint (a + b) = (if 2 ^ 63 \<le> sint a + sint b then sint a + sint b - 2 ^ 64
    else if sint a + sint b < - (2 ^ 63) then sint a + sint b + 2 ^ 64 else sint a + sint b)"
proof -
  have "sint (a + b) = (sint a + sint b + 2 ^ 63) mod 2 ^ 64 - 2 ^ 63"
    by (simp add: sint_word_ariths signed_take_bit_eq_take_bit_shift take_bit_eq_mod)
  moreover have "x mod 2 ^ 64 = (if 2 ^ 64 \<le> x then x - 2 ^ 64 else if x < 0 then x + 2 ^ 64 else x)"
    if "- (2 ^ 64) \<le> x" "x < 2 ^ 64 + 2 ^ 64" for x :: int
    using that mod_near [of "2 ^ 64" x] by simp
  from this [of "sint a + sint b + 2 ^ 63"]
  have "(sint a + sint b + 2 ^ 63) mod 2 ^ 64 = (if 2 ^ 64 \<le> sint a + sint b + 2 ^ 63 then sint a + sint b + 2 ^ 63 - 2 ^ 64
    else if sint a + sint b + 2 ^ 63 < 0 then sint a + sint b + 2 ^ 63 + 2 ^ 64 else sint a + sint b + 2 ^ 63)"
    using sint64_range [of a] sint64_range [of b] by simp
  ultimately show ?thesis by auto
qed

text \<open>A sequence positioned within its bounds.\<close>

definition seqPosOk :: "seqDesc \<Rightarrow> bool" where
  "seqPosOk d \<longleftrightarrow> s_Increment d \<noteq> 0 \<and> sint (s_Min d) \<le> sint (s_Last d) \<and> sint (s_Last d) \<le> sint (s_Max d)"

text \<open>What a step should give, with no wrap-around in sight.\<close>

definition specStep :: "seqDesc \<Rightarrow> int option" where
  "specStep d =
     (if \<not> s_Called d then Some (sint (s_Last d))
      else
        (let n = sint (s_Last d) + sint (s_Increment d)
         in if sint (s_Min d) \<le> n \<and> n \<le> sint (s_Max d) then Some n
            else if s_Cycle d then Some (if 0 < sint (s_Increment d) then sint (s_Min d) else sint (s_Max d))
            else None))"

lemma stepSeq_spec:
  assumes "seqPosOk d"
  shows "case specStep d of
      Some v \<Rightarrow> \<exists>w. stepSeq name d = (Inr w, d\<lparr>s_Last := w, s_Called := True\<rparr>) \<and> sint w = v
    | None \<Rightarrow> stepSeq name d = (Inl (if 0 < sint (s_Increment d) then seqReached ''maximum'' name (s_Max d)
                 else seqReached ''minimum'' name (s_Min d)), d)"
proof (cases "s_Called d")
  case True
  have b: "sint (s_Min d) \<le> sint (s_Last d)" "sint (s_Last d) \<le> sint (s_Max d)" "sint (s_Increment d) \<noteq> 0"
    using assms by (auto simp: seqPosOk_def simp flip: sint_eq_iff)
  note r = sint64_range [of "s_Min d"] sint64_range [of "s_Max d"] sint64_range [of "s_Last d"]
    sint64_range [of "s_Increment d"]
  have d: "d\<lparr>s_Last := w, s_Called := True\<rparr> = d\<lparr>s_Last := w\<rparr>" for w using True by simp
  show ?thesis using True b r sint_plus64 [of "s_Last d" "s_Increment d"]
    by (auto simp: stepSeq_def specStep_def Let_def word_sless_alt d split: if_splits)
qed (simp add: stepSeq_def specStep_def)

lemma specStep_bounds:
  assumes "seqPosOk d" "specStep d = Some v"
  shows "sint (s_Min d) \<le> v \<and> v \<le> sint (s_Max d)"
  using assms by (auto simp: seqPosOk_def specStep_def Let_def split: if_splits)

subsection \<open>How many values a sequence has left\<close>

text \<open>The steps between the current position and the bound, plus the first value if it was not drawn.\<close>

definition seqAvail :: "seqDesc \<Rightarrow> nat" where
  "seqAvail d =
     nat ((if 0 < sint (s_Increment d) then sint (s_Max d) - sint (s_Last d) else sint (s_Last d) - sint (s_Min d))
       div \<bar>sint (s_Increment d)\<bar>) + (if s_Called d then 0 else 1)"

fun stepMany :: "string \<Rightarrow> nat \<Rightarrow> (seqDesc, int64 list) act" where
  "stepMany name 0 = act_return []"
| "stepMany name (Suc n) =
     act_bind (stepSeq name) (\<lambda>v. act_bind (stepMany name n) (\<lambda>vs. act_return (v # vs)))"

lemma div_step: "0 < (b::int) \<Longrightarrow> (a - b) div b = a div b - 1"
  by (metis div_add_self1 diff_add_cancel add_diff_cancel_left' less_irrefl add.commute)

lemma seqAvail_step:
  assumes d: "seqPosOk d" and c: "\<not> s_Cycle d"
  shows "0 < seqAvail d \<longleftrightarrow> specStep d \<noteq> None"
    "specStep d = Some (sint w) \<Longrightarrow> seqPosOk (d\<lparr>s_Last := w, s_Called := True\<rparr>) \<and>
       seqAvail (d\<lparr>s_Last := w, s_Called := True\<rparr>) = seqAvail d - 1"
proof -
  let ?i = "sint (s_Increment d)"
  have i: "?i \<noteq> 0" using d by (auto simp: seqPosOk_def simp flip: sint_eq_iff)
  have b: "sint (s_Min d) \<le> sint (s_Last d)" "sint (s_Last d) \<le> sint (s_Max d)"
    using d by (auto simp: seqPosOk_def)
  have pos: "0 < a div \<bar>?i\<bar> \<longleftrightarrow> \<bar>?i\<bar> \<le> a" for a
    using i by (simp add: pos_imp_zdiv_pos_iff)
  show "0 < seqAvail d \<longleftrightarrow> specStep d \<noteq> None"
    using b i c pos by (auto simp: seqAvail_def specStep_def Let_def)
  assume w: "specStep d = Some (sint w)"
  have "seqAvail (d\<lparr>s_Last := w, s_Called := True\<rparr>) = seqAvail d - 1"
  proof (cases "s_Called d")
    case True
    then have "sint w = sint (s_Last d) + ?i" using w c by (auto simp: specStep_def Let_def split: if_splits)
    then show ?thesis using True i div_step [of "\<bar>?i\<bar>" "sint (s_Max d) - sint (s_Last d)"]
        div_step [of "\<bar>?i\<bar>" "sint (s_Last d) - sint (s_Min d)"]
      by (auto simp: seqAvail_def algebra_simps nat_diff_distrib')
  next
    case False
    then show ?thesis using w by (auto simp: specStep_def seqAvail_def)
  qed
  moreover have "seqPosOk (d\<lparr>s_Last := w, s_Called := True\<rparr>)"
    using specStep_bounds [OF d w] d by (simp add: seqPosOk_def)
  ultimately show "seqPosOk (d\<lparr>s_Last := w, s_Called := True\<rparr>) \<and>
       seqAvail (d\<lparr>s_Last := w, s_Called := True\<rparr>) = seqAvail d - 1" by simp
qed

text \<open>The \<open>i\<close>-th value still to come, as an integer.\<close>

definition seqNth :: "seqDesc \<Rightarrow> nat \<Rightarrow> int" where
  "seqNth d i = sint (s_Last d) + (int i + (if s_Called d then 1 else 0)) * sint (s_Increment d)"

lemma stepMany_spec:
  assumes "seqPosOk d" "\<not> s_Cycle d" "n \<le> seqAvail d"
  shows "\<exists>vs d'. stepMany name n d = (Inr vs, d') \<and> map sint vs = map (seqNth d) [0..<n] \<and>
    (\<forall>v\<in>set vs. sint (s_Min d) \<le> sint v \<and> sint v \<le> sint (s_Max d)) \<and>
    seqPosOk d' \<and> \<not> s_Cycle d' \<and> seqAvail d' = seqAvail d - n"
  using assms
proof (induction n arbitrary: d)
  case (Suc n)
  have "specStep d \<noteq> None" using seqAvail_step(1) [OF Suc.prems(1,2)] Suc.prems(3) by auto
  then obtain w where w: "stepSeq name d = (Inr w, d\<lparr>s_Last := w, s_Called := True\<rparr>)" "specStep d = Some (sint w)"
    using stepSeq_spec [OF Suc.prems(1), of name] by (auto split: option.splits)
  let ?d = "d\<lparr>s_Last := w, s_Called := True\<rparr>"
  note n = seqAvail_step(2) [OF Suc.prems(1,2) w(2)]
  have le: "n \<le> seqAvail ?d" using n Suc.prems(3) by simp
  obtain vs d' where v: "stepMany name n ?d = (Inr vs, d')" "map sint vs = map (seqNth ?d) [0..<n]"
    "\<forall>v\<in>set vs. sint (s_Min d) \<le> sint v \<and> sint v \<le> sint (s_Max d)"
    "seqPosOk d'" "\<not> s_Cycle d'" "seqAvail d' = seqAvail ?d - n"
    using Suc.IH [OF conjunct1 [OF n] _ le] Suc.prems(2) by auto
  have w0: "sint w = seqNth d 0" using w(2) Suc.prems(2) by (auto simp: specStep_def seqNth_def Let_def split: if_splits)
  have "seqNth ?d i = seqNth d (Suc i)" for i by (simp add: seqNth_def w0 [unfolded seqNth_def] algebra_simps)
  then have "map sint (w # vs) = map (seqNth d) [0..<Suc n]"
    using v(2) w0 by (simp add: upt_conv_Cons map_Suc_upt [symmetric] del: upt_Suc)
  then show ?case using w v n specStep_bounds [OF Suc.prems(1) w(2)] by auto
qed simp

text \<open>C31. A drawn value is what unbounded arithmetic gives. For a sequence positioned within its
  bounds the step returns the start value first and then \<open>last + increment\<close> when that lies in
  \<open>[min, max]\<close>; past a bound it wraps to the opposite bound when CYCLE was declared and is an error
  that leaves the sequence unchanged otherwise. The code's overflow test never misjudges a sum
  that left the 64-bit range, and the position stays within the bounds.\<close>

theorem nextval_exact:
  assumes "seqPosOk d"
  shows "case specStep d of
      Some v \<Rightarrow> \<exists>w. stepSeq name d = (Inr w, d\<lparr>s_Last := w, s_Called := True\<rparr>) \<and> sint w = v \<and>
        sint (s_Min d) \<le> v \<and> v \<le> sint (s_Max d) \<and> seqPosOk (d\<lparr>s_Last := w, s_Called := True\<rparr>)
    | None \<Rightarrow> stepSeq name d = (Inl (if 0 < sint (s_Increment d) then seqReached ''maximum'' name (s_Max d)
                 else seqReached ''minimum'' name (s_Min d)), d)"
  using stepSeq_spec [OF assms, of name] specStep_bounds [OF assms] assms
  by (auto simp: seqPosOk_def split: option.splits)

definition sampleSeq :: seqDesc where
  "sampleSeq = \<lparr>s_FormatVersion = 1, s_ID = 101, s_Name = ''s'', s_Type = [], s_Start = 1, s_Increment = 4,
     s_Min = 1, s_Max = 2 ^ 63 - 1, s_Cycle = False, s_Cache = 1, s_Last = 2 ^ 63 - 3, s_Called = True\<rparr>"

theorem nextval_exact_witness:
  "seqPosOk sampleSeq \<and> stepSeq ''s'' sampleSeq = (Inl (seqReached ''maximum'' ''s'' (2 ^ 63 - 1)), sampleSeq)"
proof -
  have "seqPosOk sampleSeq" "specStep sampleSeq = None" "0 < sint (s_Increment sampleSeq)"
    "s_Max sampleSeq = 2 ^ 63 - 1" by code_simp+
  then show ?thesis using nextval_exact [of sampleSeq "''s''"] by simp
qed

text \<open>C32. A sequence without CYCLE gives exactly as many values as its bounds allow and then refuses:
  every run of that many draws succeeds, with the values of the arithmetic progression in order,
  all distinct and within the bounds, and the next draw is an error.\<close>

theorem nextval_run:
  assumes "seqPosOk d" "\<not> s_Cycle d"
  shows "(n \<le> seqAvail d \<longrightarrow> (\<exists>vs d'. stepMany name n d = (Inr vs, d') \<and> map sint vs = map (seqNth d) [0..<n] \<and>
      distinct vs \<and> (\<forall>v\<in>set vs. sint (s_Min d) \<le> sint v \<and> sint v \<le> sint (s_Max d)) \<and>
      seqAvail d' = seqAvail d - n)) \<and>
    (seqAvail d = 0 \<longrightarrow> (\<exists>e. stepSeq name d = (Inl e, d)))"
proof (intro conjI impI)
  assume "n \<le> seqAvail d"
  then obtain vs d' where v: "stepMany name n d = (Inr vs, d')" "map sint vs = map (seqNth d) [0..<n]"
    "\<forall>v\<in>set vs. sint (s_Min d) \<le> sint v \<and> sint v \<le> sint (s_Max d)" "seqAvail d' = seqAvail d - n"
    using stepMany_spec [OF assms, of n name] by blast
  have "sint (s_Increment d) \<noteq> 0" using assms(1) by (auto simp: seqPosOk_def simp flip: sint_eq_iff)
  then have "distinct (map (seqNth d) [0..<n])" by (auto simp: distinct_map inj_on_def seqNth_def)
  then have "distinct vs" using v(2) by (metis distinct_map)
  then show "\<exists>vs d'. stepMany name n d = (Inr vs, d') \<and> map sint vs = map (seqNth d) [0..<n] \<and>
      distinct vs \<and> (\<forall>v\<in>set vs. sint (s_Min d) \<le> sint v \<and> sint v \<le> sint (s_Max d)) \<and>
      seqAvail d' = seqAvail d - n" using v by blast
next
  assume "seqAvail d = 0"
  then have "specStep d = None" using seqAvail_step(1) [OF assms] by auto
  then show "\<exists>e. stepSeq name d = (Inl e, d)" using stepSeq_spec [OF assms(1), of name] by auto
qed

theorem nextval_run_witness:
  "\<exists>vs d'. stepMany ''s'' 2 (sampleSeq\<lparr>s_Last := 2 ^ 63 - 10\<rparr>) = (Inr vs, d') \<and>
     map sint vs = [2 ^ 63 - 6, 2 ^ 63 - 2] \<and> seqAvail d' = 0"
proof -
  let ?d = "sampleSeq\<lparr>s_Last := 2 ^ 63 - 10\<rparr>"
  have d: "seqPosOk ?d" "\<not> s_Cycle ?d" "seqAvail ?d = 2" "map (seqNth ?d) [0..<2] = [2 ^ 63 - 6, 2 ^ 63 - 2]"
    by code_simp+
  then show ?thesis using nextval_run [OF d(1,2), of 2 "''s''"] by auto
qed

subsection \<open>The options keep a sequence within its bounds, unless ALTER narrows them\<close>

lemma checkSeqDesc_start:
  "checkSeqDesc d = Inr () \<Longrightarrow> seqPosOk (d\<lparr>s_Last := s_Start d, s_Called := False\<rparr>)"
  by (auto simp: checkSeqDesc_def seqPosOk_def word_sless_alt split: if_splits)

lemma setValDesc_ok: "seqPosOk d \<Longrightarrow> setValDesc name v called d = Inr d' \<Longrightarrow> seqPosOk d'"
  by (auto simp: setValDesc_def seqPosOk_def word_sless_alt split: if_splits)

lemma applySeqOptions_restart:
  assumes "applySeqOptions o' d = Inr d'" "o_Restart o'" "checkSeqDesc d' = Inr ()"
  shows "seqPosOk d'"
  using assms by (auto simp: applySeqOptions_def Let_def checkSeqDesc_def seqPosOk_def word_sless_alt
      split: if_splits prod.splits)


subsection \<open>A codec\<close>

text \<open>A descriptor as an encoded tuple, for concrete instances.\<close>

definition tupleSeqCodec :: seqCodec where
  "tupleSeqCodec = \<lparr>
     seq_Marshal = (\<lambda>d. Inr (encTup [VInt (ucast (s_FormatVersion d)), VInt (s_ID d), VString (s_Name d), VString (s_Type d),
       VInt (s_Start d), VInt (s_Increment d), VInt (s_Min d), VInt (s_Max d), VBool (s_Cycle d), VInt (s_Cache d),
       VInt (s_Last d), VBool (s_Called d)])),
     seq_Unmarshal = (\<lambda>b. case Decode b of
         Inr [VInt v, VInt i, VString n, VString ty, VInt st, VInt inc, VInt lo, VInt hi, VBool cy, VInt ca, VInt la, VBool cd] \<Rightarrow>
           Inr \<lparr>s_FormatVersion = ucast v, s_ID = i, s_Name = n, s_Type = ty, s_Start = st, s_Increment = inc, s_Min = lo,
                s_Max = hi, s_Cycle = cy, s_Cache = ca, s_Last = la, s_Called = cd\<rparr>
       | _ \<Rightarrow> Inl (Msg ''corrupt''))\<rparr>"

lemma tupleSeqCodec_ok: "seqCodecOk tupleSeqCodec"
proof -
  have "seq_Marshal tupleSeqCodec d = Inr b \<Longrightarrow> seq_Unmarshal tupleSeqCodec b = Inr d" for d b
  proof -
    let ?vs = "[VInt (ucast (s_FormatVersion d)), VInt (s_ID d), VString (s_Name d), VString (s_Type d),
       VInt (s_Start d), VInt (s_Increment d), VInt (s_Min d), VInt (s_Max d), VBool (s_Cycle d), VInt (s_Cache d),
       VInt (s_Last d), VBool (s_Called d)]"
    assume "seq_Marshal tupleSeqCodec d = Inr b"
    then have "Decode b = Inr ?vs" unfolding Decode_iff by (simp add: tupleSeqCodec_def)
    then show "seq_Unmarshal tupleSeqCodec b = Inr d" by (simp add: tupleSeqCodec_def)
  qed
  then show ?thesis unfolding seqCodecOk_def by (simp add: tupleSeqCodec_def)
qed

end
