(* ===== verification/MemGuard.thy ===== *)
theory MemGuard
  imports Prelude "HOL-Library.Log_Nat"
begin

text \<open>
  The memory ceiling (\<open>src/memguard.go\<close>): the effective ceiling, the cached verdict, and the forced
  collections. The clock and the heap readings come from the runtime and are arguments. The lemmas
  show when a check refuses, that a verdict is never older than the sampling interval, that forced
  collections never overlap and keep their distance, and that the automatic ceiling is nine tenths of the
  soft limit up to floating-point rounding.
\<close>

subsection \<open>The ceiling\<close>

text \<open>A natural number rounded to 53 significant bits, to nearest with ties to even: \<open>float64\<close>.\<close>

definition round53 :: "nat \<Rightarrow> nat" where
  "round53 n =
     (if n < 2 ^ 53 then n
      else
        (let sh = floorlog 2 n - 53; q = n div 2 ^ sh; r = n mod 2 ^ sh; half = 2 ^ (sh - 1)
         in (if r > half \<or> r = half \<and> odd q then q + 1 else q) * 2 ^ sh))"

text \<open>
  \<open>math.Floor(float64(g) * 0.9)\<close>: the constant is the double \<open>8106479329266893 / 2^53\<close>, and the
  product of two doubles is rounded once.
\<close>

definition nineTenths :: "nat \<Rightarrow> nat" where
  "nineTenths g = round53 (round53 g * 8106479329266893) div 2 ^ 53"

definition effectiveCeiling :: "int64 \<Rightarrow> uint64 \<Rightarrow> uint64" where
  "effectiveCeiling cfg gomemlimit =
     (if 0 <s cfg then cfg
      else if cfg <s 0 then 0
      else if gomemlimit = 0 \<or> 2 ^ 62 \<le> gomemlimit then 0
      else word_of_nat (nineTenths (unat gomemlimit)))"

subsection \<open>The verdict and the forced collections\<close>

record memVerdict =
  v_at :: int
  v_live :: uint64
  v_ceiling :: uint64

definition over :: "memVerdict \<Rightarrow> bool" where
  "over v \<longleftrightarrow> 0 < v_ceiling v \<and> v_ceiling v < v_live v"

record memGuard =
  g_ceiling :: int64
  g_verdict :: "memVerdict option"
  g_gcRunning :: bool
  g_lastForcedGC :: int

definition memSampleInterval :: int where "memSampleInterval = 2000000"
definition memForceGCInterval :: int where "memForceGCInterval = 1000000000"

text \<open>
  \<open>resample\<close> at the instant \<open>now\<close> with a reading of the live heap and the soft limit. The flag says
  whether it started the background collection.
\<close>

definition resample :: "memGuard \<Rightarrow> int \<Rightarrow> uint64 \<Rightarrow> uint64 \<Rightarrow> memVerdict \<times> bool \<times> memGuard" where
  "resample g now live gml =
     (let v = \<lparr>v_at = now, v_live = live, v_ceiling = effectiveCeiling (g_ceiling g) gml\<rparr>;
          g1 = g\<lparr>g_verdict := Some v\<rparr>
      in if over v \<and> memForceGCInterval \<le> now - g_lastForcedGC g \<and> \<not> g_gcRunning g
         then (v, True, g1\<lparr>g_gcRunning := True, g_lastForcedGC := now\<rparr>)
         else (v, False, g1))"

text \<open>The background goroutine after \<open>runtime.GC\<close>: publish a new reading, then clear the flag.\<close>

definition gcFinish :: "memGuard \<Rightarrow> int \<Rightarrow> uint64 \<Rightarrow> uint64 \<Rightarrow> memGuard" where
  "gcFinish g now live gml = (snd (snd (resample g now live gml)))\<lparr>g_gcRunning := False\<rparr>"

definition current :: "memGuard \<Rightarrow> int \<Rightarrow> uint64 \<Rightarrow> uint64 \<Rightarrow> memVerdict \<times> bool \<times> memGuard" where
  "current g now live gml =
     (case g_verdict g of
        Some v \<Rightarrow> if now - v_at v < memSampleInterval then (v, False, g) else resample g now live gml
      | None \<Rightarrow> resample g now live gml)"

definition setCeiling :: "int64 \<Rightarrow> memGuard \<Rightarrow> memGuard" where
  "setCeiling n g = g\<lparr>g_ceiling := n, g_verdict := None\<rparr>"

text \<open>The check: the verdict consulted, if any, and whether it refuses.\<close>

definition guardCheck :: "memGuard \<Rightarrow> int \<Rightarrow> uint64 \<Rightarrow> uint64 \<Rightarrow> unit res \<times> bool \<times> memGuard" where
  "guardCheck g now live gml =
     (if g_ceiling g <s 0 then (Inr (), False, g)
      else (case current g now live gml of
              (v, gc, g') \<Rightarrow> (if over v then Inl ErrOutOfMemory else Inr (), gc, g')))"

subsection \<open>Runs of the guard\<close>

text \<open>
  A run interleaves checks, ceiling changes and the end of a collection, with the clock moving
  forward. Besides the guard it records when collections were forced and how many are in flight.
\<close>

record guardRun =
  r_guard :: memGuard
  r_now :: int
  r_starts :: "int list"
  r_active :: nat

inductive guard_step :: "guardRun \<Rightarrow> guardRun \<Rightarrow> bool" where
  check: "r_now s \<le> now \<Longrightarrow> guardCheck (r_guard s) now live gml = (r, gc, g) \<Longrightarrow>
    guard_step s \<lparr>r_guard = g, r_now = now, r_starts = (if gc then now # r_starts s else r_starts s),
                  r_active = (if gc then r_active s + 1 else r_active s)\<rparr>"
| ceiling: "guard_step s (s\<lparr>r_guard := setCeiling n (r_guard s)\<rparr>)"
| finish: "r_now s \<le> now \<Longrightarrow> 0 < r_active s \<Longrightarrow>
    guard_step s (s\<lparr>r_guard := gcFinish (r_guard s) now live gml, r_now := now, r_active := r_active s - 1\<rparr>)"

inductive guard_reach :: "guardRun \<Rightarrow> bool" where
  init: "guard_reach \<lparr>r_guard = \<lparr>g_ceiling = 0, g_verdict = None, g_gcRunning = False, g_lastForcedGC = 0\<rparr>,
           r_now = 0, r_starts = [], r_active = 0\<rparr>"
| step: "guard_reach s \<Longrightarrow> guard_step s s' \<Longrightarrow> guard_reach s'"

inductive_cases guard_stepE: "guard_step s s'"

definition spaced :: "int list \<Rightarrow> bool" where
  "spaced xs \<longleftrightarrow> sorted_wrt (\<lambda>a b. memForceGCInterval \<le> a - b) xs"

definition guardInv :: "guardRun \<Rightarrow> bool" where
  "guardInv s \<longleftrightarrow> r_active s = (if g_gcRunning (r_guard s) then 1 else 0) \<and> spaced (r_starts s) \<and>
     (\<forall>x\<in>set (r_starts s). x \<le> g_lastForcedGC (r_guard s)) \<and> 0 \<le> g_lastForcedGC (r_guard s)"

lemma resample_cases:
  assumes "resample g now live gml = (v, gc, g')"
  shows "v = \<lparr>v_at = now, v_live = live, v_ceiling = effectiveCeiling (g_ceiling g) gml\<rparr>"
    "g_verdict g' = Some v" "g_ceiling g' = g_ceiling g"
    "gc \<longleftrightarrow> over v \<and> memForceGCInterval \<le> now - g_lastForcedGC g \<and> \<not> g_gcRunning g"
    "g_gcRunning g' \<longleftrightarrow> gc \<or> g_gcRunning g" "g_lastForcedGC g' = (if gc then now else g_lastForcedGC g)"
  using assms by (auto simp: resample_def Let_def split: if_splits)

lemma guardCheck_cases:
  assumes "guardCheck g now live gml = (r, gc, g')"
  obtains (disabled) "g_ceiling g <s 0" "r = Inr ()" "\<not> gc" "g' = g"
  | (cached) v where "\<not> g_ceiling g <s 0" "g_verdict g = Some v" "now - v_at v < memSampleInterval"
      "r = (if over v then Inl ErrOutOfMemory else Inr ())" "\<not> gc" "g' = g"
  | (fresh) v where "\<not> g_ceiling g <s 0" "resample g now live gml = (v, gc, g')"
      "\<And>w. g_verdict g = Some w \<Longrightarrow> memSampleInterval \<le> now - v_at w"
      "r = (if over v then Inl ErrOutOfMemory else Inr ())"
  using assms by (cases "resample g now live gml") (auto simp: guardCheck_def current_def split: if_splits option.splits)

lemma guardCheck_gc:
  assumes "guardCheck g now live gml = (r, gc, g')"
  shows "if gc then \<not> g_gcRunning g \<and> memForceGCInterval \<le> now - g_lastForcedGC g \<and> g_gcRunning g' \<and> g_lastForcedGC g' = now
    else g_gcRunning g' = g_gcRunning g \<and> g_lastForcedGC g' = g_lastForcedGC g"
  using assms
proof (cases rule: guardCheck_cases)
  case (fresh v)
  then show ?thesis using resample_cases(4-6) [OF fresh(2)] by auto
qed simp_all

lemma gcFinish_gc:
  assumes "g_gcRunning g"
  shows "\<not> g_gcRunning (gcFinish g now live gml)" "g_lastForcedGC (gcFinish g now live gml) = g_lastForcedGC g"
  using resample_cases(4,6) [of g now live gml] assms
  by (cases "resample g now live gml"; simp add: gcFinish_def)+

lemma guard_step_inv: "guard_step s s' \<Longrightarrow> guardInv s \<Longrightarrow> guardInv s'"
proof (erule guard_stepE, goal_cases)
  case (1 now live gml r gc g)
  note c = guardCheck_gc [OF 1(4)]
  show ?case
  proof (cases gc)
    case True
    then have "\<forall>x\<in>set (r_starts s). memForceGCInterval \<le> now - x" using 1(1) c by (fastforce simp: guardInv_def)
    then show ?thesis using 1(1,2) c True
      by (auto simp: guardInv_def spaced_def memForceGCInterval_def)
  qed (use 1(1,2) c in \<open>auto simp: guardInv_def\<close>)
next
  case (2 n)
  then show ?case by (simp add: guardInv_def setCeiling_def)
next
  case (3 now live gml)
  then have "g_gcRunning (r_guard s)" by (auto simp: guardInv_def split: if_splits)
  then show ?case using 3 gcFinish_gc [of "r_guard s" now live gml] by (auto simp: guardInv_def)
qed

lemma guard_reach_inv: "guard_reach s \<Longrightarrow> guardInv s"
  by (induction rule: guard_reach.induct) (simp add: guardInv_def spaced_def, blast intro: guard_step_inv)

subsection \<open>The automatic ceiling\<close>

lemma round53_error: "round53 n * 2 ^ 53 \<le> n * (2 ^ 53 + 1) \<and> n * (2 ^ 53 - 1) \<le> round53 n * 2 ^ 53"
proof (cases "n < 2 ^ 53")
  case True
  then show ?thesis by (simp add: round53_def)
next
  case False
  define L where "L = floorlog 2 n"
  define sh where "sh = L - 53"
  have n: "0 < n" "2 ^ 53 \<le> n" using False by simp_all
  have b: "2 ^ (L - 1) \<le> n" "n < 2 ^ L" using n floorlog_bounds [of n 2] by (simp_all add: L_def)
  have "53 < L"
  proof (rule ccontr)
    assume "\<not> 53 < L"
    then have "(2::nat) ^ L \<le> 2 ^ 53" by (intro power_increasing) simp_all
    then show False using b n by linarith
  qed
  then have sh: "0 < sh" "L - 1 = (sh - 1) + 53" "sh = Suc (sh - 1)" by (simp_all add: sh_def)
  define q where "q = n div 2 ^ sh"
  define r where "r = n mod 2 ^ sh"
  define half :: nat where "half = 2 ^ (sh - 1)"
  have two: "2 ^ sh = 2 * half" unfolding half_def using sh(3) by (metis power_Suc)
  have nq: "n = q * 2 ^ sh + r" "r < 2 ^ sh" unfolding q_def r_def by (simp_all only: div_mult_mod_eq) simp
  have h: "half * 2 ^ 53 \<le> n" using b(1) unfolding sh(2) half_def by (simp add: power_add)
  have R: "round53 n = (if r > half \<or> r = half \<and> odd q then q + 1 else q) * 2 ^ sh"
    using False by (simp add: round53_def Let_def q_def r_def half_def sh_def L_def)
  have "round53 n \<le> n + half \<and> n \<le> round53 n + half"
    using nq two unfolding R by (auto simp: algebra_simps)
  then have "round53 n * 2 ^ 53 \<le> n * 2 ^ 53 + half * 2 ^ 53" "n * 2 ^ 53 \<le> round53 n * 2 ^ 53 + half * 2 ^ 53"
    by (metis add_mult_distrib mult_le_mono1)+
  then show ?thesis using h by simp
qed

lemma nineTenths_bounds:
  "10 * nineTenths g * 2 ^ 53 \<le> 9 * g * 2 ^ 53 + 21 * g" "9 * g * 2 ^ 53 \<le> (10 * nineTenths g + 10) * 2 ^ 53 + 18 * g"
proof -
  define A where "A = round53 g"
  define R where "R = round53 (A * 8106479329266893)"
  have a: "A * 2 ^ 53 \<le> g * (2 ^ 53 + 1)" "g * (2 ^ 53 - 1) \<le> A * 2 ^ 53"
    using round53_error [of g] by (simp_all add: A_def)
  have r: "R * 2 ^ 53 \<le> A * 8106479329266893 * (2 ^ 53 + 1)" "A * 8106479329266893 * (2 ^ 53 - 1) \<le> R * 2 ^ 53"
    using round53_error [of "A * 8106479329266893"] unfolding R_def by blast+
  have n: "nineTenths g * 2 ^ 53 \<le> R" "R < nineTenths g * 2 ^ 53 + 2 ^ 53"
    by (simp_all add: nineTenths_def A_def [symmetric] R_def [symmetric] dividend_less_div_times)
  show "10 * nineTenths g * 2 ^ 53 \<le> 9 * g * 2 ^ 53 + 21 * g" using a(1) r(1) n(1) by simp
  show "9 * g * 2 ^ 53 \<le> (10 * nineTenths g + 10) * 2 ^ 53 + 18 * g" using a(2) r(2) n(2) by simp
qed

lemma nineTenths_less: "0 < g \<Longrightarrow> nineTenths g < g"
  using nineTenths_bounds(1) [of g] by simp





end
