(* ===== verification/Engine.thy ===== *)
theory Engine
  imports SeqObj MemGuard
begin

text \<open>
  The engine (\<open>src/engine.go\<close>): its state, the transactions its operations run in, the reentrancy
  guard, descriptor resolution through the parse cache, and the DDL retry loop. Code outside the
  repository is one record of parameters: the store and its transactions, the standard library,
  the JSON forms, the runtime's heap readings and clock, and the identity of the calling goroutine.
  The lemmas show that the parse cache is invisible, and what a transaction function can do to the
  store: nothing when it fails, exactly the closure's effect when it commits.
\<close>

subsection \<open>State and parameters\<close>

record counterAlloc =
  a_dead :: bool
  a_loaded :: bool
  a_existed :: bool
  a_next :: uint64
  a_watermark :: uint64

record seqObjAlloc =
  b_dead :: bool
  b_desc :: seqDesc
  b_reserved :: nat

text \<open>
  The allocator maps hold pointers, so that an allocator dropped from the map can still be held by
  a caller: the maps lead to positions in a heap.
\<close>

record 'db engine =
  e_kv :: 'db
  e_occ :: bool
  e_seqAllocs :: "(key \<times> nat) list"
  e_allocHeap :: "counterAlloc list"
  e_seqObjAllocs :: "(key \<times> nat) list"
  e_objHeap :: "seqObjAlloc list"
  e_descCache :: "string \<Rightarrow> (bytes \<times> tableDesc) option"
  e_writerGID :: uint64
  e_backfillLimit :: int64
  e_maxResultRows :: int64
  e_maxTxnWrites :: int64
  e_mem :: memGuard
  e_testCommitErr :: "err option"
  e_tick :: nat    \<comment> \<open>how many runtime readings have been taken\<close>

record viewDesc =
  vw_Name :: string
  vw_Query :: string

record viewCodec =
  view_Marshal :: "viewDesc \<Rightarrow> bytes res"
  view_Unmarshal :: "bytes \<Rightarrow> viewDesc res"

record ('db, 'tx) deps =
  p_kv :: "'tx kvops"
  p_db :: "('db, 'tx) dbops"
  p_lib :: golib
  p_desc :: descCodec
  p_seq :: seqCodec
  p_view :: viewCodec
  p_rt :: "nat \<Rightarrow> int \<times> uint64 \<times> uint64"    \<comment> \<open>clock, live heap, soft limit at each reading\<close>
  p_now :: gotime
  p_gid :: uint64

definition DefaultBackfillLimit :: int64 where "DefaultBackfillLimit = 1000000"
definition DefaultMaxResultRows :: int64 where "DefaultMaxResultRows = 10000000"
definition DefaultMaxTxnWrites :: int64 where "DefaultMaxTxnWrites = 10000000"

subsection \<open>Closures on a transaction\<close>

text \<open>
  A transaction closure changes the transaction it is given and, through the engine it captures, the
  engine's own state, which no rollback restores.
\<close>

definition onTx :: "('tx, 'a) act \<Rightarrow> ('e \<times> 'tx, 'a) act" where
  "onTx m s = (case m (snd s) of (r, t') \<Rightarrow> (r, (fst s, t')))"

definition onEng :: "('e, 'a) act \<Rightarrow> ('e \<times> 'tx, 'a) act" where
  "onEng m s = (case m (fst s) of (r, e') \<Rightarrow> (r, (e', snd s)))"

definition withDb :: "('db, 'a) act \<Rightarrow> (('db, 'z) engine_scheme, 'a) act" where
  "withDb m e = (case m (e_kv e) of (r, d) \<Rightarrow> (r, e\<lparr>e_kv := d\<rparr>))"

text \<open>Run the closure, then commit, or roll back when it returned an error.\<close>

definition finishTx ::
  "('db, 'tx) deps \<Rightarrow> (('db, 'z) engine_scheme \<times> 'tx, 'a) act \<Rightarrow> 'tx \<Rightarrow> (('db, 'z) engine_scheme, 'a) act" where
  "finishTx E fn t e =
     (case fn (e, t) of
        (Inl err, e', t') \<Rightarrow> (Inl err, e'\<lparr>e_kv := snd (db_Rollback (p_db E) t' (e_kv e'))\<rparr>)
      | (Inr x, e', t') \<Rightarrow>
          (case db_Commit (p_db E) t' (e_kv e') of
             (Inl err, d) \<Rightarrow> (Inl err, e'\<lparr>e_kv := d\<rparr>)
           | (Inr _, d) \<Rightarrow> (Inr x, e'\<lparr>e_kv := d\<rparr>)))"

definition eUpdate ::
  "('db, 'tx) deps \<Rightarrow> (('db, 'z) engine_scheme \<times> 'tx, 'a) act \<Rightarrow> (('db, 'z) engine_scheme, 'a) act" where
  "eUpdate E fn = act_bind (withDb (db_Begin (p_db E) True)) (finishTx E fn)"

definition eUpdateExclusive ::
  "('db, 'tx) deps \<Rightarrow> (('db, 'z) engine_scheme \<times> 'tx, 'a) act \<Rightarrow> (('db, 'z) engine_scheme, 'a) act" where
  "eUpdateExclusive E fn = act_bind (withDb (db_BeginExclusive (p_db E))) (finishTx E fn)"

definition eView ::
  "('db, 'tx) deps \<Rightarrow> (('db, 'z) engine_scheme \<times> 'tx, 'a) act \<Rightarrow> (('db, 'z) engine_scheme, 'a) act" where
  "eView E fn = act_bind (withDb (db_Begin (p_db E) False)) (\<lambda>t e.
     case fn (e, t) of (r, e', t') \<Rightarrow> (r, e'\<lparr>e_kv := snd (db_Rollback (p_db E) t' (e_kv e'))\<rparr>))"

definition checkReentrantWrite :: "('db, 'tx) deps \<Rightarrow> (('db, 'z) engine_scheme, unit) act" where
  "checkReentrantWrite E e =
     (if e_occ e then (Inr (), e)
      else if e_writerGID e \<noteq> 0 \<and> e_writerGID e = p_gid E
      then (Inl (Msg ''engine write inside the goroutine's own open write transaction would deadlock''), e)
      else (Inr (), e))"

definition CheckMemory :: "('db, 'tx) deps \<Rightarrow> (('db, 'z) engine_scheme, unit) act" where
  "CheckMemory E e =
     (if g_ceiling (e_mem e) <s 0 then (Inr (), e)
      else
        (case p_rt E (e_tick e) of (now, live, gml) \<Rightarrow>
           (case guardCheck (e_mem e) now live gml of
              (r, _, g) \<Rightarrow> (r, e\<lparr>e_mem := g, e_tick := e_tick e + 1\<rparr>))))"

definition SetMemoryCeiling :: "int64 \<Rightarrow> (('db, 'z) engine_scheme, unit) act" where
  "SetMemoryCeiling n e = (Inr (), e\<lparr>e_mem := setCeiling n (e_mem e)\<rparr>)"

definition SetMaxResultRows :: "int64 \<Rightarrow> (('db, 'z) engine_scheme, unit) act" where
  "SetMaxResultRows n e = (Inr (), e\<lparr>e_maxResultRows := n\<rparr>)"

definition SetMaxTxnWrites :: "int64 \<Rightarrow> (('db, 'z) engine_scheme, unit) act" where
  "SetMaxTxnWrites n e = (Inr (), e\<lparr>e_maxTxnWrites := n\<rparr>)"

definition SetBackfillLimit :: "int64 \<Rightarrow> (('db, 'z) engine_scheme, unit) act" where
  "SetBackfillLimit n e = (Inr (), e\<lparr>e_backfillLimit := n\<rparr>)"

subsection \<open>Descriptors through the parse cache\<close>

definition cacheStore :: "string \<Rightarrow> bytes \<Rightarrow> tableDesc \<Rightarrow> ('db, 'z) engine_scheme \<Rightarrow> ('db, 'z) engine_scheme" where
  "cacheStore name blob desc e = e\<lparr>e_descCache := (e_descCache e)(name \<mapsto> (blob, desc))\<rparr>"

definition cacheEvict :: "string \<Rightarrow> ('db, 'z) engine_scheme \<Rightarrow> ('db, 'z) engine_scheme" where
  "cacheEvict name e = e\<lparr>e_descCache := (e_descCache e)(name := None)\<rparr>"

fun tableFromView ::
  "('db, 'tx) deps \<Rightarrow> string \<Rightarrow> (('db, 'z) engine_scheme \<times> 'tx, tableDesc option) act" where
  "tableFromView E name (e, t) =
     (case kv_Get (p_kv E) (descKey name) t of
        None \<Rightarrow> (Inr None, (e, t))
      | Some blob \<Rightarrow>
          (case e_descCache e name of
             Some (b, desc) \<Rightarrow>
               if b = blob then (Inr (Some desc), (e, t))
               else (case parseDesc (p_desc E) blob of
                       Inl err \<Rightarrow> (Inl err, (e, t))
                     | Inr desc \<Rightarrow> (Inr (Some desc), (cacheStore name blob desc e, t)))
           | None \<Rightarrow>
               (case parseDesc (p_desc E) blob of
                  Inl err \<Rightarrow> (Inl err, (e, t))
                | Inr desc \<Rightarrow> (Inr (Some desc), (cacheStore name blob desc e, t)))))"

abbreviation noTable :: err where
  "noTable \<equiv> Msg ''no such table''"

definition descFromView ::
  "('db, 'tx) deps \<Rightarrow> string \<Rightarrow> (('db, 'z) engine_scheme \<times> 'tx, tableDesc) act" where
  "descFromView E name =
     act_bind (tableFromView E name) (\<lambda>desc. case desc of None \<Rightarrow> act_fail noTable | Some d \<Rightarrow> act_return d)"

text \<open>
  \<open>loadCatalog\<close> at open: every descriptor is parsed and cached; the broken ones are reported together.
\<close>

definition catalogErr :: "string list \<Rightarrow> err" where
  "catalogErr bad = Msg (''unreadable table descriptors ('' @ fmtInt (int (length bad)) @ ''): '' @
     concat (case bad of [] \<Rightarrow> [] | b # bs \<Rightarrow> b # map (\<lambda>x. ''; '' @ x) bs))"

fun errText :: "err \<Rightarrow> string" where
  "errText (Msg m) = m"
| "errText _ = []"

fun loadDescs ::
  "descCodec \<Rightarrow> (key \<times> bytes) list \<Rightarrow> string list \<Rightarrow> ('db, 'z) engine_scheme \<Rightarrow> string list \<times> ('db, 'z) engine_scheme" where
  "loadDescs C [] bad e = (bad, e)"
| "loadDescs C ((k, v) # kvs) bad e =
     (case parseDesc C v of
        Inl err \<Rightarrow> loadDescs C kvs (bad @ [descKeyName k @ '': '' @ errText err]) e
      | Inr desc \<Rightarrow> loadDescs C kvs bad (cacheStore (d_Name desc) v desc e))"

definition loadCatalog :: "('db, 'tx) deps \<Rightarrow> (('db, 'z) engine_scheme, unit) act" where
  "loadCatalog E e =
     (let kvs = takeWhile (\<lambda>x. fst x < prefixEndKey descTablePrefix) (db_Ascend (p_db E) descTablePrefix (e_kv e));
          (bad, e') = loadDescs (p_desc E) kvs [] e
      in (if bad \<noteq> [] then Inl (catalogErr bad) else Inr (), e'))"

definition openEngine :: "'db \<Rightarrow> bool \<Rightarrow> 'db engine" where
  "openEngine kv occ = \<lparr>e_kv = kv, e_occ = occ, e_seqAllocs = [], e_allocHeap = [], e_seqObjAllocs = [], e_objHeap = [],
     e_descCache = (\<lambda>_. None), e_writerGID = 0, e_backfillLimit = DefaultBackfillLimit,
     e_maxResultRows = DefaultMaxResultRows, e_maxTxnWrites = DefaultMaxTxnWrites,
     e_mem = \<lparr>g_ceiling = 0, g_verdict = None, g_gcRunning = False, g_lastForcedGC = 0\<rparr>,
     e_testCommitErr = None, e_tick = 0\<rparr>"

definition Open :: "('db, 'tx) deps \<Rightarrow> 'db \<Rightarrow> bool \<Rightarrow> 'db engine res" where
  "Open E kv occ = (case loadCatalog E (openEngine kv occ) of (Inl err, _) \<Rightarrow> Inl err | (Inr _, e) \<Rightarrow> Inr e)"

subsection \<open>DDL transactions\<close>

definition ddlOptimisticTries :: nat where "ddlOptimisticTries = 2"

definition markExclusive :: "('db, 'tx) deps \<Rightarrow> ('e \<times> 'tx, 'a) act \<Rightarrow> ('e \<times> 'tx, 'a) act" where
  "markExclusive E fn s = fn (fst s, kv_MarkExclusive (p_kv E) (snd s))"

fun ddlTries ::
  "('db, 'tx) deps \<Rightarrow> nat \<Rightarrow> (('db, 'z) engine_scheme \<times> 'tx, 'a) act \<Rightarrow> (('db, 'z) engine_scheme, 'a) act" where
  "ddlTries E 0 fn e = eUpdateExclusive E fn e"
| "ddlTries E (Suc n) fn e =
     (case eUpdate E (markExclusive E fn) e of
        (Inl ErrTxConflict, e') \<Rightarrow> ddlTries E n fn e'
      | r \<Rightarrow> r)"

definition updateDDL ::
  "('db, 'tx) deps \<Rightarrow> (('db, 'z) engine_scheme \<times> 'tx, 'a) act \<Rightarrow> (('db, 'z) engine_scheme, 'a) act" where
  "updateDDL E fn =
     act_bind (checkReentrantWrite E) (\<lambda>_ e.
       case e_testCommitErr e of
         Some err \<Rightarrow>
           act_bind (withDb (db_Begin (p_db E) True)) (\<lambda>t e.
             case fn (e, t) of
               (r, e', t') \<Rightarrow>
                 (case r of Inl x \<Rightarrow> Inl x | Inr _ \<Rightarrow> Inl err,
                  e'\<lparr>e_kv := snd (db_Rollback (p_db E) t' (e_kv e'))\<rparr>)) e
       | None \<Rightarrow> if \<not> e_occ e then eUpdate E fn e else ddlTries E ddlOptimisticTries fn e)"

subsection \<open>The parse cache is invisible\<close>

text \<open>What a catalog lookup means: parse the stored bytes, if there are any.\<close>

definition tableAt :: "descCodec \<Rightarrow> (key \<Rightarrow> bytes option) \<Rightarrow> string \<Rightarrow> tableDesc option res" where
  "tableAt C m name =
     (case m (descKey name) of None \<Rightarrow> Inr None | Some b \<Rightarrow> res_bind (parseDesc C b) (\<lambda>d. Inr (Some d)))"

definition cacheOk :: "descCodec \<Rightarrow> ('db, 'z) engine_scheme \<Rightarrow> bool" where
  "cacheOk C e \<longleftrightarrow> (\<forall>name b d. e_descCache e name = Some (b, d) \<longrightarrow> parseDesc C b = Inr d)"

text \<open>Two engine states that differ in the parse cache only.\<close>

definition sameBut :: "('db, 'z) engine_scheme \<Rightarrow> ('db, 'z) engine_scheme \<Rightarrow> bool" where
  "sameBut e e' \<longleftrightarrow> e' = e\<lparr>e_descCache := e_descCache e'\<rparr>"

lemma sameBut_refl [simp, intro!]: "sameBut e e"
  by (simp add: sameBut_def)

lemma sameBut_fields:
  assumes "sameBut e e'"
  shows "e_kv e' = e_kv e" "e_occ e' = e_occ e" "e_seqAllocs e' = e_seqAllocs e" "e_allocHeap e' = e_allocHeap e"
    "e_seqObjAllocs e' = e_seqObjAllocs e" "e_objHeap e' = e_objHeap e" "e_writerGID e' = e_writerGID e"
    "e_backfillLimit e' = e_backfillLimit e" "e_maxTxnWrites e' = e_maxTxnWrites e" "e_mem e' = e_mem e"
    "e_tick e' = e_tick e" "e_testCommitErr e' = e_testCommitErr e"
proof -
  obtain c where c: "e' = e\<lparr>e_descCache := c\<rparr>" using assms unfolding sameBut_def by blast
  show "e_kv e' = e_kv e" "e_occ e' = e_occ e" "e_seqAllocs e' = e_seqAllocs e" "e_allocHeap e' = e_allocHeap e"
    "e_seqObjAllocs e' = e_seqObjAllocs e" "e_objHeap e' = e_objHeap e" "e_writerGID e' = e_writerGID e"
    "e_backfillLimit e' = e_backfillLimit e" "e_maxTxnWrites e' = e_maxTxnWrites e" "e_mem e' = e_mem e"
    "e_tick e' = e_tick e" "e_testCommitErr e' = e_testCommitErr e"
    by (simp_all add: c)
qed

lemma sameBut_trans: "sameBut a b \<Longrightarrow> sameBut b c \<Longrightarrow> sameBut a c"
  unfolding sameBut_def by (cases a; cases b; cases c) simp

lemma cacheStore_ok: "cacheOk C e \<Longrightarrow> parseDesc C b = Inr d \<Longrightarrow> cacheOk C (cacheStore name b d e) \<and> sameBut e (cacheStore name b d e)"
  by (auto simp: cacheOk_def cacheStore_def sameBut_def)

lemma cacheEvict_ok: "cacheOk C e \<Longrightarrow> cacheOk C (cacheEvict name e) \<and> sameBut e (cacheEvict name e)"
  by (auto simp: cacheOk_def cacheEvict_def sameBut_def)

lemma tableFromView_eq:
  assumes "kv_Get (p_kv E) (descKey name) t = m (descKey name)" "cacheOk (p_desc E) e"
  shows "\<exists>e'. tableFromView E name (e, t) = (tableAt (p_desc E) m name, (e', t)) \<and> cacheOk (p_desc E) e' \<and> sameBut e e'"
proof (cases "m (descKey name)")
  case None
  then show ?thesis using assms by (auto simp: tableAt_def)
next
  case (Some b)
  have parse: "\<exists>e'. (case parseDesc (p_desc E) b of Inl err \<Rightarrow> (Inl err, (e, t))
      | Inr desc \<Rightarrow> (Inr (Some desc), (cacheStore name b desc e, t))) = (tableAt (p_desc E) m name, (e', t)) \<and>
      cacheOk (p_desc E) e' \<and> sameBut e e'"
    using assms(2) cacheStore_ok [of "p_desc E" e b] Some by (auto simp: tableAt_def split: sum.splits)
  show ?thesis
  proof (cases "e_descCache e name")
    case None
    then show ?thesis using parse assms(1) Some by (simp)
  next
    case (Some bd)
    obtain b' d where bd: "bd = (b', d)" by (cases bd)
    show ?thesis
    proof (cases "b' = b")
      case True
      then have "parseDesc (p_desc E) b = Inr d" using assms(2) Some bd by (auto simp: cacheOk_def)
      then show ?thesis using assms Some bd True \<open>m (descKey name) = Some b\<close> by (auto simp: tableAt_def)
    next
      case False
      then show ?thesis using parse assms(1) Some bd \<open>m (descKey name) = Some b\<close> by (simp)
    qed
  qed
qed

lemma descFromView_eq:
  assumes "kv_Get (p_kv E) (descKey name) t = m (descKey name)" "cacheOk (p_desc E) e"
  shows "\<exists>e'. descFromView E name (e, t) =
      (res_bind (tableAt (p_desc E) m name) (\<lambda>d. case d of None \<Rightarrow> Inl noTable | Some d \<Rightarrow> Inr d), (e', t)) \<and>
    cacheOk (p_desc E) e' \<and> sameBut e e'"
proof -
  obtain e' where "tableFromView E name (e, t) = (tableAt (p_desc E) m name, (e', t))" "cacheOk (p_desc E) e'" "sameBut e e'"
    using tableFromView_eq [of E name t m e, OF assms] by blast
  then show ?thesis
    by (cases "tableAt (p_desc E) m name") (auto simp: descFromView_def split: option.splits)
qed

lemma loadDescs_ok:
  "cacheOk C e \<Longrightarrow> loadDescs C kvs bad e = (bad', e') \<Longrightarrow>
   cacheOk C e' \<and> sameBut e e' \<and> (bad' = [] \<longleftrightarrow> bad = [] \<and> (\<forall>kv\<in>set kvs. \<exists>d. parseDesc C (snd kv) = Inr d))"
proof (induction C kvs bad e rule: loadDescs.induct)
  case (2 C k v kvs bad e)
  show ?case
  proof (cases "parseDesc C v")
    case (Inl err)
    then show ?thesis using 2 by auto
  next
    case (Inr d)
    have "cacheOk C (cacheStore (d_Name d) v d e)" "sameBut e (cacheStore (d_Name d) v d e)"
      using cacheStore_ok [OF 2(3) Inr] by simp_all
    moreover have "cacheOk C e' \<and> sameBut (cacheStore (d_Name d) v d e) e' \<and>
        (bad' = [] \<longleftrightarrow> bad = [] \<and> (\<forall>kv\<in>set kvs. \<exists>d. parseDesc C (snd kv) = Inr d))"
      using 2(2) [OF Inr calculation(1)] 2(4) Inr by simp
    ultimately show ?thesis using Inr sameBut_trans [of e _ e'] by auto
  qed
qed simp

subsection \<open>Transaction functions are atomic\<close>

lemma onTx_iff [simp]: "onTx m (e, t) = (r, (e', t')) \<longleftrightarrow> e' = e \<and> m t = (r, t')"
  by (auto simp: onTx_def split: prod.splits)

lemma onEng_iff [simp]: "onEng m (e, t) = (r, (e', t')) \<longleftrightarrow> t' = t \<and> m e = (r, e')"
  by (auto simp: onEng_def split: prod.splits)

lemma act_keeps_onTx [intro]: "act_keeps Q m \<Longrightarrow> act_keeps (\<lambda>(e, t). Q t \<and> P e) (onTx m)"
  unfolding act_keeps_def by (auto simp: onTx_def split: prod.splits)

lemma act_keeps_onEng [intro]: "act_keeps P m \<Longrightarrow> act_keeps (\<lambda>(e, t). Q t \<and> P e) (onEng m)"
  unfolding act_keeps_def by (auto simp: onEng_def split: prod.splits)

text \<open>What every closure keeps: an open transaction on the same snapshot, and the store untouched.\<close>

definition closureKeeps ::
  "('tx \<Rightarrow> bool) \<Rightarrow> ('tx \<Rightarrow> 'b) \<Rightarrow> (('db, 'z) engine_scheme \<Rightarrow> bool) \<Rightarrow> (('db, 'z) engine_scheme \<times> 'tx, 'a) act \<Rightarrow> bool" where
  "closureKeeps ok base J fn \<longleftrightarrow> (\<forall>b d. act_keeps (\<lambda>(e, t). (ok t \<and> base t = b) \<and> (J e \<and> e_kv e = d)) fn)"

locale engine_env = kv_db "p_kv E" wf content "p_db E" dwf dcontent base written + kv_rw "p_kv E" wf content
  for E :: "('db, 'tx) deps" and wf content dwf dcontent base written
begin

abbreviation txOn :: "(key \<Rightarrow> bytes option) \<Rightarrow> 'tx \<Rightarrow> bool" where
  "txOn b t \<equiv> wf t \<and> base t = b"

lemma keeps_kv [intro]:
  "act_keeps (txOn b) (kv_Set (p_kv E) k v)" "act_keeps (txOn b) (kv_Delete (p_kv E) k)"
  "act_keeps (txOn b) (kv_DeleteRange (p_kv E) lo hi)"
  "act_keeps (txOn b) (act_modify (kv_MarkRead (p_kv E) k))"
  "act_keeps (txOn b) (act_modify (kv_MarkReadRange (p_kv E) lo hi))"
  unfolding act_keeps_def
  by (blast dest: Set [THEN conjunct1] base_Set [THEN conjunct1])
    (blast dest: Delete [THEN conjunct1] base_Delete [THEN conjunct1],
     blast dest: DeleteRange [THEN conjunct1] base_DeleteRange [THEN conjunct1],
     simp_all add: base_Mark)

abbreviation closureOk :: "(('db, 'z) engine_scheme \<Rightarrow> bool) \<Rightarrow> (('db, 'z) engine_scheme \<times> 'tx, 'a) act \<Rightarrow> bool" where
  "closureOk \<equiv> closureKeeps wf base"

lemma closureOkD:
  assumes "closureOk J fn" "fn (e, t) = (r, (e', t'))" "wf t" "J e"
  shows "wf t'" "base t' = base t" "J e'" "e_kv e' = e_kv e"
proof -
  have "act_keeps (\<lambda>(f, u). txOn (base t) u \<and> (J f \<and> e_kv f = e_kv e)) fn" using assms(1) unfolding closureKeeps_def by blast
  from act_keepsD [OF this, of "(e, t)" r "(e', t')"] assms(2-4)
  show "wf t'" "base t' = base t" "J e'" "e_kv e' = e_kv e" by simp_all
qed

lemma finishTx_ok:
  assumes fn: "closureOk J fn" and J: "\<And>e d. J (e\<lparr>e_kv := d\<rparr>) \<longleftrightarrow> J e" "J e"
    and t: "wf t" "base t = dcontent (e_kv e)" "dwf (e_kv e)"
    and r: "finishTx E fn t e = (Inr x, e')"
  shows "\<exists>e1 t' d. fn (e, t) = (Inr x, (e1, t')) \<and> wf t' \<and> e' = e1\<lparr>e_kv := d\<rparr> \<and> J e' \<and> dwf d \<and> dcontent d = content t'"
proof -
  obtain e1 t' u d where f: "fn (e, t) = (Inr x, (e1, t'))" "db_Commit (p_db E) t' (e_kv e1) = (Inr u, d)" "e' = e1\<lparr>e_kv := d\<rparr>"
    using r by (auto simp: finishTx_def split: prod.splits sum.splits)
  note k = closureOkD [OF fn f(1) t(1) J(2)]
  have "dwf d \<and> dcontent d = content t'"
    by (rule Commit_unmoved [OF _ k(1) f(2)]) (use k t in auto)
  then show ?thesis using f k J(1) by auto
qed

lemma finishTx_err:
  assumes fn: "closureOk J fn" and J: "\<And>e d. J (e\<lparr>e_kv := d\<rparr>) \<longleftrightarrow> J e" "J e"
    and t: "wf t" "base t = dcontent (e_kv e)" "dwf (e_kv e)"
    and r: "finishTx E fn t e = (Inl err, e')"
  shows "J e' \<and> dwf (e_kv e') \<and> (dcontent (e_kv e') = dcontent (e_kv e) \<or>
    err \<noteq> ErrTxConflict \<and> (\<exists>x e1 t'. fn (e, t) = (Inr x, (e1, t')) \<and> wf t' \<and> dcontent (e_kv e') = content t'))"
proof -
  obtain q e1 t' where f: "fn (e, t) = (q, (e1, t'))" by (cases "fn (e, t)") auto
  note k = closureOkD [OF fn f t(1) J(2)]
  show ?thesis
  proof (cases q)
    case (Inl x)
    obtain v d where d: "db_Rollback (p_db E) t' (e_kv e1) = (v, d)" by (cases "db_Rollback (p_db E) t' (e_kv e1)")
    have "dwf d \<and> dcontent d = dcontent (e_kv e)" using Rollback [OF _ k(1) d] k(4) t(3) by simp
    then show ?thesis using r f Inl d k(3) J(1) by (auto simp: finishTx_def)
  next
    case (Inr x)
    obtain d where d: "db_Commit (p_db E) t' (e_kv e1) = (Inl err, d)" "e' = e1\<lparr>e_kv := d\<rparr>"
      using r f Inr by (auto simp: finishTx_def split: prod.splits sum.splits)
    have "dwf d \<and> (dcontent d = dcontent (e_kv e) \<or> err \<noteq> ErrTxConflict \<and>
        dcontent d = (\<lambda>k. if k \<in> written t' then content t' k else dcontent (e_kv e) k))"
      using Commit_err [OF t(3) k(1) d(1) [unfolded k(4)]] .
    moreover have "(\<lambda>k. if k \<in> written t' then content t' k else dcontent (e_kv e) k) = content t'"
      using unwritten [OF k(1)] k(2) t(2) by auto
    ultimately show ?thesis using d f Inr k J(1) by auto
  qed
qed

end

text \<open>
  The outcome of a transaction function run on store content \<open>m\<close>. On success some run of the closure on
  a snapshot of \<open>m\<close> succeeded and its content is the new store. On failure the store is unchanged,
  except that a commit failing for another reason than a conflict may have been applied.
\<close>

definition ranOk ::
  "('tx \<Rightarrow> bool) \<Rightarrow> ('tx \<Rightarrow> key \<Rightarrow> bytes option) \<Rightarrow> (('db, 'z) engine_scheme \<Rightarrow> bool) \<Rightarrow> ('db, 'tx) deps \<Rightarrow>
   (('db, 'z) engine_scheme \<times> 'tx, 'a) act \<Rightarrow> (key \<Rightarrow> bytes option) \<Rightarrow> 'a \<Rightarrow> ('db, 'z) engine_scheme \<Rightarrow>
   (key \<Rightarrow> bytes option) \<Rightarrow> bool" where
  "ranOk ok content J E fn m x e1 m' \<longleftrightarrow>
     (\<exists>e0 t t'. J e0 \<and> ok t \<and> kv_Writable (p_kv E) t \<and> content t = m \<and>
        fn (e0, t) = (Inr x, (e1, t')) \<and> ok t' \<and> content t' = m')"

context engine_env
begin

abbreviation ran :: "(('db, 'z) engine_scheme \<Rightarrow> bool) \<Rightarrow> (('db, 'z) engine_scheme \<times> 'tx, 'a) act \<Rightarrow>
   (key \<Rightarrow> bytes option) \<Rightarrow> 'a \<Rightarrow> ('db, 'z) engine_scheme \<Rightarrow> (key \<Rightarrow> bytes option) \<Rightarrow> bool" where
  "ran J \<equiv> ranOk wf content J E"

lemma startTx_ok:
  assumes bg: "\<And>d t d'. dwf d \<Longrightarrow> B d = (Inr t, d') \<Longrightarrow> wf t \<and> content t = dcontent d \<and> base t = dcontent d \<and>
      kv_Writable (p_kv E) t \<and> dwf d' \<and> dcontent d' = dcontent d"
    and fn: "closureOk J fn" and J: "\<And>e d. J (e\<lparr>e_kv := d\<rparr>) \<longleftrightarrow> J e" "J e" and d: "dwf (e_kv e)"
    and r: "act_bind (withDb B) (finishTx E fn) e = (Inr x, e')"
  shows "\<exists>e1 d. ran J fn (dcontent (e_kv e)) x e1 (dcontent d) \<and> e' = e1\<lparr>e_kv := d\<rparr> \<and> J e' \<and> dwf d"
proof -
  obtain t d0 where t: "B (e_kv e) = (Inr t, d0)" "finishTx E fn t (e\<lparr>e_kv := d0\<rparr>) = (Inr x, e')"
    using r by (auto simp: act_bind_Inr withDb_def split: prod.splits)
  note b = bg [OF d t(1)]
  have "\<exists>e1 t' d. fn (e\<lparr>e_kv := d0\<rparr>, t) = (Inr x, (e1, t')) \<and> wf t' \<and> e' = e1\<lparr>e_kv := d\<rparr> \<and> J e' \<and> dwf d \<and> dcontent d = content t'"
    by (rule finishTx_ok [OF fn J(1) _ _ _ _ t(2)]) (use b J in auto)
  then obtain e1 t' d1 where f: "fn (e\<lparr>e_kv := d0\<rparr>, t) = (Inr x, (e1, t'))" "wf t'" "e' = e1\<lparr>e_kv := d1\<rparr>" "J e'" "dwf d1"
    "dcontent d1 = content t'" by blast
  have "ran J fn (dcontent (e_kv e)) x e1 (dcontent d1)"
    unfolding ranOk_def by (rule exI [of _ "e\<lparr>e_kv := d0\<rparr>"], rule exI [of _ t], rule exI [of _ t']) (use f b J in auto)
  then show ?thesis using f by blast
qed

lemma startTx_err:
  assumes bg: "\<And>d t d'. dwf d \<Longrightarrow> B d = (Inr t, d') \<Longrightarrow> wf t \<and> content t = dcontent d \<and> base t = dcontent d \<and>
      kv_Writable (p_kv E) t \<and> dwf d' \<and> dcontent d' = dcontent d"
    and bg_err: "\<And>d x d'. dwf d \<Longrightarrow> B d = (Inl x, d') \<Longrightarrow> dwf d' \<and> dcontent d' = dcontent d"
    and fn: "closureOk J fn" and J: "\<And>e d. J (e\<lparr>e_kv := d\<rparr>) \<longleftrightarrow> J e" "J e" and d: "dwf (e_kv e)"
    and r: "act_bind (withDb B) (finishTx E fn) e = (Inl err, e')"
  shows "J e' \<and> dwf (e_kv e') \<and> (dcontent (e_kv e') = dcontent (e_kv e) \<or>
    err \<noteq> ErrTxConflict \<and> (\<exists>x e1. ran J fn (dcontent (e_kv e)) x e1 (dcontent (e_kv e'))))"
proof (cases "B (e_kv e)")
  case (Pair q d0)
  show ?thesis
  proof (cases q)
    case (Inl x)
    then show ?thesis using r Pair bg_err [OF d] J by (auto simp: withDb_def)
  next
    case (Inr t)
    note b = bg [OF d Pair [unfolded Inr]]
    have f: "finishTx E fn t (e\<lparr>e_kv := d0\<rparr>) = (Inl err, e')" using r Pair Inr by (simp add: withDb_def)
    have "J e' \<and> dwf (e_kv e') \<and> (dcontent (e_kv e') = dcontent (e_kv (e\<lparr>e_kv := d0\<rparr>)) \<or>
      err \<noteq> ErrTxConflict \<and> (\<exists>x e1 t'. fn (e\<lparr>e_kv := d0\<rparr>, t) = (Inr x, (e1, t')) \<and> wf t' \<and> dcontent (e_kv e') = content t'))"
      by (rule finishTx_err [OF fn J(1) _ _ _ _ f]) (use b J in auto)
    moreover have "ran J fn (dcontent (e_kv e)) x e1 (dcontent (e_kv e'))"
      if "fn (e\<lparr>e_kv := d0\<rparr>, t) = (Inr x, (e1, t'))" "wf t'" "dcontent (e_kv e') = content t'" for x e1 t'
      unfolding ranOk_def by (rule exI [of _ "e\<lparr>e_kv := d0\<rparr>"], rule exI [of _ t], rule exI [of _ t']) (use that b J in auto)
    ultimately show ?thesis using b by auto
  qed
qed

lemma begin_rw: "dwf d \<Longrightarrow> db_Begin (p_db E) True d = (Inr t, d') \<Longrightarrow> wf t \<and> content t = dcontent d \<and> base t = dcontent d \<and>
      kv_Writable (p_kv E) t \<and> dwf d' \<and> dcontent d' = dcontent d"
  using db_Begin [of d True t d'] Begin_rw [of d True t d'] by simp

lemma beginX_rw: "dwf d \<Longrightarrow> db_BeginExclusive (p_db E) d = (Inr t, d') \<Longrightarrow> wf t \<and> content t = dcontent d \<and> base t = dcontent d \<and>
      kv_Writable (p_kv E) t \<and> dwf d' \<and> dcontent d' = dcontent d"
  using db_BeginExclusive [of d t d'] BeginExclusive_rw [of d t d'] by simp

lemma eUpdate_ok:
  assumes "closureOk J fn" "\<And>e d. J (e\<lparr>e_kv := d\<rparr>) \<longleftrightarrow> J e" "J e" "dwf (e_kv e)" "eUpdate E fn e = (Inr x, e')"
  shows "\<exists>e1 d. ran J fn (dcontent (e_kv e)) x e1 (dcontent d) \<and> e' = e1\<lparr>e_kv := d\<rparr> \<and> J e' \<and> dwf d"
  by (rule startTx_ok [OF begin_rw assms(1-4) assms(5) [unfolded eUpdate_def]])

lemma eUpdate_err:
  assumes "closureOk J fn" "\<And>e d. J (e\<lparr>e_kv := d\<rparr>) \<longleftrightarrow> J e" "J e" "dwf (e_kv e)" "eUpdate E fn e = (Inl err, e')"
  shows "J e' \<and> dwf (e_kv e') \<and> (dcontent (e_kv e') = dcontent (e_kv e) \<or>
    err \<noteq> ErrTxConflict \<and> (\<exists>x e1. ran J fn (dcontent (e_kv e)) x e1 (dcontent (e_kv e'))))"
  by (rule startTx_err [OF begin_rw db_Begin_err assms(1-4) assms(5) [unfolded eUpdate_def]])

lemma eUpdateExclusive_ok:
  assumes "closureOk J fn" "\<And>e d. J (e\<lparr>e_kv := d\<rparr>) \<longleftrightarrow> J e" "J e" "dwf (e_kv e)" "eUpdateExclusive E fn e = (Inr x, e')"
  shows "\<exists>e1 d. ran J fn (dcontent (e_kv e)) x e1 (dcontent d) \<and> e' = e1\<lparr>e_kv := d\<rparr> \<and> J e' \<and> dwf d"
  by (rule startTx_ok [OF beginX_rw assms(1-4) assms(5) [unfolded eUpdateExclusive_def]])

lemma eUpdateExclusive_err:
  assumes "closureOk J fn" "\<And>e d. J (e\<lparr>e_kv := d\<rparr>) \<longleftrightarrow> J e" "J e" "dwf (e_kv e)" "eUpdateExclusive E fn e = (Inl err, e')"
  shows "J e' \<and> dwf (e_kv e') \<and> (dcontent (e_kv e') = dcontent (e_kv e) \<or>
    err \<noteq> ErrTxConflict \<and> (\<exists>x e1. ran J fn (dcontent (e_kv e)) x e1 (dcontent (e_kv e'))))"
  by (rule startTx_err [OF beginX_rw db_BeginExclusive_err assms(1-4) assms(5) [unfolded eUpdateExclusive_def]])

lemma markExclusive_ok:
  assumes "closureOk J fn"
  shows "closureOk J (markExclusive E fn)"
  unfolding closureKeeps_def act_keeps_def
proof (intro allI impI)
  fix b d s r s'
  assume a: "case s of (e, t) \<Rightarrow> txOn b t \<and> J e \<and> e_kv e = d" "markExclusive E fn s = (r, s')"
  obtain e t e' t' where s: "s = (e, t)" "s' = (e', t')" by (cases s; cases s')
  have f: "fn (e, kv_MarkExclusive (p_kv E) t) = (r, (e', t'))" using a(2) by (simp add: s markExclusive_def)
  have t: "wf t" "base t = b" "J e" "e_kv e = d" using a(1) by (simp_all add: s)
  from closureOkD [OF assms f] t base_Mark [OF t(1)] show "case s' of (e, t) \<Rightarrow> txOn b t \<and> J e \<and> e_kv e = d"
    by (simp add: s)
qed

lemma markExclusive_ran:
  assumes "ran J (markExclusive E fn) m x e1 m'"
  shows "ran J fn m x e1 m'"
proof -
  obtain e0 t t' where f: "J e0" "wf t" "kv_Writable (p_kv E) t" "content t = m"
    "fn (e0, kv_MarkExclusive (p_kv E) t) = (Inr x, (e1, t'))" "wf t'" "content t' = m'"
    using assms by (auto simp: ranOk_def markExclusive_def)
  show ?thesis unfolding ranOk_def
    by (rule exI [of _ e0], rule exI [of _ "kv_MarkExclusive (p_kv E) t"], rule exI [of _ t']) (use f in auto)
qed

lemma ddlTries_ok:
  assumes fn: "closureOk J fn" and J: "\<And>e d. J (e\<lparr>e_kv := d\<rparr>) \<longleftrightarrow> J e" "J e" and d: "dwf (e_kv e)"
    and r: "ddlTries E n fn e = (Inr x, e')"
  shows "\<exists>e1 d. ran J fn (dcontent (e_kv e)) x e1 (dcontent d) \<and> e' = e1\<lparr>e_kv := d\<rparr> \<and> J e' \<and> dwf d"
  using J(2) d r
proof (induction n arbitrary: e)
  case 0
  have "eUpdateExclusive E fn e = (Inr x, e')" using 0(3) by simp
  then show ?case by (rule eUpdateExclusive_ok [OF fn J(1) 0(1,2)])
next
  case (Suc n)
  show ?case
  proof (cases "eUpdate E (markExclusive E fn) e")
    case (Pair q e2)
    show ?thesis
    proof (cases "q = Inl ErrTxConflict")
      case True
      note er = eUpdate_err [OF markExclusive_ok [OF fn] J(1) Suc.prems(1,2) Pair [unfolded True]]
      have "ddlTries E n fn e2 = (Inr x, e')" using Suc.prems(3) Pair True by simp
      then show ?thesis using Suc.IH [of e2] er by auto
    next
      case False
      then have "eUpdate E (markExclusive E fn) e = (Inr x, e')"
        using Suc.prems(3) Pair by (auto split: sum.splits err.splits)
      from eUpdate_ok [OF markExclusive_ok [OF fn] J(1) Suc.prems(1,2) this]
      show ?thesis by (auto dest!: markExclusive_ran)
    qed
  qed
qed

lemma ddlTries_err:
  assumes fn: "closureOk J fn" and J: "\<And>e d. J (e\<lparr>e_kv := d\<rparr>) \<longleftrightarrow> J e" "J e" and d: "dwf (e_kv e)"
    and r: "ddlTries E n fn e = (Inl err, e')"
  shows "J e' \<and> dwf (e_kv e') \<and> (dcontent (e_kv e') = dcontent (e_kv e) \<or>
    err \<noteq> ErrTxConflict \<and> (\<exists>x e1. ran J fn (dcontent (e_kv e)) x e1 (dcontent (e_kv e'))))"
  using J(2) d r
proof (induction n arbitrary: e)
  case 0
  have "eUpdateExclusive E fn e = (Inl err, e')" using 0(3) by simp
  then show ?case by (rule eUpdateExclusive_err [OF fn J(1) 0(1,2)])
next
  case (Suc n)
  show ?case
  proof (cases "eUpdate E (markExclusive E fn) e")
    case (Pair q e2)
    show ?thesis
    proof (cases "q = Inl ErrTxConflict")
      case True
      note er = eUpdate_err [OF markExclusive_ok [OF fn] J(1) Suc.prems(1,2) Pair [unfolded True]]
      have n: "ddlTries E n fn e2 = (Inl err, e')" using Suc.prems(3) Pair True by simp
      have e2: "J e2" "dwf (e_kv e2)" "dcontent (e_kv e2) = dcontent (e_kv e)" using er by simp_all
      show ?thesis using Suc.IH [OF e2(1,2) n] unfolding e2(3) .
    next
      case False
      then have "eUpdate E (markExclusive E fn) e = (Inl err, e')"
        using Suc.prems(3) Pair by (auto split: sum.splits err.splits)
      note er = eUpdate_err [OF markExclusive_ok [OF fn] J(1) Suc.prems(1,2) this]
      have "\<exists>x e1. ran J fn (dcontent (e_kv e)) x e1 (dcontent (e_kv e'))"
        if "\<exists>x e1. ran J (markExclusive E fn) (dcontent (e_kv e)) x e1 (dcontent (e_kv e'))"
        using that markExclusive_ran [of J fn] by fast
      then show ?thesis using er by fast
    qed
  qed
qed

lemma checkReentrantWrite_id: "checkReentrantWrite E e = (r, e') \<Longrightarrow> e' = e"
  by (auto simp: checkReentrantWrite_def split: if_splits)

lemma updateDDL_ok:
  assumes fn: "closureOk J fn" and J: "\<And>e d. J (e\<lparr>e_kv := d\<rparr>) \<longleftrightarrow> J e" "J e" and d: "dwf (e_kv e)"
    and r: "updateDDL E fn e = (Inr x, e')"
  shows "\<exists>e1 d. ran J fn (dcontent (e_kv e)) x e1 (dcontent d) \<and> e' = e1\<lparr>e_kv := d\<rparr> \<and> J e' \<and> dwf d"
proof -
  have c: "checkReentrantWrite E e = (Inr (), e)"
    using r unfolding updateDDL_def by (rule act_bind_cases) (use checkReentrantWrite_id in auto)
  show ?thesis
  proof (cases "e_testCommitErr e")
    case None
    show ?thesis
    proof (cases "e_occ e")
      case True
      then have "ddlTries E ddlOptimisticTries fn e = (Inr x, e')" using r None by (simp add: updateDDL_def c)
      then show ?thesis by (rule ddlTries_ok [OF fn J d])
    next
      case False
      then have "eUpdate E fn e = (Inr x, e')" using r None by (simp add: updateDDL_def c)
      then show ?thesis by (rule eUpdate_ok [OF fn J d])
    qed
  next
    case (Some err)
    then show ?thesis using r by (auto simp: updateDDL_def c act_bind_def split: prod.splits sum.splits)
  qed
qed

lemma updateDDL_err:
  assumes fn: "closureOk J fn" and J: "\<And>e d. J (e\<lparr>e_kv := d\<rparr>) \<longleftrightarrow> J e" "J e" and d: "dwf (e_kv e)"
    and r: "updateDDL E fn e = (Inl err, e')"
  shows "J e' \<and> dwf (e_kv e') \<and> (dcontent (e_kv e') = dcontent (e_kv e) \<or>
    err \<noteq> ErrTxConflict \<and> (\<exists>x e1. ran J fn (dcontent (e_kv e)) x e1 (dcontent (e_kv e'))))"
proof (cases "checkReentrantWrite E e")
  case (Pair q e0)
  then have e0: "e0 = e" using checkReentrantWrite_id by blast
  show ?thesis
  proof (cases q)
    case (Inl x)
    then show ?thesis using r Pair e0 J(2) d by (simp add: updateDDL_def)
  next
    case (Inr u)
    then have c: "checkReentrantWrite E e = (Inr u, e)" using Pair e0 by simp
    show ?thesis
    proof (cases "e_testCommitErr e")
      case None
      show ?thesis
      proof (cases "e_occ e")
        case True
        then have "ddlTries E ddlOptimisticTries fn e = (Inl err, e')" using r None by (simp add: updateDDL_def c)
        then show ?thesis by (rule ddlTries_err [OF fn J d])
      next
        case False
        then have "eUpdate E fn e = (Inl err, e')" using r None by (simp add: updateDDL_def c)
        then show ?thesis by (rule eUpdate_err [OF fn J d])
      qed
    next
      case (Some x)
      show ?thesis
      proof (cases "db_Begin (p_db E) True (e_kv e)")
        case b: (Pair q d0)
        show ?thesis
        proof (cases q)
          case (Inl y)
          then show ?thesis using r Some b db_Begin_err [OF d] J by (auto simp: updateDDL_def c withDb_def)
        next
          case (Inr t)
          note bt = begin_rw [OF d b [unfolded Inr]]
          obtain v e1 t' where f: "fn (e\<lparr>e_kv := d0\<rparr>, t) = (v, (e1, t'))" by (cases "fn (e\<lparr>e_kv := d0\<rparr>, t)") auto
          have k: "wf t'" "J e1" "e_kv e1 = d0" using closureOkD [OF fn f] bt J by auto
          obtain w d1 where w: "db_Rollback (p_db E) t' (e_kv e1) = (w, d1)" by (cases "db_Rollback (p_db E) t' (e_kv e1)")
          have "dwf d1 \<and> dcontent d1 = dcontent (e_kv e)" using Rollback [OF _ k(1) w] k(3) bt by simp
          moreover have "e' = e1\<lparr>e_kv := d1\<rparr>" using r Some b Inr f w by (auto simp: updateDDL_def c withDb_def)
          ultimately show ?thesis using k J by simp
        qed
      qed
    qed
  qed
qed

text \<open>Descriptor lookups inside a transaction.\<close>

lemma tableFromView_tx:
  assumes "wf t" "cacheOk (p_desc E) e"
  shows "\<exists>e'. tableFromView E name (e, t) = (tableAt (p_desc E) (content t) name, (e', t)) \<and> cacheOk (p_desc E) e' \<and> sameBut e e'"
  using tableFromView_eq [of E name t "content t" e] Get [OF assms(1)] assms(2) by blast

lemma descFromView_tx:
  assumes "wf t" "cacheOk (p_desc E) e"
  shows "\<exists>e'. descFromView E name (e, t) =
      (res_bind (tableAt (p_desc E) (content t) name) (\<lambda>d. case d of None \<Rightarrow> Inl noTable | Some d \<Rightarrow> Inr d), (e', t)) \<and>
    cacheOk (p_desc E) e' \<and> sameBut e e'"
  using descFromView_eq [of E name t "content t" e] Get [OF assms(1)] assms(2) by blast

end

context engine_env
begin

lemma Open_spec:
  assumes "dwf d"
  shows "case Open E d occ of
       Inr e' \<Rightarrow> cacheOk (p_desc E) e' \<and> e_kv e' = d \<and>
         (\<forall>k b. prefix descTablePrefix k \<and> dcontent d k = Some b \<longrightarrow> (\<exists>x. parseDesc (p_desc E) b = Inr x))
     | Inl err \<Rightarrow> \<exists>k b x. prefix descTablePrefix k \<and> dcontent d k = Some b \<and> parseDesc (p_desc E) b = Inl x"
proof -
  let ?kvs = "takeWhile (\<lambda>x. fst x < prefixEndKey descTablePrefix) (db_Ascend (p_db E) descTablePrefix d)"
  let ?e = "openEngine d occ"
  have "?kvs = filter (\<lambda>x. fst x < prefixEndKey descTablePrefix) (db_Ascend (p_db E) descTablePrefix d)"
    using db_Ascend_sorted [OF assms] by (rule takeWhile_sorted)
  then have "set ?kvs = {(k, b). (descTablePrefix \<le> k \<and> k < prefixEndKey descTablePrefix) \<and> dcontent d k = Some b}"
    by (auto simp: db_Ascend_set [OF assms])
  then have kvs: "set ?kvs = {(k, b). prefix descTablePrefix k \<and> dcontent d k = Some b}"
    unfolding tablePrefix_interval [of sysDescTableID, folded descTablePrefix_def] .
  have kv: "e_kv ?e = d" by (simp add: openEngine_def)
  have c: "cacheOk (p_desc E) ?e" by (simp add: cacheOk_def openEngine_def)
  obtain bad e' where l: "loadDescs (p_desc E) ?kvs [] ?e = (bad, e')" by (cases "loadDescs (p_desc E) ?kvs [] ?e")
  note ld = loadDescs_ok [OF c l]
  have o: "Open E d occ = (if bad \<noteq> [] then Inl (catalogErr bad) else Inr e')"
    by (simp add: Open_def loadCatalog_def kv l Let_def)
  show ?thesis
  proof (cases "bad = []")
    case True
    then have "\<forall>x\<in>set ?kvs. \<exists>d. parseDesc (p_desc E) (snd x) = Inr d" "cacheOk (p_desc E) e'" "e_kv e' = d"
      using ld kv sameBut_fields(1) [of ?e e'] by simp_all
    then show ?thesis unfolding kvs using True by (auto simp: o)
  next
    case False
    then obtain kv where "kv \<in> set ?kvs" "\<nexists>x. parseDesc (p_desc E) (snd kv) = Inr x" using ld by auto
    then show ?thesis using False kvs
      by (cases "parseDesc (p_desc E) (snd kv)") (auto simp: o)
  qed
qed

end

subsection \<open>An instance of the parameters\<close>

definition memDeps :: "descCodec \<Rightarrow> seqCodec \<Rightarrow> viewCodec \<Rightarrow> (alist, memTx) deps" where
  "memDeps C S V = \<lparr>p_kv = memKv, p_db = memDb, p_lib = noLib, p_desc = C, p_seq = S, p_view = V,
     p_rt = (\<lambda>n. (int n, 0, 0)), p_now = \<lparr>t_sec = 0, t_nsec = 0, t_off = 0\<rparr>, p_gid = 1\<rparr>"

lemma memDeps_simps [simp]:
  "p_kv (memDeps C S V) = memKv" "p_db (memDeps C S V) = memDb" "p_desc (memDeps C S V) = C" "p_seq (memDeps C S V) = S"
  "p_view (memDeps C S V) = V" "p_lib (memDeps C S V) = noLib" "p_gid (memDeps C S V) = 1"
  "p_rt (memDeps C S V) = (\<lambda>n. (int n, 0, 0))"
  by (simp_all add: memDeps_def)

interpretation memE: engine_env "memDeps C S V" mem_wf mem_content al_sorted map_of mem_base "\<lambda>t. set (mt_wrote t)" for C S V
  unfolding engine_env_def memDeps_simps by (intro conjI mem.kv_db_axioms mem.kv_rw_axioms)

text \<open>C35. The descriptor cache changes nothing. With a cache filled by the engine itself, resolving a table
  gives exactly what parsing the bytes stored in the transaction's own snapshot gives, whatever the
  cache holds; lookups only add correct entries to it. Opening succeeds exactly when every stored
  descriptor parses, and leaves a correct cache.\<close>

theorem desc_cache_transparent:
  assumes "engine_env E ok content dwf dcontent base written" "ok t" "dwf d"
  shows "(cacheOk (p_desc E) e \<longrightarrow> (\<exists>e'. tableFromView E name (e, t) = (tableAt (p_desc E) (content t) name, (e', t)) \<and>
      cacheOk (p_desc E) e' \<and> sameBut e e')) \<and>
    (case Open E d occ of
       Inr e' \<Rightarrow> cacheOk (p_desc E) e' \<and> e_kv e' = d \<and>
         (\<forall>k b. prefix descTablePrefix k \<and> dcontent d k = Some b \<longrightarrow> (\<exists>x. parseDesc (p_desc E) b = Inr x))
     | Inl err \<Rightarrow> \<exists>k b x. prefix descTablePrefix k \<and> dcontent d k = Some b \<and> parseDesc (p_desc E) b = Inl x)"
  using engine_env.tableFromView_tx [OF assms(1,2), of e name] engine_env.Open_spec [OF assms(1,3), of occ] by blast

definition noViewCodec :: viewCodec where
  "noViewCodec = \<lparr>view_Marshal = (\<lambda>_. Inl (Msg ''no views'')), view_Unmarshal = (\<lambda>_. Inl (Msg ''no views''))\<rparr>"

abbreviation sampleDeps :: "(alist, memTx) deps" where
  "sampleDeps \<equiv> memDeps sampleCodec tupleSeqCodec noViewCodec"

abbreviation emptyEngine :: "alist engine" where
  "emptyEngine \<equiv> openEngine [] False"

theorem desc_cache_transparent_witness:
  "\<exists>e'. tableFromView sampleDeps ''users'' (emptyEngine, emptyTx) = (Inr None, (e', emptyTx))"
proof -
  have c: "cacheOk (p_desc sampleDeps) emptyEngine" by (simp add: cacheOk_def openEngine_def)
  have "tableAt (p_desc sampleDeps) (mem_content emptyTx) ''users'' = Inr None" by (simp add: tableAt_def emptyTx_ok)
  moreover have "al_sorted []" by simp
  ultimately show ?thesis
    using desc_cache_transparent [OF memE.engine_env_axioms emptyTx_ok(1), THEN conjunct1, of "[]"] c by metis
qed

end
