(* ===== verification/SeqAlloc.thy ===== *)
theory SeqAlloc
  imports Engine
begin

text \<open>
  Sequence allocation in concurrent-writes mode (\<open>src/seqalloc.go\<close>): in-memory allocators that hand
  out values below a durable watermark. Allocators are heap cells reached through the engine's map, so
  one that was dropped from the map may still be used by a caller that looked it up before. Every draw
  is one atomic step here; the watermark write inside it is a transaction of its own.
\<close>

subsection \<open>The allocator map\<close>

definition seqAllocBatch :: uint64 where "seqAllocBatch = 32"
definition seqConflictRetries :: nat where "seqConflictRetries = 10"
definition seqAllocRetries :: nat where "seqAllocRetries = 8"

definition newAlloc :: counterAlloc where
  "newAlloc = \<lparr>a_dead = False, a_loaded = False, a_existed = False, a_next = 0, a_watermark = 0\<rparr>"

definition killAlloc :: "nat \<Rightarrow> ('db, 'z) engine_scheme \<Rightarrow> ('db, 'z) engine_scheme" where
  "killAlloc p e = e\<lparr>e_allocHeap := (e_allocHeap e)[p := (e_allocHeap e ! p)\<lparr>a_dead := True\<rparr>]\<rparr>"

definition counterAllocFor :: "key \<Rightarrow> ('db, 'z) engine_scheme \<Rightarrow> nat \<times> ('db, 'z) engine_scheme" where
  "counterAllocFor k e =
     (case map_of (e_seqAllocs e) k of
        Some p \<Rightarrow> (p, e)
      | None \<Rightarrow>
          (let p = length (e_allocHeap e)
           in (p, e\<lparr>e_allocHeap := e_allocHeap e @ [newAlloc], e_seqAllocs := (k, p) # e_seqAllocs e\<rparr>)))"

definition invalidateCounter :: "key \<Rightarrow> ('db, 'z) engine_scheme \<Rightarrow> ('db, 'z) engine_scheme" where
  "invalidateCounter k e =
     (let e' = e\<lparr>e_seqAllocs := filter (\<lambda>x. fst x \<noteq> k) (e_seqAllocs e)\<rparr>
      in case map_of (e_seqAllocs e) k of None \<Rightarrow> e' | Some p \<Rightarrow> killAlloc p e')"

definition invalidateCounterPrefix :: "bytes \<Rightarrow> ('db, 'z) engine_scheme \<Rightarrow> ('db, 'z) engine_scheme" where
  "invalidateCounterPrefix pre e =
     (let dead = map snd (filter (\<lambda>x. prefix pre (fst x)) (e_seqAllocs e))
      in fold killAlloc dead (e\<lparr>e_seqAllocs := filter (\<lambda>x. \<not> prefix pre (fst x)) (e_seqAllocs e)\<rparr>))"

definition dropCounterAlloc :: "key \<Rightarrow> nat \<Rightarrow> ('db, 'z) engine_scheme \<Rightarrow> ('db, 'z) engine_scheme" where
  "dropCounterAlloc k p e =
     killAlloc p
       (if map_of (e_seqAllocs e) k = Some p
        then e\<lparr>e_seqAllocs := filter (\<lambda>x. fst x \<noteq> k) (e_seqAllocs e)\<rparr> else e)"

subsection \<open>Plain counters\<close>

fun seqTries ::
  "('db, 'tx) deps \<Rightarrow> nat \<Rightarrow> ('tx, 'a) act \<Rightarrow> (('db, 'z) engine_scheme, 'a) act" where
  "seqTries E 0 fn e = (Inl ErrTxConflict, e)"
| "seqTries E (Suc n) fn e =
     (case eUpdate E (onTx fn) e of
        (Inl ErrTxConflict, e') \<Rightarrow> seqTries E n fn e'
      | r \<Rightarrow> r)"

definition seqPut :: "('db, 'tx) deps \<Rightarrow> ('tx, 'a) act \<Rightarrow> (('db, 'z) engine_scheme, 'a) act" where
  "seqPut E fn = seqTries E seqConflictRetries fn"

definition loadLocked :: "('db, 'tx) deps \<Rightarrow> key \<Rightarrow> uint64 \<Rightarrow> nat \<Rightarrow> (('db, 'z) engine_scheme, unit) act" where
  "loadLocked E k start p e =
     (let a = e_allocHeap e ! p
      in if a_loaded a then (Inr (), e)
         else
           (case db_Get (p_db E) k (e_kv e) of
              Some raw \<Rightarrow>
                (case readCounter raw of
                   Inl err \<Rightarrow> (Inl err, e)
                 | Inr v \<Rightarrow> (Inr (), e\<lparr>e_allocHeap := (e_allocHeap e)[p :=
                     a\<lparr>a_next := v, a_existed := True, a_watermark := v, a_loaded := True\<rparr>]\<rparr>))
            | None \<Rightarrow> (Inr (), e\<lparr>e_allocHeap := (e_allocHeap e)[p :=
                     a\<lparr>a_next := start, a_watermark := start, a_loaded := True\<rparr>]\<rparr>)))"

text \<open>The closure of \<open>reserveLocked\<close>, a function of its snapshot and the allocator.\<close>

definition reserveIn ::
  "'tx kvops \<Rightarrow> key \<Rightarrow> uint64 \<Rightarrow> bool \<Rightarrow> counterAlloc \<Rightarrow> ('tx, uint64 \<times> uint64) act" where
  "reserveIn K k flr extending a =
     act_bind (act_get (kv_Get K k)) (\<lambda>raw.
       act_bind (act_lift
         (case raw of
            Some b \<Rightarrow> res_bind (readCounter b) (\<lambda>s.
              if extending \<and> s < a_watermark a then Inl ErrSeqReset
              else Inr (if s > flr then s else flr))
          | None \<Rightarrow> if a_existed a then Inl ErrSeqReset else Inr flr)) (\<lambda>base.
         if base = maxUint64 then act_fail exhaustedErr
         else
           (let wm = (if base + seqAllocBatch < base then maxUint64 else base + seqAllocBatch)
            in act_bind (kv_Set K k (be64 wm)) (\<lambda>_. act_return (base, wm)))))"

definition reserveLocked ::
  "('db, 'tx) deps \<Rightarrow> key \<Rightarrow> uint64 \<Rightarrow> bool \<Rightarrow> nat \<Rightarrow> (('db, 'z) engine_scheme, unit) act" where
  "reserveLocked E k flr extending p e =
     (case seqPut E (reserveIn (p_kv E) k flr extending (e_allocHeap e ! p)) e of
        (Inl err, e') \<Rightarrow> (Inl err, e')
      | (Inr (base, wm), e') \<Rightarrow>
          (Inr (), e'\<lparr>e_allocHeap := (e_allocHeap e')[p :=
             (e_allocHeap e' ! p)\<lparr>a_next := base, a_watermark := wm, a_existed := True\<rparr>]\<rparr>))"

definition takeNext :: "nat \<Rightarrow> (('db, 'z) engine_scheme, uint64) act" where
  "takeNext p e =
     (let a = e_allocHeap e ! p
      in (Inr (a_next a), e\<lparr>e_allocHeap := (e_allocHeap e)[p := a\<lparr>a_next := a_next a + 1\<rparr>]\<rparr>))"

definition takeLocked :: "('db, 'tx) deps \<Rightarrow> key \<Rightarrow> uint64 \<Rightarrow> nat \<Rightarrow> (('db, 'z) engine_scheme, uint64) act" where
  "takeLocked E k start p =
     act_bind (loadLocked E k start p) (\<lambda>_.
       act_bind (\<lambda>e.
         let a = e_allocHeap e ! p
         in if a_next a \<ge> a_watermark a then reserveLocked E k (a_next a) True p e else (Inr (), e)) (\<lambda>_. takeNext p))"

definition bumpLocked :: "('db, 'tx) deps \<Rightarrow> key \<Rightarrow> uint64 \<Rightarrow> nat \<Rightarrow> (('db, 'z) engine_scheme, unit) act" where
  "bumpLocked E k next p =
     act_bind (loadLocked E k 1 p) (\<lambda>_ e.
       let a = e_allocHeap e ! p
       in if next \<le> a_next a then (Inr (), e)
          else if next < a_watermark a
          then (Inr (), e\<lparr>e_allocHeap := (e_allocHeap e)[p := a\<lparr>a_next := next\<rparr>]\<rparr>)
          else reserveLocked E k next False p e)"

text \<open>The retry loop both draws and bumps run in: re-fetch a dead allocator, drop a reset one.\<close>

fun allocLoop ::
  "key \<Rightarrow> (nat \<Rightarrow> (('db, 'z) engine_scheme, 'a) act) \<Rightarrow> err \<Rightarrow> nat \<Rightarrow> (('db, 'z) engine_scheme, 'a) act" where
  "allocLoop k body gaveUp 0 e = (Inl gaveUp, e)"
| "allocLoop k body gaveUp (Suc n) e =
     (case counterAllocFor k e of (p, e1) \<Rightarrow>
        if a_dead (e_allocHeap e1 ! p) then allocLoop k body gaveUp n e1
        else (case body p e1 of
                (Inl ErrSeqReset, e2) \<Rightarrow> allocLoop k body gaveUp n (dropCounterAlloc k p e2)
              | r \<Rightarrow> r))"

definition allocCounter :: "('db, 'tx) deps \<Rightarrow> key \<Rightarrow> uint64 \<Rightarrow> (('db, 'z) engine_scheme, uint64) act" where
  "allocCounter E k start =
     allocLoop k (takeLocked E k start) (Msg ''sequence allocation kept losing to concurrent resets'') seqAllocRetries"

definition bumpCounterAllocTo :: "('db, 'tx) deps \<Rightarrow> key \<Rightarrow> uint64 \<Rightarrow> (('db, 'z) engine_scheme, unit) act" where
  "bumpCounterAllocTo E k next =
     allocLoop k (bumpLocked E k next) (Msg ''sequence bump kept losing to concurrent resets'') seqAllocRetries"

definition setCounterDirect :: "('db, 'tx) deps \<Rightarrow> key \<Rightarrow> uint64 \<Rightarrow> (('db, 'z) engine_scheme, unit) act" where
  "setCounterDirect E k next =
     act_bind (seqPut E (kv_Set (p_kv E) k (be64 next))) (\<lambda>_ e. (Inr (), invalidateCounter k e))"

definition deleteCounterDirect :: "('db, 'tx) deps \<Rightarrow> key \<Rightarrow> (('db, 'z) engine_scheme, bool) act" where
  "deleteCounterDirect E k =
     act_bind (seqPut E (kv_Delete (p_kv E) k)) (\<lambda>existed e. (Inr existed, invalidateCounter k e))"

text \<open>\<open>None\<close> when no allocator holds state for the key; otherwise its next value, if the counter exists.\<close>

definition peekCounterOCC :: "key \<Rightarrow> ('db, 'z) engine_scheme \<Rightarrow> uint64 option option" where
  "peekCounterOCC k e =
     (case map_of (e_seqAllocs e) k of
        None \<Rightarrow> None
      | Some p \<Rightarrow>
          (let a = e_allocHeap e ! p
           in if \<not> a_loaded a \<or> a_dead a then None
              else Some (if a_existed a then Some (a_next a) else None)))"

subsection \<open>Named sequences of the engine\<close>

definition NextSeq :: "('db, 'tx) deps \<Rightarrow> string \<Rightarrow> (('db, 'z) engine_scheme, uint64) act" where
  "NextSeq E name e =
     (if e_occ e
      then act_bind (act_lift (checkSeqName name)) (\<lambda>_. allocCounter E (seqNameKey name) 1) e
      else act_bind (checkReentrantWrite E) (\<lambda>_. eUpdate E (onTx (nextSeqIn (p_kv E) name))) e)"

definition SetSeq :: "('db, 'tx) deps \<Rightarrow> string \<Rightarrow> uint64 \<Rightarrow> (('db, 'z) engine_scheme, unit) act" where
  "SetSeq E name next e =
     (if e_occ e
      then act_bind (act_lift (checkSeqName name)) (\<lambda>_. setCounterDirect E (seqNameKey name) next) e
      else act_bind (checkReentrantWrite E) (\<lambda>_. eUpdate E (onTx (setSeqIn (p_kv E) name next))) e)"

definition PeekSeq :: "('db, 'tx) deps \<Rightarrow> string \<Rightarrow> (('db, 'z) engine_scheme, uint64 option) act" where
  "PeekSeq E name e =
     (case (if e_occ e then res_bind (checkSeqName name) (\<lambda>_. Inr (peekCounterOCC (seqNameKey name) e)) else Inr None) of
        Inl err \<Rightarrow> (Inl err, e)
      | Inr (Some v) \<Rightarrow> (Inr v, e)
      | Inr None \<Rightarrow> eView E (onTx (peekSeqIn (p_kv E) name)) e)"

definition DeleteSeq :: "('db, 'tx) deps \<Rightarrow> string \<Rightarrow> (('db, 'z) engine_scheme, bool) act" where
  "DeleteSeq E name e =
     (if e_occ e
      then act_bind (act_lift (checkSeqName name)) (\<lambda>_. deleteCounterDirect E (seqNameKey name)) e
      else act_bind (checkReentrantWrite E) (\<lambda>_. eUpdate E (onTx (deleteSeqIn (p_kv E) name))) e)"

subsection \<open>What the short transactions do\<close>

lemma reserveIn_ok:
  assumes kv: "kv_tx K ok content" and t: "ok t" and r: "reserveIn K k flr ext a t = (Inr (base, wm), t')"
  shows "ok t' \<and> content t' = (content t)(k \<mapsto> be64 wm) \<and> base < wm \<and> flr \<le> base \<and>
    (case content t k of None \<Rightarrow> base = flr
     | Some b \<Rightarrow> \<exists>s. readCounter b = Inr s \<and> s \<le> base \<and> base = max flr s \<and> (ext \<longrightarrow> a_watermark a \<le> s))"
proof -
  have g: "kv_Get K k t = content t k" using kv_tx.Get [OF kv t] .
  define q where "q = (case content t k of
            Some b \<Rightarrow> res_bind (readCounter b) (\<lambda>s. if ext \<and> s < a_watermark a then Inl ErrSeqReset
              else Inr (if s > flr then s else flr))
          | None \<Rightarrow> if a_existed a then Inl ErrSeqReset else Inr flr)"
  have rq: "(case q of Inl e \<Rightarrow> (Inl e, t) | Inr b0 \<Rightarrow> (if b0 = maxUint64 then act_fail exhaustedErr
         else
           (let wm = (if b0 + seqAllocBatch < b0 then maxUint64 else b0 + seqAllocBatch)
            in act_bind (kv_Set K k (be64 wm)) (\<lambda>_. act_return (b0, wm)))) t) = (Inr (base, wm), t')"
    using r unfolding reserveIn_def q_def by (simp add: g)
  obtain b0 where b0: "q = Inr b0" using rq by (cases q) auto
  note rest = rq [unfolded b0 sum.case]
  have nm: "b0 \<noteq> maxUint64" using rest by auto
  with rest have eq: "base = b0" "wm = (if b0 + seqAllocBatch < b0 then maxUint64 else b0 + seqAllocBatch)"
    and st: "kv_Set K k (be64 wm) t = (Inr (), t')"
    by (auto simp: Let_def act_bind_Inr)
  have lt: "b0 < maxUint64" using nm unfolding maxUint64_def by (simp add: order.not_eq_order_implies_strict)
  have neq: "b0 + seqAllocBatch \<noteq> b0" by (simp add: seqAllocBatch_def)
  have "base < wm"
  proof (cases "b0 + seqAllocBatch < b0")
    case True
    then show ?thesis using lt by (simp add: eq)
  next
    case False
    then have "b0 < b0 + seqAllocBatch" using linorder_neqE [OF neq] by blast
    then show ?thesis using False by (simp add: eq)
  qed
  moreover have "ok t' \<and> content t' = (content t)(k \<mapsto> be64 wm)" using kv_tx.Set_ok [OF kv t st] .
  moreover have "flr \<le> base \<and> (case content t k of None \<Rightarrow> base = flr
     | Some b \<Rightarrow> \<exists>s. readCounter b = Inr s \<and> s \<le> base \<and> base = max flr s \<and> (ext \<longrightarrow> a_watermark a \<le> s))"
    using b0 unfolding eq q_def by (cases "content t k") (auto split: if_splits)
  ultimately show ?thesis by blast
qed

text \<open>Two engine states that differ in the store only.\<close>

definition storeOnly :: "('db, 'z) engine_scheme \<Rightarrow> ('db, 'z) engine_scheme \<Rightarrow> bool" where
  "storeOnly e e' \<longleftrightarrow> (\<exists>d. e' = e\<lparr>e_kv := d\<rparr>)"

lemma storeOnly_refl: "storeOnly e e"
  unfolding storeOnly_def by (rule exI [of _ "e_kv e"]) simp

lemma storeOnly_fields:
  assumes "storeOnly e e'"
  shows "e_seqAllocs e' = e_seqAllocs e" "e_allocHeap e' = e_allocHeap e" "e_occ e' = e_occ e"
    "e_seqObjAllocs e' = e_seqObjAllocs e" "e_objHeap e' = e_objHeap e" "e_descCache e' = e_descCache e"
  using assms by (auto simp: storeOnly_def)

lemma storeOnly_upd: "storeOnly e (f\<lparr>e_kv := d\<rparr>) \<longleftrightarrow> storeOnly e f"
  by (auto simp: storeOnly_def) (metis engine.surjective engine.update_convs(1))

context engine_env
begin

lemma closureOk_onTx: "(\<And>b. act_keeps (txOn b) fn) \<Longrightarrow> closureOk J (onTx fn)"
  unfolding closureKeeps_def by (intro allI act_keeps_onTx)

lemma ran_onTx:
  "ran (storeOnly e) (onTx fn) m x e1 m' \<longleftrightarrow>
   storeOnly e e1 \<and> (\<exists>t t'. wf t \<and> kv_Writable (p_kv E) t \<and> content t = m \<and> fn t = (Inr x, t') \<and> wf t' \<and> content t' = m')"
  unfolding ranOk_def by auto

lemma seqTries_ok:
  assumes fn: "\<And>b. act_keeps (txOn b) fn" and d: "dwf (e_kv e)" and r: "seqTries E n fn e = (Inr x, e')"
  shows "storeOnly e e' \<and> dwf (e_kv e') \<and>
    (\<exists>t t'. wf t \<and> kv_Writable (p_kv E) t \<and> content t = dcontent (e_kv e) \<and> fn t = (Inr x, t') \<and> wf t' \<and>
       content t' = dcontent (e_kv e'))"
proof -
  have "storeOnly e f \<Longrightarrow> dwf (e_kv f) \<Longrightarrow> dcontent (e_kv f) = dcontent (e_kv e) \<Longrightarrow> seqTries E n fn f = (Inr x, e') \<Longrightarrow>
     storeOnly e e' \<and> dwf (e_kv e') \<and>
    (\<exists>t t'. wf t \<and> kv_Writable (p_kv E) t \<and> content t = dcontent (e_kv e) \<and> fn t = (Inr x, t') \<and> wf t' \<and>
       content t' = dcontent (e_kv e'))" for f
  proof (induction n arbitrary: f)
    case (Suc n)
    note fnOk = closureOk_onTx [of fn "storeOnly e", OF fn]
    show ?case
    proof (cases "eUpdate E (onTx fn) f")
      case (Pair q f2)
      show ?thesis
      proof (cases "q = Inl ErrTxConflict")
        case True
        note er = eUpdate_err [OF fnOk storeOnly_upd Suc.prems(1,2) Pair [unfolded True]]
        show ?thesis by (rule Suc.IH [of f2]) (use er Suc.prems Pair True in auto)
      next
        case False
        then have "eUpdate E (onTx fn) f = (Inr x, e')" using Suc.prems(4) Pair by (auto split: sum.splits err.splits)
        from eUpdate_ok [OF fnOk storeOnly_upd Suc.prems(1,2) this] obtain e1 d where
          "ran (storeOnly e) (onTx fn) (dcontent (e_kv f)) x e1 (dcontent d)" "e' = e1\<lparr>e_kv := d\<rparr>" "storeOnly e e'" "dwf d"
          by blast
        then show ?thesis unfolding ran_onTx using Suc.prems(3) by auto
      qed
    qed
  qed simp
  from this [OF storeOnly_refl d refl r] show ?thesis .
qed

lemma seqTries_err:
  assumes fn: "\<And>b. act_keeps (txOn b) fn" and d: "dwf (e_kv e)" and r: "seqTries E n fn e = (Inl err, e')"
  shows "storeOnly e e' \<and> dwf (e_kv e') \<and> (dcontent (e_kv e') = dcontent (e_kv e) \<or>
    (\<exists>x t t'. wf t \<and> kv_Writable (p_kv E) t \<and> content t = dcontent (e_kv e) \<and> fn t = (Inr x, t') \<and> wf t' \<and>
       content t' = dcontent (e_kv e')))"
proof -
  have "storeOnly e f \<Longrightarrow> dwf (e_kv f) \<Longrightarrow> dcontent (e_kv f) = dcontent (e_kv e) \<Longrightarrow> seqTries E n fn f = (Inl err, e') \<Longrightarrow>
     storeOnly e e' \<and> dwf (e_kv e') \<and> (dcontent (e_kv e') = dcontent (e_kv e) \<or>
    (\<exists>x t t'. wf t \<and> kv_Writable (p_kv E) t \<and> content t = dcontent (e_kv e) \<and> fn t = (Inr x, t') \<and> wf t' \<and>
       content t' = dcontent (e_kv e')))" for f
  proof (induction n arbitrary: f)
    case (Suc n)
    note fnOk = closureOk_onTx [of fn "storeOnly e", OF fn]
    show ?case
    proof (cases "eUpdate E (onTx fn) f")
      case (Pair q f2)
      show ?thesis
      proof (cases "q = Inl ErrTxConflict")
        case True
        note er = eUpdate_err [OF fnOk storeOnly_upd Suc.prems(1,2) Pair [unfolded True]]
        show ?thesis by (rule Suc.IH [of f2]) (use er Suc.prems Pair True in auto)
      next
        case False
        then have "eUpdate E (onTx fn) f = (Inl err, e')" using Suc.prems(4) Pair by (auto split: sum.splits err.splits)
        from eUpdate_err [OF fnOk storeOnly_upd Suc.prems(1,2) this]
        show ?thesis unfolding ran_onTx Suc.prems(3) by auto
      qed
    qed
  qed auto
  from this [OF storeOnly_refl d refl r] show ?thesis .
qed

lemma keeps_reserveIn: "act_keeps (txOn b) (reserveIn (p_kv E) k flr ext a)"
  unfolding reserveIn_def Let_def by (intro act_keeps_bind act_keeps_pure) (auto intro!: act_keeps_bind)

end

subsection \<open>Allocators never hand out a value twice\<close>

definition storedCtr :: "(key \<Rightarrow> bytes option) \<Rightarrow> key \<Rightarrow> uint64 option" where
  "storedCtr m k = (case m k of None \<Rightarrow> None | Some b \<Rightarrow> (case readCounter b of Inl _ \<Rightarrow> None | Inr c \<Rightarrow> Some c))"

text \<open>The values an allocator may still hand out with no durable write.\<close>

definition cached :: "counterAlloc \<Rightarrow> uint64 set" where
  "cached a = (if a_loaded a then {v. a_next a \<le> v \<and> v < a_watermark a} else {})"

text \<open>
  The invariant of one counter: its allocators (the positions \<open>S\<close> of the heap), the stored watermark
  and the values handed out. Everything handed out or cached lies below the stored watermark, the caches are disjoint
  from each other and from what was handed out.
\<close>

definition below :: "uint64 \<Rightarrow> uint64 option \<Rightarrow> bool" where
  "below v c \<longleftrightarrow> (case c of None \<Rightarrow> False | Some x \<Rightarrow> v \<le> x)"

definition heapOk :: "counterAlloc list \<Rightarrow> nat set \<Rightarrow> uint64 option \<Rightarrow> uint64 list \<Rightarrow> bool" where
  "heapOk h S c out \<longleftrightarrow> distinct out \<and> (\<forall>v\<in>set out. \<exists>x. c = Some x \<and> v < x) \<and>
     (\<forall>p\<in>S. (a_loaded (h ! p) \<longrightarrow> a_next (h ! p) \<le> a_watermark (h ! p)) \<and>
        (cached (h ! p) \<noteq> {} \<longrightarrow> below (a_watermark (h ! p)) c) \<and> cached (h ! p) \<inter> set out = {}) \<and>
     (\<forall>p\<in>S. \<forall>q\<in>S. p \<noteq> q \<longrightarrow> cached (h ! p) \<inter> cached (h ! q) = {})"

definition risen :: "uint64 option \<Rightarrow> uint64 option \<Rightarrow> bool" where
  "risen c c' \<longleftrightarrow> (\<forall>x. c = Some x \<longrightarrow> (\<exists>x'. c' = Some x' \<and> x \<le> x'))"

lemma risen_refl [simp, intro!]: "risen c c"
  by (simp add: risen_def)

lemma below_risen: "below v c \<Longrightarrow> risen c c' \<Longrightarrow> below v c'"
  by (auto simp: below_def risen_def split: option.splits)

lemma heapOk_frame: "heapOk h S c out \<Longrightarrow> (\<And>p. p \<in> S \<Longrightarrow> h' ! p = h ! p) \<Longrightarrow> heapOk h' S c out"
  by (simp add: heapOk_def)

lemma heapOk_upd:
  assumes h: "heapOk h S c out" and p: "p < length h" and c: "risen c c'"
    and a: "a_loaded a \<Longrightarrow> a_next a \<le> a_watermark a" "cached a \<noteq> {} \<Longrightarrow> below (a_watermark a) c'"
      "cached a \<inter> set out' = {}" "\<And>q. q \<in> S \<Longrightarrow> q \<noteq> p \<Longrightarrow> cached a \<inter> cached (h ! q) = {}"
    and out': "distinct out'" "\<And>v. v \<in> set out' \<Longrightarrow> v \<notin> set out \<Longrightarrow> \<exists>x. c' = Some x \<and> v < x"
      "\<And>v q. v \<in> set out' \<Longrightarrow> v \<notin> set out \<Longrightarrow> q \<in> S \<Longrightarrow> q \<noteq> p \<Longrightarrow> v \<notin> cached (h ! q)"
  shows "heapOk (h[p := a]) S c' out'"
  unfolding heapOk_def
proof (intro conjI ballI impI)
  show "distinct out'" by (rule out'(1))
  fix v assume v: "v \<in> set out'"
  show "\<exists>x. c' = Some x \<and> v < x"
  proof (cases "v \<in> set out")
    case True
    then show ?thesis using h c by (force simp: heapOk_def risen_def)
  qed (use out'(2) v in blast)
next
  fix q assume q: "q \<in> S"
  have old: "a_loaded (h ! q) \<longrightarrow> a_next (h ! q) \<le> a_watermark (h ! q)" "cached (h ! q) \<noteq> {} \<longrightarrow> below (a_watermark (h ! q)) c"
    "cached (h ! q) \<inter> set out = {}" using h q by (auto simp: heapOk_def)
  show "a_loaded (h[p := a] ! q) \<Longrightarrow> a_next (h[p := a] ! q) \<le> a_watermark (h[p := a] ! q)"
    using old(1) a(1) p q by (cases "q = p") auto
  show "cached (h[p := a] ! q) \<noteq> {} \<Longrightarrow> below (a_watermark (h[p := a] ! q)) c'"
    using old(2) a(2) p q below_risen [OF _ c] by (cases "q = p") auto
  show "cached (h[p := a] ! q) \<inter> set out' = {}"
    using old(3) a(3) out'(3) p q by (cases "q = p") auto
next
  fix q r assume "q \<in> S" "r \<in> S" "q \<noteq> r"
  then show "cached (h[p := a] ! q) \<inter> cached (h[p := a] ! r) = {}"
    using h a(4) [of q] a(4) [of r] p by (cases "q = p"; cases "r = p") (auto simp: heapOk_def)
qed

lemma heapOk_rise:
  assumes "heapOk h S c out" "risen c c'"
  shows "heapOk h S c' out"
proof -
  have "\<exists>x. c' = Some x \<and> v < x" if "\<exists>x. c = Some x \<and> v < x" for v
    using that assms(2) unfolding risen_def by (blast intro: order.strict_trans2)
  then show ?thesis using assms(1) below_risen [OF _ assms(2)] unfolding heapOk_def by blast
qed

lemma cached_empty [simp]: "\<not> a_loaded a \<Longrightarrow> cached a = {}" "a_next a = a_watermark a \<Longrightarrow> cached a = {}"
  by (auto simp: cached_def)

lemma heapOk_new: "heapOk h S c out \<Longrightarrow> \<not> a_loaded (h ! p) \<Longrightarrow> heapOk h (insert p S) c out"
  by (auto simp: heapOk_def)

lemma heapOk_kill:
  assumes "heapOk h S c out"
  shows "heapOk (h[p := (h ! p)\<lparr>a_dead := True\<rparr>]) S c out"
proof (cases "p < length h")
  case True
  have c: "cached ((h ! p)\<lparr>a_dead := True\<rparr>) = cached (h ! p)" by (simp add: cached_def)
  have "(h[p := (h ! p)\<lparr>a_dead := True\<rparr>]) ! q = h ! q \<or> (h[p := (h ! p)\<lparr>a_dead := True\<rparr>]) ! q = (h ! q)\<lparr>a_dead := True\<rparr>" for q
    using True by (cases "q = p") auto
  then have "cached ((h[p := (h ! p)\<lparr>a_dead := True\<rparr>]) ! q) = cached (h ! q) \<and>
      a_loaded ((h[p := (h ! p)\<lparr>a_dead := True\<rparr>]) ! q) = a_loaded (h ! q) \<and>
      a_next ((h[p := (h ! p)\<lparr>a_dead := True\<rparr>]) ! q) = a_next (h ! q) \<and>
      a_watermark ((h[p := (h ! p)\<lparr>a_dead := True\<rparr>]) ! q) = a_watermark (h ! q)" for q
    using c True by (cases "q = p") auto
  then show ?thesis using assms unfolding heapOk_def by simp
qed (use assms in \<open>simp add: list_update_beyond\<close>)

lemma heapOk_load:
  assumes "heapOk h S c out" "p < length h" "a_next a = a_watermark a"
  shows "heapOk (h[p := a]) S c out"
  using assms by (intro heapOk_upd [OF assms(1,2)]) (auto simp: heapOk_def)

lemma heapOk_take:
  assumes h: "heapOk h S c out" and p: "p < length h" "p \<in> S" "a_loaded (h ! p)" "a_next (h ! p) < a_watermark (h ! p)"
  shows "heapOk (h[p := (h ! p)\<lparr>a_next := a_next (h ! p) + 1\<rparr>]) S c (a_next (h ! p) # out)"
proof -
  let ?a = "h ! p" and ?v = "a_next (h ! p)"
  have "?v \<noteq> maxUint64" using p(4) by (auto simp: maxUint64_def)
  then have inc: "?v + 1 \<le> a_watermark ?a" "\<And>w. ?v + 1 \<le> w \<Longrightarrow> ?v < w"
    using p(4) unat_plus1 [of ?v] by (simp_all add: word_le_nat_alt word_less_nat_alt)
  have v: "?v \<in> cached ?a" using p by (simp add: cached_def)
  have b: "below (a_watermark ?a) c" "cached ?a \<inter> set out = {}" using h p(2) v unfolding heapOk_def by blast+
  have sub: "cached (?a\<lparr>a_next := ?v + 1\<rparr>) \<subseteq> cached ?a - {?v}" using inc(2) by (auto simp: cached_def p(3) order.strict_implies_order)
  have disj: "cached ?a \<inter> cached (h ! q) = {}" if "q \<in> S" "q \<noteq> p" for q using h p(2) that unfolding heapOk_def by blast
  show ?thesis
  proof (rule heapOk_upd [OF h p(1)])
    show "distinct (?v # out)" using h v b(2) by (auto simp: heapOk_def)
    show "\<exists>x. c = Some x \<and> w < x" if "w \<in> set (?v # out)" "w \<notin> set out" for w
      using that b(1) p(4) by (auto simp: below_def split: option.splits)
    show "w \<notin> cached (h ! q)" if "w \<in> set (?v # out)" "w \<notin> set out" "q \<in> S" "q \<noteq> p" for w q
      using that disj [of q] v by auto
    show "cached (?a\<lparr>a_next := ?v + 1\<rparr>) \<inter> set (?v # out) = {}" using sub b(2) by auto
    show "cached (?a\<lparr>a_next := ?v + 1\<rparr>) \<inter> cached (h ! q) = {}" if "q \<in> S" "q \<noteq> p" for q using sub disj [OF that] by auto
  qed (use inc b in simp_all)
qed

lemma heapOk_reserve:
  assumes h: "heapOk h S c out" and p: "p < length h" and a: "a_next a = lo" "a_watermark a = wm" "lo < wm"
    and c: "\<And>x. c = Some x \<Longrightarrow> x \<le> lo"
  shows "heapOk (h[p := a]) S (Some wm) out"
proof (rule heapOk_upd [OF h p])
  have up: "x < wm" if "c = Some x" for x using c [OF that] a(3) by (rule order.strict_trans1)
  show "risen c (Some wm)" using up by (auto simp: risen_def order.strict_implies_order)
  have no: "v \<notin> cached a" if "c = Some x" "v < x" for x v
    using order.strict_trans2 [OF that(2) c [OF that(1)]] by (auto simp: cached_def a)
  show "cached a \<inter> set out = {}" using h no unfolding heapOk_def by blast
  show "cached a \<inter> cached (h ! q) = {}" if q: "q \<in> S" "q \<noteq> p" for q
  proof (intro equals0I)
    fix v assume v: "v \<in> cached a \<inter> cached (h ! q)"
    then have "below (a_watermark (h ! q)) c" using h q unfolding heapOk_def by blast
    then obtain x where x: "c = Some x" "a_watermark (h ! q) \<le> x" by (auto simp: below_def split: option.splits)
    have "v < a_watermark (h ! q)" using v by (auto simp: cached_def split: if_splits)
    then show False using no [OF x(1) order.strict_trans2 [OF _ x(2)]] v by blast
  qed
qed (use h a in \<open>auto simp: heapOk_def below_def\<close>)

lemma heapOk_skip:
  assumes h: "heapOk h S c out" and p: "p < length h" "p \<in> S" "a_loaded (h ! p)" "a_next (h ! p) \<le> n" "n < a_watermark (h ! p)"
  shows "heapOk (h[p := (h ! p)\<lparr>a_next := n\<rparr>]) S c out"
proof -
  have sub: "cached ((h ! p)\<lparr>a_next := n\<rparr>) \<subseteq> cached (h ! p)" using p by (auto simp: cached_def)
  have "n \<in> cached (h ! p)" using p by (simp add: cached_def)
  then have b: "below (a_watermark (h ! p)) c" "cached (h ! p) \<inter> set out = {}" using h p(2) unfolding heapOk_def by blast+
  have d: "cached (h ! p) \<inter> cached (h ! q) = {}" if "q \<in> S" "q \<noteq> p" for q using h p(2) that unfolding heapOk_def by blast
  show ?thesis
  proof (rule heapOk_upd [OF h p(1)])
    show "cached ((h ! p)\<lparr>a_next := n\<rparr>) \<inter> cached (h ! q) = {}" if "q \<in> S" "q \<noteq> p" for q using sub d [OF that] by blast
  qed (use sub b p h in \<open>auto simp: heapOk_def\<close>)
qed

subsection \<open>The allocators as a concurrent system\<close>

text \<open>
  A state is the engine, the key each allocator of the heap was made for, and the values handed out. A caller may
  hold any allocator, also a dead one. The steps interleave freely: lookups, the three parts of a draw, bumps,
  invalidations, sets that do not move a counter back, commits of other transactions that do not, and a
  crash, which loses the allocators and keeps the store.
\<close>

type_synonym ('db, 'z) allocSys = "('db, 'z) engine_scheme \<times> key list \<times> (key \<times> uint64) list"

inductive alloc_step ::
  "('db, 'tx) deps \<Rightarrow> ('db \<Rightarrow> bool) \<Rightarrow> ('db \<Rightarrow> key \<Rightarrow> bytes option) \<Rightarrow> ('db, 'z) allocSys \<Rightarrow> ('db, 'z) allocSys \<Rightarrow> bool"
  for E dwf dcontent where
  lookup: "counterAllocFor k e = (p, e') \<Longrightarrow>
     alloc_step E dwf dcontent (e, ks, out) (e', if p < length ks then ks else ks @ [k], out)"
| load: "p < length ks \<Longrightarrow> loadLocked E (ks ! p) start p e = (r, e') \<Longrightarrow> alloc_step E dwf dcontent (e, ks, out) (e', ks, out)"
| extend: "p < length ks \<Longrightarrow> a_loaded (e_allocHeap e ! p) \<Longrightarrow>
     a_next (e_allocHeap e ! p) \<ge> a_watermark (e_allocHeap e ! p) \<Longrightarrow>
     reserveLocked E (ks ! p) (a_next (e_allocHeap e ! p)) True p e = (r, e') \<Longrightarrow>
     alloc_step E dwf dcontent (e, ks, out) (e', ks, out)"
| take: "p < length ks \<Longrightarrow> a_loaded (e_allocHeap e ! p) \<Longrightarrow>
     a_next (e_allocHeap e ! p) < a_watermark (e_allocHeap e ! p) \<Longrightarrow> takeNext p e = (Inr v, e') \<Longrightarrow>
     alloc_step E dwf dcontent (e, ks, out) (e', ks, (ks ! p, v) # out)"
| bump: "p < length ks \<Longrightarrow> a_loaded (e_allocHeap e ! p) \<Longrightarrow> bumpLocked E (ks ! p) next p e = (r, e') \<Longrightarrow>
     alloc_step E dwf dcontent (e, ks, out) (e', ks, out)"
| invalidate: "alloc_step E dwf dcontent (e, ks, out) (invalidateCounter k e, ks, out)"
| invalidatePrefix: "alloc_step E dwf dcontent (e, ks, out) (invalidateCounterPrefix pre e, ks, out)"
| drop: "alloc_step E dwf dcontent (e, ks, out) (dropCounterAlloc k p e, ks, out)"
| set: "(\<And>x. storedCtr (dcontent (e_kv e)) k = Some x \<Longrightarrow> x \<le> n) \<Longrightarrow>
     seqPut E (kv_Set (p_kv E) k (be64 n)) e = (r, e') \<Longrightarrow> alloc_step E dwf dcontent (e, ks, out) (e', ks, out)"
| other: "dwf d \<Longrightarrow> (\<And>k. risen (storedCtr (dcontent (e_kv e)) k) (storedCtr (dcontent d) k)) \<Longrightarrow>
     alloc_step E dwf dcontent (e, ks, out) (e\<lparr>e_kv := d\<rparr>, ks, out)"
| crash: "alloc_step E dwf dcontent (e, ks, out) (e\<lparr>e_seqAllocs := [], e_allocHeap := []\<rparr>, [], out)"

abbreviation ofKey :: "key \<Rightarrow> key list \<Rightarrow> nat set" where
  "ofKey k ks \<equiv> {p. p < length ks \<and> ks ! p = k}"

abbreviation drawsOf :: "key \<Rightarrow> (key \<times> uint64) list \<Rightarrow> uint64 list" where
  "drawsOf k out \<equiv> map snd (filter (\<lambda>x. fst x = k) out)"

fun sysInv :: "('db \<Rightarrow> bool) \<Rightarrow> ('db \<Rightarrow> key \<Rightarrow> bytes option) \<Rightarrow> ('db, 'z) allocSys \<Rightarrow> bool" where
  "sysInv dwf dcontent (e, ks, out) \<longleftrightarrow> dwf (e_kv e) \<and> length (e_allocHeap e) = length ks \<and>
     (\<forall>k p. map_of (e_seqAllocs e) k = Some p \<longrightarrow> p < length ks \<and> ks ! p = k) \<and>
     (\<forall>k. heapOk (e_allocHeap e) (ofKey k ks) (storedCtr (dcontent (e_kv e)) k) (drawsOf k out))"

lemma distinct_by_key: "(\<And>k. distinct (drawsOf k out)) \<Longrightarrow> distinct out"
proof (induction out)
  case (Cons x out)
  have "distinct (drawsOf k out)" for k using Cons.prems [of k] by (auto split: if_splits)
  moreover have "x \<notin> set out" using Cons.prems [of "fst x"] by force
  ultimately show ?case using Cons.IH by simp
qed simp

text \<open>An operation on one allocator touches one counter.\<close>

lemma sysInv_cell:
  assumes I: "sysInv dwf dcontent (e, ks, out)" and p: "p < length ks"
    and e': "e_seqAllocs e' = e_seqAllocs e" "e_allocHeap e' = (e_allocHeap e)[p := a]" "dwf (e_kv e')"
      "\<And>k. k \<noteq> ks ! p \<Longrightarrow> storedCtr (dcontent (e_kv e')) k = storedCtr (dcontent (e_kv e)) k"
      "\<And>k. k \<noteq> ks ! p \<Longrightarrow> drawsOf k out' = drawsOf k out"
    and h: "heapOk ((e_allocHeap e)[p := a]) (ofKey (ks ! p) ks) (storedCtr (dcontent (e_kv e')) (ks ! p)) (drawsOf (ks ! p) out')"
  shows "sysInv dwf dcontent (e', ks, out')"
proof -
  have "heapOk (e_allocHeap e') (ofKey k ks) (storedCtr (dcontent (e_kv e')) k) (drawsOf k out')" for k
  proof (cases "k = ks ! p")
    case True
    then show ?thesis using h e'(2) by simp
  next
    case False
    have "heapOk (e_allocHeap e) (ofKey k ks) (storedCtr (dcontent (e_kv e)) k) (drawsOf k out)" using I by simp
    then show ?thesis unfolding e'(4,5) [OF False] e'(2)
      by (rule heapOk_frame) (use False in \<open>auto intro!: nth_list_update_neq\<close>)
  qed
  then show ?thesis using I e' by simp
qed

lemma sysInv_store:
  assumes I: "sysInv dwf dcontent (e, ks, out)" and e': "storeOnly e e'" "dwf (e_kv e')"
    and k: "\<And>k. risen (storedCtr (dcontent (e_kv e)) k) (storedCtr (dcontent (e_kv e')) k)"
  shows "sysInv dwf dcontent (e', ks, out)"
  using I e'(2) heapOk_rise [OF _ k] by (simp add: storeOnly_fields [OF e'(1)])

lemma storedCtr_upd [simp]:
  "storedCtr (m(k \<mapsto> be64 w)) k = Some w" "k \<noteq> k' \<Longrightarrow> storedCtr (m(k' := v)) k = storedCtr m k"
  by (simp_all add: storedCtr_def)

lemma reserveIn_ctr:
  assumes "kv_tx K ok content" "ok t" "reserveIn K k flr ext a t = (Inr (lo, wm), t')"
  shows "lo < wm" "content t' = (content t)(k \<mapsto> be64 wm)" "storedCtr (content t) k = Some x \<Longrightarrow> x \<le> lo"
  using reserveIn_ok [OF assms] by (auto simp: storedCtr_def split: option.splits)

lemma killAlloc_inv:
  assumes "sysInv dwf dcontent (e, ks, out)"
  shows "sysInv dwf dcontent (killAlloc p e, ks, out)"
  using assms heapOk_kill by (simp add: killAlloc_def)

lemma filter_allocs_inv:
  assumes "sysInv dwf dcontent (e, ks, out)"
  shows "sysInv dwf dcontent (e\<lparr>e_seqAllocs := filter (\<lambda>x. P (fst x)) (e_seqAllocs e)\<rparr>, ks, out)"
proof -
  have "map_of (filter (\<lambda>x. P (fst x)) al) k = (if P k then map_of al k else None)" for al :: "(key \<times> nat) list" and k
    by (induction al) auto
  then show ?thesis using assms by simp
qed

lemma invalidate_inv:
  assumes "sysInv dwf dcontent (e, ks, out)"
  shows "sysInv dwf dcontent (invalidateCounter k e, ks, out)" "sysInv dwf dcontent (invalidateCounterPrefix pre e, ks, out)"
    "sysInv dwf dcontent (dropCounterAlloc k p e, ks, out)"
proof -
  have kills: "sysInv dwf dcontent (f, ks, out) \<Longrightarrow> sysInv dwf dcontent (fold killAlloc ps f, ks, out)" for ps f
    by (induction ps arbitrary: f) (simp_all add: killAlloc_inv del: sysInv.simps)
  show "sysInv dwf dcontent (invalidateCounterPrefix pre e, ks, out)"
    unfolding invalidateCounterPrefix_def Let_def by (intro kills filter_allocs_inv assms)
  show "sysInv dwf dcontent (invalidateCounter k e, ks, out)"
    using filter_allocs_inv [OF assms, of "\<lambda>x. x \<noteq> k"]
    by (auto simp: invalidateCounter_def Let_def simp del: sysInv.simps split: option.split intro: killAlloc_inv)
  show "sysInv dwf dcontent (dropCounterAlloc k p e, ks, out)"
    using filter_allocs_inv [OF assms, of "\<lambda>x. x \<noteq> k"] assms
    by (auto simp: dropCounterAlloc_def simp del: sysInv.simps intro: killAlloc_inv)
qed

lemma lookup_inv:
  assumes I: "sysInv dwf dcontent (e, ks, out)" and l: "counterAllocFor k e = (p, e')"
  shows "sysInv dwf dcontent (e', if p < length ks then ks else ks @ [k], out)"
proof (cases "map_of (e_seqAllocs e) k")
  case (Some q)
  then show ?thesis using I l by (auto simp: counterAllocFor_def)
next
  case None
  let ?h = "e_allocHeap e" and ?n = "length ks"
  have n: "length ?h = ?n" using I by simp
  have e': "p = ?n" "e' = e\<lparr>e_allocHeap := ?h @ [newAlloc], e_seqAllocs := (k, ?n) # e_seqAllocs e\<rparr>"
    using l None n by (auto simp: counterAllocFor_def Let_def)
  have "heapOk (?h @ [newAlloc]) (ofKey k' (ks @ [k])) (storedCtr (dcontent (e_kv e)) k') (drawsOf k' out)" for k'
  proof -
    have "heapOk ?h (ofKey k' ks) (storedCtr (dcontent (e_kv e)) k') (drawsOf k' out)" using I by simp
    then have h: "heapOk (?h @ [newAlloc]) (ofKey k' ks) (storedCtr (dcontent (e_kv e)) k') (drawsOf k' out)"
      by (rule heapOk_frame) (simp add: nth_append n)
    have of: "ofKey k' (ks @ [k]) = (if k' = k then insert ?n (ofKey k' ks) else ofKey k' ks)"
      by (auto simp: nth_append less_Suc_eq split: if_splits)
    have "\<not> a_loaded ((?h @ [newAlloc]) ! ?n)" by (simp add: nth_append n newAlloc_def)
    then show ?thesis unfolding of using h heapOk_new [OF h] by (cases "k' = k") simp_all
  qed
  then show ?thesis using I by (auto simp: e' nth_append less_SucI)
qed

context engine_env
begin

lemma load_inv:
  assumes I: "sysInv dwf dcontent (e, ks, out)" and p: "p < length ks" and r: "loadLocked E (ks ! p) start p e = (r, e')"
  shows "sysInv dwf dcontent (e', ks, out)"
proof (cases "e' = e")
  case False
  then obtain a where a: "e' = e\<lparr>e_allocHeap := (e_allocHeap e)[p := a]\<rparr>" "a_next a = a_watermark a"
    using r by (auto simp: loadLocked_def Let_def split: if_splits option.splits sum.splits)
  show ?thesis
    by (rule sysInv_cell [OF I p, of _ a]) (use I a p in \<open>auto intro: heapOk_load\<close>)
qed (use I in simp)

lemma reserve_inv:
  assumes I: "sysInv dwf dcontent (e, ks, out)" and p: "p < length ks"
    and r: "reserveLocked E (ks ! p) flr ext p e = (r, e')"
  shows "sysInv dwf dcontent (e', ks, out)"
proof -
  let ?k = "ks ! p" and ?fn = "reserveIn (p_kv E) (ks ! p) flr ext (e_allocHeap e ! p)"
  have d: "dwf (e_kv e)" using I by simp
  obtain q f where q: "seqTries E seqConflictRetries ?fn e = (q, f)" by (cases "seqTries E seqConflictRetries ?fn e")
  show ?thesis
  proof (cases q)
    case (Inl err)
    note er = seqTries_err [OF keeps_reserveIn d q [unfolded Inl]]
    have "risen (storedCtr (dcontent (e_kv e)) k) (storedCtr (dcontent (e_kv f)) k)" for k
    proof (cases "dcontent (e_kv f) = dcontent (e_kv e)")
      case False
      then obtain lo wm t t' where t: "wf t" "content t = dcontent (e_kv e)" "?fn t = (Inr (lo, wm), t')" "content t' = dcontent (e_kv f)"
        using er by auto
      note c = reserveIn_ctr [OF kv_tx_axioms t(1,3), unfolded t(2,4)]
      show ?thesis using c(1) c(3) by (cases "k = ?k") (auto simp: c(2) risen_def intro: order.trans order.strict_implies_order)
    qed simp
    then have "sysInv dwf dcontent (f, ks, out)" using sysInv_store [OF I] er by blast
    then show ?thesis using r q Inl by (auto simp: reserveLocked_def seqPut_def)
  next
    case (Inr x)
    obtain lo wm where x: "x = (lo, wm)" by (cases x)
    from seqTries_ok [OF keeps_reserveIn d q [unfolded Inr x]] obtain t t' where
      f: "storeOnly e f" "dwf (e_kv f)" "wf t" "content t = dcontent (e_kv e)" "?fn t = (Inr (lo, wm), t')" "content t' = dcontent (e_kv f)"
      by blast
    note c = reserveIn_ctr [OF kv_tx_axioms f(3,5), unfolded f(4,6)]
    let ?a = "(e_allocHeap e ! p)\<lparr>a_next := lo, a_watermark := wm, a_existed := True\<rparr>"
    have e': "e' = f\<lparr>e_allocHeap := (e_allocHeap e)[p := ?a]\<rparr>"
      using r q Inr x by (simp add: reserveLocked_def seqPut_def storeOnly_fields [OF f(1)])
    have "heapOk ((e_allocHeap e)[p := ?a]) (ofKey ?k ks) (Some wm) (drawsOf ?k out)"
      by (rule heapOk_reserve [of _ _ "storedCtr (dcontent (e_kv e)) ?k"]) (use I p c in auto)
    then show ?thesis
      by (intro sysInv_cell [OF I p, of _ ?a]) (use f c(2) e' in \<open>auto simp: storeOnly_fields [OF f(1)]\<close>)
  qed
qed

lemma take_inv:
  assumes I: "sysInv dwf dcontent (e, ks, out)" and p: "p < length ks" "a_loaded (e_allocHeap e ! p)"
    "a_next (e_allocHeap e ! p) < a_watermark (e_allocHeap e ! p)" and r: "takeNext p e = (Inr v, e')"
  shows "sysInv dwf dcontent (e', ks, (ks ! p, v) # out)"
proof -
  let ?a = "(e_allocHeap e ! p)\<lparr>a_next := a_next (e_allocHeap e ! p) + 1\<rparr>"
  have e': "v = a_next (e_allocHeap e ! p)" "e' = e\<lparr>e_allocHeap := (e_allocHeap e)[p := ?a]\<rparr>"
    using r by (auto simp: takeNext_def Let_def)
  have "heapOk ((e_allocHeap e)[p := ?a]) (ofKey (ks ! p) ks) (storedCtr (dcontent (e_kv e)) (ks ! p)) (v # drawsOf (ks ! p) out)"
    unfolding e'(1) by (rule heapOk_take) (use I p in auto)
  then show ?thesis by (intro sysInv_cell [OF I p(1), of _ ?a]) (use I e' in auto)
qed

lemma bump_inv:
  assumes I: "sysInv dwf dcontent (e, ks, out)" and p: "p < length ks" "a_loaded (e_allocHeap e ! p)"
    and r: "bumpLocked E (ks ! p) next p e = (r, e')"
  shows "sysInv dwf dcontent (e', ks, out)"
proof -
  let ?a = "e_allocHeap e ! p"
  have l: "loadLocked E (ks ! p) 1 p e = (Inr (), e)" using p(2) by (simp add: loadLocked_def)
  consider "e' = e" | "a_next ?a < next" "next < a_watermark ?a" "e' = e\<lparr>e_allocHeap := (e_allocHeap e)[p := ?a\<lparr>a_next := next\<rparr>]\<rparr>"
    | "reserveLocked E (ks ! p) next False p e = (r, e')"
    using r by (simp add: bumpLocked_def l Let_def not_le split: if_splits)
  then show ?thesis
  proof cases
    case 1
    then show ?thesis using I by simp
  next
    case 2
    have "heapOk ((e_allocHeap e)[p := ?a\<lparr>a_next := next\<rparr>]) (ofKey (ks ! p) ks) (storedCtr (dcontent (e_kv e)) (ks ! p)) (drawsOf (ks ! p) out)"
      by (rule heapOk_skip) (use I p 2 in \<open>simp_all add: order.strict_implies_order\<close>)
    then show ?thesis by (intro sysInv_cell [OF I p(1), of _ "?a\<lparr>a_next := next\<rparr>"]) (use I 2 in auto)
  next
    case 3
    then show ?thesis by (rule reserve_inv [OF I p(1)])
  qed
qed

lemma set_inv:
  assumes I: "sysInv dwf dcontent (e, ks, out)" and n: "\<And>x. storedCtr (dcontent (e_kv e)) k = Some x \<Longrightarrow> x \<le> n"
    and r: "seqPut E (kv_Set (p_kv E) k (be64 n)) e = (r, e')"
  shows "sysInv dwf dcontent (e', ks, out)"
proof -
  have d: "dwf (e_kv e)" using I by simp
  note s = r [unfolded seqPut_def]
  have "storeOnly e e' \<and> dwf (e_kv e') \<and> (dcontent (e_kv e') = dcontent (e_kv e) \<or>
     (\<exists>x t t'. wf t \<and> kv_Writable (p_kv E) t \<and> content t = dcontent (e_kv e) \<and> kv_Set (p_kv E) k (be64 n) t = (Inr x, t') \<and> wf t' \<and>
       content t' = dcontent (e_kv e')))"
  proof (cases r)
    case (Inl err)
    then show ?thesis using seqTries_err [OF keeps_kv(1) d s [unfolded Inl]] by blast
  next
    case (Inr x)
    then show ?thesis using seqTries_ok [OF keeps_kv(1) d s [unfolded Inr]] by blast
  qed
  moreover have "content t' = (content t)(k \<mapsto> be64 n)" if "wf t" "kv_Set (p_kv E) k (be64 n) t = (Inr x, t')" for x t t'
    using Set_ok [OF that(1)] that(2) by simp
  ultimately have e': "storeOnly e e'" "dwf (e_kv e')" "dcontent (e_kv e') = dcontent (e_kv e) \<or> dcontent (e_kv e') = (dcontent (e_kv e))(k \<mapsto> be64 n)"
    by (simp, simp, metis)
  have "risen (storedCtr (dcontent (e_kv e)) j) (storedCtr (dcontent (e_kv e')) j)" for j
    using e'(3) n by (cases "j = k") (auto simp: risen_def)
  then show ?thesis by (rule sysInv_store [OF I e'(1,2)])
qed

lemma alloc_step_inv:
  assumes "alloc_step E dwf dcontent s s'" "sysInv dwf dcontent s"
  shows "sysInv dwf dcontent s'"
  using assms
proof (cases rule: alloc_step.cases)
  case (other d e ks out)
  have "storeOnly e (e\<lparr>e_kv := d\<rparr>)" unfolding storeOnly_def by (rule exI) (rule refl)
  then show ?thesis using other assms(2) sysInv_store [of dwf dcontent e ks out "e\<lparr>e_kv := d\<rparr>"] by simp
next
  case (crash e ks out)
  have "heapOk [] {} c out'" if "heapOk h S c out'" for h S c out' using that by (simp add: heapOk_def)
  then show ?thesis using crash assms(2) by simp blast
qed (use assms(2) lookup_inv load_inv reserve_inv take_inv bump_inv invalidate_inv set_inv in \<open>metis+\<close>)

lemma alloc_reach_inv:
  "(alloc_step E dwf dcontent)\<^sup>*\<^sup>* s s' \<Longrightarrow> sysInv dwf dcontent s \<Longrightarrow> sysInv dwf dcontent s'"
  by (induction rule: rtranclp_induct) (auto intro: alloc_step_inv simp del: sysInv.simps)

lemma loadLocked_loaded:
  assumes "loadLocked E k start p e = (Inr u, e')" "p < length (e_allocHeap e)"
  shows "a_loaded (e_allocHeap e' ! p) \<and> length (e_allocHeap e') = length (e_allocHeap e)"
  using assms by (auto simp: loadLocked_def Let_def split: if_splits option.splits sum.splits)

lemma reserveLocked_room:
  assumes r: "reserveLocked E k flr ext p e = (Inr u, e')" and d: "dwf (e_kv e)" and p: "p < length (e_allocHeap e)"
  shows "a_loaded (e_allocHeap e' ! p) = a_loaded (e_allocHeap e ! p) \<and> a_next (e_allocHeap e' ! p) < a_watermark (e_allocHeap e' ! p)"
proof -
  let ?fn = "reserveIn (p_kv E) k flr ext (e_allocHeap e ! p)"
  obtain lo wm f where q: "seqTries E seqConflictRetries ?fn e = (Inr (lo, wm), f)"
    and e': "e' = f\<lparr>e_allocHeap := (e_allocHeap f)[p := (e_allocHeap f ! p)\<lparr>a_next := lo, a_watermark := wm, a_existed := True\<rparr>]\<rparr>"
    using r by (auto simp: reserveLocked_def seqPut_def split: prod.splits sum.splits)
  from seqTries_ok [OF keeps_reserveIn d q] obtain t t' where f: "storeOnly e f" "wf t" "?fn t = (Inr (lo, wm), t')" by blast
  show ?thesis using reserveIn_ctr(1) [OF kv_tx_axioms f(2,3)] p by (simp add: e' storeOnly_fields [OF f(1)])
qed

text \<open>A draw is a run of steps of the system.\<close>

abbreviation run :: "('db, 'z) allocSys \<Rightarrow> ('db, 'z) allocSys \<Rightarrow> bool" where
  "run \<equiv> (alloc_step E dwf dcontent)\<^sup>*\<^sup>*"

lemma takeLocked_run:
  assumes I: "sysInv dwf dcontent (e, ks, out)" and p: "p < length ks" and r: "takeLocked E (ks ! p) start p e = (r, e')"
  shows "run (e, ks, out) (e', ks, case r of Inl _ \<Rightarrow> out | Inr v \<Rightarrow> (ks ! p, v) # out)"
proof -
  let ?s = "alloc_step E dwf dcontent"
  obtain q1 e1 where l: "loadLocked E (ks ! p) start p e = (q1, e1)" by (cases "loadLocked E (ks ! p) start p e")
  have s1: "?s (e, ks, out) (e1, ks, out)" by (rule alloc_step.load [OF p l])
  have I1: "sysInv dwf dcontent (e1, ks, out)" by (rule load_inv [OF I p l])
  show ?thesis
  proof (cases q1)
    case (Inl err)
    then show ?thesis using r l s1 by (auto simp: takeLocked_def)
  next
    case (Inr u)
    have ld: "a_loaded (e_allocHeap e1 ! p)" using loadLocked_loaded [OF l [unfolded Inr]] I p by simp
    let ?a = "e_allocHeap e1 ! p"
    obtain q2 e2 where x: "(if a_watermark ?a \<le> a_next ?a then reserveLocked E (ks ! p) (a_next ?a) True p e1 else (Inr (), e1)) = (q2, e2)"
      by (cases "if a_watermark ?a \<le> a_next ?a then reserveLocked E (ks ! p) (a_next ?a) True p e1 else (Inr (), e1)")
    have s2: "run (e1, ks, out) (e2, ks, out)"
      using x alloc_step.extend [OF p ld, of E q2 e2] by (cases "a_watermark ?a \<le> a_next ?a") auto
    have rr: "(case q2 of Inl err \<Rightarrow> (Inl err, e2) | Inr _ \<Rightarrow> takeNext p e2) = (r, e')"
      using r l Inr x by (simp add: takeLocked_def act_bind_def Let_def)
    show ?thesis
    proof (cases q2)
      case (Inl err)
      then show ?thesis using rr s1 s2 by (auto intro: converse_rtranclp_into_rtranclp)
    next
      case (Inr w)
      have room: "a_loaded (e_allocHeap e2 ! p)" "a_next (e_allocHeap e2 ! p) < a_watermark (e_allocHeap e2 ! p)"
        using x Inr reserveLocked_room [of "ks ! p" _ True p e1 w e2] ld I1 p by (auto split: if_splits)
      obtain v where v: "takeNext p e2 = (Inr v, e')" "r = Inr v" using rr Inr by (auto simp: takeNext_def Let_def)
      from alloc_step.take [OF p room v(1)] have "?s (e2, ks, out) (e', ks, (ks ! p, v) # out)" .
      with s1 s2 v(2) show ?thesis by (auto intro: converse_rtranclp_into_rtranclp rtranclp.rtrancl_into_rtrancl)
    qed
  qed
qed

lemma lookup_owner:
  assumes I: "sysInv dwf dcontent (e, ks, out)" and l: "counterAllocFor k e = (p, e')"
  shows "p < length (if p < length ks then ks else ks @ [k]) \<and> (if p < length ks then ks else ks @ [k]) ! p = k"
  using assms by (auto simp: counterAllocFor_def Let_def nth_append split: option.splits if_splits)

lemma allocLoop_run:
  "sysInv dwf dcontent (e, ks, out) \<Longrightarrow> allocLoop k (takeLocked E k start) gaveUp n e = (r, e') \<Longrightarrow>
   \<exists>ks'. run (e, ks, out) (e', ks', case r of Inl _ \<Rightarrow> out | Inr v \<Rightarrow> (k, v) # out)"
proof (induction n arbitrary: e ks)
  case 0
  then show ?case by auto
next
  case (Suc n)
  obtain p e1 where l: "counterAllocFor k e = (p, e1)" by (cases "counterAllocFor k e")
  let ?ks = "if p < length ks then ks else ks @ [k]"
  have s1: "alloc_step E dwf dcontent (e, ks, out) (e1, ?ks, out)" by (rule alloc_step.lookup [OF l])
  have I1: "sysInv dwf dcontent (e1, ?ks, out)" by (rule lookup_inv [OF Suc.prems(1) l])
  have p: "p < length ?ks" "?ks ! p = k" using lookup_owner [OF Suc.prems(1) l] by blast+
  show ?case
  proof (cases "a_dead (e_allocHeap e1 ! p)")
    case True
    then show ?thesis using Suc.IH [OF I1] Suc.prems(2) l s1 by (auto intro: converse_rtranclp_into_rtranclp)
  next
    case False
    obtain q e2 where t: "takeLocked E (?ks ! p) start p e1 = (q, e2)" by (cases "takeLocked E (?ks ! p) start p e1")
    note s2 = takeLocked_run [OF I1 p(1) t]
    show ?thesis
    proof (cases "q = Inl ErrSeqReset")
      case True
      have s3: "alloc_step E dwf dcontent (e2, ?ks, out) (dropCounterAlloc k p e2, ?ks, out)" by (rule alloc_step.drop)
      have b: "run (e, ks, out) (dropCounterAlloc k p e2, ?ks, out)"
        using s1 s2 s3 True by (auto intro: converse_rtranclp_into_rtranclp rtranclp.rtrancl_into_rtrancl)
      have "allocLoop k (takeLocked E k start) gaveUp n (dropCounterAlloc k p e2) = (r, e')"
        using Suc.prems(2) l False t True p(2) by (simp)
      from Suc.IH [OF alloc_reach_inv [OF b Suc.prems(1)] this] b show ?thesis by (blast intro: rtranclp_trans)
    next
      case no: False
      have "(q, e2) = (r, e')" using Suc.prems(2) l False t no p(2) by (auto split: sum.splits err.splits)
      then have "run (e, ks, out) (e', ?ks, case r of Inl _ \<Rightarrow> out | Inr v \<Rightarrow> (k, v) # out)"
        using converse_rtranclp_into_rtranclp [OF s1 s2] unfolding p(2) by blast
      then show ?thesis by blast
    qed
  qed
qed

end

lemma sysInv_open: "dwf d \<Longrightarrow> sysInv dwf dcontent (openEngine d occ, [], [])"
  by (simp add: openEngine_def heapOk_def)



end
