(* ===== verification/SeqEng.thy ===== *)
theory SeqEng
  imports SeqAlloc
begin

text \<open>
  Sequence objects at the engine (\<open>src/seqobj.go\<close>, and the object allocators of
  \<open>src/seqalloc.go\<close>): creating, dropping and altering a sequence, listing, and the CACHE allocator that
  draws a batch per durable write. The refinement shows that draws through the cache are the draws of the
  step function one at a time.
\<close>

subsection \<open>Allocators for sequence objects\<close>

definition newObjAlloc :: seqObjAlloc where
  "newObjAlloc = \<lparr>b_dead = False,
     b_desc = \<lparr>s_FormatVersion = 0, s_ID = 0, s_Name = [], s_Type = [], s_Start = 0, s_Increment = 0, s_Min = 0, s_Max = 0,
               s_Cycle = False, s_Cache = 0, s_Last = 0, s_Called = False\<rparr>,
     b_reserved = 0\<rparr>"

definition seqObjAllocFor :: "key \<Rightarrow> ('db, 'z) engine_scheme \<Rightarrow> nat \<times> ('db, 'z) engine_scheme" where
  "seqObjAllocFor k e =
     (case map_of (e_seqObjAllocs e) k of
        Some p \<Rightarrow> (p, e)
      | None \<Rightarrow>
          (let p = length (e_objHeap e)
           in (p, e\<lparr>e_objHeap := e_objHeap e @ [newObjAlloc], e_seqObjAllocs := (k, p) # e_seqObjAllocs e\<rparr>)))"

definition invalidateSeqObj :: "key \<Rightarrow> ('db, 'z) engine_scheme \<Rightarrow> ('db, 'z) engine_scheme" where
  "invalidateSeqObj k e =
     (let e' = e\<lparr>e_seqObjAllocs := filter (\<lambda>x. fst x \<noteq> k) (e_seqObjAllocs e)\<rparr>
      in case map_of (e_seqObjAllocs e) k of
           None \<Rightarrow> e'
         | Some p \<Rightarrow> e'\<lparr>e_objHeap := (e_objHeap e)[p := (e_objHeap e ! p)\<lparr>b_dead := True\<rparr>]\<rparr>)"

text \<open>The scratch walk: how many of a batch's draws exist, and the descriptor after them.\<close>

fun stepBatch :: "string \<Rightarrow> nat \<Rightarrow> nat \<Rightarrow> seqDesc \<Rightarrow> (nat \<times> seqDesc) res" where
  "stepBatch name k 0 work = Inr (k, work)"
| "stepBatch name k (Suc n) work =
     (case stepSeq name work of
        (Inl err, _) \<Rightarrow> if k = 0 then Inl err else Inr (k, work)
      | (Inr _, work') \<Rightarrow> stepBatch name (Suc k) n work')"

definition objBatch :: "seqDesc \<Rightarrow> nat" where
  "objBatch d = nat (max (sint (s_Cache d)) 1)"

definition objReserveIn :: "seqCodec \<Rightarrow> 'tx kvops \<Rightarrow> string \<Rightarrow> ('tx, seqDesc \<times> nat) act" where
  "objReserveIn C K name =
     act_bind (seqDescIn C K name) (\<lambda>stored.
       act_bind (act_lift (stepBatch name 0 (objBatch stored) stored)) (\<lambda>(k, work).
         act_bind (writeSeqDescIn C K work) (\<lambda>_. act_return (stored, k))))"

definition objReserveLocked :: "('db, 'tx) deps \<Rightarrow> string \<Rightarrow> nat \<Rightarrow> (('db, 'z) engine_scheme, unit) act" where
  "objReserveLocked E name p =
     act_bind (seqPut E (objReserveIn (p_seq E) (p_kv E) name)) (\<lambda>(pos, k) e.
       (Inr (), e\<lparr>e_objHeap := (e_objHeap e)[p := (e_objHeap e ! p)\<lparr>b_desc := pos, b_reserved := k\<rparr>]\<rparr>))"

definition objTake :: "string \<Rightarrow> nat \<Rightarrow> (('db, 'z) engine_scheme, int64) act" where
  "objTake name p e =
     (let a = e_objHeap e ! p
      in case stepSeq name (b_desc a) of
           (Inl err, d) \<Rightarrow> (Inl err, e\<lparr>e_objHeap := (e_objHeap e)[p := a\<lparr>b_desc := d\<rparr>]\<rparr>)
         | (Inr v, d) \<Rightarrow> (Inr v, e\<lparr>e_objHeap := (e_objHeap e)[p := a\<lparr>b_desc := d, b_reserved := b_reserved a - 1\<rparr>]\<rparr>))"

fun allocObjLoop :: "('db, 'tx) deps \<Rightarrow> string \<Rightarrow> nat \<Rightarrow> (('db, 'z) engine_scheme, int64) act" where
  "allocObjLoop E name 0 e = (Inl (Msg ''sequence allocation kept losing to concurrent resets''), e)"
| "allocObjLoop E name (Suc n) e =
     (case seqObjAllocFor (sqlSeqKey name) e of (p, e1) \<Rightarrow>
        if b_dead (e_objHeap e1 ! p) then allocObjLoop E name n e1
        else act_bind (if b_reserved (e_objHeap e1 ! p) = 0 then objReserveLocked E name p else act_return ())
               (\<lambda>_. objTake name p) e1)"

definition allocSeqObj :: "('db, 'tx) deps \<Rightarrow> string \<Rightarrow> (('db, 'z) engine_scheme, int64) act" where
  "allocSeqObj E name = allocObjLoop E name seqAllocRetries"

definition setValDirect :: "('db, 'tx) deps \<Rightarrow> string \<Rightarrow> int64 \<Rightarrow> bool \<Rightarrow> (('db, 'z) engine_scheme, unit) act" where
  "setValDirect E name v called =
     act_bind (seqPut E (setValIn (p_seq E) (p_kv E) name v called)) (\<lambda>_ e. (Inr (), invalidateSeqObj (sqlSeqKey name) e))"

subsection \<open>Creating, dropping, altering and listing\<close>

definition relationErr :: "string \<Rightarrow> err" where
  "relationErr name = Msg (''relation '' @ quoted name @ '' already exists'')"

definition createSeqIn :: "('db, 'tx) deps \<Rightarrow> seqDesc \<Rightarrow> ('tx, seqDesc) act" where
  "createSeqIn E desc t =
     (if kv_Contains (p_kv E) (sqlSeqKey (s_Name desc)) t \<or> kv_Contains (p_kv E) (descKey (s_Name desc)) t \<or>
         kv_Contains (p_kv E) (viewKey (s_Name desc)) t
      then (Inl (relationErr (s_Name desc)), t)
      else
        act_bind (nextFromCounter (p_kv E) seqKey firstUserTableID) (\<lambda>i.
          let d = desc\<lparr>s_ID := i, s_Last := s_Start desc, s_Called := False\<rparr>
          in act_bind (writeSeqDescIn (p_seq E) (p_kv E) d) (\<lambda>_. act_return (d\<lparr>s_FormatVersion := descFormatVersion\<rparr>))) t)"

definition CreateSequence :: "('db, 'tx) deps \<Rightarrow> seqDesc \<Rightarrow> (('db, 'z) engine_scheme, seqDesc) act" where
  "CreateSequence E desc =
     act_bind (act_lift (checkSeqName (s_Name desc))) (\<lambda>_.
       act_bind (act_lift (checkSeqDesc desc)) (\<lambda>_.
         act_bind (updateDDL E (onTx (createSeqIn E desc))) (\<lambda>d e.
           (Inr d, invalidateSeqObj (sqlSeqKey (s_Name desc)) e))))"

definition DropSequence :: "('db, 'tx) deps \<Rightarrow> string \<Rightarrow> (('db, 'z) engine_scheme, bool) act" where
  "DropSequence E name =
     act_bind (act_lift (checkSeqName name)) (\<lambda>_.
       act_bind (updateDDL E (onTx (kv_Delete (p_kv E) (sqlSeqKey name)))) (\<lambda>existed e.
         (Inr existed, invalidateSeqObj (sqlSeqKey name) e)))"

definition alterSeqIn :: "('db, 'tx) deps \<Rightarrow> string \<Rightarrow> (seqDesc \<Rightarrow> seqDesc res) \<Rightarrow> ('tx, unit) act" where
  "alterSeqIn E name mutate =
     act_bind (seqDescIn (p_seq E) (p_kv E) name) (\<lambda>desc.
       act_bind (act_lift (mutate desc)) (\<lambda>d.
         act_bind (act_lift (checkSeqDesc d)) (\<lambda>_. writeSeqDescIn (p_seq E) (p_kv E) d)))"

definition AlterSequence ::
  "('db, 'tx) deps \<Rightarrow> string \<Rightarrow> (seqDesc \<Rightarrow> seqDesc res) \<Rightarrow> (('db, 'z) engine_scheme, unit) act" where
  "AlterSequence E name mutate =
     act_bind (updateDDL E (onTx (alterSeqIn E name mutate))) (\<lambda>_ e. (Inr (), invalidateSeqObj (sqlSeqKey name) e))"

definition seqOrNone :: "seqCodec \<Rightarrow> 'tx kvops \<Rightarrow> string \<Rightarrow> 'tx \<Rightarrow> seqDesc option" where
  "seqOrNone C K name t = (case seqDescIn C K name t of (Inl _, _) \<Rightarrow> None | (Inr d, _) \<Rightarrow> Some d)"

definition Sequence :: "('db, 'tx) deps \<Rightarrow> string \<Rightarrow> (('db, 'z) engine_scheme, seqDesc option) act" where
  "Sequence E name = eView E (\<lambda>(e, t). (Inr (seqOrNone (p_seq E) (p_kv E) name t), (e, t)))"

text \<open>The listing stops at the first record that does not decode and keeps what it has.\<close>

fun decodeSeqs :: "seqCodec \<Rightarrow> bytes list \<Rightarrow> seqDesc list" where
  "decodeSeqs C [] = []"
| "decodeSeqs C (v # vs) = (case seq_Unmarshal C v of Inl _ \<Rightarrow> [] | Inr d \<Rightarrow> d # decodeSeqs C vs)"

definition Sequences :: "('db, 'tx) deps \<Rightarrow> (('db, 'z) engine_scheme, seqDesc list) act" where
  "Sequences E = eView E (\<lambda>(e, t).
     (Inr (decodeSeqs (p_seq E) (map snd (takeWhile (\<lambda>x. fst x < prefixEndKey sqlSeqPrefix) (kv_Ascend (p_kv E) sqlSeqPrefix t)))), (e, t)))"

text \<open>\<open>CREATE\<close>, \<open>DROP\<close> and \<open>ALTER SEQUENCE\<close> statements (\<open>src/sql/sequence.go\<close>); the flag is the notice.\<close>

definition execDropSequence :: "('db, 'tx) deps \<Rightarrow> string \<Rightarrow> bool \<Rightarrow> (('db, 'z) engine_scheme, bool) act" where
  "execDropSequence E name ifExists =
     act_bind (DropSequence E name) (\<lambda>existed.
       if existed then act_return False
       else if ifExists then act_return True
       else act_fail (Msg (''sequence '' @ quoted name @ '' does not exist'')))"

definition execAlterSequence :: "('db, 'tx) deps \<Rightarrow> string \<Rightarrow> seqOptions \<Rightarrow> (('db, 'z) engine_scheme, unit) act" where
  "execAlterSequence E name opts =
     act_bind (Sequence E name) (\<lambda>d.
       case d of
         None \<Rightarrow> act_fail (Msg (''sequence '' @ quoted name @ '' does not exist''))
       | Some _ \<Rightarrow> AlterSequence E name (applySeqOptions opts))"

subsection \<open>Draws through the cache are draws one at a time\<close>

text \<open>
  The logical position of a sequence: the allocator's hand-out position while it has reserved draws,
  the stored descriptor otherwise. While draws are reserved, the stored descriptor is where they end.
\<close>

definition reservedAt :: "('db, 'z) engine_scheme \<Rightarrow> string \<Rightarrow> seqObjAlloc option" where
  "reservedAt e name = (case map_of (e_seqObjAllocs e) (sqlSeqKey name) of
     None \<Rightarrow> None | Some p \<Rightarrow> if b_reserved (e_objHeap e ! p) = 0 then None else Some (e_objHeap e ! p))"

definition seqAt :: "seqCodec \<Rightarrow> (key \<Rightarrow> bytes option) \<Rightarrow> ('db, 'z) engine_scheme \<Rightarrow> string \<Rightarrow> seqDesc \<Rightarrow> bool" where
  "seqAt C m e name d \<longleftrightarrow> s_Name d = name \<and> validUtf8 name \<and> validUtf8 (s_Type d) \<and> s_FormatVersion d = descFormatVersion \<and>
     (\<forall>p. map_of (e_seqObjAllocs e) (sqlSeqKey name) = Some p \<longrightarrow> p < length (e_objHeap e) \<and> \<not> b_dead (e_objHeap e ! p)) \<and>
     (\<exists>b D. m (sqlSeqKey name) = Some b \<and> seq_Unmarshal C b = Inr D \<and>
        (case reservedAt e name of
           None \<Rightarrow> D = d
         | Some a \<Rightarrow> b_desc a = d \<and> (\<exists>vs. stepMany name (b_reserved a) d = (Inr vs, D))))"

lemma stepSeq_fields:
  assumes "stepSeq name d = (r, d')"
  shows "s_Name d' = s_Name d" "s_Type d' = s_Type d" "s_FormatVersion d' = s_FormatVersion d"
    "s_Cache d' = s_Cache d"
  using assms by (auto simp: stepSeq_def Let_def split: if_splits)

lemma stepMany_fields:
  "stepMany name n d = (Inr vs, d') \<Longrightarrow> s_Name d' = s_Name d \<and> s_Type d' = s_Type d \<and> s_FormatVersion d' = s_FormatVersion d"
proof (induction n arbitrary: d vs)
  case (Suc n)
  then obtain v d1 vs1 where "stepSeq name d = (Inr v, d1)" "stepMany name n d1 = (Inr vs1, d')"
    by (auto simp: act_bind_Inr)
  then show ?case using Suc.IH stepSeq_fields [of name d "Inr v" d1] by auto
qed simp

lemma stepBatch_many:
  "stepBatch name k n w = Inr (k', w') \<Longrightarrow> k \<le> k' \<and> (\<exists>vs. stepMany name (k' - k) w = (Inr vs, w')) \<and> (0 < n \<longrightarrow> 0 < k')"
proof (induction name k n w rule: stepBatch.induct)
  case (2 name k n w)
  show ?case
  proof (cases "stepSeq name w")
    case (Pair q w1)
    show ?thesis
    proof (cases q)
      case (Inl err)
      then show ?thesis using 2(2) Pair by (auto split: if_splits)
    next
      case (Inr v)
      then have r: "stepBatch name (Suc k) n w1 = Inr (k', w')" using 2(2) Pair by simp
      obtain vs where "Suc k \<le> k'" "stepMany name (k' - Suc k) w1 = (Inr vs, w')" using 2(1) [OF Pair [symmetric] Inr r] by blast
      moreover from this have "k' - k = Suc (k' - Suc k)" by simp
      ultimately show ?thesis using Pair Inr by (auto simp: act_bind_def)
    qed
  qed
qed simp

context engine_env
begin

lemma keeps_objReserveIn: "act_keeps (txOn b) (objReserveIn (p_seq E) (p_kv E) name)"
  unfolding objReserveIn_def seqDescIn_def writeSeqDescIn_def
  by (intro act_keeps_bind act_keeps_pure) (auto intro!: act_keeps_bind split: prod.splits option.splits)

lemma seqDescIn_iff:
  "wf t \<Longrightarrow> seqDescIn (p_seq E) (p_kv E) name t = (Inr d, t') \<longleftrightarrow>
     t' = t \<and> name \<noteq> [] \<and> (\<exists>b. content t (sqlSeqKey name) = Some b \<and> seq_Unmarshal (p_seq E) b = Inr d)"
  by (auto simp: seqDescIn_def checkSeqName_def Get split: option.splits)

lemma objReserveIn_ok:
  assumes C: "seqCodecOk (p_seq E)" and t: "wf t" and r: "objReserveIn (p_seq E) (p_kv E) name t = (Inr (pos, k), t')"
    and pos: "s_Name pos = name" "s_FormatVersion pos = descFormatVersion" "validUtf8 name" "validUtf8 (s_Type pos)"
  shows "\<exists>b blob D vs. content t (sqlSeqKey name) = Some b \<and> seq_Unmarshal (p_seq E) b = Inr pos \<and> 0 < k \<and>
    stepMany name k pos = (Inr vs, D) \<and> content t' = (content t)(sqlSeqKey name \<mapsto> blob) \<and> seq_Unmarshal (p_seq E) blob = Inr D"
proof -
  obtain b D where b: "content t (sqlSeqKey name) = Some b" "seq_Unmarshal (p_seq E) b = Inr pos"
    "stepBatch name 0 (objBatch pos) pos = Inr (k, D)" "writeSeqDescIn (p_seq E) (p_kv E) D t = (Inr (), t')"
    using r by (auto simp: objReserveIn_def act_bind_Inr seqDescIn_iff [OF t] simp del: act_bind_lift)
  obtain vs where vs: "stepMany name k pos = (Inr vs, D)" using stepBatch_many [OF b(3)] by auto
  have k: "0 < k" using stepBatch_many [OF b(3)] by (auto simp: objBatch_def)
  have D: "D\<lparr>s_FormatVersion := descFormatVersion\<rparr> = D" "s_Name D = name" "validUtf8 (s_Type D)"
    using stepMany_fields [OF vs] pos by (cases D; simp)+
  obtain blob where bl: "seq_Marshal (p_seq E) D = Inr blob" "seq_Unmarshal (p_seq E) blob = Inr D"
    using C D pos unfolding seqCodecOk_def by blast
  then have "kv_Set (p_kv E) (sqlSeqKey name) blob t = (Inr (), t')"
    using b(4) by (simp add: writeSeqDescIn_def D(1,2))
  then show ?thesis using Set_ok [OF t] b vs k bl by blast
qed

lemma objTake_step:
  assumes "seqAt (p_seq E) m e name d" "reservedAt e name = Some a" "map_of (e_seqObjAllocs e) (sqlSeqKey name) = Some p"
    "objTake name p e = (r, e')"
  shows "\<exists>v d'. r = Inr v \<and> stepSeq name d = (Inr v, d') \<and> seqAt (p_seq E) m e' name d' \<and> e_kv e' = e_kv e"
proof -
  let ?a = "e_objHeap e ! p"
  have a: "a = ?a" "b_reserved ?a \<noteq> 0" "p < length (e_objHeap e)" "\<not> b_dead ?a" "b_desc ?a = d"
    using assms by (auto simp: reservedAt_def seqAt_def split: if_splits)
  obtain b D vs where D: "m (sqlSeqKey name) = Some b" "seq_Unmarshal (p_seq E) b = Inr D"
    "stepMany name (b_reserved ?a) d = (Inr vs, D)" using assms(1,2) a(1) by (auto simp: seqAt_def)
  obtain n where n: "b_reserved ?a = Suc n" using a(2) by (cases "b_reserved ?a") auto
  then obtain v d' vs' where v: "stepSeq name d = (Inr v, d')" "stepMany name n d' = (Inr vs', D)"
    using D(3) by (auto simp: act_bind_Inr)
  have e': "r = Inr v" "e' = e\<lparr>e_objHeap := (e_objHeap e)[p := ?a\<lparr>b_desc := d', b_reserved := n\<rparr>]\<rparr>"
    using assms(4) v(1) n by (auto simp: objTake_def Let_def a(5))
  have "seqAt (p_seq E) m e' name d'"
    using assms(1,3) D(1,2) v a stepSeq_fields [OF v(1)]
    by (auto simp: seqAt_def reservedAt_def e' intro: exI [of _ vs'])
  then show ?thesis using v e' by auto
qed

lemma objReserve_at:
  assumes C: "seqCodecOk (p_seq E)" and d: "dwf (e_kv e)" and s: "seqAt (p_seq E) (dcontent (e_kv e)) e name d"
    and p: "map_of (e_seqObjAllocs e) (sqlSeqKey name) = Some p" "b_reserved (e_objHeap e ! p) = 0"
    and r: "objReserveLocked E name p e = (Inr u, e')"
  shows "dwf (e_kv e') \<and> seqAt (p_seq E) (dcontent (e_kv e')) e' name d \<and> (\<exists>a. reservedAt e' name = Some a) \<and>
    map_of (e_seqObjAllocs e') (sqlSeqKey name) = Some p"
proof -
  obtain pos k f where q: "seqTries E seqConflictRetries (objReserveIn (p_seq E) (p_kv E) name) e = (Inr (pos, k), f)"
    and e': "e' = f\<lparr>e_objHeap := (e_objHeap f)[p := (e_objHeap f ! p)\<lparr>b_desc := pos, b_reserved := k\<rparr>]\<rparr>"
    using r by (auto simp: objReserveLocked_def seqPut_def act_bind_Inr)
  from seqTries_ok [OF keeps_objReserveIn d q] obtain t t' where
    f: "storeOnly e f" "dwf (e_kv f)" "wf t" "content t = dcontent (e_kv e)"
      "objReserveIn (p_seq E) (p_kv E) name t = (Inr (pos, k), t')" "content t' = dcontent (e_kv f)" by blast
  have "reservedAt e name = None" using p by (simp add: reservedAt_def)
  then obtain b where b: "dcontent (e_kv e) (sqlSeqKey name) = Some b" "seq_Unmarshal (p_seq E) b = Inr d"
    using s by (auto simp: seqAt_def)
  have pos: "pos = d" using f(3-5) b
    by (auto simp: objReserveIn_def act_bind_Inr seqDescIn_iff [OF f(3)] simp del: act_bind_lift)
  have "s_Name d = name" "s_FormatVersion d = descFormatVersion" "validUtf8 name" "validUtf8 (s_Type d)"
    "p < length (e_objHeap e)" "\<not> b_dead (e_objHeap e ! p)" using s p by (auto simp: seqAt_def)
  note pd = this
  obtain blob D vs where k: "0 < k" "stepMany name k d = (Inr vs, D)"
      "content t' = (content t)(sqlSeqKey name \<mapsto> blob)" "seq_Unmarshal (p_seq E) blob = Inr D"
    using objReserveIn_ok [OF C f(3) f(5)] pd by (auto simp: pos)
  have "seqAt (p_seq E) (dcontent (e_kv f)) e' name d"
    unfolding seqAt_def using pd p(1) k
    by (auto simp: e' reservedAt_def storeOnly_fields [OF f(1)] pos f(6) [symmetric] intro: exI [of _ vs])
  then show ?thesis using f(2) p(1) k(1) pd(5) by (simp add: e' reservedAt_def storeOnly_fields [OF f(1)])
qed

lemma allocSeqObj_step:
  assumes C: "seqCodecOk (p_seq E)" and d: "dwf (e_kv e)" and s: "seqAt (p_seq E) (dcontent (e_kv e)) e name d"
    and r: "allocSeqObj E name e = (Inr v, e')"
  shows "\<exists>d'. stepSeq name d = (Inr v, d') \<and> dwf (e_kv e') \<and> seqAt (p_seq E) (dcontent (e_kv e')) e' name d'"
proof -
  obtain p e1 where l: "seqObjAllocFor (sqlSeqKey name) e = (p, e1)" by (cases "seqObjAllocFor (sqlSeqKey name) e")
  have e1: "map_of (e_seqObjAllocs e1) (sqlSeqKey name) = Some p" "\<not> b_dead (e_objHeap e1 ! p)" "e_kv e1 = e_kv e"
    "seqAt (p_seq E) (dcontent (e_kv e)) e1 name d"
    using l s by (auto simp: seqObjAllocFor_def Let_def seqAt_def reservedAt_def newObjAlloc_def split: option.splits)
  obtain n where n: "seqAllocRetries = Suc n" by (simp add: seqAllocRetries_def eval_nat_numeral)
  have rr: "act_bind (if b_reserved (e_objHeap e1 ! p) = 0 then objReserveLocked E name p else act_return ()) (\<lambda>_. objTake name p) e1 = (Inr v, e')"
    using r l e1(2) by (simp add: allocSeqObj_def n)
  obtain e2 where e2: "objTake name p e2 = (Inr v, e')" "dwf (e_kv e2)" "seqAt (p_seq E) (dcontent (e_kv e2)) e2 name d"
    "\<exists>a. reservedAt e2 name = Some a" "map_of (e_seqObjAllocs e2) (sqlSeqKey name) = Some p"
  proof (cases "b_reserved (e_objHeap e1 ! p) = 0")
    case True
    then obtain u e2 where "objReserveLocked E name p e1 = (Inr u, e2)" "objTake name p e2 = (Inr v, e')"
      using rr by (auto simp: act_bind_Inr)
    then show ?thesis using that objReserve_at [OF C _ _ e1(1) True] e1 d by simp
  next
    case False
    then show ?thesis using that rr e1 d by (simp add: reservedAt_def)
  qed
  then obtain a where "reservedAt e2 name = Some a" by blast
  from objTake_step [OF e2(3) this e2(5) e2(1)] e2(2) show ?thesis by auto
qed

end

fun drawObj :: "('db, 'tx) deps \<Rightarrow> string \<Rightarrow> nat \<Rightarrow> (('db, 'z) engine_scheme, int64 list) act" where
  "drawObj E name 0 = act_return []"
| "drawObj E name (Suc n) =
     act_bind (allocSeqObj E name) (\<lambda>v. act_bind (drawObj E name n) (\<lambda>vs. act_return (v # vs)))"

context engine_env
begin

lemma drawObj_steps:
  "seqCodecOk (p_seq E) \<Longrightarrow> dwf (e_kv e) \<Longrightarrow> seqAt (p_seq E) (dcontent (e_kv e)) e name d \<Longrightarrow>
   drawObj E name n e = (Inr vs, e') \<Longrightarrow>
   \<exists>d'. stepMany name n d = (Inr vs, d') \<and> dwf (e_kv e') \<and> seqAt (p_seq E) (dcontent (e_kv e')) e' name d'"
proof (induction n arbitrary: e d vs)
  case (Suc n)
  obtain v e1 us where r: "allocSeqObj E name e = (Inr v, e1)" "drawObj E name n e1 = (Inr us, e')" "vs = v # us"
    using Suc.prems(4) by (auto simp: act_bind_Inr)
  obtain d1 where d1: "stepSeq name d = (Inr v, d1)" "dwf (e_kv e1)" "seqAt (p_seq E) (dcontent (e_kv e1)) e1 name d1"
    using allocSeqObj_step [OF Suc.prems(1-3) r(1)] by blast
  obtain d' where "stepMany name n d1 = (Inr us, d')" "dwf (e_kv e')" "seqAt (p_seq E) (dcontent (e_kv e')) e' name d'"
    using Suc.IH [OF Suc.prems(1) d1(2,3) r(2)] by blast
  then show ?case using d1(1) r(3) by (auto simp: act_bind_def)
qed auto

end

lemma seqAt_crash:
  assumes "seqAt C m e name d"
  shows "\<exists>n us D. stepMany name n d = (Inr us, D) \<and> seqAt C m (e\<lparr>e_seqObjAllocs := [], e_objHeap := []\<rparr>) name D"
proof -
  obtain b D where D: "m (sqlSeqKey name) = Some b" "seq_Unmarshal C b = Inr D" "case reservedAt e name of
           None \<Rightarrow> D = d
         | Some a \<Rightarrow> b_desc a = d \<and> (\<exists>vs. stepMany name (b_reserved a) d = (Inr vs, D))" using assms by (auto simp: seqAt_def)
  have z: "stepMany name 0 d = (Inr [], d)" by simp
  obtain n us where n: "stepMany name n d = (Inr us, D)"
  proof (cases "reservedAt e name")
    case None
    then have "D = d" using D(3) by simp
    with z have "stepMany name 0 d = (Inr [], D)" by simp
    then show ?thesis by (rule that)
  qed (use that D(3) in auto)
  show ?thesis using n stepMany_fields [OF n] D assms
    by (intro exI [of _ n] exI [of _ us] exI [of _ D]) (auto simp: seqAt_def reservedAt_def)
qed

text \<open>C37. CACHE does not change what a sequence gives. In concurrent-writes mode, the values that any number of
  draws through the batch allocator return are exactly those of the step function applied one at a time
  to the sequence's logical position, across batch boundaries. A crash resumes the sequence at a later
  position of the same progression, so it skips values and never repeats one.\<close>

theorem cached_draws_refine:
  assumes "engine_env E ok content dwf dcontent base written" "seqCodecOk (p_seq E)" "dwf (e_kv e)"
    "seqAt (p_seq E) (dcontent (e_kv e)) e name d" "drawObj E name n e = (Inr vs, e')"
  shows "\<exists>d'. stepMany name n d = (Inr vs, d') \<and> dwf (e_kv e') \<and> seqAt (p_seq E) (dcontent (e_kv e')) e' name d' \<and>
    (\<exists>k us D. stepMany name k d' = (Inr us, D) \<and>
       seqAt (p_seq E) (dcontent (e_kv e')) (e'\<lparr>e_seqObjAllocs := [], e_objHeap := []\<rparr>) name D)"
  using engine_env.drawObj_steps [OF assms] seqAt_crash [of "p_seq E" "dcontent (e_kv e')" e' name] by blast

definition startedSeq :: seqDesc where
  "startedSeq = sampleSeq\<lparr>s_Last := 1, s_Called := False, s_Cache := 3\<rparr>"

theorem cached_draws_refine_witness:
  "\<exists>(e :: alist engine) d'. fst (drawObj sampleDeps ''s'' 1 e) = Inr [1] \<and> stepMany ''s'' 1 startedSeq = (Inr [1], d') \<and>
     seqAt tupleSeqCodec (map_of (e_kv e)) e ''s'' startedSeq"
proof -
  obtain b where b: "seq_Marshal tupleSeqCodec startedSeq = Inr b" by (simp add: tupleSeqCodec_def)
  have u: "validUtf8 ''s''" "validUtf8 []" unfolding validUtf8_def by (rule goRunes_ascii(2), simp)+
  have name: "s_Name startedSeq = ''s''" "s_Type startedSeq = []" by (simp_all add: startedSeq_def sampleSeq_def)
  then have um: "seq_Unmarshal tupleSeqCodec b = Inr startedSeq"
    using tupleSeqCodec_ok [unfolded seqCodecOk_def, THEN spec, of startedSeq] b u by auto
  let ?e = "openEngine [(sqlSeqKey ''s'', b)] True :: alist engine"
  let ?w = "startedSeq\<lparr>s_Last := 9, s_Called := True\<rparr>"
  have step: "stepBatch ''s'' 0 (objBatch startedSeq) startedSeq = Inr (3, ?w)"
    "stepSeq ''s'' startedSeq = (Inr 1, startedSeq\<lparr>s_Called := True\<rparr>)" by code_simp+
  obtain b' where b': "seq_Marshal tupleSeqCodec (?w\<lparr>s_FormatVersion := descFormatVersion\<rparr>) = Inr b'"
    by (simp add: tupleSeqCodec_def)
  have at: "seqAt (p_seq sampleDeps) (map_of (e_kv ?e)) ?e ''s'' startedSeq"
    using um u name by (simp add: seqAt_def reservedAt_def openEngine_def startedSeq_def sampleSeq_def descFormatVersion_def)
  have r: "fst (drawObj sampleDeps ''s'' 1 ?e) = Inr [1]"
    using um step b' name(1)
    by (simp add: allocSeqObj_def seqAllocRetries_def seqConflictRetries_def eval_nat_numeral seqObjAllocFor_def openEngine_def
      newObjAlloc_def objReserveLocked_def objTake_def seqPut_def eUpdate_def withDb_def finishTx_def onTx_def
      objReserveIn_def seqDescIn_def checkSeqName_def writeSeqDescIn_def act_bind_def memDb_def memKv_def mem_begin_def mem_write_def
      mem_conflict_def Let_def)
  then obtain e' where e': "drawObj sampleDeps ''s'' 1 ?e = (Inr [1], e')" by (cases "drawObj sampleDeps ''s'' 1 ?e") auto
  have "al_sorted (e_kv ?e)" by (simp add: openEngine_def)
  from cached_draws_refine [OF memE.engine_env_axioms _ this at e'] tupleSeqCodec_ok
  obtain d' where "stepMany ''s'' 1 startedSeq = (Inr [1], d')" by auto
  then show ?thesis using r at by (intro exI [of _ ?e] exI [of _ d']) simp
qed

end
