(* ===== verification/Dml.thy ===== *)
theory Dml
  imports SeqEng
begin

text \<open>
  Row operations (\<open>src/dml.go\<close>, \<open>src/identity.go\<close>): identity columns, insert, update, delete and
  lookup, each as the engine's handler runs it inside a transaction, and the one-shot operations of the
  engine around them. They are verified against a table as a set of rows: an insert adds the row
  or is refused because of a conflict with a stored one, an update replaces the row, a delete removes
  it, every failing operation leaves the rows as they were, and every index agrees with the rows throughout.
\<close>

subsection \<open>Identity columns\<close>

abbreviation identityExhausted :: err where
  "identityExhausted \<equiv> Msg ''identity column exhausted''"

text \<open>One draw and one bump, by write mode.\<close>

fun drawIdentity :: "('db, 'tx) deps \<Rightarrow> key \<Rightarrow> (('db, 'z) engine_scheme \<times> 'tx, uint64) act" where
  "drawIdentity E k (e, t) =
     (if e_occ e then onEng (allocCounter E k 1) (e, t) else onTx (nextFromCounter (p_kv E) k 1) (e, t))"

fun bumpIdentity :: "('db, 'tx) deps \<Rightarrow> key \<Rightarrow> uint64 \<Rightarrow> (('db, 'z) engine_scheme \<times> 'tx, unit) act" where
  "bumpIdentity E k n (e, t) =
     (if e_occ e then onEng (bumpCounterAllocTo E k n) (e, t) else onTx (bumpCounterTo (p_kv E) k n) (e, t))"

text \<open>The loop over the columns: the values resolved so far and the ordinals drawn.\<close>

fun fillCols ::
  "('db, 'tx) deps \<Rightarrow> tableDesc \<Rightarrow> (nat \<times> column) list \<Rightarrow> any list \<Rightarrow> nat list \<Rightarrow>
   (('db, 'z) engine_scheme \<times> 'tx, any list \<times> nat list) act" where
  "fillCols E desc [] out drawn = act_return (out, drawn)"
| "fillCols E desc ((i, c) # cols) out drawn =
     (if \<not> c_Identity c then fillCols E desc cols out drawn
      else if out ! i = ANil
      then act_bind (drawIdentity E (identitySeqKey (d_ID desc) (c_ID c))) (\<lambda>v.
             if 2 ^ 63 \<le> v then act_fail identityExhausted
             else fillCols E desc cols (out[i := AInt64 v]) (drawn @ [i]))
      else act_bind (act_lift (coerce (p_lib E) (out ! i) TInt)) (\<lambda>cv.
             case cv of
               VInt n \<Rightarrow>
                 act_bind (if 0 <=s n then bumpIdentity E (identitySeqKey (d_ID desc) (c_ID c)) (n + 1) else act_return ())
                   (\<lambda>_. fillCols E desc cols out drawn)
             | _ \<Rightarrow> act_fail (GoPanic ''interface conversion'')))"

definition fillIdentity ::
  "('db, 'tx) deps \<Rightarrow> tableDesc \<Rightarrow> any list \<Rightarrow> (('db, 'z) engine_scheme \<times> 'tx, any list \<times> nat list) act" where
  "fillIdentity E desc vals =
     (if \<not> hasIdentity desc \<or> length vals \<noteq> length (d_Columns desc) then act_return (vals, [])
      else fillCols E desc (enumerate 0 (d_Columns desc)) vals [])"

definition drawnRaced :: "bool \<Rightarrow> nat list \<Rightarrow> nat list \<Rightarrow> bool" where
  "drawnRaced occ cols drawn \<longleftrightarrow> occ \<and> list_ex (\<lambda>d. d \<in> set cols) drawn"

definition identityCol :: "tableDesc \<Rightarrow> string \<Rightarrow> string \<Rightarrow> column res" where
  "identityCol desc table col =
     (case ColIndex desc col of
        None \<Rightarrow> Inl (Msg (''column '' @ quoted col @ '' of relation '' @ quoted table @ '' does not exist''))
      | Some ord \<Rightarrow>
          (if \<not> c_Identity (d_Columns desc ! ord)
           then Inl (Msg (''column '' @ quoted col @ '' of relation '' @ quoted table @ '' is not an identity column''))
           else Inr (d_Columns desc ! ord)))"

subsection \<open>Insert\<close>

abbreviation dupKey :: err where "dupKey \<equiv> Msg ''duplicate primary key''"
abbreviation uniqueErr :: err where "uniqueErr \<equiv> Msg ''unique index violation''"

text \<open>The probes and entries of the indexes, before any write.\<close>

fun insertEntries ::
  "'tx kvops \<Rightarrow> bool \<Rightarrow> nat list \<Rightarrow> tableDesc \<Rightarrow> val list \<Rightarrow> indexDesc list \<Rightarrow> ('tx, (key \<times> bytes) list) act" where
  "insertEntries K occ drawn desc row [] = act_return []"
| "insertEntries K occ drawn desc row (x # xs) =
     act_bind (act_lift (indexEntry desc x row)) (\<lambda>(ek, ev, enf).
       act_bind (act_get (kv_Contains K ek)) (\<lambda>taken.
         if enf \<and> taken then act_fail (if drawnRaced occ (x_Cols x) drawn then ErrTxConflict else uniqueErr)
         else act_bind (insertEntries K occ drawn desc row xs) (\<lambda>es. act_return ((ek, ev) # es))))"

text \<open>The part of \<open>insertRow\<close> after the identity columns are resolved.\<close>

definition insertVals ::
  "'tx kvops \<Rightarrow> golib \<Rightarrow> bool \<Rightarrow> nat list \<Rightarrow> tableDesc \<Rightarrow> any list \<Rightarrow> ('tx, val list) act" where
  "insertVals K L occ drawn desc vals =
     act_bind (act_lift (coerceRow L desc vals)) (\<lambda>row.
       act_bind (act_lift (rowKey desc (pkValues desc row))) (\<lambda>k.
         act_bind (act_lift (encodeRowValue desc row)) (\<lambda>v.
           act_bind (act_get (kv_Contains K k)) (\<lambda>taken.
             if taken then act_fail (if drawnRaced occ (d_PKCols desc) drawn then ErrTxConflict else dupKey)
             else
               act_bind (insertEntries K occ drawn desc row (d_Indexes desc)) (\<lambda>es.
                 act_bind (act_iter (\<lambda>(ek, ev). kv_Set K ek ev) es) (\<lambda>_.
                   act_bind (kv_Set K k v) (\<lambda>_. act_return row)))))))"

definition insertRow ::
  "('db, 'tx) deps \<Rightarrow> tableDesc \<Rightarrow> any list \<Rightarrow> (('db, 'z) engine_scheme \<times> 'tx, val list) act" where
  "insertRow E desc vals =
     act_bind (onEng (CheckMemory E)) (\<lambda>_.
       act_bind (fillIdentity E desc vals) (\<lambda>(vals', drawn).
         act_bind (act_get (\<lambda>s. e_occ (fst s))) (\<lambda>occ.
           onTx (insertVals (p_kv E) (p_lib E) occ drawn desc vals'))))"

subsection \<open>Update\<close>

text \<open>The SET clause is a Go map: the list gives its pairs in the order the loop meets them.\<close>

fun applySet :: "golib \<Rightarrow> tableDesc \<Rightarrow> (string \<times> any) list \<Rightarrow> val list \<Rightarrow> val list res" where
  "applySet L desc [] vals = Inr vals"
| "applySet L desc ((col, v) # sets) vals =
     (case ColIndex desc col of
        None \<Rightarrow> Inl (Msg ''no such column'')
      | Some ord \<Rightarrow>
          (let c = d_Columns desc ! ord
           in res_bind (coerce L v (c_Type c)) (\<lambda>cv0.
                res_bind (enforceMaxLen cv0 c) (\<lambda>cv.
                  if cv = VNull \<and> isPK desc ord then Inl (Msg ''primary key column may not be NULL'')
                  else if cv = VNull \<and> (c_NotNull c \<or> c_Identity c) then Inl (notNullErr desc col)
                  else applySet L desc sets (vals[ord := cv])))))"

text \<open>The index entries that change: old key, new key, new value.\<close>

fun indexMoves ::
  "'tx kvops \<Rightarrow> tableDesc \<Rightarrow> val list \<Rightarrow> val list \<Rightarrow> indexDesc list \<Rightarrow> ('tx, (key \<times> key \<times> bytes) list) act" where
  "indexMoves K desc old new [] = act_return []"
| "indexMoves K desc old new (x # xs) =
     act_bind (act_lift (indexEntry desc x old)) (\<lambda>(ok, ov, _).
       act_bind (act_lift (indexEntry desc x new)) (\<lambda>(nk, nv, enf).
         if ok = nk \<and> ov = nv then indexMoves K desc old new xs
         else
           act_bind (act_get (kv_Contains K nk)) (\<lambda>taken.
             if enf \<and> nk \<noteq> ok \<and> taken then act_fail uniqueErr
             else act_bind (indexMoves K desc old new xs) (\<lambda>ms. act_return ((ok, nk, nv) # ms)))))"

definition moveEntry :: "'tx kvops \<Rightarrow> key \<times> key \<times> bytes \<Rightarrow> ('tx, unit) act" where
  "moveEntry K m = (case m of (ok, nk, nv) \<Rightarrow> act_bind (kv_Delete K ok) (\<lambda>_. kv_Set K nk nv))"

text \<open>From the decoded old row on: the new values, the checks, then the writes.\<close>

definition updateFrom ::
  "'tx kvops \<Rightarrow> golib \<Rightarrow> tableDesc \<Rightarrow> (string \<times> any) list \<Rightarrow> key \<Rightarrow> val list \<Rightarrow> ('tx, val list option) act" where
  "updateFrom K L desc sets oldKey oldRow =
     act_bind (act_lift (applySet L desc sets oldRow)) (\<lambda>newVals.
       act_bind (act_lift (rowKey desc (pkValues desc newVals))) (\<lambda>newKey.
         act_bind (act_lift (encodeRowValue desc newVals)) (\<lambda>newVal.
           act_bind (act_get (kv_Contains K newKey)) (\<lambda>taken.
             if newKey \<noteq> oldKey \<and> taken then act_fail dupKey
             else
               act_bind (indexMoves K desc oldRow newVals (d_Indexes desc)) (\<lambda>moves.
                 act_bind (act_iter (moveEntry K) moves) (\<lambda>_.
                   act_bind (if newKey \<noteq> oldKey then act_bind (kv_Delete K oldKey) (\<lambda>_. act_return ())
                             else act_return ()) (\<lambda>_.
                     act_bind (kv_Set K newKey newVal) (\<lambda>_. act_return (Some newVals)))))))))"

definition updateRow ::
  "'tx kvops \<Rightarrow> golib \<Rightarrow> tableDesc \<Rightarrow> any list \<Rightarrow> (string \<times> any) list \<Rightarrow> ('tx, val list option) act" where
  "updateRow K L desc pkVals sets =
     act_bind (act_lift (fullPKKey L desc pkVals)) (\<lambda>oldKey.
       act_bind (act_modify (kv_MarkRead K oldKey)) (\<lambda>_.
         act_bind (act_get (kv_Get K oldKey)) (\<lambda>oldVal.
           case oldVal of
             None \<Rightarrow> act_return None
           | Some ov \<Rightarrow> act_bind (act_lift (decodeRow desc oldKey ov)) (updateFrom K L desc sets oldKey))))"

subsection \<open>Delete and lookup\<close>

definition deleteEntry :: "'tx kvops \<Rightarrow> tableDesc \<Rightarrow> val list \<Rightarrow> indexDesc \<Rightarrow> ('tx, unit) act" where
  "deleteEntry K desc row x =
     act_bind (act_lift (indexEntry desc x row)) (\<lambda>(ek, _, _). act_bind (kv_Delete K ek) (\<lambda>_. act_return ()))"

definition deleteRow :: "'tx kvops \<Rightarrow> golib \<Rightarrow> tableDesc \<Rightarrow> any list \<Rightarrow> ('tx, bool) act" where
  "deleteRow K L desc pkVals =
     act_bind (act_lift (fullPKKey L desc pkVals)) (\<lambda>k.
       act_bind (act_modify (kv_MarkRead K k)) (\<lambda>_.
         act_bind (act_get (kv_Get K k)) (\<lambda>val.
           case val of
             None \<Rightarrow> act_return False
           | Some v \<Rightarrow>
               act_bind (if d_Indexes desc \<noteq> []
                         then act_bind (act_lift (decodeRow desc k v)) (\<lambda>row. act_iter (deleteEntry K desc row) (d_Indexes desc))
                         else act_return ()) (\<lambda>_. kv_Delete K k))))"

definition getRow :: "'tx kvops \<Rightarrow> golib \<Rightarrow> tableDesc \<Rightarrow> any list \<Rightarrow> ('tx, val list option) act" where
  "getRow K L desc pkVals =
     act_bind (act_lift (fullPKKey L desc pkVals)) (\<lambda>k.
       act_bind (act_get (kv_Get K k)) (\<lambda>val.
         case val of None \<Rightarrow> act_return None | Some v \<Rightarrow> act_bind (act_lift (decodeRow desc k v)) (\<lambda>row. act_return (Some row))))"

subsection \<open>The one-shot operations of the engine\<close>

definition InsertReturning ::
  "('db, 'tx) deps \<Rightarrow> string \<Rightarrow> any list \<Rightarrow> (('db, 'z) engine_scheme, tableDesc \<times> val list) act" where
  "InsertReturning E table vals =
     act_bind (checkReentrantWrite E) (\<lambda>_.
       eUpdate E (act_bind (descFromView E table) (\<lambda>desc.
         act_bind (insertRow E desc vals) (\<lambda>stored. act_return (desc, stored)))))"

definition Insert :: "('db, 'tx) deps \<Rightarrow> string \<Rightarrow> any list \<Rightarrow> (('db, 'z) engine_scheme, unit) act" where
  "Insert E table vals =
     act_bind (checkReentrantWrite E) (\<lambda>_.
       eUpdate E (act_bind (descFromView E table) (\<lambda>desc.
         act_bind (insertRow E desc vals) (\<lambda>_. act_return ()))))"

definition Update ::
  "('db, 'tx) deps \<Rightarrow> string \<Rightarrow> any list \<Rightarrow> (string \<times> any) list \<Rightarrow> (('db, 'z) engine_scheme, bool) act" where
  "Update E table pkVals sets =
     act_bind (checkReentrantWrite E) (\<lambda>_.
       act_bind (CheckMemory E) (\<lambda>_.
         eUpdate E (act_bind (descFromView E table) (\<lambda>desc.
           act_bind (onTx (updateRow (p_kv E) (p_lib E) desc pkVals sets)) (\<lambda>r. act_return (r \<noteq> None))))))"

definition Delete :: "('db, 'tx) deps \<Rightarrow> string \<Rightarrow> any list \<Rightarrow> (('db, 'z) engine_scheme, bool) act" where
  "Delete E table pkVals =
     act_bind (checkReentrantWrite E) (\<lambda>_.
       eUpdate E (act_bind (descFromView E table) (\<lambda>desc.
         onTx (deleteRow (p_kv E) (p_lib E) desc pkVals))))"

definition Get ::
  "('db, 'tx) deps \<Rightarrow> string \<Rightarrow> any list \<Rightarrow> (('db, 'z) engine_scheme, (tableDesc \<times> val list) option) act" where
  "Get E table pkVals =
     eView E (act_bind (descFromView E table) (\<lambda>desc.
       act_bind (onTx (getRow (p_kv E) (p_lib E) desc pkVals)) (\<lambda>r. act_return (map_option (Pair desc) r))))"

text \<open>
  The scans of the engine: a snapshot, its descriptor, the scan of \<open>Index\<close>, and the release. The scan
  itself is the argument; an error before it is yielded once.
\<close>

definition scanSnapshot ::
  "('db, 'tx) deps \<Rightarrow> (('db, 'z) engine_scheme \<times> 'tx, 'd) act \<Rightarrow> ('d \<Rightarrow> 'c \<times> 'tx \<Rightarrow> 'c \<times> 'tx) \<Rightarrow> 'c yield \<Rightarrow>
   'c \<Rightarrow> ('db, 'z) engine_scheme \<Rightarrow> 'c \<times> ('db, 'z) engine_scheme" where
  "scanSnapshot E resolve scan yield c e =
     (case withDb (db_Begin (p_db E) False) e of
        (Inl err, e1) \<Rightarrow> (snd (yield (Inl err) c), e1)
      | (Inr t, e1) \<Rightarrow>
          (case resolve (e1, t) of
             (Inl err, e2, t2) \<Rightarrow> (snd (yield (Inl err) c), e2\<lparr>e_kv := snd (db_Rollback (p_db E) t2 (e_kv e2))\<rparr>)
           | (Inr d, e2, t2) \<Rightarrow>
               (case scan d (c, t2) of
                  (c', t3) \<Rightarrow> (c', e2\<lparr>e_kv := snd (db_Rollback (p_db E) t3 (e_kv e2))\<rparr>))))"

definition ScanRange where
  "ScanRange E table fromPK toPK yield =
     scanSnapshot E (descFromView E table) (\<lambda>desc. scanRows (p_kv E) (p_lib E) desc fromPK toPK yield) yield"

definition Scan where
  "Scan E table yield = ScanRange E table None None yield"

definition ScanRangeRev where
  "ScanRangeRev E table fromPK toPK toIncl yield =
     scanSnapshot E (descFromView E table) (\<lambda>desc. scanRowsRev (p_kv E) (p_lib E) desc fromPK toPK toIncl yield) yield"

definition indexFromView ::
  "('db, 'tx) deps \<Rightarrow> string \<Rightarrow> string \<Rightarrow> (('db, 'z) engine_scheme \<times> 'tx, tableDesc \<times> indexDesc) act" where
  "indexFromView E table index =
     act_bind (descFromView E table) (\<lambda>desc.
       case findIndex desc index of None \<Rightarrow> act_fail (Msg ''no such index'') | Some x \<Rightarrow> act_return (desc, x))"

definition ScanIndex where
  "ScanIndex E table index from to yield =
     scanSnapshot E (indexFromView E table index) (\<lambda>(desc, x). scanIndexRows (p_kv E) (p_lib E) desc x from to yield) yield"

definition ScanIndexRev where
  "ScanIndexRev E table index from to toIncl yield =
     scanSnapshot E (indexFromView E table index) (\<lambda>(desc, x). scanIndexRowsRev (p_kv E) (p_lib E) desc x from to toIncl yield) yield"

subsection \<open>The table as a set of rows\<close>

definition pkTaken :: "tableDesc \<Rightarrow> val list set \<Rightarrow> val list \<Rightarrow> bool" where
  "pkTaken d R n \<longleftrightarrow> (\<exists>u\<in>R. pkValues d u = pkValues d n)"

definition ixTaken :: "val list set \<Rightarrow> val list \<Rightarrow> indexDesc \<Rightarrow> bool" where
  "ixTaken R n x \<longleftrightarrow> enforced x n \<and> (\<exists>u\<in>R. indexVals x u = indexVals x n)"

lemma stores_pkTaken:
  assumes "descOk d" "stores d R m"
  shows "m (rowKeyOf d n) \<noteq> None \<longleftrightarrow> pkTaken d R n"
proof
  assume "m (rowKeyOf d n) \<noteq> None"
  then obtain v where "m (rowKeyOf d n) = Some v" by auto
  moreover have "prefix (tableSpace (d_ID d)) (rowKeyOf d n)" by (intro tablePrefix_space rowKeyOf_prefix)
  ultimately obtain u where "u \<in> R" "entryOf d u (rowKeyOf d n) v" using storesD(2) [OF assms(2)] by blast
  then show "pkTaken d R n" using entryOf_row [OF assms(1)] by (auto simp: pkTaken_def)
next
  assume "pkTaken d R n"
  then obtain u where "u \<in> R" "rowKeyOf d n = rowKeyOf d u" by (auto simp: pkTaken_def)
  then show "m (rowKeyOf d n) \<noteq> None" using storesD(3) [OF assms(2)] by (metis option.distinct(1))
qed

lemma stores_ixTaken:
  assumes "descOk d" "stores d R m" "x \<in> set (d_Indexes d)" "enforced x n"
  shows "m (entryKey d x n) \<noteq> None \<longleftrightarrow> ixTaken R n x"
proof
  assume "m (entryKey d x n) \<noteq> None"
  then obtain v where v: "m (entryKey d x n) = Some v" by auto
  have "prefix (tableSpace (d_ID d)) (entryKey d x n)" by (intro indexPrefix_space) (rule entryKey_prefix)
  then obtain u where u: "u \<in> R" "entryOf d u (entryKey d x n) v" using storesD(2) [OF assms(2)] v by blast
  then have "entryKey d x n = entryKey d x u" using entryOf_index [OF assms(1,3)] by blast
  then show "ixTaken R n x" using u(1) assms(4) entryKey_eq [of d x n u] by (auto simp: ixTaken_def)
next
  assume "ixTaken R n x"
  then obtain u where u: "u \<in> R" "indexVals x u = indexVals x n" by (auto simp: ixTaken_def)
  then have "entryKey d x n = entryKey d x u" using assms(4) entryKey_eq [of d x n u] by simp
  moreover have "m (entryKey d x u) = Some (entryVal d x u)" by (rule storesD(4) [OF assms(2) u(1) assms(3)])
  ultimately show "m (entryKey d x n) \<noteq> None" by simp
qed

text \<open>What an insert should answer, given the rows stored.\<close>

definition conflictErr :: "bool \<Rightarrow> nat list \<Rightarrow> nat list \<Rightarrow> err \<Rightarrow> err" where
  "conflictErr occ drawn cols err = (if drawnRaced occ cols drawn then ErrTxConflict else err)"

definition insertSpec ::
  "golib \<Rightarrow> bool \<Rightarrow> nat list \<Rightarrow> tableDesc \<Rightarrow> val list set \<Rightarrow> any list \<Rightarrow> val list res" where
  "insertSpec L occ drawn d R vals =
     res_bind (coerceRow L d vals) (\<lambda>row.
       let n = map canonVal row
       in if list_ex isNaN row then Inl nanErr
          else if pkTaken d R n then Inl (conflictErr occ drawn (d_PKCols d) dupKey)
          else (case find (ixTaken R n) (d_Indexes d) of
                  Some x \<Rightarrow> Inl (conflictErr occ drawn (x_Cols x) uniqueErr)
                | None \<Rightarrow> Inr row))"

lemma map_of_rev_distinct: "distinct (map fst xs) \<Longrightarrow> map_of (rev xs) = map_of xs"
  by (rule map_of_inject_set [THEN iffD2]) (simp_all add: rev_map [symmetric])

lemma encode_NaN:
  assumes "length row = length (d_Columns d)" "descOk d" "list_ex isNaN row"
  shows "rowKey d (pkValues d row) = Inl nanErr \<or> encodeRowValue d row = Inl nanErr"
proof (rule ccontr)
  assume n: "\<not> ?thesis"
  then obtain k where k: "rowKey d (pkValues d row) = Inr k" by (auto simp: rowKey_any split: if_splits)
  obtain b where "encodeRowValue d row = Inr b" using n by (auto simp: encodeRowValue_eq [OF assms(1)] split: if_splits)
  then show False using encode_row_NaN [OF assms(2,1) k] assms(3) by blast
qed

context kv_rw
begin

lemma insertEntries_eq:
  assumes d: "descOk d" and st: "stores d R (content t)" and t: "wf t"
    and row: "length row = length (d_Columns d)" "\<not> list_ex isNaN row"
  shows "set xs \<subseteq> set (d_Indexes d) \<Longrightarrow> insertEntries K occ drawn d row xs t =
    (case find (ixTaken R (map canonVal row)) xs of
       Some x \<Rightarrow> (Inl (conflictErr occ drawn (x_Cols x) uniqueErr), t)
     | None \<Rightarrow> (Inr (map (\<lambda>x. (entryKey d x (map canonVal row), entryVal d x (map canonVal row))) xs), t))"
proof (induction xs)
  case (Cons x xs)
  let ?n = "map canonVal row"
  have x: "x \<in> set (d_Indexes d)" using Cons.prems by simp
  have en: "enforced x row = enforced x ?n" using enforced_canon [OF d x row(1)] by simp
  have c: "kv_Contains K (entryKey d x ?n) t \<and> enforced x ?n \<longleftrightarrow> ixTaken R ?n x"
    using stores_ixTaken [OF d st x, of ?n] by (auto simp: Contains [OF t] ixTaken_def)
  show ?case
  proof (cases "ixTaken R ?n x")
    case True
    then show ?thesis using c by (simp add: indexEntry_eq [OF d x row] en conflictErr_def)
  next
    case False
    then have "\<not> (enforced x ?n \<and> kv_Contains K (entryKey d x ?n) t)" using c by blast
    then show ?thesis using False Cons
      by (auto simp: indexEntry_eq [OF d x row] en act_bind_def split: option.splits)
  qed
qed simp

lemma insertVals_spec:
  assumes d: "descOk d" and st: "stores d R (content t)" and t: "wf t" "kv_Writable K t" and g: "\<forall>v\<in>set vals. goValue v"
  shows "\<exists>t'. insertVals K L occ drawn d vals t = (insertSpec L occ drawn d R vals, t') \<and> wf t' \<and> kv_Writable K t' \<and>
    (case insertSpec L occ drawn d R vals of
       Inl _ \<Rightarrow> t' = t
     | Inr row \<Rightarrow> rowOk d (map canonVal row) \<and> stores d (insert (map canonVal row) R) (content t') \<and>
         content t' = content t ++ map_of (rowEntries d (map canonVal row)))"
proof (cases "coerceRow L d vals")
  case (Inl err)
  then show ?thesis using t by (auto simp: insertVals_def insertSpec_def)
next
  case (Inr row)
  let ?n = "map canonVal row"
  note row = coerceRow_ok [OF Inr d g]
  show ?thesis
  proof (cases "list_ex isNaN row")
    case True
    have "insertVals K L occ drawn d vals t = (Inl nanErr, t)"
    proof (cases "rowKey d (pkValues d row)")
      case (Inr k)
      then have "encodeRowValue d row = Inl nanErr" using encode_NaN [OF row(1) d True] by simp
      then show ?thesis using \<open>coerceRow L d vals = Inr row\<close> Inr by (simp add: insertVals_def)
    qed (use Inr in \<open>auto simp: insertVals_def rowKey_any split: if_splits\<close>)
    then show ?thesis using t Inr True by (simp add: insertSpec_def)
  next
    case False
    have k: "rowKey d (pkValues d row) = Inr (rowKeyOf d ?n)" "encodeRowValue d row = Inr (rowValOf d ?n)"
      using rowKey_of [OF d row(1) False] encodeRowValue_of [OF row(1) False] by auto
    have n: "rowOk d ?n" using coerceRow_rowOk [OF Inr d g False] .
    have c: "kv_Contains K (rowKeyOf d ?n) t \<longleftrightarrow> pkTaken d R ?n" using stores_pkTaken [OF d st] by (simp add: Contains [OF t(1)])
    note es = insertEntries_eq [OF d st t(1) row(1) False subset_refl]
    show ?thesis
    proof (cases "insertSpec L occ drawn d R vals")
      case err: (Inl x)
      then have "insertVals K L occ drawn d vals t = (Inl x, t)"
        using Inr False k c es by (auto simp: insertVals_def insertSpec_def Let_def conflictErr_def split: if_splits option.splits)
      then show ?thesis using err t by auto
    next
      case ok: (Inr r)
      have fr: "\<not> pkTaken d R ?n" "find (ixTaken R ?n) (d_Indexes d) = None" "r = row"
        using ok Inr False by (auto simp: insertSpec_def Let_def split: if_splits option.splits)
      let ?es = "map (\<lambda>x. (entryKey d x ?n, entryVal d x ?n)) (d_Indexes d)"
      obtain t1 where t1: "act_iter (\<lambda>(k, v). kv_Set K k v) ?es t = (Inr (), t1)" "wf t1" "kv_Writable K t1"
        "content t1 = content t ++ map_of (rev ?es)" using putList [OF t] by blast
      obtain t2 where t2: "kv_Set K (rowKeyOf d ?n) (rowValOf d ?n) t1 = (Inr (), t2)" "wf t2" "kv_Writable K t2"
        "content t2 = (content t1)(rowKeyOf d ?n \<mapsto> rowValOf d ?n)" using put [OF t1(2,3)] .
      have di: "distinct (map fst ?es)" using distinct_rowEntries [OF d, of ?n] by (simp add: rowEntries_def)
      have "map_of (rev ?es) = map_of ?es" by (rule map_of_rev_distinct [OF di])
      then have content: "content t2 = content t ++ map_of (rowEntries d ?n)"
        unfolding t2(4) t1(4) by (auto simp: rowEntries_def map_add_def fun_eq_iff split: option.splits)
      have "insertVals K L occ drawn d vals t = (Inr row, t2)"
        using Inr k c fr es t1(1) t2(1) by (simp add: insertVals_def act_bind_def)
      moreover have "stores d (set_option (Some ?n) \<union> (R - {})) (content t2)"
      proof (rule stores_replace [OF d st])
        have free: "content t (rowKeyOf d ?n) = None" using fr(1) stores_pkTaken [OF d st, of ?n] by blast
        have ix: "content t (entryKey d x ?n) = None" if "x \<in> set (d_Indexes d)" "enforced x ?n" for x
          using fr(2) that stores_ixTaken [OF d st that] by (auto simp: find_None_iff)
        show "content t k = None \<or> (\<exists>u\<in>{}. k \<in> rowKeys d u)" if "Some ?n = Some r" "k \<in> rowKeys d r" for r k
          using probes_enough [OF d st, of "{}" r k] free ix that by auto
        show "content t2 k = replaced d {} (Some ?n) (content t) k" for k
          by (simp add: content replaced_def map_add_def)
      qed (use n in auto)
      ultimately show ?thesis using ok fr(3) t2 n content by auto
    qed
  qed
qed

end

lemma rowKeys_space: "k \<in> rowKeys d u \<Longrightarrow> prefix (tableSpace (d_ID d)) k"
  using rowEntries_space by force

text \<open>The primary key an operation is addressed to.\<close>

definition pkArg :: "golib \<Rightarrow> tableDesc \<Rightarrow> any list \<Rightarrow> val list res" where
  "pkArg L d pkVals =
     (if length pkVals \<noteq> length (d_PKCols d) then Inl (Msg ''wrong number of primary key values'')
      else res_bind (coercePK L d pkVals) (\<lambda>c. if list_ex isNaN c then Inl nanErr else Inr (map canonVal c)))"

definition pkKeyOf :: "tableDesc \<Rightarrow> val list \<Rightarrow> key" where
  "pkKeyOf d pk = encTup (VInt (d_ID d) # VInt primaryIndexID # pk)"

lemma rowKeyOf_pk: "rowKeyOf d r = pkKeyOf d (pkValues d r)"
  by (simp add: rowKeyOf_def pkKeyOf_def)

lemma pkKeyOf_inj [simp]: "pkKeyOf d p = pkKeyOf d q \<longleftrightarrow> p = q"
  unfolding pkKeyOf_def encVal_concat_inj by simp

lemma fullPKKey_eq: "fullPKKey L d pkVals = res_bind (pkArg L d pkVals) (\<lambda>pk. Inr (pkKeyOf d pk))"
  unfolding fullPKKey_def pkArg_def by (cases "coercePK L d pkVals") (auto simp: rowKey_any pkKeyOf_def)

lemma stores_at_pk:
  assumes "descOk d" "stores d R m" "m (pkKeyOf d pk) = Some v"
  shows "\<exists>u\<in>R. pkValues d u = pk"
proof -
  have pre: "prefix (tablePrefix (d_ID d)) (pkKeyOf d pk)" by (simp add: pkKeyOf_def key_shapes prefix_def)
  then have ne: "pkKeyOf d pk \<noteq> entryKey d x u" if "x \<in> set (d_Indexes d)" for x u
    using entryKey_prefix [of d x u] indexPrefix_disjoint descOkD(6) [OF assms(1) that] by (metis tablePrefix_def)
  obtain u where "u \<in> R" "entryOf d u (pkKeyOf d pk) v"
    using storesD(2) [OF assms(2) tablePrefix_space [OF pre] assms(3)] by blast
  then show ?thesis using ne unfolding entryOf_def by (auto simp: rowKeyOf_pk)
qed

text \<open>The row with a given primary key.\<close>

definition rowAt :: "tableDesc \<Rightarrow> val list set \<Rightarrow> val list \<Rightarrow> val list option" where
  "rowAt d R pk = (if \<exists>u\<in>R. pkValues d u = pk then Some (THE u. u \<in> R \<and> pkValues d u = pk) else None)"

lemma rowAt_Some:
  assumes "descOk d" "stores d R m"
  shows "rowAt d R pk = Some u \<longleftrightarrow> u \<in> R \<and> pkValues d u = pk"
proof -
  have "(THE u. u \<in> R \<and> pkValues d u = pk) = u" if "u \<in> R" "pkValues d u = pk" for u
    using that stores_pk_unique [OF assms] by (intro the_equality) auto
  then show ?thesis by (auto simp: rowAt_def)
qed

lemma rowAt_None: "rowAt d R pk = None \<longleftrightarrow> (\<forall>u\<in>R. pkValues d u \<noteq> pk)"
  by (auto simp: rowAt_def)

lemma stores_lookup:
  assumes "descOk d" "stores d R m"
  shows "m (pkKeyOf d pk) = map_option (rowBytes d m) (rowAt d R pk)"
proof (cases "rowAt d R pk")
  case None
  then have "m (pkKeyOf d pk) \<noteq> Some v" for v using stores_at_pk [OF assms, of pk v] by (auto simp: rowAt_None)
  then show ?thesis using None by (cases "m (pkKeyOf d pk)") auto
next
  case (Some u)
  then have "u \<in> R" "pkKeyOf d pk = rowKeyOf d u" using rowAt_Some [OF assms] by (auto simp: rowKeyOf_pk)
  then show ?thesis using Some storesD(3) [OF assms(2), of u] by simp
qed

lemma decodeRow_at:
  assumes "descOk d" "stores d R m" "rowAt d R pk = Some u"
  shows "decodeRow d (pkKeyOf d pk) (rowBytes d m u) = Inr u" "rowOk d u"
proof -
  have u: "u \<in> R" "pkValues d u = pk" using assms(3) rowAt_Some [OF assms(1,2)] by auto
  show "rowOk d u" by (rule storesD(1) [OF assms(2) u(1)])
  show "decodeRow d (pkKeyOf d pk) (rowBytes d m u) = Inr u"
    using decodeRow_stored [OF assms(1,2) u(1)] unfolding rowKeyOf_pk u(2) .
qed

context kv_rw
begin

lemma getRow_spec:
  assumes d: "descOk d" and st: "stores d R (content t)" and t: "wf t"
  shows "getRow K L d pkVals t = (res_bind (pkArg L d pkVals) (\<lambda>pk. Inr (rowAt d R pk)), t)"
proof (cases "pkArg L d pkVals")
  case (Inr pk)
  show ?thesis
  proof (cases "rowAt d R pk")
    case None
    then show ?thesis using Inr stores_lookup [OF d st, of pk] by (simp add: getRow_def fullPKKey_eq Get [OF t])
  next
    case (Some u)
    then show ?thesis using Inr stores_lookup [OF d st, of pk] decodeRow_at(1) [OF d st Some]
      by (simp add: getRow_def fullPKKey_eq Get [OF t])
  qed
qed (simp add: getRow_def fullPKKey_eq)

lemma deleteEntries:
  assumes d: "descOk d" and u: "rowOk d u"
  shows "set xs \<subseteq> set (d_Indexes d) \<Longrightarrow> wf t \<Longrightarrow> kv_Writable K t \<Longrightarrow>
    \<exists>t'. act_iter (deleteEntry K d u) xs t = (Inr (), t') \<and> wf t' \<and> kv_Writable K t' \<and>
      content t' = (\<lambda>k. if \<exists>x\<in>set xs. k = entryKey d x u then None else content t k)"
proof (induction xs arbitrary: t)
  case (Cons x xs)
  have x: "x \<in> set (d_Indexes d)" using Cons.prems by simp
  obtain t1 where t1: "kv_Delete K (entryKey d x u) t = (Inr (content t (entryKey d x u) \<noteq> None), t1)" "wf t1"
    "kv_Writable K t1" "content t1 = (content t)(entryKey d x u := None)" using del [OF Cons.prems(2,3)] .
  have xs: "set xs \<subseteq> set (d_Indexes d)" using Cons.prems by simp
  obtain t2 where "act_iter (deleteEntry K d u) xs t1 = (Inr (), t2)" "wf t2" "kv_Writable K t2"
    "content t2 = (\<lambda>k. if \<exists>x\<in>set xs. k = entryKey d x u then None else content t1 k)"
    using Cons.IH [OF xs t1(2,3)] by blast
  moreover have "deleteEntry K d u x t = (Inr (), t1)"
    using t1(1) by (simp add: deleteEntry_def indexEntry_of [OF d x u])
  ultimately show ?case using t1(4) by (auto simp: fun_eq_iff)
qed auto

lemma deleteRow_spec:
  assumes d: "descOk d" and st: "stores d R (content t)" and t: "wf t" "kv_Writable K t"
  shows "\<exists>t'. deleteRow K L d pkVals t = (res_bind (pkArg L d pkVals) (\<lambda>pk. Inr (rowAt d R pk \<noteq> None)), t') \<and>
    wf t' \<and> kv_Writable K t' \<and>
    (\<forall>pk. pkArg L d pkVals = Inr pk \<longrightarrow> stores d (R - set_option (rowAt d R pk)) (content t')) \<and>
    (\<forall>k. \<not> prefix (tableSpace (d_ID d)) k \<longrightarrow> content t' k = content t k) \<and>
    (isl (pkArg L d pkVals) \<longrightarrow> content t' = content t)"
proof (cases "pkArg L d pkVals")
  case (Inr pk)
  let ?t = "kv_MarkRead K (pkKeyOf d pk) t"
  have t0: "wf ?t" "kv_Writable K ?t" "content ?t = content t" using t by simp_all
  show ?thesis
  proof (cases "rowAt d R pk")
    case None
    then show ?thesis using Inr t0 st stores_lookup [OF d st, of pk]
      by (intro exI [of _ ?t]) (simp add: deleteRow_def fullPKKey_eq kv_tx.Get [OF kv_tx_axioms])
  next
    case (Some u)
    note u = decodeRow_at [OF d st Some]
    have R: "u \<in> R" "pkValues d u = pk" using Some rowAt_Some [OF d st] by auto
    have rk: "pkKeyOf d pk = rowKeyOf d u" using R(2) by (simp add: rowKeyOf_pk)
    obtain t1 where t1: "act_iter (deleteEntry K d u) (d_Indexes d) ?t = (Inr (), t1)" "wf t1" "kv_Writable K t1"
      "content t1 = (\<lambda>k. if \<exists>x\<in>set (d_Indexes d). k = entryKey d x u then None else content t k)"
      using deleteEntries [OF d u(2) subset_refl t0(1,2), unfolded t0(3)] by blast
    obtain t2 where t2: "kv_Delete K (pkKeyOf d pk) t1 = (Inr (content t1 (pkKeyOf d pk) \<noteq> None), t2)" "wf t2" "kv_Writable K t2"
      "content t2 = (content t1)(pkKeyOf d pk := None)" using del [OF t1(2,3)] .
    have "content t1 (pkKeyOf d pk) = content t (pkKeyOf d pk)"
      using rowKeyOf_neq_entry [OF d] by (auto simp: t1(4) rk)
    then have c1: "content t1 (pkKeyOf d pk) \<noteq> None" using stores_lookup [OF d st, of pk] Some by simp
    have r: "deleteRow K L d pkVals t = (Inr True, t2)"
    proof -
      have "(if d_Indexes d \<noteq> [] then act_bind (act_lift (decodeRow d (pkKeyOf d pk) (rowBytes d (content t) u))) (\<lambda>row. act_iter (deleteEntry K d row) (d_Indexes d))
                         else act_return ()) ?t = (Inr (), t1)" using t1(1) u(1) by auto
      then show ?thesis using Inr Some stores_lookup [OF d st, of pk] t2(1) c1
        by (simp add: deleteRow_def fullPKKey_eq kv_tx.Get [OF kv_tx_axioms t0(1)] t0(3))
    qed
    have c2: "content t2 k = (if k \<in> rowKeys d u then None else content t k)" for k
      unfolding t2(4) t1(4) rowKeys_iff by (auto simp: rk)
    have "stores d (set_option None \<union> (R - {u})) (content t2)"
      by (rule stores_replace [OF d st]) (use R c2 in \<open>auto simp: replaced_def\<close>)
    moreover have "content t2 k = content t k" if "\<not> prefix (tableSpace (d_ID d)) k" for k
      unfolding c2 by (rule if_not_P) (use rowKeys_space [of k d u] that in blast)
    ultimately show ?thesis using r Inr Some t2(2,3) by (intro exI [of _ t2]) simp
  qed
qed (use t in \<open>auto simp: deleteRow_def fullPKKey_eq\<close>)

end

subsection \<open>Updates\<close>

lemma ColIndex_less: "ColIndex d col = Some i \<Longrightarrow> i < length (d_Columns d)"
  by (auto simp: ColIndex_def firstPos_Some)

lemma applySet_ok:
  assumes "applySet L d sets vals = Inr new" "descOk d" "\<forall>x\<in>set sets. goValue (snd x)"
    "length vals = length (d_Columns d)" "\<forall>i<length vals. colValOk d i (vals ! i)"
  shows "length new = length (d_Columns d) \<and> (\<forall>i<length new. colValOk d i (new ! i))"
  using assms
proof (induction L d sets vals rule: applySet.induct)
  case (2 L d col v sets vals)
  obtain ord where ord: "ColIndex d col = Some ord" using 2(2) by (auto split: option.splits)
  let ?c = "d_Columns d ! ord"
  obtain w cv where w: "coerce L v (c_Type ?c) = Inr w" "enforceMaxLen w ?c = Inr cv"
    and nn: "cv = VNull \<longrightarrow> \<not> isPK d ord \<and> \<not> c_NotNull ?c \<and> \<not> c_Identity ?c"
    and rest: "applySet L d sets (vals[ord := cv]) = Inr new"
    using 2(2) ord by (auto simp: Let_def split: if_splits)
  have i: "ord < length (d_Columns d)" by (rule ColIndex_less [OF ord])
  have "colOk ?c" using descOkD(9) [OF 2(3)] i by simp
  moreover have "goValue v" using 2(4) by simp
  ultimately have cv: "colValOk d ord cv"
    using coerce_typed(1) [OF w(1)] enforceMaxLen_props [OF w(2)] nn by (auto simp: colValOk_def Let_def colOk_def)
  have "\<forall>j<length (vals[ord := cv]). colValOk d j (vals[ord := cv] ! j)"
    using 2(5,6) i cv by (auto simp: nth_list_update)
  then show ?case using 2(1) [OF ord refl w(1,2) _ _ rest] 2(3-5) nn by auto
qed simp

definition updateSpec :: "golib \<Rightarrow> tableDesc \<Rightarrow> val list set \<Rightarrow> val list \<Rightarrow> (string \<times> any) list \<Rightarrow> val list res" where
  "updateSpec L d R u sets =
     res_bind (applySet L d sets u) (\<lambda>new.
       let n = map canonVal new
       in if list_ex isNaN new then Inl nanErr
          else if pkTaken d (R - {u}) n then Inl dupKey
          else if list_ex (ixTaken (R - {u}) n) (d_Indexes d) then Inl uniqueErr
          else Inr new)"

text \<open>The probes of an update see exactly the conflicts with other rows.\<close>

lemma move_conflict:
  assumes "descOk d" "stores d R m" "u \<in> R" "x \<in> set (d_Indexes d)"
  shows "enforced x n \<and> entryKey d x n \<noteq> entryKey d x u \<and> m (entryKey d x n) \<noteq> None \<longleftrightarrow> ixTaken (R - {u}) n x"
proof
  assume a: "enforced x n \<and> entryKey d x n \<noteq> entryKey d x u \<and> m (entryKey d x n) \<noteq> None"
  then obtain w where "w \<in> R" "indexVals x w = indexVals x n"
    using stores_ixTaken [OF assms(1,2,4), of n] by (auto simp: ixTaken_def)
  moreover from this have "w \<noteq> u" using a entryKey_eq [of d x n u] by auto
  ultimately show "ixTaken (R - {u}) n x" using a by (auto simp: ixTaken_def)
next
  assume "ixTaken (R - {u}) n x"
  then obtain w where w: "w \<in> R" "w \<noteq> u" "indexVals x w = indexVals x n" "enforced x n" by (auto simp: ixTaken_def)
  have k: "entryKey d x n = entryKey d x w" using w entryKey_eq [of d x n w] by simp
  have "entryKey d x w \<noteq> entryKey d x u"
  proof
    assume e: "entryKey d x w = entryKey d x u"
    have "entryKey d x w \<in> rowKeys d w" "entryKey d x w \<in> rowKeys d u"
      using assms(4) e unfolding rowKeys_iff by blast+
    then show False using stores_entry_unique [OF assms(1,2) w(1) assms(3)] w(2) by blast
  qed
  moreover have "ixTaken R n x" using w by (auto simp: ixTaken_def)
  ultimately show "enforced x n \<and> entryKey d x n \<noteq> entryKey d x u \<and> m (entryKey d x n) \<noteq> None"
    using stores_ixTaken [OF assms(1,2,4) w(4)] w(4) k by auto
qed

lemma pk_conflict:
  assumes "descOk d" "stores d R m" "u \<in> R"
  shows "rowKeyOf d n \<noteq> rowKeyOf d u \<and> m (rowKeyOf d n) \<noteq> None \<longleftrightarrow> pkTaken d (R - {u}) n"
proof
  assume "rowKeyOf d n \<noteq> rowKeyOf d u \<and> m (rowKeyOf d n) \<noteq> None"
  then show "pkTaken d (R - {u}) n" using stores_pkTaken [OF assms(1,2), of n] by (auto simp: pkTaken_def)
next
  assume "pkTaken d (R - {u}) n"
  then obtain w where w: "w \<in> R" "w \<noteq> u" "pkValues d w = pkValues d n" by (auto simp: pkTaken_def)
  then have "pkTaken d R n" by (auto simp: pkTaken_def)
  moreover have "pkValues d n \<noteq> pkValues d u" using stores_pk_unique [OF assms(1,2) w(1) assms(3)] w by auto
  ultimately show "rowKeyOf d n \<noteq> rowKeyOf d u \<and> m (rowKeyOf d n) \<noteq> None"
    using stores_pkTaken [OF assms(1,2), of n] by auto
qed

definition moved :: "tableDesc \<Rightarrow> val list \<Rightarrow> val list \<Rightarrow> indexDesc \<Rightarrow> bool" where
  "moved d u n x \<longleftrightarrow> \<not> (entryKey d x u = entryKey d x n \<and> entryVal d x u = entryVal d x n)"

abbreviation movesOf :: "tableDesc \<Rightarrow> val list \<Rightarrow> val list \<Rightarrow> indexDesc list \<Rightarrow> (key \<times> key \<times> bytes) list" where
  "movesOf d u n xs \<equiv> map (\<lambda>x. (entryKey d x u, entryKey d x n, entryVal d x n)) (filter (moved d u n) xs)"

context kv_rw
begin

lemma indexMoves_eq:
  assumes d: "descOk d" and st: "stores d R (content t)" and t: "wf t" and u: "u \<in> R"
    and new: "length new = length (d_Columns d)" "\<not> list_ex isNaN new"
  shows "set xs \<subseteq> set (d_Indexes d) \<Longrightarrow> indexMoves K d u new xs t =
    (if list_ex (ixTaken (R - {u}) (map canonVal new)) xs then (Inl uniqueErr, t)
     else (Inr (movesOf d u (map canonVal new) xs), t))"
proof (induction xs)
  case (Cons x xs)
  let ?n = "map canonVal new"
  have x: "x \<in> set (d_Indexes d)" using Cons.prems by simp
  have en: "enforced x new = enforced x ?n" using enforced_canon [OF d x new(1)] by simp
  have ie: "indexEntry d x u = Inr (entryKey d x u, entryVal d x u, enforced x u)"
    by (rule indexEntry_of [OF d x storesD(1) [OF st u]])
  have c: "enforced x ?n \<and> entryKey d x ?n \<noteq> entryKey d x u \<and> kv_Contains K (entryKey d x ?n) t \<longleftrightarrow> ixTaken (R - {u}) ?n x"
    using move_conflict [OF d st u x, of ?n] by (simp add: Contains [OF t])
  have IH: "indexMoves K d u new xs t = (if list_ex (ixTaken (R - {u}) ?n) xs then (Inl uniqueErr, t)
     else (Inr (movesOf d u ?n xs), t))" using Cons by simp
  note mv = moved_def [of d u ?n x]
  show ?case
  proof (cases "moved d u ?n x")
    case False
    then have "\<not> ixTaken (R - {u}) ?n x" using c by (auto simp: moved_def)
    then show ?thesis using False IH by (auto simp: ie indexEntry_eq [OF d x new] en mv)
  next
    case True
    show ?thesis
    proof (cases "ixTaken (R - {u}) ?n x")
      case True
      then show ?thesis using \<open>moved d u ?n x\<close> c by (auto simp: ie indexEntry_eq [OF d x new] en mv)
    next
      case False
      then have "\<not> (enforced x ?n \<and> entryKey d x ?n \<noteq> entryKey d x u \<and> kv_Contains K (entryKey d x ?n) t)" using c by blast
      then show ?thesis using \<open>moved d u ?n x\<close> False IH
        by (auto simp: ie indexEntry_eq [OF d x new] en mv act_bind_def)
    qed
  qed
qed simp

lemma moveList:
  assumes "distinct xs" "\<And>x y. x \<in> set xs \<Longrightarrow> y \<in> set xs \<Longrightarrow> x \<noteq> y \<Longrightarrow> f x \<noteq> g y \<and> g x \<noteq> g y" "wf t" "kv_Writable K t"
  shows "\<exists>t'. act_iter (moveEntry K) (map (\<lambda>x. (f x, g x, h x)) xs) t = (Inr (), t') \<and> wf t' \<and> kv_Writable K t' \<and>
    content t' = (\<lambda>k. case map_of (map (\<lambda>x. (g x, h x)) xs) k of Some v \<Rightarrow> Some v
       | None \<Rightarrow> if k \<in> f ` set xs then None else content t k)"
  using assms
proof (induction xs arbitrary: t)
  case (Cons x xs)
  obtain t1 where t1: "kv_Delete K (f x) t = (Inr (content t (f x) \<noteq> None), t1)" "wf t1" "kv_Writable K t1"
    "content t1 = (content t)(f x := None)" using del [OF Cons.prems(3,4)] .
  obtain t2 where t2: "kv_Set K (g x) (h x) t1 = (Inr (), t2)" "wf t2" "kv_Writable K t2"
    "content t2 = (content t1)(g x \<mapsto> h x)" using put [OF t1(2,3)] .
  obtain t3 where t3: "act_iter (moveEntry K) (map (\<lambda>x. (f x, g x, h x)) xs) t2 = (Inr (), t3)" "wf t3" "kv_Writable K t3"
    "content t3 = (\<lambda>k. case map_of (map (\<lambda>x. (g x, h x)) xs) k of Some v \<Rightarrow> Some v
       | None \<Rightarrow> if k \<in> f ` set xs then None else content t2 k)"
    using Cons.IH [OF _ _ t2(2,3)] Cons.prems(1,2) by auto
  have "f x \<noteq> g y" "g x \<noteq> g y" "f y \<noteq> g x" if "y \<in> set xs" for y
    using Cons.prems(1) Cons.prems(2) [of x y] Cons.prems(2) [of y x] that by auto
  then have away: "map_of (map (\<lambda>x. (g x, h x)) xs) (g x) = None" "map_of (map (\<lambda>x. (g x, h x)) xs) (f x) = None" "g x \<notin> f ` set xs"
    by (auto simp: map_of_eq_None_iff) (metis+)
  have "content t3 = (\<lambda>k. case map_of (map (\<lambda>x. (g x, h x)) (x # xs)) k of Some v \<Rightarrow> Some v
       | None \<Rightarrow> if k \<in> f ` set (x # xs) then None else content t k)"
    unfolding t3(4) t2(4) t1(4) using away by (auto simp: fun_eq_iff split: option.splits)
  moreover have "moveEntry K (f x, g x, h x) t = (Inr (), t2)" using t1(1) t2(1) by (simp add: moveEntry_def)
  ultimately show ?case using t3(1-3) by (intro exI [of _ t3]) simp
qed simp

lemma updateRow_writes:
  assumes d: "descOk d" and st: "stores d R (content t)" and t: "wf t" "kv_Writable K t" and u: "u \<in> R"
  shows "\<exists>t1 t2 t3. act_iter (moveEntry K) (movesOf d u n (d_Indexes d)) t = (Inr (), t1) \<and>
    (if rowKeyOf d n \<noteq> rowKeyOf d u then act_bind (kv_Delete K (rowKeyOf d u)) (\<lambda>_. act_return ()) else act_return ()) t1 = (Inr (), t2) \<and>
    kv_Set K (rowKeyOf d n) (rowValOf d n) t2 = (Inr (), t3) \<and> wf t3 \<and> kv_Writable K t3 \<and>
    content t3 = replaced d {u} (Some n) (content t)"
proof -
  let ?xs = "filter (moved d u n) (d_Indexes d)"
  let ?es = "map (\<lambda>x. (entryKey d x n, entryVal d x n)) ?xs"
  have xs: "x \<in> set (d_Indexes d)" if "x \<in> set ?xs" for x using that by simp
  have di: "distinct ?xs" using descOkD(7) [OF d] by (simp add: distinct_map)
  have ne: "entryKey d x a \<noteq> entryKey d y b" if "x \<in> set ?xs" "y \<in> set ?xs" "x \<noteq> y" for x y a b
    using entryKey_neq [OF d xs [OF that(1)] xs [OF that(2)]] that(3) by blast
  obtain t1 where t1: "act_iter (moveEntry K) (movesOf d u n (d_Indexes d)) t = (Inr (), t1)" "wf t1" "kv_Writable K t1"
    "content t1 = (\<lambda>k. case map_of ?es k of Some v \<Rightarrow> Some v
       | None \<Rightarrow> if k \<in> (\<lambda>x. entryKey d x u) ` set ?xs then None else content t k)"
    using moveList [OF di _ t, of "\<lambda>x. entryKey d x u" "\<lambda>x. entryKey d x n" "\<lambda>x. entryVal d x n"] ne by blast
  obtain t2 where t2: "(if rowKeyOf d n \<noteq> rowKeyOf d u then act_bind (kv_Delete K (rowKeyOf d u)) (\<lambda>_. act_return ()) else act_return ()) t1 = (Inr (), t2)"
    "wf t2" "kv_Writable K t2"
    "content t2 = (if rowKeyOf d n \<noteq> rowKeyOf d u then (content t1)(rowKeyOf d u := None) else content t1)"
  proof (cases "rowKeyOf d n \<noteq> rowKeyOf d u")
    case True
    obtain t2 where "kv_Delete K (rowKeyOf d u) t1 = (Inr (content t1 (rowKeyOf d u) \<noteq> None), t2)" "wf t2" "kv_Writable K t2"
      "content t2 = (content t1)(rowKeyOf d u := None)" using del [OF t1(2,3)] .
    then show ?thesis using that [of t2] True by simp
  next
    case False
    then show ?thesis using that [of t1] t1(2,3) by simp
  qed
  obtain t3 where t3: "kv_Set K (rowKeyOf d n) (rowValOf d n) t2 = (Inr (), t3)" "wf t3" "kv_Writable K t3"
    "content t3 = (content t2)(rowKeyOf d n \<mapsto> rowValOf d n)" using put [OF t2(2,3)] .
  have "inj_on (\<lambda>x. entryKey d x n) (set ?xs)" by (rule inj_onI) (use ne in blast)
  then have dk: "distinct (map fst ?es)" using di by (simp add: distinct_map comp_def)
  have "content t3 k = replaced d {u} (Some n) (content t) k" for k
  proof -
    have en: "map_of (rowEntries d n) k = Some v \<longleftrightarrow> (k, v) \<in> set (rowEntries d n)" for v
      using distinct_rowEntries [OF d] by simp
    have es: "map_of ?es k = None \<longleftrightarrow> (\<forall>x\<in>set ?xs. k \<noteq> entryKey d x n)" by (auto simp: map_of_eq_None_iff image_image)
    consider (row) "k = rowKeyOf d n" | (moved) x where "x \<in> set ?xs" "k = entryKey d x n"
      | (kept) x where "x \<in> set (d_Indexes d)" "\<not> moved d u n x" "k = entryKey d x n"
      | (no) "k \<notin> rowKeys d n"
      unfolding rowKeys_iff set_filter by blast
    then show ?thesis
    proof cases
      case row
      have "map_of (rowEntries d n) k = Some (rowValOf d n)" using en row by simp
      then show ?thesis using row by (simp add: t3(4) replaced_def)
    next
      case (moved x)
      have k: "k \<noteq> rowKeyOf d a" for a using rowKeyOf_neq_entry [OF d xs [OF moved(1)]] moved(2) by metis
      have "map_of ?es k = Some (entryVal d x n)"
        by (rule map_of_is_SomeI [OF dk]) (use moved in auto)
      moreover have "map_of (rowEntries d n) k = Some (entryVal d x n)" unfolding en rowEntries_iff using moved(2) xs [OF moved(1)] by blast
      ultimately show ?thesis using k by (simp add: t3(4) t2(4) t1(4) replaced_def)
    next
      case (kept x)
      have k: "k \<noteq> rowKeyOf d a" for a using rowKeyOf_neq_entry [OF d kept(1)] kept(3) by metis
      have e: "entryKey d x u = k" "entryVal d x u = entryVal d x n" using kept by (auto simp: moved_def)
      have off: "k \<noteq> entryKey d y a" if "y \<in> set ?xs" for y a
        using entryKey_neq [OF d kept(1) xs [OF that]] that kept(2,3) by auto
      then have "map_of ?es k = None" "k \<notin> (\<lambda>x. entryKey d x u) ` set ?xs" using es by auto
      moreover have "content t k = Some (entryVal d x n)"
        using storesD(4) [OF st u kept(1)] e by simp
      moreover have "map_of (rowEntries d n) k = Some (entryVal d x n)" unfolding en rowEntries_iff using kept(1,3) by blast
      ultimately show ?thesis using k by (simp add: t3(4) t2(4) t1(4) replaced_def)
    next
      case no
      then have n: "map_of (rowEntries d n) k = None" by (simp add: map_of_eq_None_iff)
      have away: "k \<noteq> rowKeyOf d n" "\<And>x. x \<in> set (d_Indexes d) \<Longrightarrow> k \<noteq> entryKey d x n"
        using no unfolding rowKeys_iff by blast+
      have nk: "k \<noteq> rowKeyOf d n" "map_of ?es k = None" unfolding es using away xs by blast+
      have "moved d u n x" if "x \<in> set (d_Indexes d)" "k = entryKey d x u" for x
        using away(2) [OF that(1)] that(2) unfolding moved_def by blast
      then have "k \<in> (\<lambda>x. entryKey d x u) ` set ?xs \<longleftrightarrow> (\<exists>x\<in>set (d_Indexes d). k = entryKey d x u)"
        unfolding set_filter by blast
      then have "content t1 k = (if \<exists>x\<in>set (d_Indexes d). k = entryKey d x u then None else content t k)"
        using nk(2) by (simp only: t1(4) option.case)
      then have "content t3 k = (if k \<in> rowKeys d u then None else content t k)"
        using nk(1) unfolding rowKeys_iff by (auto simp: t3(4) t2(4))
      then show ?thesis using n by (simp add: replaced_def)
    qed
  qed
  then show ?thesis using t1(1) t2(1) t3(1-3) by blast
qed

lemma updateFrom_spec:
  assumes d: "descOk d" and st: "stores d R (content t)" and t: "wf t" "kv_Writable K t" and u: "u \<in> R"
    and g: "\<forall>x\<in>set sets. goValue (snd x)"
  shows "\<exists>t'. updateFrom K L d sets (rowKeyOf d u) u t =
      (res_bind (updateSpec L d R u sets) (\<lambda>new. Inr (Some new)), t') \<and> wf t' \<and> kv_Writable K t' \<and>
    (case updateSpec L d R u sets of
       Inl _ \<Rightarrow> t' = t
     | Inr new \<Rightarrow> rowOk d (map canonVal new) \<and> stores d (insert (map canonVal new) (R - {u})) (content t') \<and>
        content t' = replaced d {u} (Some (map canonVal new)) (content t))"
proof (cases "applySet L d sets u")
  case (Inl err)
  then show ?thesis using t by (intro exI [of _ t]) (simp add: updateSpec_def updateFrom_def)
next
  case new: (Inr new)
  let ?n = "map canonVal new"
  have ok: "length new = length (d_Columns d)" "\<forall>i<length new. colValOk d i (new ! i)"
    using applySet_ok [OF new d g] storesD(1) [OF st u] by (auto simp: rowOk_simps)
  show ?thesis
  proof (cases "list_ex isNaN new")
    case True
    have "updateFrom K L d sets (rowKeyOf d u) u t = (Inl nanErr, t)"
    proof (cases "rowKey d (pkValues d new)")
      case (Inr k)
      then have "encodeRowValue d new = Inl nanErr" using encode_NaN [OF ok(1) d True] by simp
      then show ?thesis using new Inr by (simp add: updateFrom_def)
    qed (use new in \<open>auto simp: updateFrom_def rowKey_any split: if_splits\<close>)
    then show ?thesis using new True t by (intro exI [of _ t]) (simp add: updateSpec_def)
  next
    case False
    have k: "rowKey d (pkValues d new) = Inr (rowKeyOf d ?n)" "encodeRowValue d new = Inr (rowValOf d ?n)"
      using rowKey_of [OF d ok(1) False] encodeRowValue_of [OF ok(1) False] by auto
    have n: "rowOk d ?n" using ok False by (auto simp: rowOk_simps normal_canonVal list_ex_iff)
    have pc: "rowKeyOf d ?n \<noteq> rowKeyOf d u \<and> kv_Contains K (rowKeyOf d ?n) t \<longleftrightarrow> pkTaken d (R - {u}) ?n"
      using pk_conflict [OF d st u, of ?n] by (simp add: Contains [OF t(1)])
    note mv = indexMoves_eq [OF d st t(1) u ok(1) False subset_refl]
    show ?thesis
    proof (cases "updateSpec L d R u sets")
      case (Inl err)
      then have "updateFrom K L d sets (rowKeyOf d u) u t = (Inl err, t)"
        using new k pc mv False by (auto simp: updateFrom_def updateSpec_def Let_def split: if_splits)
      then show ?thesis using Inl t by (intro exI [of _ t]) simp
    next
      case (Inr r)
      have no: "r = new" "\<not> pkTaken d (R - {u}) ?n" "\<not> list_ex (ixTaken (R - {u}) ?n) (d_Indexes d)"
        using Inr new False by (auto simp: updateSpec_def Let_def split: if_splits)
      from updateRow_writes [OF d st t u, of ?n] obtain t1 t2 t3 where
        w: "act_iter (moveEntry K) (movesOf d u ?n (d_Indexes d)) t = (Inr (), t1)"
          "(if rowKeyOf d ?n \<noteq> rowKeyOf d u then act_bind (kv_Delete K (rowKeyOf d u)) (\<lambda>_. act_return ()) else act_return ()) t1 = (Inr (), t2)"
          "kv_Set K (rowKeyOf d ?n) (rowValOf d ?n) t2 = (Inr (), t3)" "wf t3" "kv_Writable K t3"
          "content t3 = replaced d {u} (Some ?n) (content t)" by blast
      have c: "\<not> (rowKeyOf d ?n \<noteq> rowKeyOf d u \<and> kv_Contains K (rowKeyOf d ?n) t)" using pc no by blast
      have "updateFrom K L d sets (rowKeyOf d u) u t = (Inr (Some new), t3)"
        using new k c mv no w(1-3) by (simp add: updateFrom_def act_bind_def)
      moreover have "stores d (set_option (Some ?n) \<union> (R - {u})) (content t3)"
      proof (rule stores_replace [OF d st])
        have pk: "content t (rowKeyOf d ?n) = None \<or> (\<exists>v\<in>{u}. rowKeyOf d ?n = rowKeyOf d v)"
          using pk_conflict [OF d st u, of ?n] no by blast
        have ix: "content t (entryKey d x ?n) = None \<or> (\<exists>v\<in>{u}. entryKey d x ?n = entryKey d x v)"
          if "x \<in> set (d_Indexes d)" "enforced x ?n" for x
          using move_conflict [OF d st u that(1), of ?n] no that unfolding list_ex_iff by blast
        have sub: "{u} \<subseteq> R" using u by blast
        show "content t k = None \<or> (\<exists>u\<in>{u}. k \<in> rowKeys d u)" if r: "Some ?n = Some r" "k \<in> rowKeys d r" for r k
        proof -
          have "k \<in> rowKeys d ?n" using r by blast
          then show ?thesis by (intro probes_enough [OF d st sub pk ix])
        qed
        show "content t3 k = replaced d {u} (Some ?n) (content t) k" for k unfolding w(6) ..
        show "{u} \<subseteq> R" by (rule sub)
        show "rowOk d r" if "Some ?n = Some r" for r using n that by blast
      qed
      ultimately show ?thesis using Inr no n w(4-6) by (intro exI [of _ t3]) simp
    qed
  qed
qed

lemma updateRow_spec:
  assumes d: "descOk d" and st: "stores d R (content t)" and t: "wf t" "kv_Writable K t"
    and g: "\<forall>x\<in>set sets. goValue (snd x)"
  shows "\<exists>t'. updateRow K L d pkVals sets t =
      (res_bind (pkArg L d pkVals) (\<lambda>pk. case rowAt d R pk of None \<Rightarrow> Inr None
         | Some u \<Rightarrow> res_bind (updateSpec L d R u sets) (\<lambda>new. Inr (Some new))), t') \<and> wf t' \<and> kv_Writable K t' \<and>
    (case pkArg L d pkVals of Inl _ \<Rightarrow> content t' = content t
     | Inr pk \<Rightarrow> (case rowAt d R pk of None \<Rightarrow> content t' = content t
       | Some u \<Rightarrow> (case updateSpec L d R u sets of Inl _ \<Rightarrow> content t' = content t
         | Inr new \<Rightarrow> rowOk d (map canonVal new) \<and> stores d (insert (map canonVal new) (R - {u})) (content t') \<and>
            content t' = replaced d {u} (Some (map canonVal new)) (content t))))"
proof (cases "pkArg L d pkVals")
  case (Inr pk)
  let ?t = "kv_MarkRead K (pkKeyOf d pk) t"
  have t0: "wf ?t" "kv_Writable K ?t" "content ?t = content t" using t by simp_all
  note get = kv_tx.Get [OF kv_tx_axioms t0(1), of "pkKeyOf d pk", unfolded t0(3) stores_lookup [OF d st]]
  show ?thesis
  proof (cases "rowAt d R pk")
    case None
    then show ?thesis using Inr t0 by (intro exI [of _ ?t]) (simp add: updateRow_def fullPKKey_eq get)
  next
    case (Some u)
    note u = decodeRow_at [OF d st Some]
    have R: "u \<in> R" "pkValues d u = pk" using Some rowAt_Some [OF d st] by auto
    have rk: "rowKeyOf d u = pkKeyOf d pk" using R(2) by (simp add: rowKeyOf_pk)
    have go: "updateRow K L d pkVals sets t = updateFrom K L d sets (rowKeyOf d u) u ?t"
      unfolding rk using Inr Some u(1) by (simp add: updateRow_def fullPKKey_eq get)
    have st0: "stores d R (content ?t)" using st t0(3) by simp
    obtain t' where "updateFrom K L d sets (rowKeyOf d u) u ?t = (res_bind (updateSpec L d R u sets) (\<lambda>new. Inr (Some new)), t')"
      "wf t'" "kv_Writable K t'" "case updateSpec L d R u sets of
       Inl _ \<Rightarrow> t' = ?t
     | Inr new \<Rightarrow> rowOk d (map canonVal new) \<and> stores d (insert (map canonVal new) (R - {u})) (content t') \<and>
        content t' = replaced d {u} (Some (map canonVal new)) (content t)"
      using updateFrom_spec [OF d st0 t0(1,2) R(1) g] unfolding t0(3) by blast
    then show ?thesis using Inr Some go t0(3) by (intro exI [of _ t']) (auto split: sum.splits)
  qed
qed (use t in \<open>auto simp: updateRow_def fullPKKey_eq\<close>)

end

subsection \<open>The row operations keep the table\<close>

text \<open>C15. An insert into a stored table is accepted exactly when its values coerce, hold no NaN and clash with
  no stored row on the primary key or on a unique index; the error is the first of these in that
  order. An accepted row is added in canonical form with all its index entries, so the key space is
  again exactly the table's rows; a refused one changes no key.\<close>

theorem insert_refines:
  assumes "kv_rw K ok content" "descOk d" "stores d R (content t)" "ok t" "kv_Writable K t" "\<forall>v\<in>set vals. goValue v"
  shows "\<exists>t'. insertVals K L occ drawn d vals t = (insertSpec L occ drawn d R vals, t') \<and> ok t' \<and> kv_Writable K t' \<and>
    (case insertSpec L occ drawn d R vals of
       Inl _ \<Rightarrow> t' = t
     | Inr row \<Rightarrow> rowOk d (map canonVal row) \<and> stores d (insert (map canonVal row) R) (content t') \<and>
         content t' = content t ++ map_of (rowEntries d (map canonVal row)))"
  using kv_rw.insertVals_spec [OF assms] .

definition argsCat :: "any list" where "argsCat = [AInt 3, AString ''cat'', ANil]"
definition rowCat :: "val list" where "rowCat = [VInt 3, VString ''cat'', VNull]"

lemma argsCat_ok: "\<forall>v\<in>set argsCat. goValue v"
  by (simp add: argsCat_def)

lemma insertSpec_cat: "insertSpec noLib False [] sampleDesc {rowAnn, rowBob} argsCat = Inr rowCat" "map canonVal rowCat = rowCat"
  by code_simp+

theorem insert_refines_witness:
  "\<exists>t'. insertVals memKv noLib False [] sampleDesc argsCat sampleTx = (Inr rowCat, t') \<and>
     stores sampleDesc {rowCat, rowAnn, rowBob} (mem_content t')"
  using insert_refines [OF mem.kv_rw_axioms sampleDesc_ok sampleTx_ok(2,1) sampleTx_rw argsCat_ok, of noLib False "[]"]
  by (auto simp: insertSpec_cat)

text \<open>C16. An update replaces the row with the given primary key by the coerced new values, and is refused for a
  NaN, a primary key or a unique value held by another row; a refused update or a missing row changes
  no data. Only the entries that move are rewritten, and the key space is again exactly that of the
  new rows.\<close>

theorem update_refines:
  assumes "kv_rw K ok content" "descOk d" "stores d R (content t)" "ok t" "kv_Writable K t" "\<forall>x\<in>set sets. goValue (snd x)"
  shows "\<exists>t'. updateRow K L d pkVals sets t =
      (res_bind (pkArg L d pkVals) (\<lambda>pk. case rowAt d R pk of None \<Rightarrow> Inr None
         | Some u \<Rightarrow> res_bind (updateSpec L d R u sets) (\<lambda>new. Inr (Some new))), t') \<and> ok t' \<and> kv_Writable K t' \<and>
    (case pkArg L d pkVals of Inl _ \<Rightarrow> content t' = content t
     | Inr pk \<Rightarrow> (case rowAt d R pk of None \<Rightarrow> content t' = content t
       | Some u \<Rightarrow> (case updateSpec L d R u sets of Inl _ \<Rightarrow> content t' = content t
         | Inr new \<Rightarrow> rowOk d (map canonVal new) \<and> stores d (insert (map canonVal new) (R - {u})) (content t') \<and>
            content t' = replaced d {u} (Some (map canonVal new)) (content t))))"
  using kv_rw.updateRow_spec [OF assms] .

lemma rowAt_bob: "rowAt sampleDesc {rowAnn, rowBob} [VInt 2] = Some rowBob"
  unfolding rowAt_Some [OF sampleDesc_ok sampleTx_ok(2)] by code_simp

lemma pkArg_two: "pkArg noLib sampleDesc [AInt 2] = Inr [VInt 2]"
  by code_simp

definition rowBo :: "val list" where "rowBo = [VInt 7, VString ''bo'', VNull]"

theorem update_refines_witness:
  "\<exists>t'. updateRow memKv noLib sampleDesc [AInt 2] [(''name'', AString ''bo''), (''id'', AInt 7)] sampleTx =
       (Inr (Some rowBo), t') \<and>
     stores sampleDesc {rowBo, rowAnn} (mem_content t')"
proof -
  let ?s = "[(''name'', AString ''bo''), (''id'', AInt 7)]"
  have g: "\<forall>x\<in>set ?s. goValue (snd x)" by simp
  have u: "updateSpec noLib sampleDesc {rowAnn, rowBob} rowBob ?s = Inr rowBo"
    "insert rowBo ({rowAnn, rowBob} - {rowBob}) = {rowBo, rowAnn}" "map canonVal rowBo = rowBo"
    by code_simp+
  show ?thesis
    using update_refines [OF mem.kv_rw_axioms sampleDesc_ok sampleTx_ok(2,1) sampleTx_rw g, of noLib "[AInt 2]"]
    by (auto simp: pkArg_two rowAt_bob u simp del: insert_Diff_single)
qed

text \<open>C18. A lookup by primary key returns the stored row with that key or none, and changes nothing; a delete
  reports whether there was one, removes exactly that row with its index entries, and touches no key
  outside the table.\<close>

theorem get_delete_refine:
  assumes "kv_rw K ok content" "descOk d" "stores d R (content t)" "ok t" "kv_Writable K t"
  shows "getRow K L d pkVals t = (res_bind (pkArg L d pkVals) (\<lambda>pk. Inr (rowAt d R pk)), t) \<and>
    (\<exists>t'. deleteRow K L d pkVals t = (res_bind (pkArg L d pkVals) (\<lambda>pk. Inr (rowAt d R pk \<noteq> None)), t') \<and>
      ok t' \<and> kv_Writable K t' \<and>
      (\<forall>pk. pkArg L d pkVals = Inr pk \<longrightarrow> stores d (R - set_option (rowAt d R pk)) (content t')) \<and>
      (\<forall>k. \<not> prefix (tableSpace (d_ID d)) k \<longrightarrow> content t' k = content t k) \<and>
      (isl (pkArg L d pkVals) \<longrightarrow> content t' = content t))"
  using kv_rw.getRow_spec [OF assms(1-4)] kv_rw.deleteRow_spec [OF assms] by blast

theorem get_delete_refine_witness:
  "getRow memKv noLib sampleDesc [AInt 2] sampleTx = (Inr (Some rowBob), sampleTx) \<and>
   (\<exists>t'. deleteRow memKv noLib sampleDesc [AInt 2] sampleTx = (Inr True, t') \<and> stores sampleDesc {rowAnn} (mem_content t'))"
proof -
  have "{rowAnn, rowBob} - {rowBob} = {rowAnn}" by code_simp
  then show ?thesis
    using get_delete_refine [OF mem.kv_rw_axioms sampleDesc_ok sampleTx_ok(2,1) sampleTx_rw, of noLib "[AInt 2]"]
    by (auto simp: pkArg_two rowAt_bob)
qed

text \<open>C17. Rows are well typed. What a row coerces to has a value of the declared type in every column, within the column's
  length limit, with NULL only where the column allows it; and when its key and value encode, they
  decode under the same descriptor to a row of which the same holds, with floats in canonical form.\<close>

theorem row_typed:
  assumes "coerceRow L d vals = Inr row" "descOk d" "\<forall>v\<in>set vals. goValue v"
  shows "length row = length (d_Columns d) \<and>
    (\<forall>i<length row. valOk (c_Type (d_Columns d ! i)) (row ! i) \<and> maxLenOk (d_Columns d ! i) (row ! i) \<and>
      (row ! i = VNull \<longrightarrow> \<not> isPK d i \<and> \<not> c_NotNull (d_Columns d ! i) \<and> \<not> c_Identity (d_Columns d ! i))) \<and>
    (\<forall>k b. rowKey d (pkValues d row) = Inr k \<and> encodeRowValue d row = Inr b \<longrightarrow>
      decodeRow d k b = Inr (map canonVal row) \<and> rowOk d (map canonVal row))"
proof (intro conjI allI impI)
  note c = coerceRow_ok [OF assms]
  show l: "length row = length (d_Columns d)" by (rule c(1))
  show "valOk (c_Type (d_Columns d ! i)) (row ! i)" "maxLenOk (d_Columns d ! i) (row ! i)" if "i < length row" for i
    using c(2) [OF that] by (auto simp: colValOk_def Let_def)
  show "\<not> isPK d i" "\<not> c_NotNull (d_Columns d ! i)" "\<not> c_Identity (d_Columns d ! i)" if "i < length row" "row ! i = VNull" for i
    using c(2) [OF that(1)] that(2) by (auto simp: colValOk_def Let_def)
  fix k b
  assume e: "rowKey d (pkValues d row) = Inr k \<and> encodeRowValue d row = Inr b"
  show "decodeRow d k b = Inr (map canonVal row)" using decodeRow_row [OF assms(2) l] e by blast
  show "rowOk d (map canonVal row)" using coerceRow_rowOk [OF assms encode_row_NaN [OF assms(2) l]] e by blast
qed

theorem row_typed_witness:
  "coerceRow noLib sampleDesc [AInt 1, AString ''ann'', AInt 30] = Inr rowAnn \<and> length rowAnn = 3 \<and> valOk TString (rowAnn ! 1) \<and>
   (\<exists>k b. rowKey sampleDesc (pkValues sampleDesc rowAnn) = Inr k \<and> encodeRowValue sampleDesc rowAnn = Inr b \<and> decodeRow sampleDesc k b = Inr (map canonVal rowAnn))"
proof -
  have c: "coerceRow noLib sampleDesc [AInt 1, AString ''ann'', AInt 30] = Inr rowAnn" by code_simp
  have n: "length (d_Columns sampleDesc) = 3" "c_Type (d_Columns sampleDesc ! 1) = TString" by code_simp+
  have v: "\<forall>v\<in>set [AInt 1, AString ''ann'', AInt 30]. goValue v" by simp
  note t = row_typed [OF c sampleDesc_ok v] and r = rowOkD(1,3) [OF rowAnn_ok]
  have "valOk TString (rowAnn ! 1)" using conjunct1 [OF conjunct2 [OF t]] n r(1) by (metis one_less_numeral_iff semiring_norm(77))
  then show ?thesis using t c n(1) r(1) rowKey_of [OF sampleDesc_ok r] encodeRowValue_of [OF r] by metis
qed

end
