(* ===== verification/DmlEng.thy ===== *)
theory DmlEng
  imports Dml
begin

text \<open>
  Row operations as whole handlers: an insert with its memory check and identity columns inside a
  transaction, and the engine's one-shot insert, update, delete and lookup, which resolve the table,
  run the row operation and commit. The properties relate them to the table as a set of rows, at the
  level of a transaction's content and at the level of the store.
\<close>

subsection \<open>What a step may write\<close>

text \<open>An open writable transaction whose content agrees with \<open>m\<close> outside \<open>S\<close>.\<close>

definition offKeys :: "'tx kvops \<Rightarrow> ('tx \<Rightarrow> bool) \<Rightarrow> ('tx \<Rightarrow> key \<Rightarrow> bytes option) \<Rightarrow> key set \<Rightarrow> (key \<Rightarrow> bytes option) \<Rightarrow> 'tx \<Rightarrow> bool" where
  "offKeys K ok content S m t \<longleftrightarrow> ok t \<and> kv_Writable K t \<and> (\<forall>k. k \<notin> S \<longrightarrow> content t k = m k)"

context kv_rw
begin

lemma offKeys_Set: "k \<in> S \<Longrightarrow> act_keeps (offKeys K wf content S m) (kv_Set K k v)"
  unfolding act_keeps_def offKeys_def
proof (intro allI impI)
  fix t r t'
  assume k: "k \<in> S" and t: "wf t \<and> kv_Writable K t \<and> (\<forall>k. k \<notin> S \<longrightarrow> content t k = m k)" and s: "kv_Set K k v t = (r, t')"
  obtain t1 where "kv_Set K k v t = (Inr (), t1)" "wf t1" "kv_Writable K t1" "content t1 = (content t)(k \<mapsto> v)"
    using put t by blast
  then show "wf t' \<and> kv_Writable K t' \<and> (\<forall>k. k \<notin> S \<longrightarrow> content t' k = m k)" using s t k by auto
qed

lemma offKeys_counter:
  assumes "k \<in> S"
  shows "act_keeps (offKeys K wf content S m) (nextFromCounter K k start)"
    "act_keeps (offKeys K wf content S m) (bumpCounterTo K k next)"
  unfolding nextFromCounter_def bumpCounterTo_def using offKeys_Set [OF assms]
  by (auto intro!: act_keeps_bind split: option.split)

end

lemma act_keeps_if: "(b \<Longrightarrow> act_keeps P m) \<Longrightarrow> (\<not> b \<Longrightarrow> act_keeps P n) \<Longrightarrow> act_keeps P (if b then m else n)"
  by simp

lemma act_keeps_case_val:
  "(\<And>n. act_keeps P (f n)) \<Longrightarrow> act_keeps P q \<Longrightarrow> act_keeps P (case v of VInt n \<Rightarrow> f n | _ \<Rightarrow> q)"
  by (cases v) auto

lemma act_keeps_pairs:
  "(\<And>e. act_keeps P (f e)) \<Longrightarrow> (\<And>e t. g (e, t) = f e (e, t)) \<Longrightarrow> act_keeps P g"
  unfolding act_keeps_def by (metis surj_pair)

text \<open>
  The values of a row with its identity columns resolved: a missing value of an identity column may
  have become an integer, everything else is as given.
\<close>

definition filled :: "tableDesc \<Rightarrow> any list \<Rightarrow> any list \<Rightarrow> bool" where
  "filled d vals vals' \<longleftrightarrow> length vals' = length vals \<and>
     (\<forall>i<length vals. vals' ! i = vals ! i \<or>
        vals ! i = ANil \<and> c_Identity (d_Columns d ! i) \<and> (\<exists>v. vals' ! i = AInt64 v))"

text \<open>The row an insert of the given values stores.\<close>

definition rowFor :: "golib \<Rightarrow> tableDesc \<Rightarrow> any list \<Rightarrow> val list \<Rightarrow> bool" where
  "rowFor L d vals row \<longleftrightarrow> (\<exists>vals'. filled d vals vals' \<and> coerceRow L d vals' = Inr row)"

text \<open>
  A predicate that every write and read mark of a transaction keeps is kept by every row operation,
  inserts with identity columns in either write mode included.
\<close>

locale kv_stable =
  fixes K :: "'tx kvops" and P :: "'tx \<Rightarrow> bool"
  assumes stable_Set: "act_keeps P (kv_Set K k v)"
    and stable_Delete: "act_keeps P (kv_Delete K k)"
    and stable_DeleteRange: "act_keeps P (kv_DeleteRange K lo hi)"
    and stable_Mark: "act_keeps P (act_modify (kv_MarkRead K k))"
    and stable_MarkRange: "act_keeps P (act_modify (kv_MarkReadRange K lo hi))"
begin

lemmas stable_kv = stable_Set stable_Delete stable_DeleteRange stable_Mark stable_MarkRange

lemma stable_counter:
  "act_keeps P (nextFromCounter K k start)" "act_keeps P (bumpCounterTo K k n)"
  unfolding nextFromCounter_def bumpCounterTo_def using stable_Set
  by (auto intro!: act_keeps_bind split: option.split)

lemma stable_insertVals: "act_keeps P (insertVals K L occ drawn desc vals)"
proof -
  have "act_keeps P (insertEntries K occ drawn desc row xs)" for row xs
  proof (induction xs)
    case (Cons x xs)
    show ?case unfolding insertEntries.simps
      by (intro act_keeps_bind act_keeps_pure) (auto intro!: act_keeps_bind act_keeps_if Cons split: prod.splits)
  qed (unfold insertEntries.simps, rule act_keeps_pure)
  then show ?thesis unfolding insertVals_def
    by (auto intro!: act_keeps_bind act_keeps_if act_keeps_iter stable_kv split: prod.splits)
qed

lemma stable_updateRow: "act_keeps P (updateRow K L desc pkVals sets)"
proof -
  have "act_keeps P (indexMoves K desc old new xs)" for old new xs
  proof (induction xs)
    case (Cons x xs)
    show ?case unfolding indexMoves.simps case_prod_beta'
      by (intro act_keeps_bind act_keeps_if act_keeps_pure Cons)
  qed (unfold indexMoves.simps, rule act_keeps_pure)
  then show ?thesis unfolding updateRow_def updateFrom_def moveEntry_def
    by (auto intro!: act_keeps_bind act_keeps_if act_keeps_iter stable_kv split: prod.splits option.split)
qed

lemma stable_deleteRow: "act_keeps P (deleteRow K L desc pkVals)"
  unfolding deleteRow_def deleteEntry_def
  by (auto intro!: act_keeps_bind act_keeps_if act_keeps_iter stable_kv split: prod.splits option.split)

lemma stable_onTx: "act_keeps P m \<Longrightarrow> act_keeps (\<lambda>s. P (snd s)) (onTx m)"
  unfolding act_keeps_def by (auto simp: onTx_def split: prod.splits)

lemma stable_onEng: "act_keeps (\<lambda>s. P (snd s)) (onEng m)"
  unfolding act_keeps_def by (auto simp: onEng_def split: prod.splits)

lemma stable_identity:
  assumes "p_kv E = K"
  shows "act_keeps (\<lambda>s. P (snd s)) (drawIdentity E k)" "act_keeps (\<lambda>s. P (snd s)) (bumpIdentity E k n)"
  by (rule act_keeps_pairs [where f = "\<lambda>e. if e_occ e then onEng (allocCounter E k 1) else onTx (nextFromCounter (p_kv E) k 1)"];
      use assms in \<open>simp add: stable_onEng stable_onTx stable_counter\<close>)
    (rule act_keeps_pairs [where f = "\<lambda>e. if e_occ e then onEng (bumpCounterAllocTo E k n) else onTx (bumpCounterTo (p_kv E) k n)"];
      use assms in \<open>simp add: stable_onEng stable_onTx stable_counter\<close>)

lemma stable_insertRow:
  assumes "p_kv E = K"
  shows "act_keeps (\<lambda>s. P (snd s)) (insertRow E desc vals)"
proof -
  have "act_keeps (\<lambda>s. P (snd s)) (fillCols E desc cols out drawn)" for cols out drawn
  proof (induction cols arbitrary: out drawn)
    case (Cons ic cols)
    obtain i c where "ic = (i, c)" by (cases ic)
    then show ?case using Cons
      by (auto intro!: act_keeps_if act_keeps_bind act_keeps_case_val stable_identity [OF assms])
  qed auto
  then have "act_keeps (\<lambda>s. P (snd s)) (fillIdentity E desc vals)"
    unfolding fillIdentity_def by (auto intro: act_keeps_if)
  then show ?thesis unfolding insertRow_def
    by (intro act_keeps_bind stable_onEng) (auto intro!: act_keeps_bind stable_onTx stable_insertVals simp: assms split: prod.splits)
qed

end

context engine_env
begin

abbreviation offTx :: "key set \<Rightarrow> (key \<Rightarrow> bytes option) \<Rightarrow> ('db, 'z) engine_scheme \<times> 'tx \<Rightarrow> bool" where
  "offTx S m s \<equiv> offKeys (p_kv E) wf content S m (snd s)"

lemma keeps_onTx: "act_keeps (offKeys (p_kv E) wf content S m) a \<Longrightarrow> act_keeps (offTx S m) (onTx a)"
  unfolding act_keeps_def by (auto simp: onTx_def split: prod.splits)

lemma keeps_onEng: "act_keeps (offTx S m) (onEng a)"
  unfolding act_keeps_def by (auto simp: onEng_def split: prod.splits)

lemma keeps_draw: "k \<in> S \<Longrightarrow> act_keeps (offTx S m) (drawIdentity E k)"
  by (rule act_keeps_pairs [where f = "\<lambda>e. if e_occ e then onEng (allocCounter E k 1) else onTx (nextFromCounter (p_kv E) k 1)"])
    (auto intro: keeps_onEng keeps_onTx offKeys_counter)

lemma keeps_bump: "k \<in> S \<Longrightarrow> act_keeps (offTx S m) (bumpIdentity E k n)"
  by (rule act_keeps_pairs [where f = "\<lambda>e. if e_occ e then onEng (bumpCounterAllocTo E k n) else onTx (bumpCounterTo (p_kv E) k n)"])
    (auto intro: keeps_onEng keeps_onTx offKeys_counter)

abbreviation identityKeys :: "tableDesc \<Rightarrow> key set" where
  "identityKeys d \<equiv> range (identitySeqKey (d_ID d))"

lemma keeps_fillCols: "act_keeps (offTx (identityKeys d) m) (fillCols E d cols out drawn)"
proof (induction cols arbitrary: out drawn)
  case (Cons ic cols)
  obtain i c where "ic = (i, c)" by (cases ic)
  then show ?case using Cons
    by (auto intro!: act_keeps_if act_keeps_bind act_keeps_case_val keeps_draw keeps_bump)
qed auto

lemma keeps_fillIdentity: "act_keeps (offTx (identityKeys d) m) (fillIdentity E d vals)"
  unfolding fillIdentity_def by (auto intro: act_keeps_if keeps_fillCols)

lemma fillCols_values:
  assumes "fillCols E d cols out drawn s = (Inr (out', drawn'), s')" "\<forall>v\<in>set out. goValue v"
  shows "(\<forall>v\<in>set out'. goValue v) \<and> length out' = length out \<and>
    (\<forall>j<length out. out' ! j = out ! j \<or> out ! j = ANil \<and> (\<exists>c v. (j, c) \<in> set cols \<and> c_Identity c \<and> out' ! j = AInt64 v))"
  using assms
proof (induction cols arbitrary: out drawn s)
  case (Cons ic cols)
  obtain i c where ic: "ic = (i, c)" by (cases ic)
  consider s1 where "fillCols E d cols out drawn s1 = (Inr (out', drawn'), s')"
    | v s1 where "fillCols E d cols (out[i := AInt64 v]) (drawn @ [i]) s1 = (Inr (out', drawn'), s')" "c_Identity c" "out ! i = ANil"
  proof (cases "c_Identity c \<and> out ! i \<noteq> ANil")
    case True
    then obtain cv where "(case cv of VInt n \<Rightarrow>
        act_bind (if 0 <=s n then bumpIdentity E (identitySeqKey (d_ID d) (c_ID c)) (n + 1) else act_return ())
          (\<lambda>_. fillCols E d cols out drawn) | _ \<Rightarrow> act_fail (GoPanic ''interface conversion'')) s = (Inr (out', drawn'), s')"
      using Cons.prems(1) unfolding ic by (auto split: sum.splits)
    then obtain s1 where "fillCols E d cols out drawn s1 = (Inr (out', drawn'), s')"
      by (cases cv) (auto simp: act_bind_Inr)
    then show ?thesis by (rule that(1))
  next
    case False
    then show ?thesis using Cons.prems(1) that(1,2) unfolding ic by (auto simp: act_bind_Inr split: if_splits)
  qed
  then show ?case
  proof cases
    case (1 s1)
    note ih = Cons.IH [OF 1 Cons.prems(2)]
    have "out' ! j = out ! j \<or> out ! j = ANil \<and> (\<exists>c v. (j, c) \<in> set (ic # cols) \<and> c_Identity c \<and> out' ! j = AInt64 v)"
      if "j < length out" for j using ih that by (metis list.set_intros(2))
    then show ?thesis using ih by simp
  next
    case (2 v s1)
    have "\<forall>x\<in>set (out[i := AInt64 v]). goValue x"
      using Cons.prems(2) set_update_subset_insert [of out i "AInt64 v"] by auto
    note ih = Cons.IH [OF 2(1) this]
    have "out' ! j = out ! j \<or> out ! j = ANil \<and> (\<exists>c v. (j, c) \<in> set (ic # cols) \<and> c_Identity c \<and> out' ! j = AInt64 v)"
      if j: "j < length out" for j
    proof (cases "j = i")
      case True
      then have "out' ! j = AInt64 v" using ih j by (metis any.distinct(11) length_list_update nth_list_update_eq)
      then show ?thesis using True 2(2,3) ic by auto
    next
      case False
      then show ?thesis using ih j by (metis length_list_update list.set_intros(2) nth_list_update_neq)
    qed
    then show ?thesis using ih by simp
  qed
qed auto

lemma fillIdentity_values:
  assumes "fillIdentity E d vals s = (Inr (vals', drawn), s')" "\<forall>v\<in>set vals. goValue v"
  shows "(\<forall>v\<in>set vals'. goValue v) \<and> filled d vals vals'"
proof (cases "\<not> hasIdentity d \<or> length vals \<noteq> length (d_Columns d)")
  case True
  then show ?thesis using assms by (auto simp: fillIdentity_def filled_def)
next
  case False
  then have "fillCols E d (enumerate 0 (d_Columns d)) vals [] s = (Inr (vals', drawn), s')" using assms(1) by (simp add: fillIdentity_def)
  from fillCols_values [OF this assms(2)] show ?thesis by (auto simp: filled_def in_set_enumerate_eq)
qed

lemma CheckMemory_kv: "CheckMemory E e = (r, e') \<Longrightarrow> e_kv e' = e_kv e \<and> e_occ e' = e_occ e \<and> e_descCache e' = e_descCache e"
  by (auto simp: CheckMemory_def split: if_splits prod.splits)

text \<open>The rows stored by an insert: identity counters lie outside the table.\<close>

lemma stores_off:
  assumes "descOk d" "stores d R m" "\<And>k. k \<notin> identityKeys d \<Longrightarrow> m' k = m k"
  shows "stores d R m'"
proof -
  have "m' k = m k" if "prefix (tableSpace (d_ID d)) k" for k
    by (rule assms(3)) (use that sys_keys_outside(4) [OF descOkD(8) [OF assms(1)]] in auto)
  then show ?thesis using stores_cong [of d m' m R] assms(2) by blast
qed

lemma insertRow_spec:
  assumes d: "descOk d" and st: "stores d R (content t)" and t: "wf t" "kv_Writable (p_kv E) t"
    and g: "\<forall>v\<in>set vals. goValue v" and r: "insertRow E d vals (e, t) = (r, (e', t'))"
  shows "wf t' \<and> kv_Writable (p_kv E) t' \<and>
    (\<forall>k. \<not> prefix (tableSpace (d_ID d)) k \<and> k \<notin> identityKeys d \<longrightarrow> content t' k = content t k) \<and>
    (case r of
       Inl _ \<Rightarrow> stores d R (content t')
     | Inr row \<Rightarrow> rowFor (p_lib E) d vals row \<and> rowOk d (map canonVal row) \<and> \<not> pkTaken d R (map canonVal row) \<and>
         \<not> list_ex (ixTaken R (map canonVal row)) (d_Indexes d) \<and>
         stores d (insert (map canonVal row) R) (content t'))"
proof -
  let ?off = "offKeys (p_kv E) wf content (identityKeys d) (content t)"
  have off: "?off t" using t by (simp add: offKeys_def)
  have offD: "wf u \<and> kv_Writable (p_kv E) u \<and> stores d R (content u) \<and> (\<forall>k. k \<notin> identityKeys d \<longrightarrow> content u k = content t k)" if "?off u" for u
    using that stores_off [OF d st] by (simp add: offKeys_def)
  consider (err) "?off t'" "isl r"
    | (go) vals' drawn occ t1 where "?off t1" "insertVals (p_kv E) (p_lib E) occ drawn d vals' t1 = (r, t')" "\<forall>v\<in>set vals'. goValue v" "filled d vals vals'"
  proof (cases "CheckMemory E e")
    case (Pair q e0)
    show ?thesis
    proof (cases q)
      case (Inl x)
      then show ?thesis using r Pair off err by (auto simp: insertRow_def onEng_def)
    next
      case (Inr u)
      obtain q1 e1 t1 where f: "fillIdentity E d vals (e0, t) = (q1, (e1, t1))" by (cases "fillIdentity E d vals (e0, t)") auto
      have o1: "?off t1" using act_keepsD [OF keeps_fillIdentity _ f] off by simp
      have rr: "(case q1 of Inl x \<Rightarrow> (Inl x, (e1, t1)) | Inr (vals', drawn) \<Rightarrow>
          onTx (insertVals (p_kv E) (p_lib E) (e_occ e1) drawn d vals') (e1, t1)) = (r, (e', t'))"
        using r Pair Inr f by (auto simp: insertRow_def onEng_def act_bind_def split: sum.splits)
      show ?thesis
      proof (cases q1)
        case (Inl x)
        then show ?thesis using rr o1 err by auto
      next
        case (Inr vd)
        obtain vals' drawn where vd: "vd = (vals', drawn)" by (cases vd)
        have "insertVals (p_kv E) (p_lib E) (e_occ e1) drawn d vals' t1 = (r, t')" using rr Inr vd by simp
        then show ?thesis using go [OF o1] fillIdentity_values [OF f [unfolded Inr vd] g] by blast
      qed
    qed
  qed
  then show ?thesis
  proof cases
    case err
    then show ?thesis using offD [OF err(1)] by (auto simp: isl_def)
  next
    case (go vals' drawn occ t1)
    note o = offD [OF go(1)]
    have st1: "stores d R (content t1)" using o by blast
    obtain t2 where t2: "insertVals (p_kv E) (p_lib E) occ drawn d vals' t1 = (insertSpec (p_lib E) occ drawn d R vals', t2)"
      "wf t2" "kv_Writable (p_kv E) t2" "case insertSpec (p_lib E) occ drawn d R vals' of
       Inl _ \<Rightarrow> t2 = t1
     | Inr row \<Rightarrow> rowOk d (map canonVal row) \<and> stores d (insert (map canonVal row) R) (content t2) \<and>
         content t2 = content t1 ++ map_of (rowEntries d (map canonVal row))"
      using insertVals_spec [OF d st1 _ _ go(3), of "p_lib E" occ drawn] o by blast
    have eq: "t' = t2" "insertSpec (p_lib E) occ drawn d R vals' = r" using go(2) t2(1) by auto
    show ?thesis
    proof (cases r)
      case (Inl x)
      then show ?thesis using t2(4) eq o by auto
    next
      case (Inr row)
      let ?n = "map canonVal row"
      have row: "rowOk d ?n" "stores d (insert ?n R) (content t')" "content t' = content t1 ++ map_of (rowEntries d ?n)"
        using t2(4) eq Inr by auto
      have "rowFor (p_lib E) d vals row" using eq(2) Inr go(4) by (auto simp: rowFor_def insertSpec_def Let_def split: if_splits option.splits)
      moreover have "\<not> pkTaken d R ?n \<and> \<not> list_ex (ixTaken R ?n) (d_Indexes d)"
        using eq(2) Inr by (auto simp: insertSpec_def Let_def find_None_iff list_ex_iff split: if_splits option.splits)
      moreover have "content t' k = content t k" if "\<not> prefix (tableSpace (d_ID d)) k" "k \<notin> identityKeys d" for k
      proof -
        have "map_of (rowEntries d ?n) k = None" using rowKeys_space [of k d ?n] that(1) by (auto simp only: map_of_eq_None_iff)
        then show ?thesis using o that(2) by (simp add: row(3) map_add_def)
      qed
      ultimately show ?thesis using row(1,2) Inr t2(2,3) eq(1) by auto
    qed
  qed
qed

subsection \<open>The closures of the one-shot operations\<close>

end

text \<open>The default write mode with a correct parse cache, which closures keep.\<close>

definition inTx ::
  "('db, 'tx) deps \<Rightarrow> ('tx \<Rightarrow> bool) \<Rightarrow> ('tx \<Rightarrow> 'b) \<Rightarrow> 'b \<Rightarrow> 'db \<Rightarrow> ('db, 'z) engine_scheme \<times> 'tx \<Rightarrow> bool" where
  "inTx E ok base b d s \<longleftrightarrow> (ok (snd s) \<and> base (snd s) = b) \<and> (\<not> e_occ (fst s) \<and> cacheOk (p_desc E) (fst s)) \<and> e_kv (fst s) = d"

context engine_env
begin

abbreviation serialOk :: "('db, 'z) engine_scheme \<Rightarrow> bool" where
  "serialOk e \<equiv> \<not> e_occ e \<and> cacheOk (p_desc E) e"

abbreviation cl :: "(key \<Rightarrow> bytes option) \<Rightarrow> 'db \<Rightarrow> ('db, 'z) engine_scheme \<times> 'tx \<Rightarrow> bool" where
  "cl \<equiv> inTx E wf base"

lemma cl_onTx:
  assumes "\<And>b. act_keeps (txOn b) fn"
  shows "act_keeps (cl b d) (onTx fn)"
  unfolding act_keeps_def
proof (intro allI impI)
  fix s r s'
  assume s: "cl b d s" and r: "onTx fn s = (r, s')"
  obtain e t e' t' where et: "s = (e, t)" "s' = (e', t')" by (cases s; cases s')
  have "fn t = (r, t')" "e' = e" using r et by simp_all
  then show "cl b d s'" using act_keepsD [OF assms [of b], of t r t'] s et by (simp add: inTx_def)
qed

lemma cl_desc: "act_keeps (cl b d) (descFromView E table)"
  unfolding act_keeps_def
proof (intro allI impI)
  fix s r s'
  assume s: "cl b d s" and r: "descFromView E table s = (r, s')"
  obtain e t where et: "s = (e, t)" by (cases s)
  have t: "wf t" "cacheOk (p_desc E) e" using s et by (simp_all add: inTx_def)
  from descFromView_tx [OF t, of table] obtain e' where "s' = (e', t)" "cacheOk (p_desc E) e'" "sameBut e e'"
    using r et by auto
  then show "cl b d s'" using s et sameBut_fields(1,2) [of e e'] by (simp add: inTx_def)
qed

lemma cl_memory: "act_keeps (cl b d) (onEng (CheckMemory E))"
  unfolding act_keeps_def inTx_def onEng_def
  using CheckMemory_kv by (fastforce simp: cacheOk_def split: prod.splits)

lemma stable_txOn: "kv_stable (p_kv E) (txOn b)"
  by unfold_locales (rule keeps_kv)+

lemmas txOn_counter = kv_stable.stable_counter [OF stable_txOn]
lemmas txOn_insertVals = kv_stable.stable_insertVals [OF stable_txOn]
lemmas txOn_updateRow = kv_stable.stable_updateRow [OF stable_txOn]
lemmas txOn_deleteRow = kv_stable.stable_deleteRow [OF stable_txOn]

lemma cl_serial:
  assumes "\<And>e t. \<not> e_occ e \<Longrightarrow> g (e, t) = onTx fn (e, t)" "\<And>b. act_keeps (txOn b) fn"
  shows "act_keeps (cl b d) g"
  unfolding act_keeps_def
proof (intro allI impI)
  fix s r s'
  assume s: "cl b d s" and g: "g s = (r, s')"
  then have "onTx fn s = (r, s')" using assms(1) by (cases s) (auto simp: inTx_def)
  then show "cl b d s'" using act_keepsD [OF cl_onTx [OF assms(2)] s] by blast
qed

lemma cl_draw: "act_keeps (cl b d) (drawIdentity E k)"
  by (rule cl_serial [OF _ txOn_counter(1)]) simp

lemma cl_bump: "act_keeps (cl b d) (bumpIdentity E k n)"
  by (rule cl_serial [OF _ txOn_counter(2)]) simp

lemma cl_fill: "act_keeps (cl b d) (fillIdentity E desc vals)"
proof -
  have "act_keeps (cl b d) (fillCols E desc cols out drawn)" for cols out drawn
  proof (induction cols arbitrary: out drawn)
    case (Cons ic cols)
    obtain i c where "ic = (i, c)" by (cases ic)
    then show ?case using Cons
      by (auto intro!: act_keeps_if act_keeps_bind act_keeps_case_val cl_draw cl_bump)
  qed auto
  then show ?thesis unfolding fillIdentity_def by (auto intro: act_keeps_if)
qed

lemma cl_insertRow: "act_keeps (cl b d) (insertRow E desc vals)"
  unfolding insertRow_def
  by (intro act_keeps_bind cl_memory cl_fill)
    (auto intro!: act_keeps_bind cl_onTx txOn_insertVals split: prod.splits)

lemma closureOk_serial: "(\<And>b d. act_keeps (cl b d) fn) \<Longrightarrow> closureOk serialOk fn"
  unfolding closureKeeps_def inTx_def by (simp add: case_prod_beta' conj_assoc)

lemma serialOk_kv: "serialOk (e\<lparr>e_kv := d\<rparr>) \<longleftrightarrow> serialOk e"
  by (simp add: cacheOk_def)

end

subsection \<open>The one-shot operations on the store\<close>

text \<open>Two contents that differ within one table and its identity counters only.\<close>

definition sameOutside :: "tableDesc \<Rightarrow> (key \<Rightarrow> bytes option) \<Rightarrow> (key \<Rightarrow> bytes option) \<Rightarrow> bool" where
  "sameOutside d m m' \<longleftrightarrow>
     (\<forall>k. \<not> prefix (tableSpace (d_ID d)) k \<and> k \<notin> range (identitySeqKey (d_ID d)) \<longrightarrow> m' k = m k)"

text \<open>What an insert, an update and a delete make of the rows.\<close>

definition inserted :: "tableDesc \<Rightarrow> val list set \<Rightarrow> (key \<Rightarrow> bytes option) \<Rightarrow> (key \<Rightarrow> bytes option) \<Rightarrow> val list \<Rightarrow> bool" where
  "inserted d R m m' n \<longleftrightarrow> rowOk d n \<and> \<not> pkTaken d R n \<and> \<not> list_ex (ixTaken R n) (d_Indexes d) \<and>
     stores d (insert n R) m' \<and> sameOutside d m m'"

definition updated ::
  "golib \<Rightarrow> tableDesc \<Rightarrow> val list set \<Rightarrow> (key \<Rightarrow> bytes option) \<Rightarrow> (key \<Rightarrow> bytes option) \<Rightarrow> any list \<Rightarrow> (string \<times> any) list \<Rightarrow> bool \<Rightarrow> bool" where
  "updated L d R m m' pkVals sets hit \<longleftrightarrow>
     (\<exists>pk. pkArg L d pkVals = Inr pk \<and>
        (case rowAt d R pk of
           None \<Rightarrow> \<not> hit \<and> m' = m
         | Some u \<Rightarrow> hit \<and> (\<exists>new. updateSpec L d R u sets = Inr new \<and>
             stores d (insert (map canonVal new) (R - {u})) m' \<and> sameOutside d m m')))"

definition deleted ::
  "golib \<Rightarrow> tableDesc \<Rightarrow> val list set \<Rightarrow> (key \<Rightarrow> bytes option) \<Rightarrow> (key \<Rightarrow> bytes option) \<Rightarrow> any list \<Rightarrow> bool \<Rightarrow> bool" where
  "deleted L d R m m' pkVals hit \<longleftrightarrow>
     (\<exists>pk. pkArg L d pkVals = Inr pk \<and> (hit \<longleftrightarrow> rowAt d R pk \<noteq> None) \<and>
        stores d (R - set_option (rowAt d R pk)) m' \<and> sameOutside d m m')"

lemma sameOutside_refl [simp]: "sameOutside d m m"
  by (simp add: sameOutside_def)

lemma replaced_outside:
  assumes "\<not> prefix (tableSpace (d_ID d)) k"
  shows "replaced d old new m k = m k"
proof -
  have "map_of (rowEntries d r) k = None" for r
    using rowKeys_space [of k d r] assms by (auto simp only: map_of_eq_None_iff)
  moreover have "\<not> (\<exists>r\<in>old. k \<in> rowKeys d r)" using rowKeys_space [of k d] assms by blast
  ultimately show ?thesis by (auto simp: replaced_def split: option.splits)
qed

context engine_env
begin

text \<open>A closure that resolves a table and runs an operation on it.\<close>

lemma desc_run:
  assumes t: "wf t" "cacheOk (p_desc E) e" and d: "tableAt (p_desc E) (content t) table = Inr (Some d)"
    and r: "act_bind (descFromView E table) f (e, t) = (q, s')"
  shows "\<exists>e1. f d (e1, t) = (q, s') \<and> sameBut e e1 \<and> cacheOk (p_desc E) e1"
proof -
  obtain e1 where "descFromView E table (e, t) = (Inr d, (e1, t))" "cacheOk (p_desc E) e1" "sameBut e e1"
    using descFromView_tx [OF t, of table] d by auto
  then show ?thesis using r by auto
qed

lemma insert_run:
  assumes "descOk d" "stores d R (content t)" "wf t" "kv_Writable (p_kv E) t" "\<forall>v\<in>set vals. goValue v"
    "insertRow E d vals (e, t) = (Inr row, (e', t'))"
  shows "rowFor (p_lib E) d vals row \<and> inserted d R (content t) (content t') (map canonVal row)"
  using insertRow_spec [OF assms] by (simp add: inserted_def sameOutside_def)

lemma update_run:
  assumes d: "descOk d" "stores d R (content t)" "wf t" "kv_Writable (p_kv E) t" "\<forall>x\<in>set sets. goValue (snd x)"
    and r: "updateRow (p_kv E) L d pkVals sets t = (Inr new, t')"
  shows "updated L d R (content t) (content t') pkVals sets (new \<noteq> None)"
proof -
  from updateRow_spec [OF d, of L pkVals] r obtain pk where pk: "pkArg L d pkVals = Inr pk"
    by (cases "pkArg L d pkVals") auto
  show ?thesis
  proof (cases "rowAt d R pk")
    case None
    then show ?thesis using updateRow_spec [OF d, of L pkVals] r pk by (auto simp: updated_def)
  next
    case (Some u)
    then obtain n where n: "updateSpec L d R u sets = Inr n" "new = Some n" using updateRow_spec [OF d, of L pkVals] r pk
      by (cases "updateSpec L d R u sets") auto
    have "sameOutside d m (replaced d {u} (Some (map canonVal n)) m)" for m
      unfolding sameOutside_def by (simp add: replaced_outside)
    then show ?thesis using updateRow_spec [OF d, of L pkVals] r pk Some n by (auto simp: updated_def)
  qed
qed

lemma delete_run:
  assumes d: "descOk d" "stores d R (content t)" "wf t" "kv_Writable (p_kv E) t"
    and r: "deleteRow (p_kv E) L d pkVals t = (Inr hit, t')"
  shows "deleted L d R (content t) (content t') pkVals hit"
  using deleteRow_spec [OF d, of L pkVals] r
  by (cases "pkArg L d pkVals") (auto simp: deleted_def sameOutside_def)

text \<open>
  The outcome of a one-shot write: on success the store is what the row operation made of it; on
  failure it is unchanged, unless the commit failed after it was applied.
\<close>

lemma one_shot:
  assumes op: "\<And>e t q s'. wf t \<Longrightarrow> kv_Writable (p_kv E) t \<Longrightarrow> content t = dcontent (e_kv e0) \<Longrightarrow> serialOk e \<Longrightarrow>
      f d (e, t) = (Inr q, s') \<Longrightarrow> Q q (content (snd s'))"
    and cl: "\<And>b k x. act_keeps (cl b k) (f x)"
    and e: "serialOk e0" "dwf (e_kv e0)" and d: "tableAt (p_desc E) (dcontent (e_kv e0)) table = Inr (Some d)"
    and r: "eUpdate E (act_bind (descFromView E table) f) e0 = (r, e')"
  shows "serialOk e' \<and> dwf (e_kv e') \<and>
    (case r of Inr q \<Rightarrow> Q q (dcontent (e_kv e'))
     | Inl _ \<Rightarrow> dcontent (e_kv e') = dcontent (e_kv e0) \<or> (\<exists>q. Q q (dcontent (e_kv e'))))"
proof -
  let ?fn = "act_bind (descFromView E table) f"
  have co: "closureOk serialOk ?fn" by (rule closureOk_serial) (intro act_keeps_bind cl_desc cl)
  have run: "Q q m'" if rn: "ran serialOk ?fn (dcontent (e_kv e0)) q e1 m'" for q e1 m'
  proof -
    obtain e2 t t' where t: "serialOk e2" "wf t" "kv_Writable (p_kv E) t" "content t = dcontent (e_kv e0)"
      "?fn (e2, t) = (Inr q, (e1, t'))" "content t' = m'" using rn by (auto simp: ranOk_def)
    obtain e3 where e3: "f d (e3, t) = (Inr q, (e1, t'))" "sameBut e2 e3" "cacheOk (p_desc E) e3"
      using desc_run [OF t(2) _ _ t(5)] t(1,4) d by auto
    have "serialOk e3" using e3 t(1) sameBut_fields(2) [of e2 e3] by simp
    from op [OF t(2,3,4) this e3(1)] show ?thesis using t(6) by simp
  qed
  show ?thesis
  proof (cases r)
    case (Inl err)
    note er = eUpdate_err [OF co serialOk_kv e r [unfolded Inl]]
    show ?thesis using er run Inl by auto
  next
    case (Inr q)
    from eUpdate_ok [OF co serialOk_kv e r [unfolded Inr]] obtain e1 k where
      "ran serialOk ?fn (dcontent (e_kv e0)) q e1 (dcontent k)" "e' = e1\<lparr>e_kv := k\<rparr>" "serialOk e'" "dwf k" by blast
    then show ?thesis using run Inr by auto
  qed
qed

lemma reentrant:
  assumes "act_bind (checkReentrantWrite E) (\<lambda>_. g) e = (r, e')"
  shows "g e = (r, e') \<or> e' = e \<and> isl r"
  using assms by (rule act_bind_cases) (use checkReentrantWrite_id in auto)

lemma InsertReturning_run:
  assumes e: "serialOk e" "dwf (e_kv e)" and d: "tableAt (p_desc E) (dcontent (e_kv e)) table = Inr (Some d)"
    and ok: "descOk d" "stores d R (dcontent (e_kv e))" "\<forall>v\<in>set vals. goValue v"
    and r: "InsertReturning E table vals e = (r, e')"
  shows "serialOk e' \<and> dwf (e_kv e') \<and>
    (case r of Inr q \<Rightarrow> fst q = d \<and> rowFor (p_lib E) d vals (snd q) \<and> inserted d R (dcontent (e_kv e)) (dcontent (e_kv e')) (map canonVal (snd q))
     | Inl _ \<Rightarrow> dcontent (e_kv e') = dcontent (e_kv e) \<or>
         (\<exists>n. inserted d R (dcontent (e_kv e)) (dcontent (e_kv e')) n))"
proof -
  let ?f = "\<lambda>desc. act_bind (insertRow E desc vals) (\<lambda>stored. act_return (desc, stored))"
  let ?Q = "\<lambda>q m. fst q = d \<and> rowFor (p_lib E) d vals (snd q) \<and> inserted d R (dcontent (e_kv e)) m (map canonVal (snd q))"
  have op: "?Q q (content (snd s'))"
    if al: "wf t" "kv_Writable (p_kv E) t" "content t = dcontent (e_kv e)" "?f d (e1, t) = (Inr q, s')" for e1 t q s'
  proof -
    obtain row where row: "insertRow E d vals (e1, t) = (Inr row, (fst s', snd s'))" "q = (d, row)"
      using al(4) by (auto simp: act_bind_Inr)
    show ?thesis using insert_run [OF ok(1) _ al(1,2) ok(3) row(1)] ok(2) al(3) row(2) by simp
  qed
  have u: "serialOk e' \<and> dwf (e_kv e') \<and>
    (case r of Inr q \<Rightarrow> ?Q q (dcontent (e_kv e'))
     | Inl _ \<Rightarrow> dcontent (e_kv e') = dcontent (e_kv e) \<or> (\<exists>q. ?Q q (dcontent (e_kv e'))))"
    if "eUpdate E (act_bind (descFromView E table) ?f) e = (r, e')"
    by (rule one_shot [where f = ?f and Q = ?Q, OF _ _ e d that]) (rule op, assumption+, auto intro!: act_keeps_bind cl_insertRow)
  from reentrant [OF r [unfolded InsertReturning_def]] show ?thesis
  proof
    assume "eUpdate E (act_bind (descFromView E table) ?f) e = (r, e')"
    from u [OF this] show ?thesis by (auto split: sum.splits)
  next
    assume "e' = e \<and> isl r"
    then show ?thesis using e by (cases r) auto
  qed
qed

lemma Update_run:
  assumes e: "serialOk e" "dwf (e_kv e)" and d: "tableAt (p_desc E) (dcontent (e_kv e)) table = Inr (Some d)"
    and ok: "descOk d" "stores d R (dcontent (e_kv e))" "\<forall>x\<in>set sets. goValue (snd x)"
    and r: "Update E table pkVals sets e = (r, e')"
  shows "serialOk e' \<and> dwf (e_kv e') \<and>
    (case r of Inr hit \<Rightarrow> updated (p_lib E) d R (dcontent (e_kv e)) (dcontent (e_kv e')) pkVals sets hit
     | Inl _ \<Rightarrow> dcontent (e_kv e') = dcontent (e_kv e) \<or>
         (\<exists>hit. updated (p_lib E) d R (dcontent (e_kv e)) (dcontent (e_kv e')) pkVals sets hit))"
proof -
  let ?f = "\<lambda>desc. act_bind (onTx (updateRow (p_kv E) (p_lib E) desc pkVals sets)) (\<lambda>r. act_return (r \<noteq> None))"
  obtain q e1 where c: "CheckMemory E e = (q, e1)" by (cases "CheckMemory E e")
  have e1: "serialOk e1" "e_kv e1 = e_kv e" using CheckMemory_kv [OF c] e(1) by (auto simp: cacheOk_def)
  let ?Q = "\<lambda>hit m. updated (p_lib E) d R (dcontent (e_kv e1)) m pkVals sets hit"
  have op: "?Q hit (content (snd s'))"
    if al: "wf t" "kv_Writable (p_kv E) t" "content t = dcontent (e_kv e1)" "?f d (e2, t) = (Inr hit, s')" for e2 t hit s'
  proof -
    obtain new where new: "updateRow (p_kv E) (p_lib E) d pkVals sets t = (Inr new, snd s')" "hit = (new \<noteq> None)"
      using al(4) by (auto simp: act_bind_Inr onTx_def split: prod.splits)
    show ?thesis using update_run [OF ok(1) _ al(1,2) ok(3) new(1)] ok(2) al(3) new(2) e1(2) by simp
  qed
  have u: "serialOk e' \<and> dwf (e_kv e') \<and>
    (case r of Inr q \<Rightarrow> ?Q q (dcontent (e_kv e'))
     | Inl _ \<Rightarrow> dcontent (e_kv e') = dcontent (e_kv e1) \<or> (\<exists>q. ?Q q (dcontent (e_kv e'))))"
    if "eUpdate E (act_bind (descFromView E table) ?f) e1 = (r, e')"
    by (rule one_shot [where f = ?f and Q = ?Q, OF _ _ e1(1) _ _ that])
      (rule op, assumption+, use e d e1(2) in \<open>auto intro!: act_keeps_bind cl_onTx txOn_updateRow\<close>)
  have "act_bind (CheckMemory E) (\<lambda>_. eUpdate E (act_bind (descFromView E table) ?f)) e = (r, e') \<or> e' = e \<and> isl r"
    by (rule reentrant [OF r [unfolded Update_def]])
  then have "eUpdate E (act_bind (descFromView E table) ?f) e1 = (r, e') \<or> (e' = e \<or> e' = e1) \<and> isl r"
    using c by (cases q) auto
  then show ?thesis
  proof
    assume "eUpdate E (act_bind (descFromView E table) ?f) e1 = (r, e')"
    from u [OF this] show ?thesis using e1(2) by (auto split: sum.splits)
  next
    assume "(e' = e \<or> e' = e1) \<and> isl r"
    then show ?thesis using e e1 by (cases r) auto
  qed
qed

lemma Delete_run:
  assumes e: "serialOk e" "dwf (e_kv e)" and d: "tableAt (p_desc E) (dcontent (e_kv e)) table = Inr (Some d)"
    and ok: "descOk d" "stores d R (dcontent (e_kv e))" and r: "Delete E table pkVals e = (r, e')"
  shows "serialOk e' \<and> dwf (e_kv e') \<and>
    (case r of Inr hit \<Rightarrow> deleted (p_lib E) d R (dcontent (e_kv e)) (dcontent (e_kv e')) pkVals hit
     | Inl _ \<Rightarrow> dcontent (e_kv e') = dcontent (e_kv e) \<or>
         (\<exists>hit. deleted (p_lib E) d R (dcontent (e_kv e)) (dcontent (e_kv e')) pkVals hit))"
proof -
  let ?f = "\<lambda>desc. onTx (deleteRow (p_kv E) (p_lib E) desc pkVals)"
  let ?Q = "\<lambda>hit m. deleted (p_lib E) d R (dcontent (e_kv e)) m pkVals hit"
  have op: "?Q hit (content (snd s'))"
    if al: "wf t" "kv_Writable (p_kv E) t" "content t = dcontent (e_kv e)" "?f d (e2, t) = (Inr hit, s')" for e2 t hit s'
  proof -
    have "deleteRow (p_kv E) (p_lib E) d pkVals t = (Inr hit, snd s')" using al(4) by (auto simp: onTx_def split: prod.splits)
    then show ?thesis using delete_run [OF ok(1) _ al(1,2)] ok(2) al(3) by simp
  qed
  have u: "serialOk e' \<and> dwf (e_kv e') \<and>
    (case r of Inr q \<Rightarrow> ?Q q (dcontent (e_kv e'))
     | Inl _ \<Rightarrow> dcontent (e_kv e') = dcontent (e_kv e) \<or> (\<exists>q. ?Q q (dcontent (e_kv e'))))"
    if "eUpdate E (act_bind (descFromView E table) ?f) e = (r, e')"
    by (rule one_shot [where f = ?f and Q = ?Q, OF _ _ e d that]) (rule op, assumption+, auto intro!: cl_onTx txOn_deleteRow)
  from reentrant [OF r [unfolded Delete_def]] show ?thesis
  proof
    assume "eUpdate E (act_bind (descFromView E table) ?f) e = (r, e')"
    from u [OF this] show ?thesis .
  next
    assume "e' = e \<and> isl r"
    then show ?thesis using e by (cases r) auto
  qed
qed

end

subsection \<open>An engine with an empty table\<close>

definition usersDesc :: tableDesc where "usersDesc = buildOrdByID sampleDesc"
definition usersKv :: alist where "usersKv = [(descKey ''users'', [0])]"

abbreviation usersEngine :: "alist engine" where
  "usersEngine \<equiv> openEngine usersKv False"

lemma usersDesc_ok: "descOk usersDesc"
  by code_simp

lemma usersKv_ok:
  "tableAt (p_desc sampleDeps) (map_of usersKv) ''users'' = Inr (Some usersDesc)"
  "stores usersDesc {} (map_of usersKv)" "al_sorted usersKv"
proof -
  have "clone sampleDesc = sampleDesc" "parseDesc sampleCodec [0] = Inr usersDesc" by code_simp+
  then show "tableAt (p_desc sampleDeps) (map_of usersKv) ''users'' = Inr (Some usersDesc)"
    by (simp add: tableAt_def usersKv_def)
  have "\<not> prefix (tableSpace (d_ID usersDesc)) (descKey ''users'')"
    using sys_keys_outside(1) [OF descOkD(8) [OF usersDesc_ok]] by simp
  then show "stores usersDesc {} (map_of usersKv)" by (auto simp: stores_empty usersKv_def)
  show "al_sorted usersKv" by (simp add: usersKv_def)
qed

lemma usersEngine_ok: "\<not> e_occ usersEngine \<and> cacheOk (p_desc sampleDeps) usersEngine" "e_kv usersEngine = usersKv"
  by (simp_all add: openEngine_def cacheOk_def)

lemma usersTx_ok: "mem_wf (mem_begin True usersKv)" "mem_content (mem_begin True usersKv) = map_of usersKv"
  "kv_Writable memKv (mem_begin True usersKv)"
  using usersKv_ok(3) by (simp_all add: mem_begin_def mem_wf_def mem_content_def mem_base_def memKv_def saves_ok_def)

interpretation memSt: kv_stable memKv "\<lambda>t. mem_wf t \<and> mem_base t = b" for b
  using memE.stable_txOn [of undefined undefined undefined b] by simp

lemma map_of_sorted_eq:
  assumes "al_sorted xs" "al_sorted ys" "map_of xs = map_of ys"
  shows "xs = ys"
  by (rule sorted_pairs_unique [OF assms(1,2)]) (use assms in \<open>auto simp: al_set_iff\<close>)

lemma mem_update_succeeds:
  assumes fn: "fn (e, mem_begin True (e_kv e)) = (Inr x, (e1, t'))" and t: "mem_wf t'" "mem_base t' = map_of (e_kv e)" "kv_Writable memKv t'"
    and e: "e_kv e1 = e_kv e" "al_sorted (e_kv e)"
  shows "\<exists>e'. eUpdate (memDeps C S V) fn e = (Inr x, e')"
proof -
  have b: "mt_base t' = e_kv e" using t(1,2) e(2) by (intro map_of_sorted_eq) (auto simp: mem_wf_def mem_base_def)
  have "\<not> mem_conflict t' (e_kv e)" by (simp add: mem_conflict_def b list_ex_iff)
  then have "db_Commit memDb t' (e_kv e1) = (Inr (), mem_apply t' (e_kv e))" using t(3) e(1) by (simp add: memDb_def memKv_def)
  moreover have "db_Begin memDb True (e_kv e) = (Inr (mem_begin True (e_kv e)), e_kv e)" by (simp add: memDb_def)
  ultimately show ?thesis using fn by (simp add: eUpdate_def act_bind_def withDb_def finishTx_def)
qed

lemma users_insertRow:
  assumes e: "e_mem e = e_mem usersEngine" "e_tick e = 0" "\<not> e_occ e"
  shows "\<exists>e2 t'. insertRow sampleDeps usersDesc argsCat (e, mem_begin True usersKv) = (Inr rowCat, (e2, t')) \<and>
     mem_wf t' \<and> kv_Writable memKv t' \<and> mem_base t' = map_of usersKv \<and> e_kv e2 = e_kv e"
proof -
  let ?t = "mem_begin True usersKv"
  have spec: "insertSpec noLib False [] usersDesc {} argsCat = Inr rowCat" by code_simp
  have id: "hasIdentity usersDesc = False" by code_simp
  have w: "mem_wf ?t" "stores usersDesc {} (mem_content ?t)" "kv_Writable memKv ?t" using usersTx_ok usersKv_ok by simp_all
  obtain t' where t': "insertVals memKv noLib False [] usersDesc argsCat ?t = (Inr rowCat, t')" "mem_wf t'" "kv_Writable memKv t'"
    using mem.insertVals_spec [OF usersDesc_ok w(2,1,3) argsCat_ok, of noLib False "[]"] unfolding spec by auto
  have b: "mem_base t' = map_of usersKv"
    using act_keepsD [OF memSt.stable_insertVals [of "map_of usersKv"], of ?t] t'(1) w(1)
    by (simp add: mem_begin_def mem_base_def)
  let ?g = "\<lparr>g_ceiling = 0, g_verdict = None, g_gcRunning = False, g_lastForcedGC = 0\<rparr>"
  have "fst (guardCheck ?g 0 0 0) = Inr ()" by code_simp
  then obtain e2 where e2: "CheckMemory sampleDeps e = (Inr (), e2)"
    using e by (cases "guardCheck ?g 0 0 0") (simp add: CheckMemory_def openEngine_def)
  have e2': "\<not> e_occ e2" "e_kv e2 = e_kv e" using memE.CheckMemory_kv [OF e2] e by simp_all
  have "insertRow sampleDeps usersDesc argsCat (e, ?t) = (Inr rowCat, (e2, t'))"
    using e2 e2' t'(1) id by (simp add: insertRow_def onEng_def act_bind_def fillIdentity_def onTx_def act_get_def act_return_def)
  then show ?thesis using t' b e2' by blast
qed

lemma users_insert_run:
  "\<exists>e'. InsertReturning sampleDeps ''users'' argsCat usersEngine = (Inr (usersDesc, rowCat), e')"
proof -
  let ?t = "mem_begin True usersKv"
  obtain e1 where e1: "descFromView sampleDeps ''users'' (usersEngine, ?t) = (Inr usersDesc, (e1, ?t))" "sameBut usersEngine e1"
    using memE.descFromView_tx [OF usersTx_ok(1) usersEngine_ok(1) [THEN conjunct2], of "''users''"]
    unfolding usersTx_ok(2) usersKv_ok(1) by auto
  obtain c where c: "e1 = usersEngine\<lparr>e_descCache := c\<rparr>" using e1(2) unfolding sameBut_def by blast
  let ?fn = "act_bind (descFromView sampleDeps ''users'') (\<lambda>desc. act_bind (insertRow sampleDeps desc argsCat) (\<lambda>stored. act_return (desc, stored)))"
  obtain e2 t' where t': "insertRow sampleDeps usersDesc argsCat (e1, ?t) = (Inr rowCat, (e2, t'))"
    "mem_wf t'" "kv_Writable memKv t'" "mem_base t' = map_of usersKv" "e_kv e2 = usersKv"
    using users_insertRow [of e1] usersEngine_ok(2) unfolding c by (auto simp: openEngine_def)
  then have "?fn (usersEngine, ?t) = (Inr (usersDesc, rowCat), (e2, t'))" using e1(1) by simp
  then have "\<exists>e'. eUpdate sampleDeps ?fn usersEngine = (Inr (usersDesc, rowCat), e')"
    using mem_update_succeeds [of ?fn usersEngine] t' usersKv_ok(3) usersEngine_ok(2) by simp
  moreover have "checkReentrantWrite sampleDeps usersEngine = (Inr (), usersEngine)" by (simp add: checkReentrantWrite_def openEngine_def)
  ultimately show ?thesis by (simp add: InsertReturning_def)
qed

subsection \<open>Correctness of the one-shot writes\<close>

text \<open>C13. A one-shot insert is atomic. In the default write mode, a successful insert leaves the store holding
  the table's rows and one more, the returned row in canonical form, which is made of the given values
  with missing identity values filled in, and clashed with none of them;
  nothing outside the table and its identity counters changes, and the returned descriptor is the
  stored one. A failed insert leaves the store as it was, or, when only the commit failed, as after a
  complete insert: never a row without its index entries.\<close>

theorem insert_atomic:
  assumes "engine_env E ok content dwf dcontent base written" "\<not> e_occ e \<and> cacheOk (p_desc E) e" "dwf (e_kv e)"
    "tableAt (p_desc E) (dcontent (e_kv e)) table = Inr (Some d)" "descOk d" "stores d R (dcontent (e_kv e))"
    "\<forall>v\<in>set vals. goValue v" "InsertReturning E table vals e = (r, e')"
  shows "(\<not> e_occ e' \<and> cacheOk (p_desc E) e') \<and> dwf (e_kv e') \<and>
    (case r of Inr q \<Rightarrow> fst q = d \<and> rowFor (p_lib E) d vals (snd q) \<and> inserted d R (dcontent (e_kv e)) (dcontent (e_kv e')) (map canonVal (snd q))
     | Inl _ \<Rightarrow> dcontent (e_kv e') = dcontent (e_kv e) \<or>
         (\<exists>n. inserted d R (dcontent (e_kv e)) (dcontent (e_kv e')) n))"
  using engine_env.InsertReturning_run [OF assms] .

theorem insert_atomic_witness:
  "\<exists>e'. InsertReturning sampleDeps ''users'' argsCat usersEngine = (Inr (usersDesc, rowCat), e') \<and>
     stores usersDesc {rowCat} (map_of (e_kv e'))"
proof -
  obtain e' where r: "InsertReturning sampleDeps ''users'' argsCat usersEngine = (Inr (usersDesc, rowCat), e')"
    using users_insert_run by blast
  show ?thesis
    using insert_atomic [OF memE.engine_env_axioms usersEngine_ok(1) _ _ usersDesc_ok _ argsCat_ok r, of "{}"]
      usersEngine_ok(2) usersKv_ok insertSpec_cat(2) r by (auto simp: inserted_def)
qed



text \<open>C19. What is inserted can be read back and taken out again. After an insert inside a transaction, in
  either write mode, a lookup by the new row's key returns it in canonical form, every other key
  gives what it gave before, and deleting that key leaves exactly the rows there were.\<close>

theorem insert_get_roundtrip:
  assumes "engine_env E ok content dwf dcontent base written" "descOk d" "stores d R (content t)" "ok t" "kv_Writable (p_kv E) t"
    "\<forall>v\<in>set vals. goValue v" "insertRow E d vals (e, t) = (Inr row, (e', t'))" "pkArg L d pkVals = Inr pk"
  shows "getRow (p_kv E) L d pkVals t' =
      (Inr (if pk = pkValues d (map canonVal row) then Some (map canonVal row) else rowAt d R pk), t') \<and>
    (pk = pkValues d (map canonVal row) \<longrightarrow>
      (\<exists>t2. deleteRow (p_kv E) L d pkVals t' = (Inr True, t2) \<and> stores d R (content t2)))"
proof -
  let ?n = "map canonVal row"
  have K: "kv_rw (p_kv E) ok content" using assms(1) by (simp add: engine_env_def)
  note i = engine_env.insertRow_spec [OF assms(1-7)]
  have n: "\<not> pkTaken d R ?n" "stores d (insert ?n R) (content t')" "ok t'" "kv_Writable (p_kv E) t'" using i by simp_all
  have at: "rowAt d (insert ?n R) pk = (if pk = pkValues d ?n then Some ?n else rowAt d R pk)"
  proof (cases "pk = pkValues d ?n")
    case True
    then show ?thesis by (simp add: rowAt_Some [OF assms(2) n(2)])
  next
    case False
    then have "rowAt d (insert ?n R) pk = Some u \<longleftrightarrow> rowAt d R pk = Some u" for u
      by (auto simp: rowAt_Some [OF assms(2) n(2)] rowAt_Some [OF assms(2,3)])
    then show ?thesis using False by (metis option.exhaust)
  qed
  have "?n \<notin> R" using n(1) by (auto simp: pkTaken_def)
  then show ?thesis using kv_rw.getRow_spec [OF K assms(2) n(2,3), of L pkVals]
      kv_rw.deleteRow_spec [OF K assms(2) n(2,3,4), of L pkVals] assms(8) at by (auto split: if_splits)
qed

theorem insert_get_roundtrip_witness:
  "\<exists>e2 t'. insertRow sampleDeps usersDesc argsCat (usersEngine, mem_begin True usersKv) = (Inr rowCat, (e2, t')) \<and>
     getRow memKv noLib usersDesc [AInt 3] t' = (Inr (Some rowCat), t')"
proof -
  obtain e2 t' where r: "insertRow sampleDeps usersDesc argsCat (usersEngine, mem_begin True usersKv) = (Inr rowCat, (e2, t'))"
    using users_insertRow [of usersEngine] usersEngine_ok by (auto simp: openEngine_def)
  have pk: "pkArg noLib usersDesc [AInt 3] = Inr [VInt 3]" "pkValues usersDesc rowCat = [VInt 3]" by code_simp+
  show ?thesis
    using insert_get_roundtrip [OF memE.engine_env_axioms usersDesc_ok _ usersTx_ok(1) _ argsCat_ok r pk(1), of "{}"]
      usersTx_ok usersKv_ok(2) insertSpec_cat(2) pk(2) r by auto
qed

end
