(* ===== verification/Txn.thy ===== *)
theory Txn
  imports DmlEng
begin

text \<open>
  Transactions (\<open>txn.go\<close>, with the transaction forms of \<open>seq.go\<close>, \<open>seqobj.go\<close> and
  \<open>identity.go\<close>). A \<open>Txn\<close> is the key-value transaction, the reentrancy flag, the memoized
  descriptors, the counter prefixes to invalidate after a commit, and the count of staged row writes
  with a stack that mirrors the savepoints. Its operations are actions on the engine and the
  transaction; \<open>Begin\<close>, \<open>Commit\<close> and \<open>writeTxn\<close> connect them to the store.

  The lemmas show that the mirror stack always is the store's savepoint stack, that rolling back
  restores the write count with the data, and that the write cap is never exceeded.
\<close>

subsection \<open>The transaction\<close>

record 'tx txn =
  t_tx :: 'tx
  t_releaseW :: bool
  t_descs :: "string \<rightharpoonup> tableDesc option"
  t_dirty :: "key list"
  t_writes :: int64
  t_saveWrites :: "(nat \<times> int64) list"

definition newTxn :: "'tx \<Rightarrow> bool \<Rightarrow> 'tx txn" where
  "newTxn tx rel = \<lparr>t_tx = tx, t_releaseW = rel, t_descs = (\<lambda>_. None), t_dirty = [], t_writes = 0, t_saveWrites = []\<rparr>"

text \<open>Actions of the key-value transaction, of the engine, and of both, seen from a \<open>Txn\<close>.\<close>

definition onKv :: "('e \<times> 'tx, 'a) act \<Rightarrow> ('e \<times> 'tx txn, 'a) act" where
  "onKv m s = (case m (fst s, t_tx (snd s)) of (r, e', tx') \<Rightarrow> (r, (e', (snd s)\<lparr>t_tx := tx'\<rparr>)))"

abbreviation txnModify :: "('tx txn \<Rightarrow> 'tx txn) \<Rightarrow> ('e \<times> 'tx txn, unit) act" where
  "txnModify f \<equiv> act_modify (\<lambda>(e, t). (e, f t))"

subsection \<open>The write cap\<close>

definition CheckWrites :: "int64 \<Rightarrow> (('db, 'z) engine_scheme \<times> 'tx txn, unit) act" where
  "CheckWrites n s =
     (let limit = e_maxTxnWrites (fst s)
      in if limit <=s 0 \<or> t_writes (snd s) + n <=s limit then (Inr (), s) else (Inl ErrTxnTooLarge, s))"

definition countWrite :: "('e \<times> 'tx txn, unit) act" where
  "countWrite = txnModify (\<lambda>t. t\<lparr>t_writes := t_writes t + 1\<rparr>)"

subsection \<open>Starting and ending a transaction\<close>

definition flushSeqInvalidations :: "'tx txn \<Rightarrow> ('db, 'z) engine_scheme \<Rightarrow> ('db, 'z) engine_scheme \<times> 'tx txn" where
  "flushSeqInvalidations t e = (fold invalidateCounterPrefix (t_dirty t) e, t\<lparr>t_dirty := []\<rparr>)"

text \<open>
  The closure given to the store: the marker of the owning goroutine is set before the caller's
  function runs and cleared after it, whatever its outcome, a panic included.
\<close>

definition runTxn ::
  "('db, 'tx) deps \<Rightarrow> bool \<Rightarrow> (('db, 'z) engine_scheme \<times> 'tx txn, 'a) act \<Rightarrow>
   (('db, 'z) engine_scheme \<times> 'tx, 'a \<times> 'tx txn) act" where
  "runTxn E serializable fn s =
     (let tx = (if serializable then kv_TrackReads (p_kv E) (snd s) else snd s)
      in case fn ((fst s)\<lparr>e_writerGID := p_gid E\<rparr>, newTxn tx False) of
           (r, e', t) \<Rightarrow>
             (case r of Inl err \<Rightarrow> Inl err | Inr x \<Rightarrow> Inr (x, t), (e'\<lparr>e_writerGID := 0\<rparr>, t_tx t)))"

definition writeTxn ::
  "('db, 'tx) deps \<Rightarrow> bool \<Rightarrow> (('db, 'z) engine_scheme \<times> 'tx txn, 'a) act \<Rightarrow> (('db, 'z) engine_scheme, 'a) act" where
  "writeTxn E serializable fn =
     act_bind (checkReentrantWrite E) (\<lambda>_.
       act_bind (eUpdate E (runTxn E serializable fn)) (\<lambda>(x, t) e.
         (Inr x, fst (flushSeqInvalidations t e))))"

definition WriteTxn :: "('db, 'tx) deps \<Rightarrow> (('db, 'z) engine_scheme \<times> 'tx txn, 'a) act \<Rightarrow> (('db, 'z) engine_scheme, 'a) act" where
  "WriteTxn E = writeTxn E False"

definition WriteTxnSerializable :: "('db, 'tx) deps \<Rightarrow> (('db, 'z) engine_scheme \<times> 'tx txn, 'a) act \<Rightarrow> (('db, 'z) engine_scheme, 'a) act" where
  "WriteTxnSerializable E = writeTxn E True"

definition ReadTxn :: "('db, 'tx) deps \<Rightarrow> (('db, 'z) engine_scheme \<times> 'tx txn, 'a) act \<Rightarrow> (('db, 'z) engine_scheme, 'a) act" where
  "ReadTxn E fn = eView E (\<lambda>s. case fn (fst s, newTxn (snd s) False) of (r, e', t) \<Rightarrow> (r, (e', t_tx t)))"

definition readSnapshot :: "('db, 'tx) deps \<Rightarrow> (('db, 'z) engine_scheme, 'tx txn) act" where
  "readSnapshot E = act_bind (withDb (db_Begin (p_db E) False)) (\<lambda>tx. act_return (newTxn tx False))"

definition Begin :: "('db, 'tx) deps \<Rightarrow> bool \<Rightarrow> (('db, 'z) engine_scheme, 'tx txn) act" where
  "Begin E writable =
     (if writable
      then
        act_bind (checkReentrantWrite E) (\<lambda>_.
          act_bind (withDb (db_Begin (p_db E) True)) (\<lambda>tx.
            act_bind (act_modify (\<lambda>e. e\<lparr>e_writerGID := p_gid E\<rparr>)) (\<lambda>_. act_return (newTxn tx True))))
      else readSnapshot E)"

definition TrackReads :: "('db, 'tx) deps \<Rightarrow> 'tx txn \<Rightarrow> 'tx txn" where
  "TrackReads E t = t\<lparr>t_tx := kv_TrackReads (p_kv E) (t_tx t)\<rparr>"

definition BeginSerializable :: "('db, 'tx) deps \<Rightarrow> (('db, 'z) engine_scheme, 'tx txn) act" where
  "BeginSerializable E = act_bind (Begin E True) (\<lambda>t. act_return (TrackReads E t))"

definition releaseWriter :: "('db, 'z) engine_scheme \<times> 'tx txn \<Rightarrow> ('db, 'z) engine_scheme \<times> 'tx txn" where
  "releaseWriter s =
     (if t_releaseW (snd s) then ((fst s)\<lparr>e_writerGID := 0\<rparr>, (snd s)\<lparr>t_releaseW := False\<rparr>) else s)"

definition Commit :: "('db, 'tx) deps \<Rightarrow> (('db, 'z) engine_scheme \<times> 'tx txn, unit) act" where
  "Commit E s =
     (case releaseWriter s of (e, t) \<Rightarrow>
        (case db_Commit (p_db E) (t_tx t) (e_kv e) of
           (Inl err, d) \<Rightarrow> (Inl err, (e\<lparr>e_kv := d\<rparr>, t))
         | (Inr _, d) \<Rightarrow> (Inr (), flushSeqInvalidations t (e\<lparr>e_kv := d\<rparr>))))"

definition Rollback :: "('db, 'tx) deps \<Rightarrow> (('db, 'z) engine_scheme \<times> 'tx txn, unit) act" where
  "Rollback E s =
     (case releaseWriter s of (e, t) \<Rightarrow>
        (case db_Rollback (p_db E) (t_tx t) (e_kv e) of (r, d) \<Rightarrow> (r, (e\<lparr>e_kv := d\<rparr>, t))))"

subsection \<open>Savepoints\<close>

definition Savepoint :: "('db, 'tx) deps \<Rightarrow> (('db, 'z) engine_scheme \<times> 'tx txn, nat) act" where
  "Savepoint E =
     act_bind (onKv (onTx (kv_Savepoint (p_kv E)))) (\<lambda>sp.
       act_bind (txnModify (\<lambda>t. t\<lparr>t_saveWrites := t_saveWrites t @ [(sp, t_writes t)]\<rparr>)) (\<lambda>_. act_return sp))"

text \<open>The search from the top of the stack; \<open>-1\<close> is \<open>None\<close>.\<close>

fun lastMark :: "nat \<Rightarrow> (nat \<times> int64) list \<Rightarrow> nat \<Rightarrow> nat option" where
  "lastMark sp xs 0 = None"
| "lastMark sp xs (Suc i) = (if fst (xs ! i) = sp then Some i else lastMark sp xs i)"

definition saveMark :: "nat \<Rightarrow> 'tx txn \<Rightarrow> nat option" where
  "saveMark sp t = lastMark sp (t_saveWrites t) (length (t_saveWrites t))"

definition restoreMark :: "nat \<Rightarrow> 'tx txn \<Rightarrow> 'tx txn" where
  "restoreMark sp t =
     (case saveMark sp t of
        None \<Rightarrow> t
      | Some i \<Rightarrow> t\<lparr>t_writes := snd (t_saveWrites t ! i), t_saveWrites := take (i + 1) (t_saveWrites t)\<rparr>)"

definition RollbackTo :: "('db, 'tx) deps \<Rightarrow> nat \<Rightarrow> (('db, 'z) engine_scheme \<times> 'tx txn, unit) act" where
  "RollbackTo E sp =
     act_bind (onKv (onTx (kv_RollbackTo (p_kv E) sp))) (\<lambda>_. txnModify (restoreMark sp))"

definition dropMark :: "nat \<Rightarrow> 'tx txn \<Rightarrow> 'tx txn" where
  "dropMark sp t =
     (case saveMark sp t of
        None \<Rightarrow> t
      | Some i \<Rightarrow> t\<lparr>t_saveWrites := take i (t_saveWrites t)\<rparr>)"

definition Release :: "('db, 'tx) deps \<Rightarrow> nat \<Rightarrow> (('db, 'z) engine_scheme \<times> 'tx txn, unit) act" where
  "Release E sp =
     act_bind (onKv (onTx (kv_Release (p_kv E) sp))) (\<lambda>_. txnModify (dropMark sp))"

subsection \<open>Descriptors\<close>

definition txnTable :: "('db, 'tx) deps \<Rightarrow> string \<Rightarrow> (('db, 'z) engine_scheme \<times> 'tx txn, tableDesc option) act" where
  "txnTable E name s =
     (case t_descs (snd s) name of
        Some d \<Rightarrow> (Inr d, s)
      | None \<Rightarrow>
          act_bind (onKv (tableFromView E name)) (\<lambda>d.
            act_bind (txnModify (\<lambda>t. t\<lparr>t_descs := (t_descs t)(name \<mapsto> d)\<rparr>)) (\<lambda>_. act_return d)) s)"

definition Table :: "('db, 'tx) deps \<Rightarrow> string \<Rightarrow> (('db, 'z) engine_scheme \<times> 'tx txn, tableDesc option) act" where
  "Table E name s = (case txnTable E name s of (Inl _, s') \<Rightarrow> (Inr None, s') | (Inr d, s') \<Rightarrow> (Inr d, s'))"

definition txnDesc :: "('db, 'tx) deps \<Rightarrow> string \<Rightarrow> (('db, 'z) engine_scheme \<times> 'tx txn, tableDesc) act" where
  "txnDesc E table = act_bind (txnTable E table) (\<lambda>d. case d of None \<Rightarrow> act_fail noTable | Some d \<Rightarrow> act_return d)"

subsection \<open>Row operations\<close>

definition txnInsertReturning ::
  "('db, 'tx) deps \<Rightarrow> string \<Rightarrow> any list \<Rightarrow> (('db, 'z) engine_scheme \<times> 'tx txn, tableDesc \<times> val list) act" where
  "txnInsertReturning E table vals =
     act_bind (CheckWrites 1) (\<lambda>_.
       act_bind (txnDesc E table) (\<lambda>desc.
         act_bind (onKv (insertRow E desc vals)) (\<lambda>stored.
           act_bind countWrite (\<lambda>_. act_return (desc, stored)))))"

definition txnInsert :: "('db, 'tx) deps \<Rightarrow> string \<Rightarrow> any list \<Rightarrow> (('db, 'z) engine_scheme \<times> 'tx txn, unit) act" where
  "txnInsert E table vals = act_bind (txnInsertReturning E table vals) (\<lambda>_. act_return ())"

definition txnUpdateReturning ::
  "('db, 'tx) deps \<Rightarrow> string \<Rightarrow> any list \<Rightarrow> (string \<times> any) list \<Rightarrow>
   (('db, 'z) engine_scheme \<times> 'tx txn, (tableDesc \<times> val list) option) act" where
  "txnUpdateReturning E table pkVals sets =
     act_bind (onEng (CheckMemory E)) (\<lambda>_.
       act_bind (CheckWrites 1) (\<lambda>_.
         act_bind (txnDesc E table) (\<lambda>desc.
           act_bind (onKv (onTx (updateRow (p_kv E) (p_lib E) desc pkVals sets))) (\<lambda>r.
             case r of
               None \<Rightarrow> act_return None
             | Some new \<Rightarrow> act_bind countWrite (\<lambda>_. act_return (Some (desc, new)))))))"

definition txnUpdate ::
  "('db, 'tx) deps \<Rightarrow> string \<Rightarrow> any list \<Rightarrow> (string \<times> any) list \<Rightarrow> (('db, 'z) engine_scheme \<times> 'tx txn, bool) act" where
  "txnUpdate E table pkVals sets = act_bind (txnUpdateReturning E table pkVals sets) (\<lambda>r. act_return (r \<noteq> None))"

definition txnDelete :: "('db, 'tx) deps \<Rightarrow> string \<Rightarrow> any list \<Rightarrow> (('db, 'z) engine_scheme \<times> 'tx txn, bool) act" where
  "txnDelete E table pkVals =
     act_bind (txnDesc E table) (\<lambda>desc. onKv (onTx (deleteRow (p_kv E) (p_lib E) desc pkVals)))"

definition txnGet ::
  "('db, 'tx) deps \<Rightarrow> string \<Rightarrow> any list \<Rightarrow> (('db, 'z) engine_scheme \<times> 'tx txn, (tableDesc \<times> val list) option) act" where
  "txnGet E table pkVals =
     act_bind (txnDesc E table) (\<lambda>desc.
       act_bind (act_lift (fullPKKey (p_lib E) desc pkVals)) (\<lambda>k.
         act_bind (onKv (onTx (act_modify (kv_MarkRead (p_kv E) k)))) (\<lambda>_.
           act_bind (onKv (onTx (act_get (kv_Get (p_kv E) k)))) (\<lambda>val.
             case val of
               None \<Rightarrow> act_return None
             | Some v \<Rightarrow> act_bind (act_lift (decodeRow desc k v)) (\<lambda>row. act_return (Some (desc, row)))))))"

definition txnTruncate :: "('db, 'tx) deps \<Rightarrow> string \<Rightarrow> bool \<Rightarrow> (('db, 'z) engine_scheme \<times> 'tx txn, unit) act" where
  "txnTruncate E table restartIdentity =
     act_bind (txnDesc E table) (\<lambda>desc.
       let p = tableSpace (d_ID desc); ip = identitySeqTablePrefix (d_ID desc)
       in act_bind (onKv (onTx (kv_DeleteRange (p_kv E) p (prefixEndKey p)))) (\<lambda>_.
            if restartIdentity
            then
              act_bind (onKv (onTx (kv_DeleteRange (p_kv E) ip (prefixEndKey ip)))) (\<lambda>_ s.
                if e_occ (fst s) then txnModify (\<lambda>t. t\<lparr>t_dirty := t_dirty t @ [ip]\<rparr>) s else (Inr (), s))
            else act_return ()))"

text \<open>Scans: the descriptor from the memo, then the scan of \<open>Index\<close> on the transaction's own snapshot.\<close>

definition txnScan ::
  "(('db, 'z) engine_scheme \<times> 'tx txn, 'd) act \<Rightarrow> ('d \<Rightarrow> 'c \<times> 'tx \<Rightarrow> 'c \<times> 'tx) \<Rightarrow> 'c yield \<Rightarrow>
   'c \<Rightarrow> ('db, 'z) engine_scheme \<times> 'tx txn \<Rightarrow> 'c \<times> ('db, 'z) engine_scheme \<times> 'tx txn" where
  "txnScan resolve scan yield c s =
     (case resolve s of
        (Inl err, s') \<Rightarrow> (snd (yield (Inl err) c), s')
      | (Inr d, e, t) \<Rightarrow> (case scan d (c, t_tx t) of (c', tx') \<Rightarrow> (c', (e, t\<lparr>t_tx := tx'\<rparr>))))"

definition txnIndex ::
  "('db, 'tx) deps \<Rightarrow> string \<Rightarrow> string \<Rightarrow> (('db, 'z) engine_scheme \<times> 'tx txn, tableDesc \<times> indexDesc) act" where
  "txnIndex E table index =
     act_bind (txnDesc E table) (\<lambda>desc.
       case findIndex desc index of None \<Rightarrow> act_fail (Msg ''no such index'') | Some x \<Rightarrow> act_return (desc, x))"

definition txnScanRange where
  "txnScanRange E table fromPK toPK yield =
     txnScan (txnDesc E table) (\<lambda>desc. scanRows (p_kv E) (p_lib E) desc fromPK toPK yield) yield"

definition txnScanAll where
  "txnScanAll E table yield = txnScanRange E table None None yield"

definition txnScanRangeRev where
  "txnScanRangeRev E table fromPK toPK toIncl yield =
     txnScan (txnDesc E table) (\<lambda>desc. scanRowsRev (p_kv E) (p_lib E) desc fromPK toPK toIncl yield) yield"

definition txnScanIndex where
  "txnScanIndex E table index from to yield =
     txnScan (txnIndex E table index) (\<lambda>(desc, x). scanIndexRows (p_kv E) (p_lib E) desc x from to yield) yield"

definition txnScanIndexRev where
  "txnScanIndexRev E table index from to toIncl yield =
     txnScan (txnIndex E table index) (\<lambda>(desc, x). scanIndexRowsRev (p_kv E) (p_lib E) desc x from to toIncl yield) yield"

subsection \<open>Counters, sequences and identity columns\<close>

text \<open>
  In concurrent-writes mode a draw goes to the engine and stays when the transaction rolls back; in
  the default mode it is part of the transaction.
\<close>

definition txnMode ::
  "('db, 'tx) deps \<Rightarrow> (('db, 'z) engine_scheme, 'a) act \<Rightarrow> ('tx, 'a) act \<Rightarrow> (('db, 'z) engine_scheme \<times> 'tx txn, 'a) act" where
  "txnMode E direct staged s =
     (if e_occ (fst s)
      then if \<not> kv_Writable (p_kv E) (t_tx (snd s)) then (Inl ErrTxNotWritable, s) else onEng direct s
      else onKv (onTx staged) s)"

definition txnNextSeq :: "('db, 'tx) deps \<Rightarrow> string \<Rightarrow> (('db, 'z) engine_scheme \<times> 'tx txn, uint64) act" where
  "txnNextSeq E name = txnMode E (NextSeq E name) (nextSeqIn (p_kv E) name)"

definition txnSetSeq :: "('db, 'tx) deps \<Rightarrow> string \<Rightarrow> uint64 \<Rightarrow> (('db, 'z) engine_scheme \<times> 'tx txn, unit) act" where
  "txnSetSeq E name next = txnMode E (SetSeq E name next) (setSeqIn (p_kv E) name next)"

definition txnDeleteSeq :: "('db, 'tx) deps \<Rightarrow> string \<Rightarrow> (('db, 'z) engine_scheme \<times> 'tx txn, bool) act" where
  "txnDeleteSeq E name = txnMode E (DeleteSeq E name) (deleteSeqIn (p_kv E) name)"

definition txnPeekSeq :: "('db, 'tx) deps \<Rightarrow> string \<Rightarrow> (('db, 'z) engine_scheme \<times> 'tx txn, uint64 option) act" where
  "txnPeekSeq E name s =
     (if e_occ (fst s) then onEng (PeekSeq E name) s else onKv (onTx (peekSeqIn (p_kv E) name)) s)"

definition NextVal :: "('db, 'tx) deps \<Rightarrow> string \<Rightarrow> (('db, 'z) engine_scheme \<times> 'tx txn, int64) act" where
  "NextVal E name = txnMode E (allocSeqObj E name) (nextValIn (p_seq E) (p_kv E) name)"

definition SetVal :: "('db, 'tx) deps \<Rightarrow> string \<Rightarrow> int64 \<Rightarrow> bool \<Rightarrow> (('db, 'z) engine_scheme \<times> 'tx txn, unit) act" where
  "SetVal E name v called = txnMode E (setValDirect E name v called) (setValIn (p_seq E) (p_kv E) name v called)"

definition txnSequence :: "('db, 'tx) deps \<Rightarrow> string \<Rightarrow> 'tx txn \<Rightarrow> seqDesc option" where
  "txnSequence E name t = seqOrNone (p_seq E) (p_kv E) name (t_tx t)"

definition txnRestartIdentity ::
  "('db, 'tx) deps \<Rightarrow> string \<Rightarrow> string \<Rightarrow> int64 \<Rightarrow> (('db, 'z) engine_scheme \<times> 'tx txn, unit) act" where
  "txnRestartIdentity E table column next =
     act_bind (txnDesc E table) (\<lambda>desc.
       act_bind (act_lift (identityCol desc table column)) (\<lambda>c.
         if next <s 1 then act_fail (Msg (''RESTART value ('' @ fmtI next @ '') cannot be less than MINVALUE (1)''))
         else
           (let k = identitySeqKey (d_ID desc) (c_ID c)
            in act_bind (onKv (onTx (kv_Set (p_kv E) k (be64 next)))) (\<lambda>_ s.
                 if e_occ (fst s) then txnModify (\<lambda>t. t\<lparr>t_dirty := t_dirty t @ [k]\<rparr>) s else (Inr (), s)))))"

definition txnPeekIdentity ::
  "('db, 'tx) deps \<Rightarrow> string \<Rightarrow> string \<Rightarrow> (('db, 'z) engine_scheme \<times> 'tx txn, uint64 option) act" where
  "txnPeekIdentity E table column =
     act_bind (txnDesc E table) (\<lambda>desc.
       act_bind (act_lift (identityCol desc table column)) (\<lambda>c s.
         let k = identitySeqKey (d_ID desc) (c_ID c)
         in case (if e_occ (fst s) then peekCounterOCC k (fst s) else None) of
              Some v \<Rightarrow> (Inr v, s)
            | None \<Rightarrow>
                (case kv_Get (p_kv E) k (t_tx (snd s)) of
                   None \<Rightarrow> (Inr None, s)
                 | Some raw \<Rightarrow> (res_bind (readCounter raw) (\<lambda>v. Inr (Some v)), s))))"

definition RestartIdentity :: "('db, 'tx) deps \<Rightarrow> string \<Rightarrow> string \<Rightarrow> int64 \<Rightarrow> (('db, 'z) engine_scheme, unit) act" where
  "RestartIdentity E table column next = WriteTxn E (txnRestartIdentity E table column next)"

definition PeekIdentity :: "('db, 'tx) deps \<Rightarrow> string \<Rightarrow> string \<Rightarrow> (('db, 'z) engine_scheme, uint64 option) act" where
  "PeekIdentity E table column = ReadTxn E (txnPeekIdentity E table column)"

end
