(* ===== verification/TxnSim.thy ===== *)
theory TxnSim
  imports Txn
begin

text \<open>
  A transaction as a database of tables. The abstract state gives every table a set of rows and keeps
  a copy of it for each savepoint; the abstract operations insert, replace, remove and clear rows and
  move along the savepoints. Every operation of a \<open>Txn\<close> simulates one of them on the rows the key
  space stands for, and a whole transaction commits what the abstract one computes.
\<close>

subsection \<open>All tables of a key space\<close>

text \<open>The keys that hold descriptors and table data.\<close>

definition dataKey :: "key \<Rightarrow> bool" where
  "dataKey k \<longleftrightarrow> (\<exists>n. k = descKey n) \<or> (\<exists>i. userTable i \<and> prefix (tableSpace i) k)"

lemma dataKey_side [simp]:
  "\<not> dataKey (identitySeqKey i c)" "\<not> dataKey (seqNameKey n)" "\<not> dataKey (sqlSeqKey n)" "\<not> dataKey seqKey" "\<not> dataKey (viewKey n)"
  unfolding dataKey_def using sys_keys_outside sys_keys_distinct(1-5) by metis+

lemma dataKey_identityPrefix: "prefix (identitySeqTablePrefix i) k \<Longrightarrow> \<not> dataKey k"
  unfolding dataKey_def
proof
  assume p: "prefix (identitySeqTablePrefix i) k" and "(\<exists>n. k = descKey n) \<or> (\<exists>j. userTable j \<and> prefix (tableSpace j) k)"
  then consider n where "k = descKey n" | j where "userTable j" "prefix (tableSpace j) k" by blast
  then show False
  proof cases
    case 1
    then have "prefix (identitySeqTablePrefix i) (descKey n)" using p by simp
    then show False unfolding key_shapes encTup_prefix_iff by (simp add: sys_ids)
  next
    case 2
    then show False using p userTable_sys [OF 2(1)] unfolding key_shapes by (auto simp: prefix_def)
  qed
qed

text \<open>
  A content holds the tables of a catalog: lookups give the catalog's descriptors, which are valid and
  have different IDs, and each table's key range holds exactly its rows and their index entries.
\<close>

definition dbRep ::
  "descCodec \<Rightarrow> (string \<Rightarrow> tableDesc option res) \<Rightarrow> (key \<Rightarrow> bytes option) \<Rightarrow> (string \<Rightarrow> val list set) \<Rightarrow> bool" where
  "dbRep C cat m R \<longleftrightarrow>
     (\<forall>name. tableAt C m name = cat name) \<and>
     (\<forall>name d. cat name = Inr (Some d) \<longrightarrow> descOk d \<and> stores d (R name) m) \<and>
     (\<forall>a b d e. cat a = Inr (Some d) \<and> cat b = Inr (Some e) \<and> d_ID d = d_ID e \<longrightarrow> a = b)"

lemma dbRepD:
  assumes "dbRep C cat m R"
  shows "tableAt C m name = cat name" "cat name = Inr (Some d) \<Longrightarrow> descOk d" "cat name = Inr (Some d) \<Longrightarrow> stores d (R name) m"
    "cat a = Inr (Some d) \<Longrightarrow> cat b = Inr (Some e) \<Longrightarrow> d_ID d = d_ID e \<Longrightarrow> a = b"
  using assms by (auto simp: dbRep_def)

lemma tableAt_same: "m (descKey name) = m' (descKey name) \<Longrightarrow> tableAt C m name = tableAt C m' name"
  by (simp add: tableAt_def)

lemma dbRep_table:
  assumes rep: "dbRep C cat m R" and d: "cat table = Inr (Some d)" and st: "stores d R' m'"
    and fr: "\<And>k. dataKey k \<Longrightarrow> \<not> prefix (tableSpace (d_ID d)) k \<Longrightarrow> m' k = m k"
  shows "dbRep C cat m' (R(table := R'))"
  unfolding dbRep_def
proof (intro conjI allI impI)
  have u: "userTable (d_ID d)" using dbRepD(2) [OF rep d] by (rule descOkD(8))
  show "tableAt C m' name = cat name" for name
    using tableAt_same [of m' name m C] fr [of "descKey name"] sys_keys_outside(1) [OF u] dbRepD(1) [OF rep]
    by (auto simp: dataKey_def)
  show "descOk e" if "cat name = Inr (Some e)" for name e using dbRepD(2) [OF rep that] .
  show "stores e ((R(table := R')) name) m'" if e: "cat name = Inr (Some e)" for name e
  proof (cases "name = table")
    case True
    then show ?thesis using st e d by simp
  next
    case False
    have "d_ID e \<noteq> d_ID d" using dbRepD(4) [OF rep e d] False by auto
    then have "m' k = m k" if "prefix (tableSpace (d_ID e)) k" for k
      using that tableSpace_disjoint [of "d_ID e" k "d_ID d"] descOkD(8) [OF dbRepD(2) [OF rep e]]
      by (intro fr) (auto simp: dataKey_def)
    then show ?thesis using dbRepD(3) [OF rep e] False stores_cong [of e m' m "R name"] by simp
  qed
  show "a = b" if "cat a = Inr (Some x) \<and> cat b = Inr (Some y) \<and> d_ID x = d_ID y" for a b x y
    using dbRepD(4) [OF rep] that by blast
qed

lemma dbRep_same:
  assumes rep: "dbRep C cat m R" and fr: "\<And>k. dataKey k \<Longrightarrow> m' k = m k"
  shows "dbRep C cat m' R"
proof -
  have "tableAt C m' name = cat name" for name
    using tableAt_same [of m' name m C] fr [of "descKey name"] dbRepD(1) [OF rep] by (auto simp: dataKey_def)
  moreover have "stores d (R name) m'" if "cat name = Inr (Some d)" for name d
  proof -
    have "m' k = m k" if k: "prefix (tableSpace (d_ID d)) k" for k
      using k descOkD(8) [OF dbRepD(2) [OF rep \<open>cat name = _\<close>]] by (intro fr) (auto simp: dataKey_def)
    then show ?thesis using dbRepD(3) [OF rep that] stores_cong [of d m' m "R name"] by simp
  qed
  ultimately show ?thesis using rep by (simp add: dbRep_def)
qed

lemma sameOutside_data: "sameOutside d m m' \<Longrightarrow> dataKey k \<Longrightarrow> \<not> prefix (tableSpace (d_ID d)) k \<Longrightarrow> m' k = m k"
  unfolding sameOutside_def using dataKey_side(1) by blast

subsection \<open>Operations and what they mean\<close>

datatype txnOp =
    OpInsert string "any list"
  | OpUpdate string "any list" "(string \<times> any) list"
  | OpDelete string "any list"
  | OpGet string "any list"
  | OpTruncate string bool
  | OpSavepoint
  | OpRollbackTo nat
  | OpRelease nat
  | OpNextSeq string
  | OpSetSeq string uint64
  | OpDeleteSeq string
  | OpNextVal string
  | OpSetVal string int64 bool
  | OpRestartIdentity string string int64

datatype txnOut = NoOut | RowOut "val list option" | FlagOut bool | SaveOut nat

abbreviation andThen :: "('s, 'a) act \<Rightarrow> ('a \<Rightarrow> txnOut) \<Rightarrow> ('s, txnOut) act" where
  "andThen m f \<equiv> act_bind m (\<lambda>x. act_return (f x))"

fun runOp :: "('db, 'tx) deps \<Rightarrow> txnOp \<Rightarrow> (('db, 'z) engine_scheme \<times> 'tx txn, txnOut) act" where
  "runOp E (OpInsert table vals) = andThen (txnInsertReturning E table vals) (\<lambda>r. RowOut (Some (snd r)))"
| "runOp E (OpUpdate table pkVals sets) = andThen (txnUpdateReturning E table pkVals sets) (\<lambda>r. RowOut (map_option snd r))"
| "runOp E (OpDelete table pkVals) = andThen (txnDelete E table pkVals) FlagOut"
| "runOp E (OpGet table pkVals) = andThen (txnGet E table pkVals) (\<lambda>r. RowOut (map_option snd r))"
| "runOp E (OpTruncate table restart) = andThen (txnTruncate E table restart) (\<lambda>_. NoOut)"
| "runOp E OpSavepoint = andThen (Savepoint E) SaveOut"
| "runOp E (OpRollbackTo sp) = andThen (RollbackTo E sp) (\<lambda>_. NoOut)"
| "runOp E (OpRelease sp) = andThen (Release E sp) (\<lambda>_. NoOut)"
| "runOp E (OpNextSeq name) = andThen (txnNextSeq E name) (\<lambda>_. NoOut)"
| "runOp E (OpSetSeq name v) = andThen (txnSetSeq E name v) (\<lambda>_. NoOut)"
| "runOp E (OpDeleteSeq name) = andThen (txnDeleteSeq E name) (\<lambda>_. NoOut)"
| "runOp E (OpNextVal name) = andThen (NextVal E name) (\<lambda>_. NoOut)"
| "runOp E (OpSetVal name v called) = andThen (SetVal E name v called) (\<lambda>_. NoOut)"
| "runOp E (OpRestartIdentity table column v) = andThen (txnRestartIdentity E table column v) (\<lambda>_. NoOut)"

text \<open>The arguments are values a Go caller can pass.\<close>

fun opOk :: "txnOp \<Rightarrow> bool" where
  "opOk (OpInsert table vals) \<longleftrightarrow> list_all goValue vals"
| "opOk (OpUpdate table pkVals sets) \<longleftrightarrow> list_all (\<lambda>x. goValue (snd x)) sets"
| "opOk _ \<longleftrightarrow> True"

fun sideOp :: "txnOp \<Rightarrow> bool" where
  "sideOp (OpNextSeq _) \<longleftrightarrow> True"
| "sideOp (OpSetSeq _ _) \<longleftrightarrow> True"
| "sideOp (OpDeleteSeq _) \<longleftrightarrow> True"
| "sideOp (OpNextVal _) \<longleftrightarrow> True"
| "sideOp (OpSetVal _ _ _) \<longleftrightarrow> True"
| "sideOp (OpRestartIdentity _ _ _) \<longleftrightarrow> True"
| "sideOp _ \<longleftrightarrow> False"

type_synonym rows = "string \<Rightarrow> val list set"

record absTxn =
  a_rows :: rows
  a_writes :: int64
  a_marks :: "(nat \<times> rows \<times> int64) list"

abbreviation setRows :: "string \<Rightarrow> val list set \<Rightarrow> absTxn \<Rightarrow> absTxn" where
  "setRows table R a \<equiv> a\<lparr>a_rows := (a_rows a)(table := R)\<rparr>"

abbreviation addWrite :: "absTxn \<Rightarrow> absTxn" where
  "addWrite a \<equiv> a\<lparr>a_writes := a_writes a + 1\<rparr>"

definition mayWrite :: "int64 \<Rightarrow> absTxn \<Rightarrow> bool" where
  "mayWrite cap a \<longleftrightarrow> cap <=s 0 \<or> a_writes a + 1 <=s cap"

inductive absOp :: "golib \<Rightarrow> (string \<Rightarrow> tableDesc option res) \<Rightarrow> int64 \<Rightarrow> txnOp \<Rightarrow> txnOut \<Rightarrow> absTxn \<Rightarrow> absTxn \<Rightarrow> bool"
  for L cat cap where
  ins: "cat table = Inr (Some d) \<Longrightarrow> mayWrite cap a \<Longrightarrow> rowFor L d vals row \<Longrightarrow> rowOk d (map canonVal row) \<Longrightarrow>
    \<not> pkTaken d (a_rows a table) (map canonVal row) \<Longrightarrow>
    \<not> list_ex (ixTaken (a_rows a table) (map canonVal row)) (d_Indexes d) \<Longrightarrow>
    absOp L cat cap (OpInsert table vals) (RowOut (Some row)) a
      (addWrite (setRows table (insert (map canonVal row) (a_rows a table)) a))"
| miss: "cat table = Inr (Some d) \<Longrightarrow> mayWrite cap a \<Longrightarrow> pkArg L d pkVals = Inr pk \<Longrightarrow> rowAt d (a_rows a table) pk = None \<Longrightarrow>
    absOp L cat cap (OpUpdate table pkVals sets) (RowOut None) a a"
| upd: "cat table = Inr (Some d) \<Longrightarrow> mayWrite cap a \<Longrightarrow> pkArg L d pkVals = Inr pk \<Longrightarrow> rowAt d (a_rows a table) pk = Some u \<Longrightarrow>
    updateSpec L d (a_rows a table) u sets = Inr new \<Longrightarrow>
    absOp L cat cap (OpUpdate table pkVals sets) (RowOut (Some new)) a
      (addWrite (setRows table (insert (map canonVal new) (a_rows a table - {u})) a))"
| del: "cat table = Inr (Some d) \<Longrightarrow> pkArg L d pkVals = Inr pk \<Longrightarrow>
    absOp L cat cap (OpDelete table pkVals) (FlagOut (rowAt d (a_rows a table) pk \<noteq> None)) a
      (setRows table (a_rows a table - set_option (rowAt d (a_rows a table) pk)) a)"
| get: "cat table = Inr (Some d) \<Longrightarrow> pkArg L d pkVals = Inr pk \<Longrightarrow>
    absOp L cat cap (OpGet table pkVals) (RowOut (rowAt d (a_rows a table) pk)) a a"
| trunc: "cat table = Inr (Some d) \<Longrightarrow> absOp L cat cap (OpTruncate table restart) NoOut a (setRows table {} a)"
| save: "sp \<notin> fst ` set (a_marks a) \<Longrightarrow>
    absOp L cat cap OpSavepoint (SaveOut sp) a (a\<lparr>a_marks := a_marks a @ [(sp, a_rows a, a_writes a)]\<rparr>)"
| rollback: "a_marks a = pre @ (sp, R, w) # post \<Longrightarrow>
    absOp L cat cap (OpRollbackTo sp) NoOut a \<lparr>a_rows = R, a_writes = w, a_marks = pre @ [(sp, R, w)]\<rparr>"
| release: "a_marks a = pre @ (sp, R, w) # post \<Longrightarrow> absOp L cat cap (OpRelease sp) NoOut a (a\<lparr>a_marks := pre\<rparr>)"
| side: "sideOp op \<Longrightarrow> absOp L cat cap op NoOut a a"

text \<open>The abstract state of a transaction in the default write mode.\<close>

definition txnRep ::
  "('db, 'tx) deps \<Rightarrow> ('tx \<Rightarrow> bool) \<Rightarrow> ('tx \<Rightarrow> key \<Rightarrow> bytes option) \<Rightarrow> ('tx \<Rightarrow> (nat \<times> (key \<Rightarrow> bytes option)) list) \<Rightarrow>
   (string \<Rightarrow> tableDesc option res) \<Rightarrow> int64 \<Rightarrow> ('db, 'z) engine_scheme \<times> 'tx txn \<Rightarrow> absTxn \<Rightarrow> bool" where
  "txnRep E ok content saves cat cap s a \<longleftrightarrow>
     ok (t_tx (snd s)) \<and> kv_Writable (p_kv E) (t_tx (snd s)) \<and>
     (\<not> e_occ (fst s) \<and> cacheOk (p_desc E) (fst s) \<and> e_maxTxnWrites (fst s) = cap) \<and>
     (\<forall>name d. t_descs (snd s) name = Some d \<longrightarrow> cat name = Inr d) \<and>
     dbRep (p_desc E) cat (content (t_tx (snd s))) (a_rows a) \<and>
     list_all2 (\<lambda>(sp, m) (sp', R, w). sp = sp' \<and> dbRep (p_desc E) cat m R) (saves (t_tx (snd s))) (a_marks a) \<and>
     t_saveWrites (snd s) = map (\<lambda>(sp, R, w). (sp, w)) (a_marks a) \<and> t_writes (snd s) = a_writes a"

text \<open>
  Savepoints leave the snapshot a transaction started from alone, and a new transaction has none.
\<close>

locale txn_env = engine_env E wf content dwf dcontent base written + kv_save "p_kv E" wf content saves
  for E :: "('db, 'tx) deps" and wf content dwf dcontent base written saves +
  assumes base_Savepoint: "wf t \<Longrightarrow> kv_Savepoint (p_kv E) t = (q, t') \<Longrightarrow> base t' = base t"
    and base_RollbackTo: "wf t \<Longrightarrow> kv_RollbackTo (p_kv E) sp t = (r, t') \<Longrightarrow> base t' = base t"
    and base_Release: "wf t \<Longrightarrow> kv_Release (p_kv E) sp t = (r, t') \<Longrightarrow> base t' = base t"
    and Begin_saves: "dwf d \<Longrightarrow> db_Begin (p_db E) rw d = (Inr t, d') \<Longrightarrow> saves t = []"
begin

abbreviation rep :: "(string \<Rightarrow> tableDesc option res) \<Rightarrow> int64 \<Rightarrow> ('db, 'z) engine_scheme \<times> 'tx txn \<Rightarrow> absTxn \<Rightarrow> bool" where
  "rep \<equiv> txnRep E wf content saves"

lemma stable_saves: "kv_stable (p_kv E) (\<lambda>t. wf t \<and> saves t = S)"
proof unfold_locales
  show "act_keeps (\<lambda>t. wf t \<and> saves t = S) (kv_Set (p_kv E) k v)" for k v
    unfolding act_keeps_def using Set saves_Set by blast
  show "act_keeps (\<lambda>t. wf t \<and> saves t = S) (kv_Delete (p_kv E) k)" for k
    unfolding act_keeps_def using Delete saves_Delete by blast
  show "act_keeps (\<lambda>t. wf t \<and> saves t = S) (kv_DeleteRange (p_kv E) lo hi)" for lo hi
    unfolding act_keeps_def using DeleteRange saves_DeleteRange by blast
  show "act_keeps (\<lambda>t. wf t \<and> saves t = S) (act_modify (kv_MarkRead (p_kv E) k))"
    "act_keeps (\<lambda>t. wf t \<and> saves t = S) (act_modify (kv_MarkReadRange (p_kv E) lo hi))" for k lo hi
    unfolding act_keeps_def using saves_Mark by auto
qed

text \<open>Three ways a step moves the state: a new content, a new engine state, a new memo.\<close>

lemma rep_tx:
  assumes "rep cat cap (e, t) a" "wf u" "kv_Writable (p_kv E) u" "saves u = saves (t_tx t)" "dbRep (p_desc E) cat (content u) R"
  shows "rep cat cap (e, t\<lparr>t_tx := u\<rparr>) (a\<lparr>a_rows := R\<rparr>)"
  using assms by (simp add: txnRep_def)

lemma rep_eng:
  assumes "rep cat cap (e, t) a" "\<not> e_occ e'" "cacheOk (p_desc E) e'" "e_maxTxnWrites e' = e_maxTxnWrites e"
  shows "rep cat cap (e', t) a"
  using assms by (simp add: txnRep_def)

lemma repD:
  assumes "rep cat cap (e, t) a"
  shows "wf (t_tx t)" "kv_Writable (p_kv E) (t_tx t)" "\<not> e_occ e" "cacheOk (p_desc E) e" "e_maxTxnWrites e = cap"
    "dbRep (p_desc E) cat (content (t_tx t)) (a_rows a)" "t_writes t = a_writes a"
  using assms by (simp_all add: txnRep_def)

lemma rep_count: "rep cat cap (e, t) a \<Longrightarrow> rep cat cap (e, t\<lparr>t_writes := t_writes t + 1\<rparr>) (addWrite a)"
  by (simp add: txnRep_def)

lemma CheckWrites_rep:
  assumes "rep cat cap s a" "CheckWrites 1 s = (r, s')"
  shows "s' = s \<and> (r = Inr () \<longrightarrow> mayWrite cap a)"
  using assms by (auto simp: CheckWrites_def Let_def mayWrite_def txnRep_def split: if_splits)

lemma CheckMemory_fields:
  "CheckMemory E e = (r, e') \<Longrightarrow> e_kv e' = e_kv e \<and> e_occ e' = e_occ e \<and> e_descCache e' = e_descCache e \<and>
     e_maxTxnWrites e' = e_maxTxnWrites e"
  by (auto simp: CheckMemory_def split: if_splits prod.splits)

lemma CheckMemory_rep:
  assumes "rep cat cap (e, t) a" "CheckMemory E e = (r, e')"
  shows "rep cat cap (e', t) a"
  using CheckMemory_fields [OF assms(2)] repD(3,4) [OF assms(1)] by (intro rep_eng [OF assms(1)]) (auto simp: cacheOk_def)

lemma txnDesc_rep:
  assumes rep: "rep cat cap s a" and r: "txnDesc E table s = (r, s')"
  shows "rep cat cap s' a \<and> t_tx (snd s') = t_tx (snd s) \<and> (\<forall>d. r = Inr d \<longrightarrow> cat table = Inr (Some d))"
proof -
  obtain e t where s: "s = (e, t)" by (cases s)
  show ?thesis
  proof (cases "t_descs t table")
    case (Some d)
    then have "cat table = Inr d" "s' = s" "case d of None \<Rightarrow> r = Inl noTable | Some x \<Rightarrow> r = Inr x"
      using rep r s by (auto simp: txnRep_def txnDesc_def txnTable_def split: option.splits)
    then show ?thesis using rep by (auto split: option.splits)
  next
    case None
    obtain e' where e': "tableFromView E table (e, t_tx t) = (cat table, (e', t_tx t))" "cacheOk (p_desc E) e'" "sameBut e e'"
      using tableFromView_tx [OF repD(1,4) [OF rep [unfolded s]], of table] dbRepD(1) [OF repD(6) [OF rep [unfolded s]]] by auto
    have rp: "rep cat cap (e', t) a"
      by (rule rep_eng [OF rep [unfolded s]])
        (use e'(2) sameBut_fields(2,9) [OF e'(3)] repD(3) [OF rep [unfolded s]] in simp_all)
    have o: "onKv (tableFromView E table) (e, t) = (cat table, (e', t))" by (simp add: onKv_def e'(1) del: tableFromView.simps)
    show ?thesis
    proof (cases "cat table")
      case (Inl x)
      then have "r = Inl x" "s' = (e', t)" using r None o by (auto simp: s txnDesc_def txnTable_def)
      then show ?thesis using rp s by simp
    next
      case (Inr d)
      then have s': "s' = (e', t\<lparr>t_descs := (t_descs t)(table \<mapsto> d)\<rparr>)" "case d of None \<Rightarrow> r = Inl noTable | Some x \<Rightarrow> r = Inr x"
        using r None o by (auto simp: s txnDesc_def txnTable_def split: option.splits)
      have "rep cat cap s' a" using rp Inr by (simp add: s' txnRep_def)
      then show ?thesis using s s' Inr by (auto split: option.splits)
    qed
  qed
qed

lemma fst_onTx: "act_keeps (\<lambda>s. fst s = e) (onTx m)"
  by (auto simp: act_keeps_def onTx_def split: prod.splits)

text \<open>In the default mode an insert changes the engine only by its memory check.\<close>

lemma insertRow_eng:
  assumes "\<not> e_occ e" "insertRow E d vals (e, t) = (r, (e', t'))"
  shows "\<exists>q. CheckMemory E e = (q, e')"
proof -
  obtain q e0 where c: "CheckMemory E e = (q, e0)" by (cases "CheckMemory E e")
  have o: "\<not> e_occ e0" using CheckMemory_fields [OF c] assms(1) by simp
  have dr: "act_keeps (\<lambda>s. fst s = e0) (drawIdentity E x)" "act_keeps (\<lambda>s. fst s = e0) (bumpIdentity E x n)" for x n
    unfolding act_keeps_def using o by (auto simp: onTx_def split: prod.splits)
  have "act_keeps (\<lambda>s. fst s = e0) (fillCols E d cols out drawn)" for cols out drawn
  proof (induction cols arbitrary: out drawn)
    case (Cons ic cols)
    obtain i c where "ic = (i, c)" by (cases ic)
    then show ?case using Cons by (auto intro!: act_keeps_if act_keeps_bind act_keeps_case_val dr)
  qed auto
  then have f: "act_keeps (\<lambda>s. fst s = e0) (fillIdentity E d vals)" unfolding fillIdentity_def by (auto intro: act_keeps_if)
  have "act_keeps (\<lambda>s. fst s = e0) (act_bind (fillIdentity E d vals) (\<lambda>(vals', drawn).
         act_bind (act_get (\<lambda>s. e_occ (fst s))) (\<lambda>occ. onTx (insertVals (p_kv E) (p_lib E) occ drawn d vals'))))"
    by (intro act_keeps_bind f) (auto intro!: act_keeps_bind fst_onTx split: prod.splits)
  then show ?thesis
    using assms(2) c unfolding insertRow_def
    by (cases q) (auto simp: onEng_def act_bind_def [of "onEng (CheckMemory E)"] act_keeps_def)
qed

subsection \<open>Each operation simulates its abstract form\<close>

text \<open>What a step leaves: an abstract step when it succeeds, the same abstract state when it fails.\<close>

abbreviation simulates ::
  "(string \<Rightarrow> tableDesc option res) \<Rightarrow> int64 \<Rightarrow> txnOp \<Rightarrow> txnOut res \<Rightarrow> ('db, 'z) engine_scheme \<times> 'tx txn \<Rightarrow> absTxn \<Rightarrow> bool" where
  "simulates cat cap op r s' a \<equiv>
     (case r of Inl _ \<Rightarrow> rep cat cap s' a | Inr out \<Rightarrow> \<exists>a'. absOp (p_lib E) cat cap op out a a' \<and> rep cat cap s' a')"

lemma onKv_cases:
  assumes "onKv m (e, t) = (r, s')"
  obtains e' u where "m (e, t_tx t) = (r, (e', u))" "s' = (e', t\<lparr>t_tx := u\<rparr>)"
  using assms by (cases "m (e, t_tx t)") (auto simp: onKv_def)

lemma onKv_tx_cases:
  assumes "onKv (onTx m) (e, t) = (r, s')"
  obtains u where "m (t_tx t) = (r, u)" "s' = (e, t\<lparr>t_tx := u\<rparr>)"
  using assms by (auto simp: onKv_def onTx_def split: prod.splits)

lemma saves_kept:
  assumes "\<And>S. act_keeps (\<lambda>t. wf t \<and> saves t = S) m" "m t = (r, t')" "wf t"
  shows "saves t' = saves t"
  using act_keepsD [OF assms(1) _ assms(2), of "saves t"] assms(3) by blast

lemma andThen_cases:
  assumes "andThen m f s = (r, s')"
  obtains r0 where "m s = (r0, s')" "r = map_sum id f r0"
  using assms by (cases "m s"; cases "fst (m s)") auto

lemma with_cap:
  assumes "act_bind (CheckWrites 1) f s = (r, s')" "rep cat cap s a"
  obtains (err) x where "r = Inl x" "rep cat cap s' a" | (ok) "f () s = (r, s')" "mayWrite cap a"
  using assms(1) by (rule act_bind_cases) (use CheckWrites_rep [OF assms(2)] assms(2) in auto)

lemma with_desc:
  assumes "act_bind (txnDesc E table) f s = (r, s')" "rep cat cap s a"
  obtains (err) x where "r = Inl x" "rep cat cap s' a"
  | (ok) desc e t where "f desc (e, t) = (r, s')" "rep cat cap (e, t) a" "cat table = Inr (Some desc)"
      "descOk desc" "stores desc (a_rows a table) (content (t_tx t))"
  using assms(1)
proof (rule act_bind_cases)
  fix x
  assume "txnDesc E table s = (Inl x, s')" "r = Inl x"
  then show thesis using txnDesc_rep [OF assms(2)] err by auto
next
  fix desc s1
  assume d: "txnDesc E table s = (Inr desc, s1)" "f desc s1 = (r, s')"
  obtain e t where s1: "s1 = (e, t)" by (cases s1)
  have k: "rep cat cap (e, t) a" "cat table = Inr (Some desc)" using txnDesc_rep [OF assms(2) d(1)] s1 by auto
  show thesis using d(2) s1 k dbRepD(2,3) [OF repD(6) [OF k(1)] k(2)] by (intro ok) auto
qed

text \<open>A table's new rows, everything else as it was.\<close>

lemma rep_table:
  assumes rep: "rep cat cap (e, t) a" and d: "cat table = Inr (Some d)" and u: "wf u" "kv_Writable (p_kv E) u" "saves u = saves (t_tx t)"
    and st: "stores d R (content u)" and fr: "\<And>k. dataKey k \<Longrightarrow> \<not> prefix (tableSpace (d_ID d)) k \<Longrightarrow> content u k = content (t_tx t) k"
  shows "rep cat cap (e, t\<lparr>t_tx := u\<rparr>) (setRows table R a)"
  by (rule rep_tx [OF rep u]) (rule dbRep_table [OF repD(6) [OF rep] d st fr])

lemma rep_table_same:
  assumes rep: "rep cat cap (e, t) a" and d: "cat table = Inr (Some d)" and u: "wf u" "kv_Writable (p_kv E) u" "saves u = saves (t_tx t)"
    and st: "stores d (a_rows a table) (content u)" and fr: "\<And>k. dataKey k \<Longrightarrow> \<not> prefix (tableSpace (d_ID d)) k \<Longrightarrow> content u k = content (t_tx t) k"
  shows "rep cat cap (e, t\<lparr>t_tx := u\<rparr>) a"
  using rep_table [OF assms] by simp

lemma sim_insert:
  assumes rep: "rep cat cap s a" and g: "list_all goValue vals" and r: "runOp E (OpInsert table vals) s = (r, s')"
  shows "simulates cat cap (OpInsert table vals) r s' a"
proof -
  obtain r0 where r0: "txnInsertReturning E table vals s = (r0, s')" "r = map_sum id (\<lambda>x. RowOut (Some (snd x))) r0"
    using r [unfolded runOp.simps] by (rule andThen_cases)
  show ?thesis using r0(1) [unfolded txnInsertReturning_def] rep
  proof (cases rule: with_cap)
    case ok
    note may = ok(2)
    show ?thesis using ok(1) rep
    proof (cases rule: with_desc)
      case (ok desc e t)
      obtain q3 e3 u where i: "insertRow E desc vals (e, t_tx t) = (q3, (e3, u))" by (cases "insertRow E desc vals (e, t_tx t)") auto
      note sp = insertRow_spec [OF ok(4,5) repD(1,2) [OF ok(2)] g [unfolded list_all_iff] i]
      have u: "wf u" "kv_Writable (p_kv E) u" using sp by simp_all
      have sv: "saves u = saves (t_tx t)"
        using act_keepsD [OF kv_stable.stable_insertRow [OF stable_saves refl, of "saves (t_tx t)"] _ i] repD(1) [OF ok(2)] by simp
      obtain qm where "CheckMemory E e = (qm, e3)" using insertRow_eng [OF repD(3) [OF ok(2)] i] by blast
      note e3 = CheckMemory_rep [OF ok(2) this]
      have fr: "content u k = content (t_tx t) k" if "dataKey k" "\<not> prefix (tableSpace (d_ID desc)) k" for k
        using sp that dataKey_side(1) by blast
      show ?thesis
      proof (cases q3)
        case (Inl x)
        have "rep cat cap (e3, t\<lparr>t_tx := u\<rparr>) a" by (rule rep_table_same [OF e3 ok(3) u sv _ fr]) (use sp Inl in simp)
        then show ?thesis using ok(1) i Inl r0(2) by (auto simp: onKv_def)
      next
        case (Inr row)
        let ?a = "setRows table (insert (map canonVal row) (a_rows a table)) a"
        have "rep cat cap (e3, t\<lparr>t_tx := u\<rparr>) ?a" by (rule rep_table [OF e3 ok(3) u sv _ fr]) (use sp Inr in simp)
        from rep_count [OF this] have "rep cat cap s' (addWrite ?a)" "r = Inr (RowOut (Some row))"
          using ok(1) i Inr r0(2) by (auto simp: onKv_def countWrite_def)
        moreover have "absOp (p_lib E) cat cap (OpInsert table vals) (RowOut (Some row)) a (addWrite ?a)"
          by (rule absOp.ins) (use ok(3) may sp Inr in auto)
        ultimately show ?thesis by auto
      qed
    qed (use r0(2) in simp)
  qed (use r0(2) in simp)
qed

lemma sim_update:
  assumes rep: "rep cat cap s a" and g: "list_all (\<lambda>x. goValue (snd x)) sets" and r: "runOp E (OpUpdate table pkVals sets) s = (r, s')"
  shows "simulates cat cap (OpUpdate table pkVals sets) r s' a"
proof -
  obtain r0 where r0: "txnUpdateReturning E table pkVals sets s = (r0, s')" "r = map_sum id (\<lambda>x. RowOut (map_option snd x)) r0"
    using r [unfolded runOp.simps] by (rule andThen_cases)
  obtain e t where s: "s = (e, t)" by (cases s)
  obtain qm e1 where m: "CheckMemory E e = (qm, e1)" by (cases "CheckMemory E e")
  have rp: "rep cat cap (e1, t) a" by (rule CheckMemory_rep [OF rep [unfolded s] m])
  show ?thesis
  proof (cases qm)
    case (Inl x)
    then show ?thesis using r0 s m rp by (auto simp: txnUpdateReturning_def onEng_def)
  next
    case (Inr _)
    then have "act_bind (CheckWrites 1) (\<lambda>_. act_bind (txnDesc E table) (\<lambda>desc.
        act_bind (onKv (onTx (updateRow (p_kv E) (p_lib E) desc pkVals sets))) (\<lambda>r.
             case r of None \<Rightarrow> act_return None
             | Some new \<Rightarrow> act_bind countWrite (\<lambda>_. act_return (Some (desc, new)))))) (e1, t) = (r0, s')"
      using r0(1) s m by (simp add: txnUpdateReturning_def onEng_def)
    then show ?thesis using rp
    proof (cases rule: with_cap)
      case ok
      note may = ok(2)
      show ?thesis using ok(1) rp
      proof (cases rule: with_desc)
        case (ok desc e2 t2)
        obtain q u where i: "updateRow (p_kv E) (p_lib E) desc pkVals sets (t_tx t2) = (q, u)"
          by (cases "updateRow (p_kv E) (p_lib E) desc pkVals sets (t_tx t2)")
        have sv: "saves u = saves (t_tx t2)" by (rule saves_kept [OF kv_stable.stable_updateRow [OF stable_saves] i repD(1) [OF ok(2)]])
        note sp = updateRow_spec [OF ok(4,5) repD(1,2) [OF ok(2)] g [unfolded list_all_iff], of "p_lib E" pkVals, unfolded i]
        have u: "wf u" "kv_Writable (p_kv E) u" using sp by auto
        consider (same) "q = Inr None \<or> isl q" "content u = content (t_tx t2)"
            "q = Inr None \<longrightarrow> (\<exists>pk. pkArg (p_lib E) desc pkVals = Inr pk \<and> rowAt desc (a_rows a table) pk = None)"
          | (upd) pk old new where "q = Inr (Some new)" "pkArg (p_lib E) desc pkVals = Inr pk" "rowAt desc (a_rows a table) pk = Some old"
            "updateSpec (p_lib E) desc (a_rows a table) old sets = Inr new"
            "stores desc (insert (map canonVal new) (a_rows a table - {old})) (content u)"
            "content u = replaced desc {old} (Some (map canonVal new)) (content (t_tx t2))"
        proof (cases "pkArg (p_lib E) desc pkVals")
          case pk: (Inr pk)
          show ?thesis
          proof (cases "rowAt desc (a_rows a table) pk")
            case (Some old)
            then show ?thesis using sp pk same upd by (cases "updateSpec (p_lib E) desc (a_rows a table) old sets") auto
          qed (use sp pk same in auto)
        qed (use sp same in auto)
        then show ?thesis
        proof cases
          case same
          have "rep cat cap (e2, t2\<lparr>t_tx := u\<rparr>) a"
            by (rule rep_table_same [OF ok(2,3) u sv]) (use ok(5) same(2) in auto)
          moreover have "q = Inr None \<Longrightarrow> absOp (p_lib E) cat cap (OpUpdate table pkVals sets) (RowOut None) a a"
            using same(3) ok(3) may absOp.miss by blast
          ultimately show ?thesis using same(1) ok(1) i r0(2) by (auto simp: onKv_def onTx_def isl_def intro!: exI [of _ a])
        next
          case upd
          let ?a = "setRows table (insert (map canonVal new) (a_rows a table - {old})) a"
          have "rep cat cap (e2, t2\<lparr>t_tx := u\<rparr>) ?a"
            by (rule rep_table [OF ok(2,3) u sv upd(5)]) (simp add: upd(6) replaced_outside)
          from rep_count [OF this] have "rep cat cap s' (addWrite ?a)" "r = Inr (RowOut (Some new))"
            using ok(1) i upd(1) r0(2) by (auto simp: onKv_def onTx_def countWrite_def)
          moreover have "absOp (p_lib E) cat cap (OpUpdate table pkVals sets) (RowOut (Some new)) a (addWrite ?a)"
            by (rule absOp.upd) (use ok(3) may upd(2,3,4) in auto)
          ultimately show ?thesis by auto
        qed
      qed (use r0(2) in simp)
    qed (use r0(2) in simp)
  qed
qed

lemma sim_delete:
  assumes rep: "rep cat cap s a" and r: "runOp E (OpDelete table pkVals) s = (r, s')"
  shows "simulates cat cap (OpDelete table pkVals) r s' a"
proof -
  obtain r0 where r0: "txnDelete E table pkVals s = (r0, s')" "r = map_sum id FlagOut r0"
    using r [unfolded runOp.simps] by (rule andThen_cases)
  show ?thesis using r0(1) [unfolded txnDelete_def] rep
  proof (cases rule: with_desc)
    case (ok desc e t)
    obtain u where i: "deleteRow (p_kv E) (p_lib E) desc pkVals (t_tx t) = (r0, u)" "s' = (e, t\<lparr>t_tx := u\<rparr>)"
      using ok(1) by (rule onKv_tx_cases)
    have sv: "saves u = saves (t_tx t)" by (rule saves_kept [OF kv_stable.stable_deleteRow [OF stable_saves] i(1) repD(1) [OF ok(2)]])
    note sp = deleteRow_spec [OF ok(4,5) repD(1,2) [OF ok(2)], of "p_lib E" pkVals, unfolded i]
    have u: "wf u" "kv_Writable (p_kv E) u" "\<And>k. \<not> prefix (tableSpace (d_ID desc)) k \<Longrightarrow> content u k = content (t_tx t) k" using sp by auto
    show ?thesis
    proof (cases "pkArg (p_lib E) desc pkVals")
      case (Inl x)
      have "rep cat cap s' a" unfolding i(2) by (rule rep_table_same [OF ok(2,3) u(1,2) sv]) (use ok(5) sp Inl in auto)
      then show ?thesis using sp Inl r0(2) by auto
    next
      case (Inr pk)
      have "rep cat cap s' (setRows table (a_rows a table - set_option (rowAt desc (a_rows a table) pk)) a)"
        unfolding i(2) by (rule rep_table [OF ok(2,3) u(1,2) sv]) (use sp Inr u(3) in auto)
      moreover have "absOp (p_lib E) cat cap (OpDelete table pkVals) (FlagOut (rowAt desc (a_rows a table) pk \<noteq> None)) a
          (setRows table (a_rows a table - set_option (rowAt desc (a_rows a table) pk)) a)"
        by (rule absOp.del) (use ok(3) Inr in auto)
      ultimately show ?thesis using sp Inr r0(2) by auto
    qed
  qed (use r0(2) in simp)
qed

lemma sim_get:
  assumes rep: "rep cat cap s a" and r: "runOp E (OpGet table pkVals) s = (r, s')"
  shows "simulates cat cap (OpGet table pkVals) r s' a"
proof -
  obtain r0 where r0: "txnGet E table pkVals s = (r0, s')" "r = map_sum id (\<lambda>x. RowOut (map_option snd x)) r0"
    using r [unfolded runOp.simps] by (rule andThen_cases)
  show ?thesis using r0(1) [unfolded txnGet_def] rep
  proof (cases rule: with_desc)
    case (ok desc e t)
    show ?thesis
    proof (cases "pkArg (p_lib E) desc pkVals")
      case (Inl x)
      then have "r0 = Inl x" "s' = (e, t)" using ok(1) by (auto simp: fullPKKey_eq)
      then show ?thesis using ok(2) r0(2) by simp
    next
      case (Inr pk)
      let ?k = "pkKeyOf desc pk" and ?R = "a_rows a table"
      let ?u = "kv_MarkRead (p_kv E) ?k (t_tx t)"
      have u: "wf ?u" "kv_Writable (p_kv E) ?u" "saves ?u = saves (t_tx t)" "content ?u = content (t_tx t)"
        using repD(1,2) [OF ok(2)] saves_Mark by simp_all
      have rp: "rep cat cap (e, t\<lparr>t_tx := ?u\<rparr>) a" by (rule rep_table_same [OF ok(2,3) u(1-3)]) (use ok(5) u(4) in auto)
      have get: "kv_Get (p_kv E) ?k ?u = map_option (rowBytes desc (content (t_tx t))) (rowAt desc ?R pk)"
        using kv_tx.Get [OF kv_tx_axioms u(1)] stores_lookup [OF ok(4,5), of pk] u(4) by simp
      have run: "r0 = Inr (map_option (Pair desc) (rowAt desc ?R pk))" "s' = (e, t\<lparr>t_tx := ?u\<rparr>)"
        using ok(1) Inr get decodeRow_at(1) [OF ok(4,5)]
        by (cases "rowAt desc ?R pk"; simp add: fullPKKey_eq onKv_def onTx_def act_bind_def)+
      have "absOp (p_lib E) cat cap (OpGet table pkVals) (RowOut (rowAt desc ?R pk)) a a"
        by (rule absOp.get) (use ok(3) Inr in auto)
      then show ?thesis using rp run r0(2) by (auto simp: option.map_comp comp_def option.map_ident intro!: exI [of _ a])
    qed
  qed (use r0(2) in simp)
qed

lemma sim_truncate:
  assumes rep: "rep cat cap s a" and r: "runOp E (OpTruncate table restart) s = (r, s')"
  shows "simulates cat cap (OpTruncate table restart) r s' a"
proof -
  obtain r0 where r0: "txnTruncate E table restart s = (r0, s')" "r = map_sum id (\<lambda>_. NoOut) r0"
    using r [unfolded runOp.simps] by (rule andThen_cases)
  show ?thesis using r0(1) [unfolded txnTruncate_def] rep
  proof (cases rule: with_desc)
    case (ok desc e t)
    let ?p = "tableSpace (d_ID desc)" and ?ip = "identitySeqTablePrefix (d_ID desc)"
    obtain n u where u: "kv_DeleteRange (p_kv E) ?p (prefixEndKey ?p) (t_tx t) = (Inr n, u)" "wf u" "kv_Writable (p_kv E) u"
      "content u = (\<lambda>k. if ?p \<le> k \<and> k < prefixEndKey ?p then None else content (t_tx t) k)"
      using delRange [OF repD(1,2) [OF ok(2)]] .
    obtain n' v where v: "kv_DeleteRange (p_kv E) ?ip (prefixEndKey ?ip) u = (Inr n', v)" "wf v" "kv_Writable (p_kv E) v"
      "content v = (\<lambda>k. if ?ip \<le> k \<and> k < prefixEndKey ?ip then None else content u k)"
      using delRange [OF u(2,3)] .
    let ?w = "if restart then v else u"
    have w: "wf ?w" "kv_Writable (p_kv E) ?w" "saves ?w = saves (t_tx t)"
      using u v saves_DeleteRange [OF repD(1) [OF ok(2)] u(1)] saves_DeleteRange [OF u(2) v(1)] by simp_all
    have ip: "?ip \<le> k \<and> k < prefixEndKey ?ip \<longleftrightarrow> prefix ?ip k" for k
      unfolding key_shapes by (rule prefix_interval') simp
    have c: "content ?w k = (if prefix ?p k \<or> restart \<and> prefix ?ip k then None else content (t_tx t) k)" for k
      by (simp add: v(4) u(4) ip tableSpace_interval)
    have "stores desc {} (content ?w)" by (auto simp: stores_empty c)
    then have rp: "rep cat cap (e, t\<lparr>t_tx := ?w\<rparr>) (setRows table {} a)"
      by (rule rep_table [OF ok(2,3) w]) (auto simp: c dest: dataKey_identityPrefix)
    have "r0 = Inr ()" "s' = (e, t\<lparr>t_tx := ?w\<rparr>)"
      using ok(1) u(1) v(1) repD(3) [OF ok(2)] by (cases restart; simp add: Let_def onKv_def onTx_def act_bind_def)+
    moreover have "absOp (p_lib E) cat cap (OpTruncate table restart) NoOut a (setRows table {} a)"
      by (rule absOp.trunc) (rule ok(3))
    ultimately show ?thesis using rp r0(2) by auto
  qed (use r0(2) in simp)
qed

text \<open>The mirror stack: the marks of the savepoints, found from the top.\<close>

lemma lastMark_append:
  assumes "xs ! i = (sp, w)" "i < n" "n \<le> length xs" "distinct (map fst xs)"
  shows "lastMark sp xs n = Some i"
  using assms(2,3)
proof (induction n)
  case (Suc n)
  show ?case
  proof (cases "i = n")
    case False
    then have "fst (xs ! n) \<noteq> sp"
      using assms(1,4) Suc.prems nth_eq_iff_index_eq [of "map fst xs" n i] by auto
    then show ?thesis using Suc False by simp
  qed (use assms(1) in simp)
qed simp

lemma saveMark_at:
  assumes "t_saveWrites t = pre @ (sp, w) # post" "distinct (map fst (t_saveWrites t))"
  shows "saveMark sp t = Some (length pre)"
  unfolding saveMark_def using assms by (intro lastMark_append [where w = w]) auto

lemma rep_ids: "rep cat cap (e, t) a \<Longrightarrow> map fst (saves (t_tx t)) = map fst (a_marks a)"
  unfolding txnRep_def by (auto simp: list_all2_conv_all_nth case_prod_beta intro!: nth_equalityI)

lemma sim_savepoint:
  assumes rep: "rep cat cap s a" and r: "runOp E OpSavepoint s = (r, s')"
  shows "simulates cat cap OpSavepoint r s' a"
proof -
  obtain e t where s: "s = (e, t)" by (cases s)
  obtain q u where k: "kv_Savepoint (p_kv E) (t_tx t) = (q, u)" by (cases "kv_Savepoint (p_kv E) (t_tx t)")
  note sp = Savepoint [OF repD(1) [OF rep [unfolded s]] k]
  show ?thesis
  proof (cases q)
    case (Inl x)
    have "rep cat cap (e, t\<lparr>t_tx := u\<rparr>) (a\<lparr>a_rows := a_rows a\<rparr>)"
      by (rule rep_tx [OF rep [unfolded s]]) (use sp Inl repD(2,6) [OF rep [unfolded s]] in auto)
    then show ?thesis using r k Inl by (auto simp: s Savepoint_def onKv_def onTx_def act_bind_def)
  next
    case (Inr p)
    let ?a = "a\<lparr>a_marks := a_marks a @ [(p, a_rows a, a_writes a)]\<rparr>"
    have st: "s' = (e, t\<lparr>t_tx := u, t_saveWrites := t_saveWrites t @ [(p, t_writes t)]\<rparr>)" "r = Inr (SaveOut p)"
      using r k Inr by (auto simp: s Savepoint_def onKv_def onTx_def act_bind_def)
    have rp: "rep cat cap s' ?a"
      using rep sp Inr unfolding s st by (auto simp: txnRep_def list_all2_append list_all2_lengthD)
    have "p \<notin> fst ` set (a_marks a)" using sp Inr rep_ids [OF rep [unfolded s]] by (metis (no_types, lifting) list.set_map sum.simps(6))
    then show ?thesis using rp st(2) absOp.save by fastforce
  qed
qed

lemma rep_marks:
  assumes rep: "rep cat cap (e, t) a" and sv: "saves (t_tx t) = pre @ (sp, m) # post"
  obtains pre' R w post' where "a_marks a = pre' @ (sp, R, w) # post'"
    "list_all2 (\<lambda>(sp, m) (sp', R, w). sp = sp' \<and> dbRep (p_desc E) cat m R) pre pre'" "dbRep (p_desc E) cat m R"
    "saveMark sp t = Some (length pre')" "t_saveWrites t ! length pre' = (sp, w)"
    "take (length pre') (t_saveWrites t) = map (\<lambda>(sp, R, w). (sp, w)) pre'"
proof -
  let ?q = "\<lambda>(sp, m) (sp', R, w). sp = sp' \<and> dbRep (p_desc E) cat m R"
  have all: "list_all2 ?q (pre @ (sp, m) # post) (a_marks a)" "t_saveWrites t = map (\<lambda>(sp, R, w). (sp, w)) (a_marks a)"
    using rep sv by (simp_all add: txnRep_def)
  then obtain pre' x post' where x: "a_marks a = pre' @ x # post'" "list_all2 ?q pre pre'" "?q (sp, m) x"
    by (auto simp: list_all2_append1 list_all2_Cons1)
  obtain R w where xw: "x = (sp, R, w)" using x(3) by (cases x) auto
  have ids: "map fst (t_saveWrites t) = map fst (saves (t_tx t))"
    unfolding rep_ids [OF rep] all(2) by (simp add: case_prod_beta comp_def)
  have "distinct (map fst (t_saveWrites t))" unfolding ids by (rule saves_distinct [OF repD(1) [OF rep]])
  then have "saveMark sp t = Some (length (map (\<lambda>(sp, R, w). (sp, w)) pre'))"
    using all(2) x(1) xw by (intro saveMark_at [where w = w and post = "map (\<lambda>(sp, R, w). (sp, w)) post'"]) auto
  then show thesis using x xw all(2) by (intro that [of pre' R w post']) (auto simp: nth_append)
qed

lemma sim_rollback:
  assumes rep: "rep cat cap s a" and r: "runOp E (OpRollbackTo sp) s = (r, s')"
  shows "simulates cat cap (OpRollbackTo sp) r s' a"
proof -
  obtain e t where s: "s = (e, t)" by (cases s)
  obtain q u where k: "kv_RollbackTo (p_kv E) sp (t_tx t) = (q, u)" by (cases "kv_RollbackTo (p_kv E) sp (t_tx t)")
  note kv = RollbackTo [OF repD(1) [OF rep [unfolded s]] k]
  show ?thesis
  proof (cases q)
    case (Inl x)
    have "rep cat cap (e, t\<lparr>t_tx := u\<rparr>) (a\<lparr>a_rows := a_rows a\<rparr>)"
      by (rule rep_tx [OF rep [unfolded s]]) (use kv Inl repD(2,6) [OF rep [unfolded s]] in auto)
    then show ?thesis using r k Inl by (auto simp: s RollbackTo_def onKv_def onTx_def act_bind_def)
  next
    case (Inr _)
    obtain pre m post where sv: "saves (t_tx t) = pre @ (sp, m) # post" "saves u = pre @ [(sp, m)]" "content u = m"
      using kv Inr by auto
    obtain pre' R w post' where mk: "a_marks a = pre' @ (sp, R, w) # post'"
      "list_all2 (\<lambda>(sp, m) (sp', R, w). sp = sp' \<and> dbRep (p_desc E) cat m R) pre pre'" "dbRep (p_desc E) cat m R"
      "saveMark sp t = Some (length pre')" "t_saveWrites t ! length pre' = (sp, w)"
      "take (length pre') (t_saveWrites t) = map (\<lambda>(sp, R, w). (sp, w)) pre'"
      using rep [unfolded s] sv(1) by (rule rep_marks)
    let ?a = "\<lparr>a_rows = R, a_writes = w, a_marks = pre' @ [(sp, R, w)]\<rparr>"
    have "length pre' < length (t_saveWrites t)" using rep mk(1) by (simp add: s txnRep_def)
    then have tk: "take (Suc (length pre')) (t_saveWrites t) = map (\<lambda>(sp, R, w). (sp, w)) pre' @ [(sp, w)]"
      using mk(5,6) by (simp add: take_Suc_conv_app_nth)
    have st: "s' = (e, t\<lparr>t_tx := u, t_writes := w, t_saveWrites := map (\<lambda>(sp, R, w). (sp, w)) pre' @ [(sp, w)]\<rparr>)"
      "r = Inr NoOut"
      using r k Inr mk(4,5) tk by (auto simp: s RollbackTo_def onKv_def onTx_def act_bind_def restoreMark_def saveMark_def)
    have "rep cat cap s' ?a" using rep kv mk(2,3) sv(2,3) unfolding s st by (auto simp: txnRep_def list_all2_append list_all2_lengthD)
    moreover have "absOp (p_lib E) cat cap (OpRollbackTo sp) NoOut a ?a" by (rule absOp.rollback) (rule mk(1))
    ultimately show ?thesis using st(2) by auto
  qed
qed

lemma sim_release:
  assumes rep: "rep cat cap s a" and r: "runOp E (OpRelease sp) s = (r, s')"
  shows "simulates cat cap (OpRelease sp) r s' a"
proof -
  obtain e t where s: "s = (e, t)" by (cases s)
  obtain q u where k: "kv_Release (p_kv E) sp (t_tx t) = (q, u)" by (cases "kv_Release (p_kv E) sp (t_tx t)")
  note kv = Release [OF repD(1) [OF rep [unfolded s]] k]
  show ?thesis
  proof (cases q)
    case (Inl x)
    have "rep cat cap (e, t\<lparr>t_tx := u\<rparr>) (a\<lparr>a_rows := a_rows a\<rparr>)"
      by (rule rep_tx [OF rep [unfolded s]]) (use kv Inl repD(2,6) [OF rep [unfolded s]] in auto)
    then show ?thesis using r k Inl by (auto simp: s Release_def onKv_def onTx_def act_bind_def)
  next
    case (Inr _)
    obtain pre m post where sv: "saves (t_tx t) = pre @ (sp, m) # post" "saves u = pre" using kv Inr by auto
    obtain pre' R w post' where mk: "a_marks a = pre' @ (sp, R, w) # post'"
      "list_all2 (\<lambda>(sp, m) (sp', R, w). sp = sp' \<and> dbRep (p_desc E) cat m R) pre pre'" "dbRep (p_desc E) cat m R"
      "saveMark sp t = Some (length pre')" "t_saveWrites t ! length pre' = (sp, w)"
      "take (length pre') (t_saveWrites t) = map (\<lambda>(sp, R, w). (sp, w)) pre'"
      using rep [unfolded s] sv(1) by (rule rep_marks)
    have st: "s' = (e, t\<lparr>t_tx := u, t_saveWrites := map (\<lambda>(sp, R, w). (sp, w)) pre'\<rparr>)" "r = Inr NoOut"
      using r k Inr mk(4,6) by (auto simp: s Release_def onKv_def onTx_def act_bind_def dropMark_def saveMark_def)
    have "rep cat cap s' (a\<lparr>a_marks := pre'\<rparr>)" using rep kv mk(2,3) sv(2) unfolding s st by (auto simp: txnRep_def)
    moreover have "absOp (p_lib E) cat cap (OpRelease sp) NoOut a (a\<lparr>a_marks := pre'\<rparr>)" by (rule absOp.release) (rule mk(1))
    ultimately show ?thesis using st(2) by auto
  qed
qed

text \<open>Sequence operations write keys that hold no table data.\<close>

lemma side_keeps:
  assumes set: "\<And>k v. \<not> dataKey k \<Longrightarrow> act_keeps P (kv_Set K k v)" and del: "\<And>k. \<not> dataKey k \<Longrightarrow> act_keeps P (kv_Delete K k)"
  shows "act_keeps P (nextSeqIn K n)" "act_keeps P (setSeqIn K n v)" "act_keeps P (deleteSeqIn K n)"
    "act_keeps P (nextValIn C K n)" "act_keeps P (setValIn C K n x called)"
proof -
  have desc: "act_keeps P (seqDescIn C K n)" unfolding seqDescIn_def by (auto intro!: act_keeps_bind split: option.split)
  have wr: "act_keeps P (writeSeqDescIn C K d)" for d unfolding writeSeqDescIn_def by (auto intro!: act_keeps_bind set)
  show "act_keeps P (nextSeqIn K n)" "act_keeps P (setSeqIn K n v)" "act_keeps P (deleteSeqIn K n)"
    unfolding nextSeqIn_def setSeqIn_def deleteSeqIn_def nextFromCounter_def
    by (auto intro!: act_keeps_bind set del split: option.split)
  show "act_keeps P (setValIn C K n x called)" unfolding setValIn_def by (intro act_keeps_bind desc wr act_keeps_pure)
  show "act_keeps P (nextValIn C K n)" unfolding nextValIn_def
    by (rule act_keeps_bind [OF desc]) (auto intro!: act_keeps_bind wr split: prod.split sum.split)
qed

lemma side_kv:
  assumes rep: "rep cat cap (e, t) a" and r: "onKv (onTx m) (e, t) = (r, s')"
    and m: "\<And>P. (\<And>k v. \<not> dataKey k \<Longrightarrow> act_keeps P (kv_Set (p_kv E) k v)) \<Longrightarrow>
      (\<And>k. \<not> dataKey k \<Longrightarrow> act_keeps P (kv_Delete (p_kv E) k)) \<Longrightarrow> act_keeps P m"
  shows "rep cat cap s' a"
proof -
  obtain u where u: "m (t_tx t) = (r, u)" "s' = (e, t\<lparr>t_tx := u\<rparr>)" using r by (rule onKv_tx_cases)
  let ?P = "\<lambda>x. wf x \<and> kv_Writable (p_kv E) x \<and> saves x = saves (t_tx t) \<and> (\<forall>k. dataKey k \<longrightarrow> content x k = content (t_tx t) k)"
  have "act_keeps ?P m"
  proof (rule m)
    show "act_keeps ?P (kv_Set (p_kv E) k v)" if k: "\<not> dataKey k" for k v
      unfolding act_keeps_def
    proof (intro allI impI)
      fix x q x'
      assume x: "?P x" and q: "kv_Set (p_kv E) k v x = (q, x')"
      obtain y where "kv_Set (p_kv E) k v x = (Inr (), y)" "wf y" "kv_Writable (p_kv E) y" "content y = (content x)(k \<mapsto> v)"
        using put x by blast
      then show "?P x'" using x q k saves_Set [of x k v q x'] by auto
    qed
    show "act_keeps ?P (kv_Delete (p_kv E) k)" if k: "\<not> dataKey k" for k
      unfolding act_keeps_def
    proof (intro allI impI)
      fix x q x'
      assume x: "?P x" and q: "kv_Delete (p_kv E) k x = (q, x')"
      obtain y where "kv_Delete (p_kv E) k x = (Inr (content x k \<noteq> None), y)" "wf y" "kv_Writable (p_kv E) y"
        "content y = (content x)(k := None)"
        using del x by blast
      then show "?P x'" using x q k saves_Delete [of x k q x'] by auto
    qed
  qed
  from act_keepsD [OF this _ u(1)] have "?P u" using repD(1,2) [OF rep] by blast
  then have "rep cat cap (e, t\<lparr>t_tx := u\<rparr>) (a\<lparr>a_rows := a_rows a\<rparr>)"
    by (intro rep_tx [OF rep] dbRep_same [OF repD(6) [OF rep]]) auto
  then show ?thesis using u(2) by simp
qed

lemma side_mode:
  assumes rep: "rep cat cap (e, t) a" and r: "andThen (txnMode E direct m) (\<lambda>_. NoOut) (e, t) = (r, s')"
    and m: "\<And>P. (\<And>k v. \<not> dataKey k \<Longrightarrow> act_keeps P (kv_Set (p_kv E) k v)) \<Longrightarrow>
      (\<And>k. \<not> dataKey k \<Longrightarrow> act_keeps P (kv_Delete (p_kv E) k)) \<Longrightarrow> act_keeps P m"
  shows "rep cat cap s' a \<and> (\<forall>out. r = Inr out \<longrightarrow> out = NoOut)"
proof -
  obtain r0 where r0: "txnMode E direct m (e, t) = (r0, s')" "r = map_sum id (\<lambda>_. NoOut) r0" using r by (rule andThen_cases)
  then have "onKv (onTx m) (e, t) = (r0, s')" using repD(3) [OF rep] by (simp add: txnMode_def)
  from side_kv [OF rep this m] show ?thesis using r0(2) by (cases r0) auto
qed

lemma sim_restart:
  assumes rep: "rep cat cap s a" and r: "runOp E (OpRestartIdentity table column v) s = (r, s')"
  shows "rep cat cap s' a \<and> (\<forall>out. r = Inr out \<longrightarrow> out = NoOut)"
proof -
  obtain r0 where r0: "txnRestartIdentity E table column v s = (r0, s')" "r = map_sum id (\<lambda>_. NoOut) r0"
    using r [unfolded runOp.simps] by (rule andThen_cases)
  have out: "\<forall>out. r = Inr out \<longrightarrow> out = NoOut" using r0(2) by (cases r0) auto
  show ?thesis using r0(1) [unfolded txnRestartIdentity_def] rep
  proof (cases rule: with_desc)
    case (ok desc e t)
    show ?thesis
    proof (cases "\<exists>c. identityCol desc table column = Inr c \<and> \<not> v <s 1")
      case True
      then obtain c where c: "identityCol desc table column = Inr c" "\<not> v <s 1" by blast
      let ?k = "identitySeqKey (d_ID desc) (c_ID c)"
      obtain q s1 where q: "onKv (onTx (kv_Set (p_kv E) ?k (be64 v))) (e, t) = (q, s1)"
        by (cases "onKv (onTx (kv_Set (p_kv E) ?k (be64 v))) (e, t)")
      have k: "\<not> dataKey ?k" by simp
      have rp: "rep cat cap s1 a" by (rule side_kv [OF ok(2) q]) (use k in blast)
      then have "s' = s1" using ok(1) c q by (cases q; cases s1) (auto simp: Let_def txnRep_def)
      then show ?thesis using rp out by simp
    next
      case False
      then have "s' = (e, t)" using ok(1) by (cases "identityCol desc table column") auto
      then show ?thesis using ok(2) out by simp
    qed
  qed (use out in simp)
qed

lemma sim_side:
  assumes rep: "rep cat cap s a" and op: "sideOp op" and r: "runOp E op s = (r, s')"
  shows "simulates cat cap op r s' a"
proof -
  obtain e t where s: "s = (e, t)" by (cases s)
  note rp = rep [unfolded s]
  have "rep cat cap s' a \<and> (\<forall>out. r = Inr out \<longrightarrow> out = NoOut)"
  proof (cases op)
    case (OpNextSeq name)
    show ?thesis by (rule side_mode [OF rp r [unfolded OpNextSeq runOp.simps s txnNextSeq_def] side_keeps(1)])
  next
    case (OpSetSeq name v)
    show ?thesis by (rule side_mode [OF rp r [unfolded OpSetSeq runOp.simps s txnSetSeq_def] side_keeps(2)])
  next
    case (OpDeleteSeq name)
    show ?thesis by (rule side_mode [OF rp r [unfolded OpDeleteSeq runOp.simps s txnDeleteSeq_def] side_keeps(3)])
  next
    case (OpNextVal name)
    show ?thesis by (rule side_mode [OF rp r [unfolded OpNextVal runOp.simps s NextVal_def] side_keeps(4)])
  next
    case (OpSetVal name v called)
    show ?thesis by (rule side_mode [OF rp r [unfolded OpSetVal runOp.simps s SetVal_def] side_keeps(5)])
  next
    case (OpRestartIdentity table column v)
    show ?thesis by (rule sim_restart [OF rep r [unfolded OpRestartIdentity]])
  qed (use op in simp_all)
  then show ?thesis using absOp.side [OF op, of "p_lib E" cat cap a] by (auto split: sum.splits)
qed

lemma sim_op:
  assumes rep: "rep cat cap s a" and ok: "opOk op" and r: "runOp E op s = (r, s')"
  shows "simulates cat cap op r s' a"
proof (cases "sideOp op")
  case True
  then show ?thesis using sim_side rep r by blast
next
  case False
  show ?thesis
  proof (cases op)
    case (OpInsert table vals)
    show ?thesis unfolding OpInsert by (rule sim_insert [OF rep _ r [unfolded OpInsert]]) (use ok OpInsert in simp)
  next
    case (OpUpdate table pkVals sets)
    show ?thesis unfolding OpUpdate by (rule sim_update [OF rep _ r [unfolded OpUpdate]]) (use ok OpUpdate in simp)
  next
    case (OpDelete table pkVals)
    show ?thesis unfolding OpDelete by (rule sim_delete [OF rep r [unfolded OpDelete]])
  next
    case (OpGet table pkVals)
    show ?thesis unfolding OpGet by (rule sim_get [OF rep r [unfolded OpGet]])
  next
    case (OpTruncate table restart)
    show ?thesis unfolding OpTruncate by (rule sim_truncate [OF rep r [unfolded OpTruncate]])
  next
    case OpSavepoint
    show ?thesis unfolding OpSavepoint by (rule sim_savepoint [OF rep r [unfolded OpSavepoint]])
  next
    case (OpRollbackTo sp)
    show ?thesis unfolding OpRollbackTo by (rule sim_rollback [OF rep r [unfolded OpRollbackTo]])
  next
    case (OpRelease sp)
    show ?thesis unfolding OpRelease by (rule sim_release [OF rep r [unfolded OpRelease]])
  qed (use False in simp_all)
qed

end

subsection \<open>Clients\<close>

text \<open>
  The function a caller passes to \<open>WriteTxn\<close>: a tree of operations, each continued according to its
  outcome, that ends by returning nil or an error. Errors of single operations may be handled.
\<close>

datatype client = Finish | Abort err | Do txnOp "txnOut res \<Rightarrow> client"

primrec runClient :: "('db, 'tx) deps \<Rightarrow> client \<Rightarrow> (('db, 'z) engine_scheme \<times> 'tx txn, unit) act" where
  "runClient E Finish = act_return ()"
| "runClient E (Abort err) = act_fail err"
| "runClient E (Do op k) = (\<lambda>s. case runOp E op s of (r, s') \<Rightarrow> runClient E (k r) s')"

primrec clientOk :: "client \<Rightarrow> bool" where
  "clientOk Finish = True"
| "clientOk (Abort err) = True"
| "clientOk (Do op k) = (opOk op \<and> (\<forall>r. clientOk (k r)))"

text \<open>The runs of a client on the abstract state that reach its end: an operation takes effect or is refused.\<close>

inductive absRun :: "golib \<Rightarrow> (string \<Rightarrow> tableDesc option res) \<Rightarrow> int64 \<Rightarrow> client \<Rightarrow> absTxn \<Rightarrow> absTxn \<Rightarrow> bool"
  for L cat cap where
  finish: "absRun L cat cap Finish a a"
| step: "absOp L cat cap op out a a' \<Longrightarrow> absRun L cat cap (k (Inr out)) a' a'' \<Longrightarrow> absRun L cat cap (Do op k) a a''"
| refuse: "absRun L cat cap (k (Inl err)) a a'' \<Longrightarrow> absRun L cat cap (Do op k) a a''"

inductive_cases absRun_Finish: "absRun L cat cap Finish a a'"
inductive_cases absRun_Abort: "absRun L cat cap (Abort err) a a'"
inductive_cases absRun_Do: "absRun L cat cap (Do op k) a a'"
inductive_cases absOp_insert: "absOp L cat cap (OpInsert table vals) out a a'"

context txn_env
begin

lemma sim_client:
  assumes "rep cat cap s a" "clientOk c" "runClient E c s = (r, s')"
  shows "\<exists>a'. rep cat cap s' a' \<and> (r = Inr () \<longrightarrow> absRun (p_lib E) cat cap c a a')"
  using assms
proof (induction c arbitrary: s a)
  case Finish
  then show ?case using absRun.finish by auto
next
  case (Do op k)
  obtain q s1 where q: "runOp E op s = (q, s1)" by (cases "runOp E op s")
  have run: "runClient E (k q) s1 = (r, s')" "clientOk (k q)" "opOk op" using Do.prems(2,3) q by simp_all
  note sim = sim_op [OF Do.prems(1) run(3) q]
  show ?case
  proof (cases q)
    case (Inl err)
    then have "rep cat cap s1 a" using sim by simp
    then obtain a' where "rep cat cap s' a'" "r = Inr () \<longrightarrow> absRun (p_lib E) cat cap (k q) a a'"
      using Do.IH [OF _ _ run(2,1)] by auto
    then show ?thesis using absRun.refuse Inl by blast
  next
    case (Inr out)
    then obtain a1 where a1: "absOp (p_lib E) cat cap op out a a1" "rep cat cap s1 a1" using sim by auto
    then obtain a' where "rep cat cap s' a'" "r = Inr () \<longrightarrow> absRun (p_lib E) cat cap (k q) a1 a'"
      using Do.IH [OF _ a1(2) run(2,1)] by auto
    then show ?thesis using absRun.step [OF a1(1)] Inr by blast
  qed
qed auto

text \<open>Whatever state it starts in, an operation keeps the snapshot, the write mode and the write cap.\<close>

abbreviation capOk :: "int64 \<Rightarrow> ('db, 'z) engine_scheme \<times> 'x \<Rightarrow> bool" where
  "capOk cap s \<equiv> \<not> e_occ (fst s) \<and> e_maxTxnWrites (fst s) = cap"

abbreviation inTxn :: "int64 \<Rightarrow> (key \<Rightarrow> bytes option) \<Rightarrow> 'db \<Rightarrow> ('db, 'z) engine_scheme \<times> 'tx txn \<Rightarrow> bool" where
  "inTxn cap b d s \<equiv> cl b d (fst s, t_tx (snd s)) \<and> capOk cap s"

lemma keep_onKv:
  assumes "act_keeps (cl b d) m" "act_keeps (capOk cap) m"
  shows "act_keeps (inTxn cap b d) (onKv m)"
  unfolding act_keeps_def
proof (intro allI impI)
  fix s r s'
  assume s: "inTxn cap b d s" and r: "onKv m s = (r, s')"
  obtain e u where m: "m (fst s, t_tx (snd s)) = (r, (e, u))" "s' = (e, (snd s)\<lparr>t_tx := u\<rparr>)"
    using r by (cases s) (auto simp: onKv_def split: prod.splits)
  then show "inTxn cap b d s'" using act_keepsD [OF assms(1) _ m(1)] act_keepsD [OF assms(2) _ m(1)] s by simp
qed

lemma cap_onTx: "act_keeps (capOk cap) (onTx m)"
  by (auto simp: act_keeps_def onTx_def split: prod.splits)

lemma keep_kv:
  assumes "\<And>b. act_keeps (txOn b) m"
  shows "act_keeps (inTxn cap b d) (onKv (onTx m))"
  by (rule keep_onKv [OF cl_onTx [OF assms] cap_onTx])

lemma keep_memory: "act_keeps (inTxn cap b d) (onEng (CheckMemory E))"
  unfolding act_keeps_def inTx_def onEng_def
  using CheckMemory_fields by (fastforce simp: cacheOk_def split: prod.splits)

lemma keep_modify: "(\<And>t. t_tx (f t) = t_tx t) \<Longrightarrow> act_keeps (inTxn cap b d) (txnModify f)"
  by (auto simp: act_keeps_def)

lemma cap_table: "act_keeps (capOk cap) (tableFromView E name)"
  unfolding act_keeps_def by (auto simp: cacheStore_def split: option.splits sum.splits if_splits)

lemma cl_table: "act_keeps (cl b d) (tableFromView E name)"
  unfolding act_keeps_def
proof (intro allI impI)
  fix s r s'
  assume s: "cl b d s" and r: "tableFromView E name s = (r, s')"
  obtain e t where et: "s = (e, t)" by (cases s)
  have t: "wf t" "cacheOk (p_desc E) e" using s et by (simp_all add: inTx_def)
  from tableFromView_tx [OF t, of name] obtain e' where "s' = (e', t)" "cacheOk (p_desc E) e'" "sameBut e e'"
    using r unfolding et by (metis Pair_inject)
  then show "cl b d s'" using s et sameBut_fields(1,2) [of e e'] by (simp add: inTx_def)
qed

lemma keep_desc: "act_keeps (inTxn cap b d) (txnDesc E name)"
proof -
  have k: "act_keeps (inTxn cap b d) (act_bind (onKv (tableFromView E name)) (\<lambda>x.
      act_bind (txnModify (\<lambda>t. t\<lparr>t_descs := (t_descs t)(name \<mapsto> x)\<rparr>)) (\<lambda>_. act_return x)))"
    by (intro act_keeps_bind keep_onKv cl_table cap_table keep_modify act_keeps_pure) simp
  have "act_keeps (inTxn cap b d) (txnTable E name)"
    unfolding act_keeps_def
  proof (intro allI impI)
    fix s r s'
    assume s: "inTxn cap b d s" and r: "txnTable E name s = (r, s')"
    show "inTxn cap b d s'"
    proof (cases "t_descs (snd s) name")
      case None
      show ?thesis by (rule act_keepsD [OF k s]) (use r None in \<open>simp add: txnTable_def\<close>)
    next
      case (Some x)
      then have "s' = s" using r by (simp add: txnTable_def)
      then show ?thesis using s by simp
    qed
  qed
  then show ?thesis unfolding txnDesc_def by (intro act_keeps_bind) (auto split: option.split)
qed

lemma cap_insertRow: "act_keeps (capOk cap) (insertRow E desc vals)"
  unfolding act_keeps_def
proof (intro allI impI)
  fix s r s'
  assume s: "capOk cap s" and r: "insertRow E desc vals s = (r, s')"
  obtain q where "CheckMemory E (fst s) = (q, fst s')"
    using insertRow_eng [of "fst s" desc vals "snd s" r "fst s'" "snd s'"] s r by auto
  then show "capOk cap s'" using CheckMemory_fields s by auto
qed

lemma keep_when:
  assumes "act_keeps (inTxn cap b d) g" "\<And>s. inTxn cap b d s \<Longrightarrow> f s = g s"
  shows "act_keeps (inTxn cap b d) f"
  unfolding act_keeps_def
proof (intro allI impI)
  fix s r s'
  assume s: "inTxn cap b d s" and r: "f s = (r, s')"
  then show "inTxn cap b d s'" using act_keepsD [OF assms(1) s] assms(2) by metis
qed

lemma txOn_saves:
  "act_keeps (txOn b) (kv_Savepoint (p_kv E))" "act_keeps (txOn b) (kv_RollbackTo (p_kv E) sp)" "act_keeps (txOn b) (kv_Release (p_kv E) sp)"
  unfolding act_keeps_def
  by (blast dest: Savepoint [THEN conjunct1] base_Savepoint)
    (blast dest: RollbackTo [THEN conjunct1] base_RollbackTo, blast dest: Release [THEN conjunct1] base_Release)

lemma keep_mode: "(\<And>b. act_keeps (txOn b) m) \<Longrightarrow> act_keeps (inTxn cap b d) (txnMode E direct m)"
  by (rule keep_when [OF keep_kv]) (auto simp: txnMode_def)

lemma keep_CheckWrites: "act_keeps (inTxn cap b d) (CheckWrites n)"
  unfolding act_keeps_def CheckWrites_def by (auto simp: Let_def split: if_splits)

lemma keep_count: "act_keeps (inTxn cap b d) countWrite"
  unfolding countWrite_def by (rule keep_modify) simp

lemma keep_dirty:
  "act_keeps (inTxn cap b d) (\<lambda>s. if e_occ (fst s) then txnModify (\<lambda>t. t\<lparr>t_dirty := t_dirty t @ [k]\<rparr>) s else (Inr (), s))"
  unfolding act_keeps_def by auto

lemma keep_marks: "t_tx (restoreMark sp t) = t_tx t" "t_tx (dropMark sp t) = t_tx t"
  by (auto simp: restoreMark_def dropMark_def split: option.split)

lemma keep_op: "act_keeps (inTxn cap b d) (runOp E op)"
proof (cases op)
  case (OpInsert table vals)
  show ?thesis unfolding OpInsert runOp.simps txnInsertReturning_def
    by (intro act_keeps_bind act_keeps_pure keep_CheckWrites keep_desc keep_count keep_onKv cl_insertRow cap_insertRow)
next
  case (OpUpdate table pkVals sets)
  show ?thesis unfolding OpUpdate runOp.simps txnUpdateReturning_def
    by (intro act_keeps_bind act_keeps_pure keep_CheckWrites keep_desc keep_memory keep_kv txOn_updateRow)
      (auto intro!: act_keeps_bind keep_count split: option.split)
next
  case (OpDelete table pkVals)
  show ?thesis unfolding OpDelete runOp.simps txnDelete_def
    by (intro act_keeps_bind act_keeps_pure keep_desc keep_kv txOn_deleteRow)
next
  case (OpGet table pkVals)
  show ?thesis unfolding OpGet runOp.simps txnGet_def
    by (intro act_keeps_bind act_keeps_pure keep_desc keep_kv keeps_kv) (auto intro!: act_keeps_bind split: option.split)
next
  case (OpTruncate table restart)
  show ?thesis unfolding OpTruncate runOp.simps txnTruncate_def Let_def
    by (intro act_keeps_bind act_keeps_if act_keeps_pure keep_desc keep_kv keeps_kv keep_dirty)
next
  case OpSavepoint
  show ?thesis unfolding OpSavepoint runOp.simps Savepoint_def
    by (intro act_keeps_bind act_keeps_pure keep_kv txOn_saves keep_modify) simp
next
  case (OpRollbackTo sp)
  show ?thesis unfolding OpRollbackTo runOp.simps RollbackTo_def
    by (intro act_keeps_bind act_keeps_pure keep_kv txOn_saves keep_modify keep_marks)
next
  case (OpRelease sp)
  show ?thesis unfolding OpRelease runOp.simps Release_def
    by (intro act_keeps_bind act_keeps_pure keep_kv txOn_saves keep_modify keep_marks)
next
  case (OpRestartIdentity table column v)
  show ?thesis unfolding OpRestartIdentity runOp.simps txnRestartIdentity_def Let_def
    by (intro act_keeps_bind act_keeps_if act_keeps_pure keep_desc keep_kv keeps_kv keep_dirty)
qed (simp_all add: txnNextSeq_def txnSetSeq_def txnDeleteSeq_def NextVal_def SetVal_def,
  (intro act_keeps_bind act_keeps_pure keep_mode side_keeps keeps_kv)+)

lemma keep_client: "act_keeps (inTxn cap b d :: ('db, 'z) engine_scheme \<times> 'tx txn \<Rightarrow> bool) (runClient E c)"
proof (induction c)
  case (Do op k)
  show ?case unfolding act_keeps_def
  proof (intro allI impI)
    fix s s' :: "('db, 'z) engine_scheme \<times> 'tx txn" and r
    assume s: "inTxn cap b d s" and r: "runClient E (Do op k) s = (r, s')"
    obtain q s1 where q: "runOp E op s = (q, s1)" by (cases "runOp E op s")
    have s1: "inTxn cap b d s1" by (rule act_keepsD [OF keep_op s q])
    show "inTxn cap b d s'" by (rule act_keepsD [OF Do.IH [OF rangeI] s1]) (use r q in simp)
  qed
qed (auto simp: act_keeps_def)

subsection \<open>Whole transactions\<close>

lemma eUpdate_start:
  assumes "dwf (e_kv e)" "eUpdate E fn e = (r, e')"
  obtains (err) d where "isl r" "e' = e\<lparr>e_kv := d\<rparr>" "dwf d" "dcontent d = dcontent (e_kv e)"
  | (run) t d where "wf t" "kv_Writable (p_kv E) t" "content t = dcontent (e_kv e)" "base t = dcontent d" "saves t = []" "dwf d"
      "dcontent d = dcontent (e_kv e)" "finishTx E fn t (e\<lparr>e_kv := d\<rparr>) = (r, e')"
proof (cases "db_Begin (p_db E) True (e_kv e)")
  case (Pair q d)
  show thesis
  proof (cases q)
    case (Inl x)
    show thesis by (rule err [of d]) (use assms Pair Inl db_Begin_err in \<open>auto simp: eUpdate_def withDb_def\<close>)
  next
    case (Inr t)
    note b = begin_rw [OF assms(1) Pair [unfolded Inr]] Begin_saves [OF assms(1) Pair [unfolded Inr]]
    show thesis by (rule run [of t d]) (use assms(2) Pair Inr b in \<open>auto simp: eUpdate_def withDb_def\<close>)
  qed
qed

lemma closureOk_client:
  "closureOk (\<lambda>e. serialOk e \<and> e_maxTxnWrites e = cap) (runTxn E ser (runClient E c) :: (('db, 'z) engine_scheme \<times> 'tx, unit \<times> 'tx txn) act)"
  unfolding closureKeeps_def act_keeps_def
proof (intro allI impI)
  fix b d and s s' :: "('db, 'z) engine_scheme \<times> 'tx" and r
  assume s: "case s of (f, u) \<Rightarrow> txOn b u \<and> (serialOk f \<and> e_maxTxnWrites f = cap) \<and> e_kv f = d"
    and r: "runTxn E ser (runClient E c) s = (r, s')"
  obtain e u where es: "s = (e, u)" by (cases s)
  let ?u = "if ser then kv_TrackReads (p_kv E) u else u"
  let ?s0 = "(e\<lparr>e_writerGID := p_gid E\<rparr>, newTxn ?u False)"
  obtain q e1 t where q: "runClient E c ?s0 = (q, (e1, t))" by (cases "runClient E c ?s0") auto
  have "inTxn cap b d ?s0" using s es base_Mark [of u] by (auto simp: inTx_def newTxn_def cacheOk_def)
  from act_keepsD [OF keep_client this q] have k: "inTxn cap b d (e1, t)" .
  have "s' = (e1\<lparr>e_writerGID := 0\<rparr>, t_tx t)" using r q es by (cases ser) (auto simp: runTxn_def Let_def)
  then show "case s' of (f, u) \<Rightarrow> txOn b u \<and> (serialOk f \<and> e_maxTxnWrites f = cap) \<and> e_kv f = d"
    using k by (auto simp: inTx_def cacheOk_def)
qed

lemma flush_fields:
  fixes e :: "('db, 'z) engine_scheme"
  shows "e_kv (fst (flushSeqInvalidations t e)) = e_kv e" "e_occ (fst (flushSeqInvalidations t e)) = e_occ e"
  "e_descCache (fst (flushSeqInvalidations t e)) = e_descCache e" "e_maxTxnWrites (fst (flushSeqInvalidations t e)) = e_maxTxnWrites e"
proof -
  have k: "e_kv (fold killAlloc ps f) = e_kv f \<and> e_occ (fold killAlloc ps f) = e_occ f \<and>
      e_descCache (fold killAlloc ps f) = e_descCache f \<and> e_maxTxnWrites (fold killAlloc ps f) = e_maxTxnWrites f"
    for ps and f :: "('db, 'z) engine_scheme"
    by (induction ps arbitrary: f) (auto simp: killAlloc_def)
  have "e_kv (fold invalidateCounterPrefix ps f) = e_kv f \<and> e_occ (fold invalidateCounterPrefix ps f) = e_occ f \<and>
      e_descCache (fold invalidateCounterPrefix ps f) = e_descCache f \<and> e_maxTxnWrites (fold invalidateCounterPrefix ps f) = e_maxTxnWrites f"
    for ps and f :: "('db, 'z) engine_scheme"
    by (induction ps arbitrary: f) (auto simp: invalidateCounterPrefix_def Let_def k)
  from this [of "t_dirty t" e]
  show "e_kv (fst (flushSeqInvalidations t e)) = e_kv e" "e_occ (fst (flushSeqInvalidations t e)) = e_occ e"
    "e_descCache (fst (flushSeqInvalidations t e)) = e_descCache e" "e_maxTxnWrites (fst (flushSeqInvalidations t e)) = e_maxTxnWrites e"
    by (simp_all add: flushSeqInvalidations_def)
qed

lemma runTxn_rep:
  assumes e: "serialOk e" "e_maxTxnWrites e = cap" and t: "wf t" "kv_Writable (p_kv E) t" "saves t = []"
    and db: "dbRep (p_desc E) cat (content t) R" and c: "clientOk c"
    and r: "runTxn E ser (runClient E c) (e, t) = (Inr x, (e', t'))"
  shows "\<exists>a. absRun (p_lib E) cat cap c \<lparr>a_rows = R, a_writes = 0, a_marks = []\<rparr> a \<and> dbRep (p_desc E) cat (content t') (a_rows a)"
proof -
  let ?u = "if ser then kv_TrackReads (p_kv E) t else t"
  let ?s0 = "(e\<lparr>e_writerGID := p_gid E\<rparr>, newTxn ?u False)"
  obtain q e1 v where q: "runClient E c ?s0 = (q, (e1, v))" by (cases "runClient E c ?s0") auto
  have "rep cat cap ?s0 \<lparr>a_rows = R, a_writes = 0, a_marks = []\<rparr>"
    using e t db saves_Mark [OF t(1)] by (auto simp: txnRep_def newTxn_def cacheOk_def)
  from sim_client [OF this c q] obtain a where a: "rep cat cap (e1, v) a"
    "q = Inr () \<longrightarrow> absRun (p_lib E) cat cap c \<lparr>a_rows = R, a_writes = 0, a_marks = []\<rparr> a" by blast
  have "q = Inr ()" "t' = t_tx v" using r q by (cases ser; auto simp: runTxn_def Let_def split: sum.splits)+
  then show ?thesis using a repD(6) [OF a(1)] by auto
qed

lemma WriteTxn_run:
  assumes e: "serialOk e" "e_maxTxnWrites e = cap" "dwf (e_kv e)" and db: "dbRep (p_desc E) cat (dcontent (e_kv e)) R"
    and c: "clientOk c" and r: "writeTxn E ser (runClient E c) e = (r, e')"
  shows "(serialOk e' \<and> e_maxTxnWrites e' = cap) \<and> dwf (e_kv e') \<and>
    (dcontent (e_kv e') = dcontent (e_kv e) \<and> isl r \<or>
     (\<exists>a. absRun (p_lib E) cat cap c \<lparr>a_rows = R, a_writes = 0, a_marks = []\<rparr> a \<and>
        dbRep (p_desc E) cat (dcontent (e_kv e')) (a_rows a)))"
proof -
  let ?fn = "runTxn E ser (runClient E c)" and ?J = "\<lambda>e :: ('db, 'z) engine_scheme. serialOk e \<and> e_maxTxnWrites e = cap"
  have J: "?J (e\<lparr>e_kv := k\<rparr>) \<longleftrightarrow> ?J e" for e k by (simp add: cacheOk_def)
  obtain q e1 where u: "eUpdate E ?fn e = (q, e1)" by (cases "eUpdate E ?fn e")
  have "?J e1 \<and> dwf (e_kv e1) \<and> (dcontent (e_kv e1) = dcontent (e_kv e) \<and> isl q \<or>
      (\<exists>a. absRun (p_lib E) cat cap c \<lparr>a_rows = R, a_writes = 0, a_marks = []\<rparr> a \<and>
        dbRep (p_desc E) cat (dcontent (e_kv e1)) (a_rows a)))"
    using e(3) u
  proof (cases rule: eUpdate_start)
    case (run t d)
    have st: "?J (e\<lparr>e_kv := d\<rparr>)" "base t = dcontent (e_kv (e\<lparr>e_kv := d\<rparr>))" "dwf (e_kv (e\<lparr>e_kv := d\<rparr>))"
      "dbRep (p_desc E) cat (content t) R" using J e(1,2) run db by auto
    show ?thesis
    proof (cases q)
      case (Inl err)
      have er: "finishTx E ?fn t (e\<lparr>e_kv := d\<rparr>) = (Inl err, e1)" using run(8) Inl by simp
      note f = finishTx_err [OF closureOk_client J st(1) run(1) st(2,3) er]
      have "\<exists>a. absRun (p_lib E) cat cap c \<lparr>a_rows = R, a_writes = 0, a_marks = []\<rparr> a \<and> dbRep (p_desc E) cat (content t') (a_rows a)"
        if "?fn (e\<lparr>e_kv := d\<rparr>, t) = (Inr x, (e2, t'))" for x e2 t'
        by (rule runTxn_rep [OF _ _ run(1,2,5) st(4) c that]) (use st(1) in auto)
      then show ?thesis using f run(7) Inl by fastforce
    next
      case (Inr x)
      have ok: "finishTx E ?fn t (e\<lparr>e_kv := d\<rparr>) = (Inr x, e1)" using run(8) Inr by simp
      obtain e2 t' d' where f: "?fn (e\<lparr>e_kv := d\<rparr>, t) = (Inr x, (e2, t'))" "e1 = e2\<lparr>e_kv := d'\<rparr>" "?J e1" "dwf d'" "dcontent d' = content t'"
        using finishTx_ok [OF closureOk_client J st(1) run(1) st(2,3) ok] by blast
      have "\<exists>a. absRun (p_lib E) cat cap c \<lparr>a_rows = R, a_writes = 0, a_marks = []\<rparr> a \<and> dbRep (p_desc E) cat (content t') (a_rows a)"
        by (rule runTxn_rep [OF _ _ run(1,2,5) st(4) c f(1)]) (use st(1) in auto)
      then show ?thesis using f by auto
    qed
  qed (use e J in auto)
  moreover have "e' = e \<and> isl r \<or> (\<exists>t :: 'tx txn. e' = fst (flushSeqInvalidations t e1) \<and> \<not> isl q) \<or> e' = e1 \<and> isl q \<and> isl r"
    using r [unfolded writeTxn_def]
  proof (cases rule: act_bind_cases)
    case err
    then show ?thesis using checkReentrantWrite_id by auto
  next
    case (ok x s')
    then have "act_bind (eUpdate E ?fn) (\<lambda>(x, t) e. (Inr x, fst (flushSeqInvalidations t e))) e = (r, e')"
      using checkReentrantWrite_id by auto
    then show ?thesis using u by (cases q) auto
  qed
  ultimately show ?thesis using e by (auto simp: cacheOk_def flush_fields)
qed

end

subsection \<open>Invariants of the abstract transaction\<close>

text \<open>The counted writes lie within the cap, now and at every mark, and savepoints are distinct.\<close>

definition absInv :: "int64 \<Rightarrow> absTxn \<Rightarrow> bool" where
  "absInv cap a \<longleftrightarrow> (0 <=s a_writes a \<and> a_writes a <=s cap) \<and> (\<forall>(sp, R, w)\<in>set (a_marks a). 0 <=s w \<and> w <=s cap) \<and>
     distinct (map fst (a_marks a))"

lemma sint_succ:
  fixes w :: int64
  assumes "w <=s cap" "cap <s 0x7FFFFFFFFFFFFFFF"
  shows "sint (w + 1) = sint w + 1"
proof -
  have "sint w < 2 ^ 63 - 1" using assms by (simp add: word_sle_eq word_sless_alt)
  then show ?thesis using sint64_range [of w] by (simp add: sint_plus64)
qed

lemma absInv_step:
  assumes "absOp L cat cap op out a a'" "absInv cap a" "0 <s cap" "cap <s 0x7FFFFFFFFFFFFFFF"
  shows "absInv cap a'"
  using assms
proof (cases rule: absOp.cases)
  case (ins table d vals row)
  have "0 <=s a_writes a + 1 \<and> a_writes a + 1 <=s cap"
    using ins(5) assms(2-4) sint_succ [of "a_writes a" cap] by (auto simp: mayWrite_def absInv_def word_sle_eq word_sless_alt)
  then show ?thesis using ins assms(2) by (simp add: absInv_def)
next
  case (upd table d pkVals pk u sets new)
  have "0 <=s a_writes a + 1 \<and> a_writes a + 1 <=s cap"
    using upd(5) assms(2-4) sint_succ [of "a_writes a" cap] by (auto simp: mayWrite_def absInv_def word_sle_eq word_sless_alt)
  then show ?thesis using upd assms(2) by (simp add: absInv_def)
qed (auto simp: absInv_def)

text \<open>A client that leaves a savepoint and the ones below it standing; it may roll back to it.\<close>

fun opAvoids :: "nat set \<Rightarrow> nat \<Rightarrow> txnOp \<Rightarrow> bool" where
  "opAvoids S sp (OpRelease x) \<longleftrightarrow> x \<notin> insert sp S"
| "opAvoids S sp (OpRollbackTo x) \<longleftrightarrow> x \<notin> S"
| "opAvoids S sp _ \<longleftrightarrow> True"

primrec clientAvoids :: "nat set \<Rightarrow> nat \<Rightarrow> client \<Rightarrow> bool" where
  "clientAvoids S sp Finish = True"
| "clientAvoids S sp (Abort err) = True"
| "clientAvoids S sp (Do op k) = (opAvoids S sp op \<and> (\<forall>r. clientAvoids S sp (k r)))"

lemma marks_below:
  assumes "pre @ m # post = p @ n # q" "n \<notin> set pre"
  obtains "p = pre" "n = m" "q = post" | p' where "p = pre @ m # p'" "post = p' @ n # q"
  using assms by (auto simp: append_eq_append_conv2 Cons_eq_append_conv append_eq_Cons_conv)

lemma marks_kept:
  assumes st: "absOp L cat cap op out a a'" and m: "a_marks a = pre @ (sp, R, w) # post" "distinct (map fst (a_marks a))"
    and av: "opAvoids (fst ` set pre) sp op"
  shows "\<exists>post'. a_marks a' = pre @ (sp, R, w) # post' \<and> distinct (map fst (a_marks a'))"
  using st
proof (cases rule: absOp.cases)
  case (rollback p x R' w' q)
  have "pre @ (sp, R, w) # post = p @ (x, R', w') # q" using rollback(4) m(1) by simp
  then show ?thesis
  proof (rule marks_below)
    show "(x, R', w') \<notin> set pre" using av rollback(1) by force
  qed (use rollback m in auto)
next
  case (release p x R' w' q)
  have "pre @ (sp, R, w) # post = p @ (x, R', w') # q" using release(4) m(1) by simp
  then show ?thesis
  proof (rule marks_below)
    show "(x, R', w') \<notin> set pre" using av release(1) by force
  qed (use release m av in auto)
qed (use m in auto)

context txn_env
begin

lemma client_marks:
  assumes "rep cat cap s a" "clientOk c" "runClient E c s = (r, s')"
    "a_marks a = pre @ (sp, R, w) # post" "clientAvoids (fst ` set pre) sp c"
  shows "\<exists>a' post'. rep cat cap s' a' \<and> a_marks a' = pre @ (sp, R, w) # post'"
  using assms
proof (induction c arbitrary: s a post)
  case (Do op k)
  obtain q s1 where q: "runOp E op s = (q, s1)" by (cases "runOp E op s")
  have run: "runClient E (k q) s1 = (r, s')" "clientOk (k q)" "opOk op" "opAvoids (fst ` set pre) sp op" "clientAvoids (fst ` set pre) sp (k q)"
    using Do.prems(2,3,5) q by simp_all
  have d: "distinct (map fst (a_marks a))"
    using rep_ids [of cat cap "fst s" "snd s" a] saves_distinct [OF repD(1) [of cat cap "fst s" "snd s" a]] Do.prems(1) by simp
  obtain a1 post1 where a1: "rep cat cap s1 a1" "a_marks a1 = pre @ (sp, R, w) # post1"
  proof (cases q)
    case (Inl err)
    then show ?thesis using that [of a] sim_op [OF Do.prems(1) run(3) q] Do.prems(4) by simp
  next
    case (Inr out)
    then obtain a2 where "absOp (p_lib E) cat cap op out a a2" "rep cat cap s1 a2" using sim_op [OF Do.prems(1) run(3) q] by auto
    then show ?thesis using marks_kept [OF _ Do.prems(4) d run(4)] that by blast
  qed
  show ?case by (rule Do.IH [OF rangeI a1(1) run(2,1) a1(2) run(5)])
qed auto

lemma savepoint_back:
  assumes rep: "rep cat cap s a" and sp: "runOp E OpSavepoint s = (Inr (SaveOut sp), s1)"
    and c: "clientOk c" "clientAvoids (fst ` set (a_marks a)) sp c" "runClient E c s1 = (r, s2)"
    and bk: "runOp E (OpRollbackTo sp) s2 = (Inr out, s3)"
  shows "rep cat cap s3 (a\<lparr>a_marks := a_marks a @ [(sp, a_rows a, a_writes a)]\<rparr>)"
proof -
  obtain a1 where a1: "absOp (p_lib E) cat cap OpSavepoint (SaveOut sp) a a1" "rep cat cap s1 a1" using sim_savepoint [OF rep sp] by auto
  have m1: "a_marks a1 = a_marks a @ (sp, a_rows a, a_writes a) # []" using a1(1) by (cases rule: absOp.cases) auto
  obtain a2 post where a2: "rep cat cap s2 a2" "a_marks a2 = a_marks a @ (sp, a_rows a, a_writes a) # post"
    using client_marks [OF a1(2) c(1,3) m1 c(2)] by blast
  obtain a3 where a3: "absOp (p_lib E) cat cap (OpRollbackTo sp) out a2 a3" "rep cat cap s3 a3" using sim_rollback [OF a2(1) bk] by auto
  have d: "distinct (map fst (a_marks a2))"
    using rep_ids [of cat cap "fst s2" "snd s2" a2] saves_distinct [OF repD(1) [of cat cap "fst s2" "snd s2" a2]] a2(1) by simp
  have "a3 = \<lparr>a_rows = a_rows a, a_writes = a_writes a, a_marks = a_marks a @ [(sp, a_rows a, a_writes a)]\<rparr>"
    using a3(1)
  proof (cases rule: absOp.cases)
    case (rollback pre R w post')
    have e: "a_marks a @ (sp, a_rows a, a_writes a) # post = pre @ (sp, R, w) # post'" using rollback(3) a2(2) by simp
    have "(sp, R, w) \<notin> set (a_marks a)" using d a2(2) by force
    from e this show ?thesis by (rule marks_below) (use rollback d a2(2) in auto)
  qed simp
  then show ?thesis using a3(2) by (cases a) simp
qed

lemma client_inv:
  assumes "rep cat cap s a" "clientOk c" "runClient E c s = (r, s')" "absInv cap a" "0 <s cap" "cap <s 0x7FFFFFFFFFFFFFFF"
  shows "\<exists>a'. rep cat cap s' a' \<and> absInv cap a'"
  using assms
proof (induction c arbitrary: s a)
  case (Do op k)
  obtain q s1 where q: "runOp E op s = (q, s1)" by (cases "runOp E op s")
  have run: "runClient E (k q) s1 = (r, s')" "clientOk (k q)" "opOk op" using Do.prems(2,3) q by simp_all
  obtain a1 where a1: "rep cat cap s1 a1" "absInv cap a1"
  proof (cases q)
    case (Inl err)
    then show ?thesis using that [of a] sim_op [OF Do.prems(1) run(3) q] Do.prems(4) by simp
  next
    case (Inr out)
    then obtain a2 where "absOp (p_lib E) cat cap op out a a2" "rep cat cap s1 a2" using sim_op [OF Do.prems(1) run(3) q] by auto
    then show ?thesis using absInv_step [OF _ Do.prems(4-6)] that by blast
  qed
  show ?case by (rule Do.IH [OF rangeI a1(1) run(2,1) a1(2) Do.prems(5,6)])
qed auto

end

subsection \<open>Correctness of transactions\<close>

interpretation memT: txn_env "memDeps C S V" mem_wf mem_content al_sorted map_of mem_base "\<lambda>t. set (mt_wrote t)" mem_saves for C S V
proof (intro txn_env.intro txn_env_axioms.intro memE.engine_env_axioms)
  show "kv_save (p_kv (memDeps C S V)) mem_wf mem_content mem_saves" unfolding memDeps_simps by (rule mem.kv_save_axioms)
qed (auto simp: memKv_def memDb_def mem_begin_def mem_saves_def mem_base_def Let_def split: if_splits option.splits prod.splits list.splits)

text \<open>C10. A transaction refines an atomic change of the tables. In the default write mode, \<open>WriteTxn\<close> with any
  client that inserts, updates, deletes, reads, truncates, sets savepoints, rolls back to them and
  draws from sequences, handling the errors it likes, leaves the store either with exactly the tables
  that the client's operations produce on sets of rows, or unchanged; success means the former.
  Each operation took effect completely or was refused, and a savepoint restores every table.\<close>

theorem write_txn_refines:
  assumes "txn_env E ok content dwf dcontent base written saves" "\<not> e_occ e \<and> cacheOk (p_desc E) e" "dwf (e_kv e)"
    "dbRep (p_desc E) cat (dcontent (e_kv e)) R" "clientOk c" "writeTxn E ser (runClient E c) e = (r, e')"
  shows "(\<not> e_occ e' \<and> cacheOk (p_desc E) e') \<and> dwf (e_kv e') \<and>
    (dcontent (e_kv e') = dcontent (e_kv e) \<and> isl r \<or>
     (\<exists>a. absRun (p_lib E) cat (e_maxTxnWrites e) c \<lparr>a_rows = R, a_writes = 0, a_marks = []\<rparr> a \<and>
        dbRep (p_desc E) cat (dcontent (e_kv e')) (a_rows a)))"
  using txn_env.WriteTxn_run [OF assms(1,2) refl assms(3-6)] by blast

definition insertCat :: client where
  "insertCat = Do (OpInsert ''users'' argsCat) (\<lambda>r. case r of Inl err \<Rightarrow> Abort err | Inr _ \<Rightarrow> Finish)"

abbreviation usersCat :: "string \<Rightarrow> tableDesc option res" where
  "usersCat \<equiv> tableAt (p_desc sampleDeps) (map_of usersKv)"

lemma users_dbRep: "dbRep (p_desc sampleDeps) usersCat (map_of usersKv) (\<lambda>_. {})"
proof -
  have "name = ''users''" if "usersCat name = Inr (Some d)" for name d
    using that by (auto simp: tableAt_def usersKv_def split: if_splits option.splits)
  then show ?thesis using usersKv_ok(1,2) usersDesc_ok by (auto simp: dbRep_def)
qed

lemma users_opInsert:
  assumes e: "e_mem e = e_mem usersEngine" "e_tick e = 0" "\<not> e_occ e" "e_maxTxnWrites e = DefaultMaxTxnWrites" "cacheOk (p_desc sampleDeps) e"
  shows "\<exists>e2 t2. runOp sampleDeps (OpInsert ''users'' argsCat) (e, newTxn (mem_begin True usersKv) False) = (Inr (RowOut (Some rowCat)), (e2, t2)) \<and>
    mem_wf (t_tx t2) \<and> kv_Writable memKv (t_tx t2) \<and> mem_base (t_tx t2) = map_of usersKv \<and> e_kv e2 = e_kv e"
proof -
  let ?t = "mem_begin True usersKv" and ?n = "newTxn (mem_begin True usersKv) False"
  let ?m = "?n\<lparr>t_descs := [''users'' \<mapsto> Some usersDesc]\<rparr>"
  have one: "(1 :: int64) <=s DefaultMaxTxnWrites" by code_simp
  have cw: "CheckWrites 1 (e, ?n) = (Inr (), (e, ?n))" using e(4) one by (simp add: CheckWrites_def newTxn_def)
  obtain e1 where e1: "tableFromView sampleDeps ''users'' (e, ?t) = (Inr (Some usersDesc), (e1, ?t))" "sameBut e e1"
    using memE.tableFromView_tx [OF usersTx_ok(1) e(5), of "''users''"] unfolding usersTx_ok(2) usersKv_ok(1) by blast
  have d: "txnDesc sampleDeps ''users'' (e, ?n) = (Inr usersDesc, (e1, ?m))"
    using e1(1) by (simp add: txnDesc_def txnTable_def onKv_def newTxn_def del: tableFromView.simps)
  have f: "e_mem e1 = e_mem usersEngine" "e_tick e1 = 0" "\<not> e_occ e1" using sameBut_fields [OF e1(2)] e by simp_all
  obtain e2 t' where t': "insertRow sampleDeps usersDesc argsCat (e1, ?t) = (Inr rowCat, (e2, t'))"
    "mem_wf t'" "kv_Writable memKv t'" "mem_base t' = map_of usersKv" "e_kv e2 = e_kv e1"
    using users_insertRow [OF f] by blast
  have "runOp sampleDeps (OpInsert ''users'' argsCat) (e, ?n) = (Inr (RowOut (Some rowCat)), (e2, ?m\<lparr>t_tx := t', t_writes := 1\<rparr>))"
    using cw d t'(1) by (simp add: txnInsertReturning_def onKv_def countWrite_def newTxn_def)
  then show ?thesis using t' sameBut_fields(1) [OF e1(2)] by simp
qed

lemma users_writeTxn:
  "\<exists>e'. writeTxn sampleDeps False (runClient sampleDeps insertCat) usersEngine = (Inr (), e')"
proof -
  let ?e = "usersEngine\<lparr>e_writerGID := 1\<rparr>"
  have "cacheOk (p_desc sampleDeps) ?e" by (simp add: cacheOk_def openEngine_def)
  then obtain e2 t2 where o: "runOp sampleDeps (OpInsert ''users'' argsCat) (?e, newTxn (mem_begin True usersKv) False) = (Inr (RowOut (Some rowCat)), (e2, t2))"
    "mem_wf (t_tx t2)" "kv_Writable memKv (t_tx t2)" "mem_base (t_tx t2) = map_of usersKv" "e_kv e2 = usersKv"
    using users_opInsert [of ?e] by (auto simp: openEngine_def)
  let ?fn = "runTxn sampleDeps False (runClient sampleDeps insertCat)"
  have "?fn (usersEngine, mem_begin True usersKv) = (Inr ((), t2), (e2\<lparr>e_writerGID := 0\<rparr>, t_tx t2))"
    using o(1) by (simp add: runTxn_def insertCat_def del: runOp.simps)
  then have "\<exists>e'. eUpdate sampleDeps ?fn usersEngine = (Inr ((), t2), e')"
    using mem_update_succeeds [of ?fn usersEngine] o(2-5) usersEngine_ok(2) usersKv_ok(3) by simp
  moreover have "checkReentrantWrite sampleDeps usersEngine = (Inr (), usersEngine)" by (simp add: checkReentrantWrite_def openEngine_def)
  ultimately show ?thesis by (auto simp: writeTxn_def)
qed

theorem write_txn_refines_witness:
  "\<exists>e' R. writeTxn sampleDeps False (runClient sampleDeps insertCat) usersEngine = (Inr (), e') \<and>
     dbRep (p_desc sampleDeps) usersCat (map_of (e_kv e')) R \<and> card (R ''users'') = 1"
proof -
  obtain e' where r: "writeTxn sampleDeps False (runClient sampleDeps insertCat) usersEngine = (Inr (), e')" using users_writeTxn by blast
  have c: "clientOk insertCat" using argsCat_ok by (auto simp: insertCat_def list_all_iff split: sum.split)
  from write_txn_refines [OF memT.txn_env_axioms usersEngine_ok(1) _ _ c r, of usersCat "\<lambda>_. {}"]
  obtain a where a: "absRun (p_lib sampleDeps) usersCat (e_maxTxnWrites usersEngine) insertCat \<lparr>a_rows = \<lambda>_. {}, a_writes = 0, a_marks = []\<rparr> a"
    "dbRep (p_desc sampleDeps) usersCat (map_of (e_kv e')) (a_rows a)"
    using usersEngine_ok(2) usersKv_ok(3) users_dbRep by auto
  have "card (a_rows a ''users'') = 1"
    using a(1) unfolding insertCat_def
    by (auto elim!: absRun_Do absRun_Finish absRun_Abort absOp_insert)
  then show ?thesis using r a(2) by blast
qed

text \<open>C11. Rolling back to a savepoint restores the tables and the write count. Whatever a client does after a
  savepoint, as long as it neither releases it nor rolls back past it, a rollback to it leaves every
  table with the rows it had when the savepoint was taken, the count of staged writes it had then,
  and the savepoint itself standing on top of the earlier ones.\<close>

theorem savepoint_restores:
  assumes "txn_env E ok content dwf dcontent base written saves" "txnRep E ok content saves cat cap s a"
    "runOp E OpSavepoint s = (Inr (SaveOut sp), s1)" "clientOk c" "clientAvoids (fst ` set (a_marks a)) sp c"
    "runClient E c s1 = (r, s2)" "runOp E (OpRollbackTo sp) s2 = (Inr out, s3)"
  shows "txnRep E ok content saves cat cap s3 (a\<lparr>a_marks := a_marks a @ [(sp, a_rows a, a_writes a)]\<rparr>) \<and>
    t_writes (snd s3) = t_writes (snd s)"
proof -
  have r: "txnRep E ok content saves cat cap s3 (a\<lparr>a_marks := a_marks a @ [(sp, a_rows a, a_writes a)]\<rparr>)"
    by (rule txn_env.savepoint_back [OF assms])
  then show ?thesis using assms(2) by (simp add: txnRep_def)
qed

lemma users_txnRep:
  "txnRep sampleDeps mem_wf mem_content mem_saves usersCat DefaultMaxTxnWrites (usersEngine, newTxn (mem_begin True usersKv) False)
     \<lparr>a_rows = \<lambda>_. {}, a_writes = 0, a_marks = []\<rparr>"
  using usersEngine_ok(1) usersTx_ok users_dbRep
  by (simp add: txnRep_def newTxn_def mem_saves_def mem_begin_def openEngine_def)

theorem savepoint_restores_witness:
  "\<exists>s1 s2 s3. runOp sampleDeps OpSavepoint (usersEngine, newTxn (mem_begin True usersKv) False) = (Inr (SaveOut 0), s1) \<and>
     runClient sampleDeps (Do OpSavepoint (\<lambda>_. Finish)) s1 = (Inr (), s2) \<and>
     runOp sampleDeps (OpRollbackTo 0) s2 = (Inr NoOut, s3) \<and> t_writes (snd s3) = 0"
proof -
  define s0 where "s0 = (usersEngine, newTxn (mem_begin True usersKv) False)"
  define s1 where "s1 = snd (runOp sampleDeps OpSavepoint s0)"
  define s2 where "s2 = snd (runClient sampleDeps (Do OpSavepoint (\<lambda>_. Finish)) s1)"
  define s3 where "s3 = snd (runOp sampleDeps (OpRollbackTo 0) s2)"
  have ev: "runOp sampleDeps OpSavepoint s0 = (Inr (SaveOut 0), s1)"
    "runClient sampleDeps (Do OpSavepoint (\<lambda>_. Finish)) s1 = (Inr (), s2)"
    "runOp sampleDeps (OpRollbackTo 0) s2 = (Inr NoOut, s3)"
    unfolding s0_def s1_def s2_def s3_def
    by (simp_all add: Savepoint_def RollbackTo_def onKv_def onTx_def act_bind_def newTxn_def mem_begin_def memKv_def Let_def)
  have c: "clientOk (Do OpSavepoint (\<lambda>_. Finish))" "clientAvoids S p (Do OpSavepoint (\<lambda>_. Finish))" for S p by simp_all
  have "t_writes (snd s3) = t_writes (snd s0)"
    using savepoint_restores [OF memT.txn_env_axioms users_txnRep [folded s0_def] ev(1) c ev(2,3)] by blast
  then have "t_writes (snd s3) = 0" by (simp add: s0_def newTxn_def)
  then show ?thesis unfolding s0_def [symmetric]
    by (intro exI [of _ s1] exI [of _ s2] exI [of _ s3] conjI ev)
qed

text \<open>C12. The write cap holds. From a new transaction on, whatever a client does and whatever errors it handles,
  the staged row inserts and updates, net of savepoint rollbacks, never exceed a positive cap, and the
  mirrored savepoint stack is the store's. At the cap an insert is refused with the too-large error
  and stages nothing.\<close>

theorem write_cap_holds:
  assumes "txn_env E ok content dwf dcontent base written saves" "\<not> e_occ e \<and> cacheOk (p_desc E) e"
    "0 <s e_maxTxnWrites e" "e_maxTxnWrites e <s 0x7FFFFFFFFFFFFFFF" "ok tx" "kv_Writable (p_kv E) tx" "saves tx = []"
    "dbRep (p_desc E) cat (content tx) R" "clientOk c" "runClient E c (e, newTxn tx rel) = (r, (e', t'))"
  shows "0 <=s t_writes t' \<and> t_writes t' <=s e_maxTxnWrites e \<and> map fst (t_saveWrites t') = map fst (saves (t_tx t')) \<and>
    (t_writes t' = e_maxTxnWrites e \<longrightarrow> txnInsertReturning E table vals (e', t') = (Inl ErrTxnTooLarge, (e', t')))"
proof -
  let ?cap = "e_maxTxnWrites e" and ?a = "\<lparr>a_rows = R, a_writes = 0, a_marks = []\<rparr>"
  have rep: "txnRep E ok content saves cat ?cap (e, newTxn tx rel) ?a" using assms(2,5-8) by (simp add: txnRep_def newTxn_def)
  have inv: "absInv ?cap ?a" using assms(3) by (simp add: absInv_def word_sle_eq word_sless_alt)
  obtain a where a: "txnRep E ok content saves cat ?cap (e', t') a" "absInv ?cap a"
    using txn_env.client_inv [OF assms(1) rep assms(9,10) inv assms(3,4)] by blast
  have ids: "map fst (t_saveWrites t') = map fst (saves (t_tx t'))"
    using txn_env.rep_ids [OF assms(1) a(1)] a(1) by (simp add: txnRep_def case_prod_beta comp_def)
  have w: "0 <=s t_writes t'" "t_writes t' <=s ?cap" "e_maxTxnWrites e' = ?cap" using a by (simp_all add: txnRep_def absInv_def)
  have "CheckWrites 1 (e', t') = (Inl ErrTxnTooLarge, (e', t'))" if "t_writes t' = ?cap"
    using that w(3) assms(3,4) sint_succ [of ?cap ?cap] by (simp add: CheckWrites_def word_sle_eq word_sless_alt)
  then show ?thesis using w ids by (simp add: txnInsertReturning_def)
qed

theorem write_cap_holds_witness:
  "\<exists>e' t'. runClient sampleDeps insertCat (usersEngine, newTxn (mem_begin True usersKv) False) = (Inr (), (e', t')) \<and>
     t_writes t' <=s DefaultMaxTxnWrites"
proof -
  obtain e2 t2 where o: "runOp sampleDeps (OpInsert ''users'' argsCat) (usersEngine, newTxn (mem_begin True usersKv) False) =
      (Inr (RowOut (Some rowCat)), (e2, t2))"
    using users_opInsert [of usersEngine] usersEngine_ok(1) by (auto simp: openEngine_def)
  then have r: "runClient sampleDeps insertCat (usersEngine, newTxn (mem_begin True usersKv) False) = (Inr (), (e2, t2))"
    by (simp add: insertCat_def del: runOp.simps)
  have c: "clientOk insertCat" using argsCat_ok by (auto simp: insertCat_def list_all_iff split: sum.split)
  have m: "e_maxTxnWrites usersEngine = DefaultMaxTxnWrites" by (simp add: openEngine_def)
  have k: "0 <s DefaultMaxTxnWrites" "DefaultMaxTxnWrites <s 0x7FFFFFFFFFFFFFFF" by code_simp+
  have sv: "mem_saves (mem_begin True usersKv) = []" by (simp add: mem_saves_def mem_begin_def)
  have "t_writes t2 <=s DefaultMaxTxnWrites"
    using write_cap_holds [OF memT.txn_env_axioms usersEngine_ok(1) _ _ usersTx_ok(1) _ sv _ c r, of usersCat "\<lambda>_. {}"]
      k usersTx_ok users_dbRep by (simp add: m)
  then show ?thesis using r by blast
qed

end
