(* ===== verification/Scan.thy ===== *)
theory Scan
  imports Sample
begin

text \<open>
  The scans of \<open>src/dml.go\<close> and \<open>src/index.go\<close> against the stored table: a full or bounded scan
  yields exactly the rows in its range, in key order; an index scan yields them in the index's
  order, descending columns included; the reverse scans are the forward ones backward. A scan of
  a serializable transaction depends on nothing outside the read set it records.
\<close>

subsection \<open>Iterators\<close>

lemma collect_apply: "collect r rs = (True, rs @ [r])"
  by (simp add: collect_def)

lemma skipThenTake_filter:
  "sorted_wrt (>) (map fst xs) \<Longrightarrow>
   skipThenTake start end xs = filter (\<lambda>x. start \<le> fst x \<and> fst x < end) xs"
proof (induction xs)
  case (Cons x xs)
  have tl: "\<forall>y\<in>set xs. fst y < fst x" using Cons.prems by simp
  show ?case
  proof (cases "fst x < end \<and> fst x < start")
    case True
    then have "\<forall>y\<in>set xs. \<not> start \<le> fst y" using tl by (meson leD order.strict_trans)
    then show ?thesis using True by (auto simp: filter_empty_conv)
  next
    case False
    then show ?thesis using Cons by auto
  qed
qed simp

context kv_tx
begin

lemma iterAscend_props:
  assumes "wf t"
  shows "sorted_wrt (<) (map fst (iterAscend K lo hi t))"
    "set (iterAscend K lo hi t) = {(k, v). lo \<le> k \<and> k < hi \<and> content t k = Some v}"
  using Ascend_interval [OF assms] by (simp_all add: iterAscend_def)

lemma iterDescend_rev:
  assumes "wf t"
  shows "iterDescend K lo hi t = rev (iterAscend K lo hi t)"
proof -
  let ?xs = "iterDescend K lo hi t"
  have f: "?xs = filter (\<lambda>x. lo \<le> fst x \<and> fst x < hi) (kv_Descend K hi t)"
    using Descend_sorted [OF assms] by (simp add: iterDescend_def skipThenTake_filter)
  have "sorted_wrt (>) (map fst ?xs)"
    unfolding f using Descend_sorted [OF assms, of hi] by (simp add: sorted_wrt_map sorted_wrt_filter)
  then have "sorted_wrt (<) (map fst (rev ?xs))" by (simp add: rev_map [symmetric] sorted_wrt_rev)
  moreover have "set (rev ?xs) = set (iterAscend K lo hi t)"
    unfolding iterAscend_props(2) [OF assms] using Descend_set [OF assms, of hi] by (auto simp: f)
  ultimately have "rev ?xs = iterAscend K lo hi t"
    using iterAscend_props(1) [OF assms] by (intro sorted_pairs_unique)
  then show ?thesis by (metis rev_rev_ident)
qed

lemma iterAscend_agree:
  assumes "wf t" "wf u" "\<And>k. lo \<le> k \<Longrightarrow> k < hi \<Longrightarrow> content t k = content u k"
  shows "iterAscend K lo hi t = iterAscend K lo hi u"
  by (rule sorted_pairs_unique) (auto simp: iterAscend_props assms)

text \<open>A loop whose body always finds its row: the consumer is given every row in turn.\<close>

lemma scanLoop_collect:
  assumes "wf t" "content t = m"
    and f: "\<And>kv u. kv \<in> set kvs \<Longrightarrow> wf u \<Longrightarrow> content u = m \<Longrightarrow>
      \<exists>u'. f kv u = (Inr (g kv), u') \<and> wf u' \<and> content u' = m"
  shows "\<exists>t'. scanLoop f collect kvs (c, t) = (c @ map (\<lambda>kv. Inr (g kv)) kvs, t') \<and> wf t' \<and> content t' = m"
  using assms
proof (induction kvs arbitrary: c t)
  case (Cons kv kvs)
  obtain t' where t': "f kv t = (Inr (g kv), t')" "wf t'" "content t' = m"
    using Cons.prems(3) [of kv t] Cons.prems(1,2) by auto
  then obtain t'' where "scanLoop f collect kvs (c @ [Inr (g kv)], t') =
      ((c @ [Inr (g kv)]) @ map (\<lambda>kv. Inr (g kv)) kvs, t'')" "wf t''" "content t'' = m"
    using Cons.IH [of t' "c @ [Inr (g kv)]"] Cons.prems(3) by auto
  moreover have "scanLoop f collect (kv # kvs) (c, t) = scanLoop f collect kvs (c @ [Inr (g kv)], t')"
    unfolding scanLoop.simps t'(1) Let_def prod.case collect_apply by simp
  ultimately show ?case by simp
qed auto

end

subsection \<open>The rows in a key interval\<close>

text \<open>The part of a table's row region an interval selects.\<close>

definition inRegion :: "bytes \<Rightarrow> key \<Rightarrow> key \<Rightarrow> bool" where
  "inRegion p lo hi \<longleftrightarrow> (\<forall>k. lo \<le> k \<and> k < hi \<longrightarrow> prefix p k)"

lemma region_rows:
  assumes "descOk d" "stores d R m" "prefix (tablePrefix (d_ID d)) k" "m k = Some v"
  shows "\<exists>r\<in>R. k = rowKeyOf d r \<and> v = rowBytes d m r"
proof -
  obtain r where r: "r \<in> R" "entryOf d r k v"
    using storesD(2) [OF assms(2) tablePrefix_space [OF assms(3)] assms(4)] by blast
  have "k \<noteq> entryKey d x r" if "x \<in> set (d_Indexes d)" for x
    using entryKey_prefix [of d x r] assms(3) indexPrefix_disjoint descOkD(6) [OF assms(1) that]
    by (metis tablePrefix_def)
  then have "k = rowKeyOf d r" using r(2) unfolding entryOf_def by blast
  then show ?thesis using r(1) assms(4) by (auto simp: rowBytes_def)
qed

lemma region_entries:
  assumes "descOk d" "stores d R m" "x \<in> set (d_Indexes d)"
    "prefix (indexPrefix (d_ID d) (x_ID x)) k" "m k = Some v"
  shows "\<exists>r\<in>R. k = entryKey d x r \<and> v = entryVal d x r"
proof -
  obtain r where r: "r \<in> R" "entryOf d r k v"
    using storesD(2) [OF assms(2) indexPrefix_space [OF assms(4)] assms(5)] by blast
  have "k \<noteq> rowKeyOf d r"
    using rowKeyOf_prefix [of d r] assms(4) indexPrefix_disjoint descOkD(6) [OF assms(1,3)]
    by (metis tablePrefix_def)
  then obtain y where y: "y \<in> set (d_Indexes d)" "k = entryKey d y r" "v = entryVal d y r"
    using r(2) unfolding entryOf_def by blast
  then have "x_ID y = x_ID x" using entryKey_prefix [of d y r] assms(4) indexPrefix_disjoint by metis
  then have "y = x" using descOkD(7) [OF assms(1)] y(1) assms(3) by (auto simp: distinct_map inj_on_def)
  then show ?thesis using r(1) y by blast
qed

context kv_tx
begin

lemma iter_rows:
  assumes d: "descOk d" and st: "stores d R (content t)" and t: "wf t"
    and reg: "inRegion (tablePrefix (d_ID d)) lo hi"
  obtains rows where "iterAscend K lo hi t = map (\<lambda>r. (rowKeyOf d r, rowBytes d (content t) r)) rows"
    "sorted_wrt (<) (map (rowKeyOf d) rows)"
    "set rows = {r \<in> R. lo \<le> rowKeyOf d r \<and> rowKeyOf d r < hi}"
proof -
  let ?xs = "iterAscend K lo hi t"
  define rows where "rows = map (\<lambda>(k, v). projr (decodeRow d k v)) ?xs"
  have el: "\<exists>r\<in>R. x = (rowKeyOf d r, rowBytes d (content t) r)" if "x \<in> set ?xs" for x
    using that region_rows [OF d st] reg by (force simp: iterAscend_props(2) [OF t] inRegion_def)
  have "x = (rowKeyOf d r, rowBytes d (content t) r) \<and> r \<in> R" if "x \<in> set ?xs" "r = projr (decodeRow d (fst x) (snd x))" for x r
    using el [OF that(1)] that(2) decodeRow_stored [OF d st] by auto
  then have e: "?xs = map (\<lambda>r. (rowKeyOf d r, rowBytes d (content t) r)) rows" and sub: "set rows \<subseteq> R"
    by (auto simp: rows_def case_prod_beta intro!: map_idI [symmetric])
  have srt: "sorted_wrt (<) (map (rowKeyOf d) rows)"
    using iterAscend_props(1) [OF t, of lo hi] unfolding e by (simp add: o_def)
  have "set rows = {r \<in> R. lo \<le> rowKeyOf d r \<and> rowKeyOf d r < hi}"
  proof (intro set_eqI iffI)
    fix r
    assume "r \<in> set rows"
    then have "(rowKeyOf d r, rowBytes d (content t) r) \<in> set ?xs" unfolding e by auto
    then show "r \<in> {r \<in> R. lo \<le> rowKeyOf d r \<and> rowKeyOf d r < hi}"
      using sub \<open>r \<in> set rows\<close> by (auto simp: iterAscend_props(2) [OF t])
  next
    fix r
    assume r: "r \<in> {r \<in> R. lo \<le> rowKeyOf d r \<and> rowKeyOf d r < hi}"
    then have "content t (rowKeyOf d r) = Some (rowBytes d (content t) r)" using storesD(3) [OF st] by blast
    then have "(rowKeyOf d r, rowBytes d (content t) r) \<in> set ?xs" using r by (simp add: iterAscend_props(2) [OF t])
    then have "projr (decodeRow d (rowKeyOf d r) (rowBytes d (content t) r)) \<in> set rows" by (force simp: rows_def)
    then show "r \<in> set rows" using decodeRow_stored [OF d st] r by auto
  qed
  then show thesis using that e srt by blast
qed

end

subsection \<open>Bounds in tuple order\<close>

lemma rowOk_pk_all: "descOk d \<Longrightarrow> rowOk d r \<Longrightarrow> list_all normalVal (pkValues d r)"
  using rowOk_pk_normal by (simp add: list_all_iff)

text \<open>A scan bound as canonical values: absent, or a prefix of the key columns.\<close>

definition keyBound :: "(any list \<Rightarrow> val list res) \<Rightarrow> any list option \<Rightarrow> val list option res" where
  "keyBound f b =
     (case b of
        None \<Rightarrow> Inr None
      | Some vs \<Rightarrow> res_bind (f vs) (\<lambda>cs. if list_ex isNaN cs then Inl nanErr else Inr (Some (map canonVal cs))))"

definition pkBound :: "golib \<Rightarrow> tableDesc \<Rightarrow> any list option \<Rightarrow> val list option res" where
  "pkBound L d = keyBound (\<lambda>vs.
     if length vs > length (d_PKCols d) then Inl (Msg ''too many primary key values in scan bound'')
     else coercePK L d vs)"

text \<open>At or after the lower bound; before the upper one, or in its prefix group.\<close>

definition aboveLo :: "val list option \<Rightarrow> val list \<Rightarrow> bool" where
  "aboveLo lo pk \<longleftrightarrow> (case lo of None \<Rightarrow> True | Some b \<Rightarrow> compareTuple b pk \<noteq> 1)"

definition belowHi :: "bool \<Rightarrow> val list option \<Rightarrow> val list \<Rightarrow> bool" where
  "belowHi incl hi pk \<longleftrightarrow>
     (case hi of None \<Rightarrow> True | Some b \<Rightarrow> compareTuple pk b = -1 \<or> incl \<and> prefix b pk)"

lemma keyBound_normal: "keyBound f b = Inr (Some cs) \<Longrightarrow> list_all normalVal cs"
  by (auto simp: keyBound_def list_all_iff list_ex_iff normal_canonVal split: option.splits if_splits)

lemma boundKey_bound:
  assumes "pkBound L d b = Inr c"
  shows "orBound dflt (boundKey L d p) b = Inr (case c of None \<Rightarrow> dflt | Some cs \<Rightarrow> p @ encTup cs)"
  using assms
  by (auto simp: pkBound_def keyBound_def orBound_def boundKey_def Append_concat res_map_normalize_any
      split: option.splits if_splits)

lemma boundKey_incl:
  assumes "pkBound L d b = Inr c"
  shows "orBound dflt (\<lambda>pk. res_bind (boundKey L d p pk) (\<lambda>e. Inr (if incl then prefixEndKey e else e))) b =
    Inr (case c of None \<Rightarrow> dflt | Some cs \<Rightarrow> if incl then prefixEndKey (p @ encTup cs) else p @ encTup cs)"
  using assms
  by (auto simp: pkBound_def keyBound_def orBound_def boundKey_def Append_concat res_map_normalize_any
      split: option.splits if_splits)

lemma encTup_le_iff:
  "list_all normalVal xs \<Longrightarrow> list_all normalVal ys \<Longrightarrow> encTup xs \<le> encTup ys \<longleftrightarrow> compareTuple xs ys \<noteq> 1"
  using concat_enc_cmp [of xs ys] by (metis go_cmp_simps(3) leD leI)

lemma encTup_less_iff:
  "list_all normalVal xs \<Longrightarrow> list_all normalVal ys \<Longrightarrow> encTup xs < encTup ys \<longleftrightarrow> compareTuple xs ys = -1"
  using concat_enc_cmp [of xs ys] by (metis go_cmp_simps(2))

lemma rowKeyOf_split: "rowKeyOf d r = tablePrefix (d_ID d) @ encTup (pkValues d r)"
  by (simp add: rowKeyOf_def key_shapes)

lemma below_prefixEnd:
  assumes "vs \<noteq> []"
  shows "k < prefixEndKey (encTup vs @ q) \<longleftrightarrow> k < encTup vs @ q \<or> prefix (encTup vs @ q) k"
proof -
  let ?p = "encTup vs @ q"
  have "?p < prefixEndKey ?p" using prefix_interval [OF assms, of q ?p] by simp
  then have "k < ?p \<Longrightarrow> k < prefixEndKey ?p" by (meson order.strict_trans)
  then show ?thesis using prefix_interval [OF assms, of q k] linorder_not_less [of k ?p] by blast
qed

lemma inRegion_bounds:
  assumes "vs \<noteq> []" "p = encTup vs" "prefix p lo"
    "hi = prefixEndKey p \<or> prefix p hi \<or> (\<exists>q. hi = prefixEndKey (p @ q))"
  shows "inRegion p lo hi"
  unfolding inRegion_def
proof (intro allI impI)
  fix k
  assume k: "lo \<le> k \<and> k < hi"
  have pk: "p \<le> k" using k assms(3) by (meson order_trans prefix_le)
  have pe: "j < prefixEndKey p" if "prefix p j" for j
    using that prefix_interval' [OF assms(1), of j] assms(2) by simp
  have "k < prefixEndKey p"
    using assms(4)
  proof (elim disjE exE)
    fix q
    assume "hi = prefixEndKey (p @ q)"
    then have "k < p @ q \<or> prefix (p @ q) k" using k below_prefixEnd [OF assms(1)] assms(2) by simp
    then show ?thesis using pe by (metis append_prefixD order.strict_trans prefixI)
  qed (use k pe in \<open>auto intro: order.strict_trans\<close>)
  then show "prefix p k" using pk prefix_interval' [OF assms(1), of k] assms(2) by simp
qed

lemma row_bounds:
  assumes "descOk d" "rowOk d r"
    and lo: "\<And>b. lo = Some b \<Longrightarrow> list_all normalVal b" and hi: "\<And>b. hi = Some b \<Longrightarrow> list_all normalVal b"
  shows "(case lo of None \<Rightarrow> tablePrefix (d_ID d) | Some cs \<Rightarrow> tablePrefix (d_ID d) @ encTup cs) \<le> rowKeyOf d r
      \<longleftrightarrow> aboveLo lo (pkValues d r)"
    and "rowKeyOf d r < (case hi of None \<Rightarrow> prefixEndKey (tablePrefix (d_ID d))
        | Some cs \<Rightarrow> if incl then prefixEndKey (tablePrefix (d_ID d) @ encTup cs) else tablePrefix (d_ID d) @ encTup cs)
      \<longleftrightarrow> belowHi incl hi (pkValues d r)"
proof -
  have n: "list_all normalVal (pkValues d r)" using rowOk_pk_all [OF assms(1,2)] .
  show "(case lo of None \<Rightarrow> tablePrefix (d_ID d) | Some cs \<Rightarrow> tablePrefix (d_ID d) @ encTup cs) \<le> rowKeyOf d r
      \<longleftrightarrow> aboveLo lo (pkValues d r)"
    using encTup_le_iff [OF lo n] by (auto simp: aboveLo_def rowKeyOf_split le_append_self append_le_append split: option.splits)
  show "rowKeyOf d r < (case hi of None \<Rightarrow> prefixEndKey (tablePrefix (d_ID d))
        | Some cs \<Rightarrow> if incl then prefixEndKey (tablePrefix (d_ID d) @ encTup cs) else tablePrefix (d_ID d) @ encTup cs)
      \<longleftrightarrow> belowHi incl hi (pkValues d r)"
  proof (cases hi)
    case None
    then show ?thesis using tablePrefix_interval [of "d_ID d" "rowKeyOf d r"] rowKeyOf_prefix [of d r]
      by (simp add: belowHi_def)
  next
    case (Some b)
    have "rowKeyOf d r < tablePrefix (d_ID d) @ encTup b \<longleftrightarrow> compareTuple (pkValues d r) b = -1"
      using encTup_less_iff [OF n hi [OF Some]] by (simp add: rowKeyOf_split append_less_append)
    moreover have "prefix (tablePrefix (d_ID d) @ encTup b) (rowKeyOf d r) \<longleftrightarrow> prefix b (pkValues d r)"
      by (simp add: rowKeyOf_split encTup_prefix_iff)
    ultimately show ?thesis
      using below_prefixEnd [of "[VInt (d_ID d), VInt primaryIndexID]" "rowKeyOf d r" "encTup b"] Some
      by (simp add: belowHi_def key_shapes)
  qed
qed

subsection \<open>Row scans\<close>

text \<open>Rows in strictly ascending primary-key order.\<close>

definition pkSorted :: "tableDesc \<Rightarrow> val list list \<Rightarrow> bool" where
  "pkSorted d rows \<longleftrightarrow> sorted_wrt (\<lambda>r r'. compareTuple (pkValues d r) (pkValues d r') = -1) rows"

lemma pkSorted_keys:
  assumes "descOk d" "\<forall>r\<in>set rows. rowOk d r"
  shows "sorted_wrt (<) (map (rowKeyOf d) rows) \<longleftrightarrow> pkSorted d rows"
proof -
  have "rowKeyOf d r < rowKeyOf d r' \<longleftrightarrow> compareTuple (pkValues d r) (pkValues d r') = -1"
    if "r \<in> set rows" "r' \<in> set rows" for r r'
    using encTup_less_iff [OF rowOk_pk_all [OF assms(1)] rowOk_pk_all [OF assms(1)], of r r'] assms(2) that
    by (simp add: rowKeyOf_split append_less_append)
  then show ?thesis unfolding pkSorted_def sorted_wrt_map
    by (auto intro: sorted_wrt_mono_rel [rotated])
qed

definition loKey :: "tableDesc \<Rightarrow> val list option \<Rightarrow> key" where
  "loKey d lo = (case lo of None \<Rightarrow> tablePrefix (d_ID d) | Some cs \<Rightarrow> tablePrefix (d_ID d) @ encTup cs)"

definition hiKey :: "tableDesc \<Rightarrow> bool \<Rightarrow> val list option \<Rightarrow> key" where
  "hiKey d incl hi = (case hi of None \<Rightarrow> prefixEndKey (tablePrefix (d_ID d))
     | Some cs \<Rightarrow> if incl then prefixEndKey (tablePrefix (d_ID d) @ encTup cs) else tablePrefix (d_ID d) @ encTup cs)"

lemma inRegion_keys: "inRegion (tablePrefix (d_ID d)) (loKey d lo) (hiKey d incl hi)"
proof (rule inRegion_bounds [of "[VInt (d_ID d), VInt primaryIndexID]"])
  show "tablePrefix (d_ID d) = encTup [VInt (d_ID d), VInt primaryIndexID]" by (simp add: key_shapes)
  show "prefix (tablePrefix (d_ID d)) (loKey d lo)" by (simp add: loKey_def split: option.splits)
  show "hiKey d incl hi = prefixEndKey (tablePrefix (d_ID d)) \<or> prefix (tablePrefix (d_ID d)) (hiKey d incl hi) \<or>
      (\<exists>q. hiKey d incl hi = prefixEndKey (tablePrefix (d_ID d) @ q))"
    by (auto simp: hiKey_def split: option.splits)
qed simp

lemma boundKey_lo: "pkBound L d b = Inr c \<Longrightarrow>
    orBound (tablePrefix (d_ID d)) (boundKey L d (tablePrefix (d_ID d))) b = Inr (loKey d c)"
  using boundKey_bound by (simp add: loKey_def)

lemma boundKey_hi: "pkBound L d b = Inr c \<Longrightarrow>
    orBound (prefixEndKey (tablePrefix (d_ID d))) (boundKey L d (tablePrefix (d_ID d))) b = Inr (hiKey d False c)"
  using boundKey_bound by (simp add: hiKey_def split: option.split)

context kv_tx
begin

lemma scanLoop_rows:
  assumes d: "descOk d" and t: "wf t" and ok: "\<forall>r\<in>set rows. decodeRow d (rowKeyOf d r) (f r) = Inr r"
  shows "\<exists>t'. scanLoop (\<lambda>(k, v). act_lift (decodeRow d k v)) collect
      (map (\<lambda>r. (rowKeyOf d r, f r)) rows) ([], t) = (map Inr rows, t') \<and>
    wf t' \<and> content t' = content t"
proof -
  let ?kvs = "map (\<lambda>r. (rowKeyOf d r, f r)) rows"
  let ?g = "\<lambda>kv. projr (decodeRow d (fst kv) (snd kv))"
  have "map (\<lambda>kv. Inr (?g kv)) ?kvs = (map Inr rows :: val list res list)" using ok by simp
  moreover have "\<exists>t'. scanLoop (\<lambda>(k, v). act_lift (decodeRow d k v)) collect ?kvs ([], t) =
      ([] @ map (\<lambda>kv. Inr (?g kv)) ?kvs, t') \<and> wf t' \<and> content t' = content t"
    by (rule scanLoop_collect) (use t ok in auto)
  ultimately show ?thesis unfolding append_Nil by (simp only:)
qed

lemma scan_table:
  assumes d: "descOk d" and st: "stores d R (content t)" and t: "wf t"
    and lo: "pkBound L d fromPK = Inr lo" and hi: "pkBound L d toPK = Inr hi"
  shows "\<exists>rows. iterAscend K (loKey d lo) (hiKey d incl hi) t = map (\<lambda>r. (rowKeyOf d r, rowBytes d (content t) r)) rows \<and>
    pkSorted d rows \<and> set rows = {r \<in> R. aboveLo lo (pkValues d r) \<and> belowHi incl hi (pkValues d r)}"
proof -
  obtain rows where rows: "iterAscend K (loKey d lo) (hiKey d incl hi) t = map (\<lambda>r. (rowKeyOf d r, rowBytes d (content t) r)) rows"
    "sorted_wrt (<) (map (rowKeyOf d) rows)"
    "set rows = {r \<in> R. loKey d lo \<le> rowKeyOf d r \<and> rowKeyOf d r < hiKey d incl hi}"
    by (rule iter_rows [OF d st t inRegion_keys])
  have ok: "rowOk d r" if "r \<in> R" for r using storesD(1) [OF st that] .
  have n: "\<And>b. lo = Some b \<Longrightarrow> list_all normalVal b" "\<And>b. hi = Some b \<Longrightarrow> list_all normalVal b"
    using lo hi keyBound_normal unfolding pkBound_def by blast+
  have "loKey d lo \<le> rowKeyOf d r \<longleftrightarrow> aboveLo lo (pkValues d r)"
    "rowKeyOf d r < hiKey d incl hi \<longleftrightarrow> belowHi incl hi (pkValues d r)" if "r \<in> R" for r
    using row_bounds [OF d ok [OF that] n] by (simp_all add: loKey_def hiKey_def)
  then have "set rows = {r \<in> R. aboveLo lo (pkValues d r) \<and> belowHi incl hi (pkValues d r)}"
    using rows(3) by auto
  moreover have "pkSorted d rows" using pkSorted_keys [OF d, of rows] rows(2,3) ok by auto
  ultimately show ?thesis using rows(1) by blast
qed

lemma scanRows_spec:
  assumes d: "descOk d" and st: "stores d R (content t)" and t: "wf t"
    and lo: "pkBound L d fromPK = Inr lo" and hi: "pkBound L d toPK = Inr hi"
  shows "\<exists>rows t'. scanRows K L d fromPK toPK collect ([], t) = (map Inr rows, t') \<and>
    wf t' \<and> content t' = content t \<and> pkSorted d rows \<and>
    set rows = {r \<in> R. aboveLo lo (pkValues d r) \<and> belowHi False hi (pkValues d r)}"
proof -
  let ?t = "kv_MarkReadRange K (loKey d lo) (hiKey d False hi) t"
  have w: "wf ?t" "content ?t = content t" using t by auto
  then obtain rows where r: "iterAscend K (loKey d lo) (hiKey d False hi) ?t = map (\<lambda>r. (rowKeyOf d r, rowBytes d (content t) r)) rows"
    "pkSorted d rows" "set rows = {r \<in> R. aboveLo lo (pkValues d r) \<and> belowHi False hi (pkValues d r)}"
    using scan_table [OF d _ _ lo hi, of R ?t False] st by auto
  moreover obtain t' where "scanLoop (\<lambda>(k, v). act_lift (decodeRow d k v)) collect
      (map (\<lambda>r. (rowKeyOf d r, rowBytes d (content t) r)) rows) ([], ?t) = (map Inr rows, t')" "wf t'" "content t' = content t"
    using scanLoop_rows [OF d w(1), of rows "rowBytes d (content t)"] r(3) decodeRow_stored [OF d st] w(2) by auto
  ultimately show ?thesis
    by (simp add: scanRows_def scanBounded_def Let_def boundKey_lo [OF lo] boundKey_hi [OF hi])
qed

lemma scanRowsRev_spec:
  assumes d: "descOk d" and st: "stores d R (content t)" and t: "wf t"
    and lo: "pkBound L d fromPK = Inr lo" and hi: "pkBound L d toPK = Inr hi"
  shows "\<exists>rows t'. scanRowsRev K L d fromPK toPK incl collect ([], t) = (map Inr (rev rows), t') \<and>
    wf t' \<and> content t' = content t \<and> pkSorted d rows \<and>
    set rows = {r \<in> R. aboveLo lo (pkValues d r) \<and> belowHi incl hi (pkValues d r)}"
proof -
  let ?t = "kv_MarkReadRange K (loKey d lo) (hiKey d incl hi) t"
  have w: "wf ?t" "content ?t = content t" using t by auto
  then obtain rows where r: "iterAscend K (loKey d lo) (hiKey d incl hi) ?t = map (\<lambda>r. (rowKeyOf d r, rowBytes d (content t) r)) rows"
    "pkSorted d rows" "set rows = {r \<in> R. aboveLo lo (pkValues d r) \<and> belowHi incl hi (pkValues d r)}"
    using scan_table [OF d _ _ lo hi, of R ?t incl] st by auto
  have b: "orBound (prefixEndKey (tablePrefix (d_ID d))) (\<lambda>pk. res_bind (boundKey L d (tablePrefix (d_ID d)) pk)
      (\<lambda>e. Inr (if incl then prefixEndKey e else e))) toPK = Inr (hiKey d incl hi)"
    using boundKey_incl [OF hi] by (simp add: hiKey_def)
  have "iterDescend K (loKey d lo) (hiKey d incl hi) ?t = map (\<lambda>r. (rowKeyOf d r, rowBytes d (content t) r)) (rev rows)"
    using iterDescend_rev [OF w(1)] r(1) by (simp add: rev_map)
  moreover obtain t' where "scanLoop (\<lambda>(k, v). act_lift (decodeRow d k v)) collect
      (map (\<lambda>r. (rowKeyOf d r, rowBytes d (content t) r)) (rev rows)) ([], ?t) = (map Inr (rev rows), t')" "wf t'" "content t' = content t"
    using scanLoop_rows [OF d w(1), of "rev rows" "rowBytes d (content t)"] r(3) decodeRow_stored [OF d st] w(2) by auto
  ultimately show ?thesis using r(2,3)
    by (simp add: scanRowsRev_def scanBounded_def Let_def boundKey_lo [OF lo] b)
qed

end

subsection \<open>The order of an index\<close>

text \<open>Indexed values compared column by column, each in its direction.\<close>

fun compareDirs :: "indexDesc \<Rightarrow> nat \<Rightarrow> val list \<Rightarrow> val list \<Rightarrow> int" where
  "compareDirs x i (v # vs) (w # ws) =
     (if compareDir (DescAt x i) v w \<noteq> 0 then compareDir (DescAt x i) v w else compareDirs x (Suc i) vs ws)"
| "compareDirs x i vs ws = go_cmp (length vs) (length ws)"

lemma compareDir_eq0: "normalVal v \<Longrightarrow> normalVal w \<Longrightarrow> compareDir b v w = 0 \<longleftrightarrow> v = w"
  using compareNorm_eq0 [of v w] by (simp add: compareDir_def)

lemma compareDir_range: "compareDir b v w \<in> {-1, 0, 1}"
  using compareNorm_range [of v w] by (auto simp: compareDir_def)

lemma compareDir_swap: "compareDir b w v = - compareDir b v w"
  using compareNorm_swap [of w v] by (simp add: compareDir_def)

lemma encDir_le:
  assumes "normalVal v" "normalVal w"
  shows "encDir b v @ xs \<le> encDir b w @ ys \<longleftrightarrow> compareDir b v w = -1 \<or> v = w \<and> xs \<le> ys"
proof -
  have "encDir b v @ xs = encDir b w @ ys \<longleftrightarrow> v = w \<and> xs = ys" by (rule encDir_append_inj)
  then show ?thesis unfolding order_le_less encDir_less [OF assms] by blast
qed

lemma encDirs_less:
  assumes "length vs = length ws" "list_all normalVal vs" "list_all normalVal ws"
  shows "encDirs x i vs @ as < encDirs x i ws @ bs \<longleftrightarrow> compareDirs x i vs ws = -1 \<or> vs = ws \<and> as < bs"
  using assms
proof (induction vs ws arbitrary: i rule: list_induct2)
  case (Cons v vs w ws)
  then have n: "normalVal v" "normalVal w" by simp_all
  show ?case
  proof (cases "v = w")
    case True
    then have "compareDir (DescAt x i) v w = 0" using compareDir_eq0 [OF n] by simp
    then show ?thesis using Cons True n by (simp add: encDir_less)
  next
    case False
    then have "compareDir (DescAt x i) v w \<noteq> 0" using compareDir_eq0 [OF n] by simp
    then show ?thesis using False n by (simp add: encDir_less)
  qed
qed (simp add: go_cmp_def)

lemma encDirs_lo:
  assumes "length vs \<le> length ws" "list_all normalVal vs" "list_all normalVal ws"
  shows "encDirs x i vs \<le> encDirs x i ws @ bs \<longleftrightarrow> compareDirs x i vs ws \<noteq> 1"
  using assms
proof (induction vs arbitrary: i ws)
  case Nil
  then show ?case by (cases ws) (auto simp: go_cmp_def)
next
  case (Cons v vs)
  then obtain w ws' where w: "ws = w # ws'" by (cases ws) auto
  then have n: "normalVal v" "normalVal w" using Cons by simp_all
  show ?case
  proof (cases "v = w")
    case True
    then have "compareDir (DescAt x i) v w = 0" using compareDir_eq0 [OF n] by simp
    then show ?thesis using Cons True n by (simp add: w encDir_le)
  next
    case False
    then have "compareDir (DescAt x i) v w \<noteq> 0" using compareDir_eq0 [OF n] by simp
    then show ?thesis using False n compareDir_range [of "DescAt x i" v w] by (auto simp: w encDir_le)
  qed
qed

lemma encDirs_hi:
  assumes "length vs \<le> length ws" "list_all normalVal vs" "list_all normalVal ws"
  shows "encDirs x i ws @ bs < encDirs x i vs \<longleftrightarrow> compareDirs x i ws vs = -1"
  using assms
proof (induction vs arbitrary: i ws)
  case Nil
  then show ?case by (cases ws) (auto simp: go_cmp_def)
next
  case (Cons v vs)
  then obtain w ws' where w: "ws = w # ws'" by (cases ws) auto
  then have n: "normalVal w" "normalVal v" using Cons by simp_all
  show ?case
  proof (cases "v = w")
    case True
    then have "compareDir (DescAt x i) w v = 0" using compareDir_eq0 [OF n] by simp
    then show ?thesis using Cons True n by (simp add: w encDir_less)
  next
    case False
    then have "compareDir (DescAt x i) w v \<noteq> 0" using compareDir_eq0 [OF n] by simp
    then show ?thesis using False n by (auto simp: w encDir_less)
  qed
qed

lemma encDirs_prefix:
  "length vs \<le> length ws \<Longrightarrow> prefix (encDirs x i vs) (encDirs x i ws @ bs) \<longleftrightarrow> prefix vs ws"
proof (induction vs arbitrary: i ws)
  case (Cons v vs)
  then obtain w ws' where w: "ws = w # ws'" by (cases ws) auto
  have "prefix (encDirs x i (v # vs)) (encDirs x i ws @ bs) \<longleftrightarrow>
      (\<exists>r. encDir (DescAt x i) w @ encDirs x (Suc i) ws' @ bs = encDir (DescAt x i) v @ encDirs x (Suc i) vs @ r)"
    by (simp add: w prefix_def)
  also have "\<dots> \<longleftrightarrow> w = v \<and> prefix (encDirs x (Suc i) vs) (encDirs x (Suc i) ws' @ bs)"
    by (auto simp: encDir_append_inj prefix_def)
  finally show ?case using Cons.IH [of ws'] Cons.prems w by auto
qed simp

definition ixBound :: "golib \<Rightarrow> tableDesc \<Rightarrow> indexDesc \<Rightarrow> any list option \<Rightarrow> val list option res" where
  "ixBound L d x = keyBound (\<lambda>vs.
     if length vs > length (x_Cols x) then Inl (Msg ''too many values in index scan bound'')
     else res_map (\<lambda>(i, v). coerce L v (c_Type (d_Columns d ! (x_Cols x ! i)))) (enumerate 0 vs))"

definition ixLoKey :: "tableDesc \<Rightarrow> indexDesc \<Rightarrow> val list option \<Rightarrow> key" where
  "ixLoKey d x lo = (case lo of None \<Rightarrow> indexPrefix (d_ID d) (x_ID x)
     | Some cs \<Rightarrow> indexPrefix (d_ID d) (x_ID x) @ encDirs x 0 cs)"

definition ixHiKey :: "tableDesc \<Rightarrow> indexDesc \<Rightarrow> bool \<Rightarrow> val list option \<Rightarrow> key" where
  "ixHiKey d x incl hi = (case hi of None \<Rightarrow> prefixEndKey (indexPrefix (d_ID d) (x_ID x))
     | Some cs \<Rightarrow> if incl then prefixEndKey (indexPrefix (d_ID d) (x_ID x) @ encDirs x 0 cs)
                 else indexPrefix (d_ID d) (x_ID x) @ encDirs x 0 cs)"

definition ixAbove :: "indexDesc \<Rightarrow> val list option \<Rightarrow> val list \<Rightarrow> bool" where
  "ixAbove x lo vs \<longleftrightarrow> (case lo of None \<Rightarrow> True | Some b \<Rightarrow> compareDirs x 0 b vs \<noteq> 1)"

definition ixBelow :: "indexDesc \<Rightarrow> bool \<Rightarrow> val list option \<Rightarrow> val list \<Rightarrow> bool" where
  "ixBelow x incl hi vs \<longleftrightarrow>
     (case hi of None \<Rightarrow> True | Some b \<Rightarrow> compareDirs x 0 vs b = -1 \<or> incl \<and> prefix b vs)"

definition ixSorted :: "tableDesc \<Rightarrow> indexDesc \<Rightarrow> val list list \<Rightarrow> bool" where
  "ixSorted d x rows \<longleftrightarrow> sorted_wrt (\<lambda>r r'.
     compareDirs x 0 (indexVals x r) (indexVals x r') = -1 \<or>
     indexVals x r = indexVals x r' \<and> compareTuple (pkValues d r) (pkValues d r') = -1) rows"

lemma ixBound_length: "ixBound L d x b = Inr (Some cs) \<Longrightarrow> length cs \<le> length (x_Cols x)"
  by (auto simp: ixBound_def keyBound_def split: option.splits if_splits dest!: res_map_length)

lemma indexBound_lo:
  "ixBound L d x b = Inr c \<Longrightarrow>
   orBound (indexPrefix (d_ID d) (x_ID x)) (indexBound L d x (indexPrefix (d_ID d) (x_ID x))) b = Inr (ixLoKey d x c)"
  by (auto simp: ixBound_def keyBound_def orBound_def indexBound_def appendDirected_eq ixLoKey_def
      split: option.splits if_splits)

lemma indexBound_hi:
  "ixBound L d x b = Inr c \<Longrightarrow>
   orBound (prefixEndKey (indexPrefix (d_ID d) (x_ID x))) (\<lambda>vs. res_bind (indexBound L d x (indexPrefix (d_ID d) (x_ID x)) vs)
     (\<lambda>e. Inr (if incl then prefixEndKey e else e))) b = Inr (ixHiKey d x incl c)"
  by (auto simp: ixBound_def keyBound_def orBound_def indexBound_def appendDirected_eq ixHiKey_def
      split: option.splits if_splits)

lemma indexBound_hi_excl:
  "ixBound L d x b = Inr c \<Longrightarrow>
   orBound (prefixEndKey (indexPrefix (d_ID d) (x_ID x))) (indexBound L d x (indexPrefix (d_ID d) (x_ID x))) b
     = Inr (ixHiKey d x False c)"
  by (auto simp: ixBound_def keyBound_def orBound_def indexBound_def appendDirected_eq ixHiKey_def
      split: option.splits if_splits)

lemma rowOk_ix_all: "descOk d \<Longrightarrow> x \<in> set (d_Indexes d) \<Longrightarrow> rowOk d r \<Longrightarrow> list_all normalVal (indexVals x r)"
  using rowOk_ix_normal by (simp add: list_all_iff)

lemma inRegion_ixKeys: "inRegion (indexPrefix (d_ID d) (x_ID x)) (ixLoKey d x lo) (ixHiKey d x incl hi)"
proof (rule inRegion_bounds [of "[VInt (d_ID d), VInt (x_ID x)]"])
  show "indexPrefix (d_ID d) (x_ID x) = encTup [VInt (d_ID d), VInt (x_ID x)]" by (simp add: key_shapes)
  show "prefix (indexPrefix (d_ID d) (x_ID x)) (ixLoKey d x lo)" by (simp add: ixLoKey_def split: option.splits)
  show "ixHiKey d x incl hi = prefixEndKey (indexPrefix (d_ID d) (x_ID x)) \<or>
      prefix (indexPrefix (d_ID d) (x_ID x)) (ixHiKey d x incl hi) \<or>
      (\<exists>q. ixHiKey d x incl hi = prefixEndKey (indexPrefix (d_ID d) (x_ID x) @ q))"
    by (auto simp: ixHiKey_def split: option.splits)
qed simp

lemma entry_bounds:
  assumes d: "descOk d" and x: "x \<in> set (d_Indexes d)" and r: "rowOk d r"
    and lo: "ixBound L d x lo0 = Inr lo" and hi: "ixBound L d x hi0 = Inr hi"
  shows "(ixLoKey d x lo \<le> entryKey d x r \<longleftrightarrow> ixAbove x lo (indexVals x r)) \<and>
    (entryKey d x r < ixHiKey d x incl hi \<longleftrightarrow> ixBelow x incl hi (indexVals x r))"
proof
  let ?p = "indexPrefix (d_ID d) (x_ID x)"
  let ?s = "if enforced x r then [] else encTup (pkValues d r)"
  have n: "list_all normalVal (indexVals x r)" using rowOk_ix_all [OF d x r] .
  have k: "entryKey d x r = ?p @ encDirs x 0 (indexVals x r) @ ?s" by (simp add: entryKey_def)
  have nb: "list_all normalVal b" "length b \<le> length (indexVals x r)" if "ixBound L d x b0 = Inr (Some b)" for b0 b
    using that keyBound_normal ixBound_length by (simp_all add: ixBound_def)
  show "ixLoKey d x lo \<le> entryKey d x r \<longleftrightarrow> ixAbove x lo (indexVals x r)"
  proof (cases lo)
    case (Some b)
    then have "encDirs x 0 b \<le> encDirs x 0 (indexVals x r) @ ?s \<longleftrightarrow> compareDirs x 0 b (indexVals x r) \<noteq> 1"
      using encDirs_lo [OF nb(2,1) n] lo by blast
    then show ?thesis using Some unfolding ixLoKey_def ixAbove_def k append_le_append by (simp add: append_le_append)
  qed (simp add: ixLoKey_def ixAbove_def k le_append_self)
  show "entryKey d x r < ixHiKey d x incl hi \<longleftrightarrow> ixBelow x incl hi (indexVals x r)"
  proof (cases hi)
    case None
    then show ?thesis using indexPrefix_interval [of "d_ID d" "x_ID x" "entryKey d x r"] entryKey_prefix [of d x r]
      by (simp add: ixHiKey_def ixBelow_def)
  next
    case (Some b)
    have "entryKey d x r < ?p @ encDirs x 0 b \<longleftrightarrow> compareDirs x 0 (indexVals x r) b = -1"
      using encDirs_hi [OF nb(2,1) n] hi Some unfolding k append_less_append by blast
    moreover have "prefix (?p @ encDirs x 0 b) (entryKey d x r) \<longleftrightarrow> prefix b (indexVals x r)"
      using encDirs_prefix [OF nb(2)] hi Some unfolding k by simp
    ultimately show ?thesis
      using below_prefixEnd [of "[VInt (d_ID d), VInt (x_ID x)]" "entryKey d x r" "encDirs x 0 b"] Some
      by (simp add: ixHiKey_def ixBelow_def key_shapes)
  qed
qed

lemma map_of_members:
  "(\<And>x. x \<in> set xs \<Longrightarrow> \<exists>r\<in>R. x = f r) \<Longrightarrow> \<exists>rows. xs = map f rows \<and> set rows \<subseteq> R"
proof (induction xs)
  case (Cons x xs)
  obtain r where r: "r \<in> R" "x = f r" using Cons.prems [of x] by auto
  obtain rows where rows: "xs = map f rows" "set rows \<subseteq> R" using Cons.IH Cons.prems by auto
  have "x # xs = map f (r # rows) \<and> set (r # rows) \<subseteq> R" using r rows by simp
  then show ?case by (rule exI)
qed simp

context kv_tx
begin

lemma rowFromIndexEntry_row:
  assumes d: "descOk d" and x: "x \<in> set (d_Indexes d)" and st: "stores d R (content t)"
    and t: "wf t" and r: "r \<in> R"
  shows "rowFromIndexEntry K d x (entryKey d x r) (entryVal d x r) t = (Inr r, kv_MarkRead K (rowKeyOf d r) t)"
proof -
  let ?s = "if enforced x r then [] else encTup (pkValues d r)"
  have ok: "rowOk d r" using storesD(1) [OF st r] .
  have ne: "pkValues d r \<noteq> []" using descOkD(3) [OF d] by (simp add: pkValues_def)
  have skip: "skipElems x 0 (2 + length (x_Cols x)) (entryKey d x r) = Inr ?s"
    unfolding entryKey_def by (rule skipElems_entry) simp
  have dec: "(if ?s \<noteq> [] then Decode ?s else Decode (entryVal d x r)) = Inr (pkValues d r)"
    using ne Decode_iff [of "[]" "pkValues d r"] by (auto simp: entryVal_def Decode_iff)
  have rk: "rowKey d (pkValues d r) = Inr (rowKeyOf d r)"
    using rowKey_normal [of "pkValues d r" d] rowOk_pk_all [OF d ok] by (simp add: rowKeyOf_def)
  have g: "kv_Get K (rowKeyOf d r) (kv_MarkRead K (rowKeyOf d r) t) = Some (rowBytes d (content t) r)"
    using storesD(3) [OF st r] t by (simp add: Get)
  show ?thesis
    unfolding rowFromIndexEntry_def skip
    by (simp add: dec rk g decodeRow_stored [OF d st r])
qed

lemma scan_entries:
  assumes d: "descOk d" and x: "x \<in> set (d_Indexes d)" and st: "stores d R (content t)" and t: "wf t"
    and lo: "ixBound L d x from = Inr lo" and hi: "ixBound L d x to = Inr hi"
  shows "\<exists>rows. iterAscend K (ixLoKey d x lo) (ixHiKey d x incl hi) t = map (\<lambda>r. (entryKey d x r, entryVal d x r)) rows \<and>
    ixSorted d x rows \<and> set rows = {r \<in> R. ixAbove x lo (indexVals x r) \<and> ixBelow x incl hi (indexVals x r)}"
proof -
  let ?xs = "iterAscend K (ixLoKey d x lo) (ixHiKey d x incl hi) t"
  have ok: "rowOk d r" if "r \<in> R" for r using storesD(1) [OF st that] .
  have "\<exists>r\<in>R. e = (entryKey d x r, entryVal d x r)" if "e \<in> set ?xs" for e
    using that region_entries [OF d st x] inRegion_ixKeys [of d x lo incl hi]
    by (force simp: iterAscend_props(2) [OF t] inRegion_def)
  then obtain rows where rows: "?xs = map (\<lambda>r. (entryKey d x r, entryVal d x r)) rows" "set rows \<subseteq> R"
    using map_of_members [of ?xs R "\<lambda>r. (entryKey d x r, entryVal d x r)"] by blast
  have b: "ixLoKey d x lo \<le> entryKey d x r \<longleftrightarrow> ixAbove x lo (indexVals x r)"
    "entryKey d x r < ixHiKey d x incl hi \<longleftrightarrow> ixBelow x incl hi (indexVals x r)" if "r \<in> R" for r
    using entry_bounds [OF d x ok [OF that] lo hi] by auto
  have "set rows = {r \<in> R. ixAbove x lo (indexVals x r) \<and> ixBelow x incl hi (indexVals x r)}"
  proof (intro set_eqI iffI)
    fix r
    assume "r \<in> set rows"
    then have "(entryKey d x r, entryVal d x r) \<in> set ?xs" "r \<in> R" using rows by auto
    then show "r \<in> {r \<in> R. ixAbove x lo (indexVals x r) \<and> ixBelow x incl hi (indexVals x r)}"
      using b by (simp add: iterAscend_props(2) [OF t])
  next
    fix r
    assume r: "r \<in> {r \<in> R. ixAbove x lo (indexVals x r) \<and> ixBelow x incl hi (indexVals x r)}"
    then have "(entryKey d x r, entryVal d x r) \<in> set ?xs"
      using b storesD(4) [OF st _ x] by (simp add: iterAscend_props(2) [OF t])
    then obtain r' where r': "r' \<in> set rows" "entryKey d x r = entryKey d x r'" using rows(1) by auto
    have "entryKey d x s \<in> rowKeys d s" for s using x unfolding rowKeys_iff by blast
    then have "entryKey d x r \<in> rowKeys d r" "entryKey d x r \<in> rowKeys d r'" unfolding r'(2) [symmetric] using r'(2) by metis+
    then have "r = r'" using stores_entry_unique [OF d st] r r'(1) rows(2) by blast
    then show "r \<in> set rows" using r' by simp
  qed
  moreover have "ixSorted d x rows"
    unfolding ixSorted_def
  proof (rule sorted_wrt_mono_rel)
    show "sorted_wrt (\<lambda>r r'. entryKey d x r < entryKey d x r') rows"
      using iterAscend_props(1) [OF t, of "ixLoKey d x lo" "ixHiKey d x incl hi"] unfolding rows(1)
      by (simp add: sorted_wrt_map)
    fix r r'
    assume a: "r \<in> set rows" "r' \<in> set rows" "entryKey d x r < entryKey d x r'"
    then have o: "rowOk d r" "rowOk d r'" using ok rows(2) by auto
    have e: "enforced x r = enforced x r'" if "indexVals x r = indexVals x r'" using that by (simp add: enforced_def)
    have "compareDirs x 0 (indexVals x r) (indexVals x r') = -1 \<or> indexVals x r = indexVals x r' \<and>
        (if enforced x r then [] else encTup (pkValues d r)) < (if enforced x r' then [] else encTup (pkValues d r'))"
      using a(3) encDirs_less [OF _ rowOk_ix_all [OF d x o(1)] rowOk_ix_all [OF d x o(2)]]
      unfolding entryKey_def append_less_append by simp
    then show "compareDirs x 0 (indexVals x r) (indexVals x r') = -1 \<or>
        indexVals x r = indexVals x r' \<and> compareTuple (pkValues d r) (pkValues d r') = -1"
      using e encTup_less_iff [OF rowOk_pk_all [OF d o(1)] rowOk_pk_all [OF d o(2)]] by (auto split: if_splits)
  qed
  ultimately show ?thesis using rows(1) by blast
qed

lemma scanLoop_entries:
  assumes d: "descOk d" and x: "x \<in> set (d_Indexes d)" and st: "stores d R (content t)" and t: "wf t"
    and rows: "set rows \<subseteq> R"
  shows "\<exists>t'. scanLoop (\<lambda>(k, v). rowFromIndexEntry K d x k v) collect
      (map (\<lambda>r. (entryKey d x r, entryVal d x r)) rows) (c, t) = (c @ map Inr rows, t') \<and>
    wf t' \<and> content t' = content t"
  using st t rows
proof (induction rows arbitrary: c t)
  case (Cons r rows)
  let ?t = "kv_MarkRead K (rowKeyOf d r) t"
  have w: "wf ?t" "content ?t = content t" using Cons.prems(2) by auto
  have f: "rowFromIndexEntry K d x (entryKey d x r) (entryVal d x r) t = (Inr r, ?t)"
    using rowFromIndexEntry_row [OF d x Cons.prems(1,2)] Cons.prems(3) by simp
  have "scanLoop (\<lambda>(k, v). rowFromIndexEntry K d x k v) collect
      (map (\<lambda>r. (entryKey d x r, entryVal d x r)) (r # rows)) (c, t) =
    scanLoop (\<lambda>(k, v). rowFromIndexEntry K d x k v) collect
      (map (\<lambda>r. (entryKey d x r, entryVal d x r)) rows) (c @ [Inr r], ?t)"
    unfolding list.map scanLoop.simps prod.case f Let_def collect_apply by simp
  moreover obtain t' where "scanLoop (\<lambda>(k, v). rowFromIndexEntry K d x k v) collect
      (map (\<lambda>r. (entryKey d x r, entryVal d x r)) rows) (c @ [Inr r], ?t) = ((c @ [Inr r]) @ map Inr rows, t')"
    "wf t'" "content t' = content t"
    using Cons.IH [of ?t "c @ [Inr r]"] Cons.prems w by auto
  ultimately show ?case by simp
qed auto

lemma scanIndexRows_spec:
  assumes d: "descOk d" and x: "x \<in> set (d_Indexes d)" and st: "stores d R (content t)" and t: "wf t"
    and lo: "ixBound L d x from = Inr lo" and hi: "ixBound L d x to = Inr hi"
  shows "\<exists>rows t'. scanIndexRows K L d x from to collect ([], t) = (map Inr rows, t') \<and>
    wf t' \<and> content t' = content t \<and> ixSorted d x rows \<and>
    set rows = {r \<in> R. ixAbove x lo (indexVals x r) \<and> ixBelow x False hi (indexVals x r)}"
proof -
  let ?t = "kv_MarkReadRange K (ixLoKey d x lo) (ixHiKey d x False hi) t"
  have w: "wf ?t" "content ?t = content t" using t by auto
  then have st': "stores d R (content ?t)" using st by simp
  obtain rows where r: "iterAscend K (ixLoKey d x lo) (ixHiKey d x False hi) ?t = map (\<lambda>r. (entryKey d x r, entryVal d x r)) rows"
    "ixSorted d x rows" "set rows = {r \<in> R. ixAbove x lo (indexVals x r) \<and> ixBelow x False hi (indexVals x r)}"
    using scan_entries [OF d x st' w(1) lo hi, of False] by auto
  moreover obtain t' where "scanLoop (\<lambda>(k, v). rowFromIndexEntry K d x k v) collect
      (map (\<lambda>r. (entryKey d x r, entryVal d x r)) rows) ([], ?t) = ([] @ map Inr rows, t')" "wf t'" "content t' = content t"
    using scanLoop_entries [OF d x st' w(1), of rows "[]"] r(3) w(2) by auto
  ultimately show ?thesis
    by (simp add: scanIndexRows_def scanBounded_def Let_def indexBound_lo [OF lo] indexBound_hi_excl [OF hi])
qed

lemma scanIndexRowsRev_spec:
  assumes d: "descOk d" and x: "x \<in> set (d_Indexes d)" and st: "stores d R (content t)" and t: "wf t"
    and lo: "ixBound L d x from = Inr lo" and hi: "ixBound L d x to = Inr hi"
  shows "\<exists>rows t'. scanIndexRowsRev K L d x from to incl collect ([], t) = (map Inr (rev rows), t') \<and>
    wf t' \<and> content t' = content t \<and> ixSorted d x rows \<and>
    set rows = {r \<in> R. ixAbove x lo (indexVals x r) \<and> ixBelow x incl hi (indexVals x r)}"
proof -
  let ?t = "kv_MarkReadRange K (ixLoKey d x lo) (ixHiKey d x incl hi) t"
  have w: "wf ?t" "content ?t = content t" using t by auto
  then have st': "stores d R (content ?t)" using st by simp
  obtain rows where r: "iterAscend K (ixLoKey d x lo) (ixHiKey d x incl hi) ?t = map (\<lambda>r. (entryKey d x r, entryVal d x r)) rows"
    "ixSorted d x rows" "set rows = {r \<in> R. ixAbove x lo (indexVals x r) \<and> ixBelow x incl hi (indexVals x r)}"
    using scan_entries [OF d x st' w(1) lo hi, of incl] by auto
  have "iterDescend K (ixLoKey d x lo) (ixHiKey d x incl hi) ?t = map (\<lambda>r. (entryKey d x r, entryVal d x r)) (rev rows)"
    using iterDescend_rev [OF w(1)] r(1) by (simp add: rev_map)
  moreover obtain t' where "scanLoop (\<lambda>(k, v). rowFromIndexEntry K d x k v) collect
      (map (\<lambda>r. (entryKey d x r, entryVal d x r)) (rev rows)) ([], ?t) = ([] @ map Inr (rev rows), t')" "wf t'" "content t' = content t"
    using scanLoop_entries [OF d x st' w(1), of "rev rows" "[]"] r(3) w(2) by auto
  ultimately show ?thesis using r(2,3)
    by (simp add: scanIndexRowsRev_def scanBounded_def Let_def indexBound_lo [OF lo] indexBound_hi [OF hi])
qed

end

subsection \<open>A read's result depends only on its read set\<close>

text \<open>
  An operation that only reads: it keeps the content, only adds to the read set, and any state that
  agrees with this one on the recorded keys gives the same result. Validating the read set at
  commit is therefore enough to know the operation would return the same on the newer state.
\<close>

definition repeatable ::
  "('tx \<Rightarrow> bool) \<Rightarrow> ('tx \<Rightarrow> key \<Rightarrow> bytes option) \<Rightarrow> ('tx \<Rightarrow> key set) \<Rightarrow> ('tx \<Rightarrow> 'a \<times> 'tx) \<Rightarrow> bool" where
  "repeatable ok content reads m \<longleftrightarrow> (\<forall>t. ok t \<longrightarrow>
     ok (snd (m t)) \<and> content (snd (m t)) = content t \<and> reads t \<subseteq> reads (snd (m t)) \<and>
     (\<forall>u. ok u \<longrightarrow> (\<forall>k\<in>reads (snd (m t)). content u k = content t k) \<longrightarrow> fst (m u) = fst (m t)))"

lemma repeatableD:
  assumes "repeatable ok content reads m" "ok t"
  shows "ok (snd (m t))" "content (snd (m t)) = content t" "reads t \<subseteq> reads (snd (m t))"
    "ok u \<Longrightarrow> (\<And>k. k \<in> reads (snd (m t)) \<Longrightarrow> content u k = content t k) \<Longrightarrow> fst (m u) = fst (m t)"
  using assms unfolding repeatable_def by blast+

lemma repeatable_pure [simp, intro!]:
  "repeatable ok content reads (Pair x)" "repeatable ok content reads (\<lambda>t. (x, t))"
  "repeatable ok content reads (act_lift r)" "repeatable ok content reads (act_fail e)"
  "repeatable ok content reads (act_return y)"
  by (auto simp: repeatable_def)

lemma repeatable_seq:
  assumes m: "repeatable ok content reads m" and f: "\<And>x. repeatable ok content reads (f x)"
  shows "repeatable ok content reads (\<lambda>t. case m t of (x, t') \<Rightarrow> f x t')"
  unfolding repeatable_def
proof (intro allI impI)
  fix t
  assume t: "ok t"
  note mt = repeatableD [OF m t]
  note ft = repeatableD [OF f [of "fst (m t)"] mt(1)]
  have eq: "(case m s of (x, t') \<Rightarrow> f x t') = f (fst (m s)) (snd (m s))" for s by (cases "m s") simp
  show "ok (snd (case m t of (x, t') \<Rightarrow> f x t')) \<and> content (snd (case m t of (x, t') \<Rightarrow> f x t')) = content t \<and>
    reads t \<subseteq> reads (snd (case m t of (x, t') \<Rightarrow> f x t')) \<and>
    (\<forall>u. ok u \<longrightarrow> (\<forall>k\<in>reads (snd (case m t of (x, t') \<Rightarrow> f x t')). content u k = content t k) \<longrightarrow>
       fst (case m u of (x, t') \<Rightarrow> f x t') = fst (case m t of (x, t') \<Rightarrow> f x t'))"
    unfolding eq
  proof (intro conjI allI impI)
    fix u
    assume u: "ok u" "\<forall>k\<in>reads (snd (f (fst (m t)) (snd (m t)))). content u k = content t k"
    then have a: "fst (m u) = fst (m t)" using mt(4) [OF u(1)] ft(3) by blast
    show "fst (f (fst (m u)) (snd (m u))) = fst (f (fst (m t)) (snd (m t)))"
      unfolding a using u repeatableD(1,2) [OF m u(1)] mt(2) by (intro ft(4)) simp_all
  qed (use mt ft in auto)
qed

lemma act_bind_case:
  "act_bind m f = (\<lambda>t. case m t of (r, t') \<Rightarrow> (case r of Inl e \<Rightarrow> act_fail e | Inr x \<Rightarrow> f x) t')"
  by (auto simp: act_bind_def fun_eq_iff split: prod.splits sum.splits)

lemma repeatable_bind [intro]:
  "repeatable ok content reads m \<Longrightarrow> (\<And>x. repeatable ok content reads (f x)) \<Longrightarrow>
   repeatable ok content reads (act_bind m f)"
  unfolding act_bind_case by (intro repeatable_seq) (auto split: sum.splits)

lemma repeatable_loop:
  assumes "\<And>kv. repeatable ok content reads (f kv)"
  shows "repeatable ok content reads (\<lambda>t. scanLoop f yield kvs (c, t))"
proof (induction kvs arbitrary: c)
  case (Cons kv kvs)
  let ?rest = "\<lambda>r t'. if \<not> fst (yield r c) \<or> isl r then (snd (yield r c), t')
      else scanLoop f yield kvs (snd (yield r c), t')"
  have eq: "(\<lambda>t. scanLoop f yield (kv # kvs) (c, t)) = (\<lambda>t. case f kv t of (r, t') \<Rightarrow> ?rest r t')"
    by (simp add: Let_def fun_eq_iff split: prod.splits)
  have "repeatable ok content reads (?rest r)" for r
    using Cons.IH [of "snd (yield r c)"] by (cases "\<not> fst (yield r c) \<or> isl r") simp_all
  then show ?case unfolding eq by (rule repeatable_seq [OF assms])
qed simp

context kv_tracking
begin

lemma repeatable_Get:
  assumes "\<And>v. repeatable wf content reads (f v)"
  shows "repeatable wf content reads (act_bind (act_modify (kv_MarkRead K k)) (\<lambda>_. act_bind (act_get (kv_Get K k)) f))"
proof -
  have r: "repeatable wf content reads (\<lambda>t. (kv_Get K k (kv_MarkRead K k t), kv_MarkRead K k t))"
    unfolding repeatable_def by (auto simp: Get reads_MarkRead)
  have "act_bind (act_modify (kv_MarkRead K k)) (\<lambda>_. act_bind (act_get (kv_Get K k)) f) =
      (\<lambda>t. case (kv_Get K k (kv_MarkRead K k t), kv_MarkRead K k t) of (v, t') \<Rightarrow> f v t')"
    by (auto simp: act_bind_def fun_eq_iff)
  then show ?thesis using repeatable_seq [OF r assms] by simp
qed

lemma repeatable_bounded:
  assumes f: "\<And>kv. repeatable wf content reads (f kv)"
    and it: "\<And>s en t. wf t \<Longrightarrow> it s en t = iterAscend K s en t \<or> it s en t = rev (iterAscend K s en t)"
    and it2: "\<And>s en t u. wf t \<Longrightarrow> wf u \<Longrightarrow> iterAscend K s en t = iterAscend K s en u \<Longrightarrow> it s en t = it s en u"
  shows "repeatable wf content reads (\<lambda>t. scanBounded K start end it f yield (c, t))"
proof (cases "\<exists>s en. start = Inr s \<and> end = Inr en")
  case True
  then obtain s en where b: "start = Inr s" "end = Inr en" by auto
  have r: "repeatable wf content reads (\<lambda>t. (it s en (kv_MarkReadRange K s en t), kv_MarkReadRange K s en t))"
    unfolding repeatable_def
    by (auto simp: reads_MarkReadRange intro!: it2 iterAscend_agree)
  have "(\<lambda>t. scanBounded K start end it f yield (c, t)) =
      (\<lambda>t. case (it s en (kv_MarkReadRange K s en t), kv_MarkReadRange K s en t) of (kvs, t') \<Rightarrow>
         scanLoop f yield kvs (c, t'))"
    by (simp add: b scanBounded_def Let_def)
  then show ?thesis using repeatable_seq [OF r repeatable_loop [OF f]] by simp
next
  case False
  then show ?thesis by (cases start; cases "end") (simp_all add: scanBounded_def)
qed

lemma repeatable_rowFromIndexEntry: "repeatable wf content reads (rowFromIndexEntry K d x k v)"
  unfolding rowFromIndexEntry_def
  by (intro repeatable_bind repeatable_pure) (auto intro!: repeatable_bind repeatable_Get split: option.splits)

lemma repeatable_scans:
  "repeatable wf content reads (\<lambda>t. scanRows K L d from to yield (c, t))"
  "repeatable wf content reads (\<lambda>t. scanRowsRev K L d from to incl yield (c, t))"
  "repeatable wf content reads (\<lambda>t. scanIndexRows K L d x from to yield (c, t))"
  "repeatable wf content reads (\<lambda>t. scanIndexRowsRev K L d x from to incl yield (c, t))"
  unfolding scanRows_def scanRowsRev_def scanIndexRows_def scanIndexRowsRev_def Let_def
  by (rule repeatable_bounded; auto simp: iterDescend_rev intro: repeatable_rowFromIndexEntry)+

end

subsection \<open>Scans return the rows of the table\<close>

text \<open>C7. A range scan of a table yields exactly its rows whose primary key is at or after the lower
  bound and before the upper one, each once, in primary-key order, and changes no data. Bounds may be
  partial keys; the reverse scan gives the same rows backwards, with the upper bound's whole prefix
  group when it is inclusive.\<close>

theorem scan_rows:
  assumes "kv_tx K ok content" "descOk d" "stores d R (content t)" "ok t"
    "pkBound L d fromPK = Inr lo" "pkBound L d toPK = Inr hi"
  shows "(\<exists>rows t'. scanRows K L d fromPK toPK collect ([], t) = (map Inr rows, t') \<and>
      ok t' \<and> content t' = content t \<and> pkSorted d rows \<and>
      set rows = {r \<in> R. aboveLo lo (pkValues d r) \<and> belowHi False hi (pkValues d r)}) \<and>
    (\<exists>rows t'. scanRowsRev K L d fromPK toPK incl collect ([], t) = (map Inr (rev rows), t') \<and>
      ok t' \<and> content t' = content t \<and> pkSorted d rows \<and>
      set rows = {r \<in> R. aboveLo lo (pkValues d r) \<and> belowHi incl hi (pkValues d r)})"
  using kv_tx.scanRows_spec [OF assms] kv_tx.scanRowsRev_spec [OF assms] by blast

theorem scan_rows_witness:
  "\<exists>rows t'. scanRows memKv noLib sampleDesc (Some [AInt 2]) None collect ([], sampleTx) = (map Inr rows, t') \<and>
     set rows = {rowBob}"
proof -
  have b: "pkBound noLib sampleDesc (Some [AInt 2]) = Inr (Some [VInt 2])" "pkBound noLib sampleDesc None = Inr None"
    by code_simp+
  have "\<not> aboveLo (Some [VInt 2]) (pkValues sampleDesc rowAnn)" "aboveLo (Some [VInt 2]) (pkValues sampleDesc rowBob)"
    by code_simp+
  then have s: "{r \<in> {rowAnn, rowBob}. aboveLo (Some [VInt 2]) (pkValues sampleDesc r) \<and>
      belowHi False None (pkValues sampleDesc r)} = {rowBob}"
    by (auto simp: belowHi_def)
  show ?thesis
    using scan_rows [OF mem.kv_tx_axioms sampleDesc_ok sampleTx_ok(2,1) b, unfolded s] by blast
qed

text \<open>C8. A scan of a secondary index yields exactly the rows whose indexed values lie within the
  bounds, in index order with each column's direction and ties broken by primary key, and changes no
  data; the reverse scan gives the same backwards.\<close>

theorem scan_index_rows:
  assumes "kv_tx K ok content" "descOk d" "x \<in> set (d_Indexes d)" "stores d R (content t)" "ok t"
    "ixBound L d x from = Inr lo" "ixBound L d x to = Inr hi"
  shows "(\<exists>rows t'. scanIndexRows K L d x from to collect ([], t) = (map Inr rows, t') \<and>
      ok t' \<and> content t' = content t \<and> ixSorted d x rows \<and>
      set rows = {r \<in> R. ixAbove x lo (indexVals x r) \<and> ixBelow x False hi (indexVals x r)}) \<and>
    (\<exists>rows t'. scanIndexRowsRev K L d x from to incl collect ([], t) = (map Inr (rev rows), t') \<and>
      ok t' \<and> content t' = content t \<and> ixSorted d x rows \<and>
      set rows = {r \<in> R. ixAbove x lo (indexVals x r) \<and> ixBelow x incl hi (indexVals x r)})"
  using kv_tx.scanIndexRows_spec [OF assms] kv_tx.scanIndexRowsRev_spec [OF assms] by blast

theorem scan_index_rows_witness:
  "\<exists>rows t'. scanIndexRows memKv noLib sampleDesc (d_Indexes sampleDesc ! 1) (Some [AInt 40]) (Some [ANil])
     collect ([], sampleTx) = (map Inr rows, t') \<and> set rows = {rowAnn}"
proof -
  let ?x = "d_Indexes sampleDesc ! 1"
  have x: "?x \<in> set (d_Indexes sampleDesc)" by (simp add: sampleDesc_def)
  have b: "ixBound noLib sampleDesc ?x (Some [AInt 40]) = Inr (Some [VInt 40])"
    "ixBound noLib sampleDesc ?x (Some [ANil]) = Inr (Some [VNull])" by code_simp+
  have "ixAbove ?x (Some [VInt 40]) (indexVals ?x rowAnn) \<and> ixBelow ?x False (Some [VNull]) (indexVals ?x rowAnn)"
    "\<not> ixBelow ?x False (Some [VNull]) (indexVals ?x rowBob)" by code_simp+
  then have s: "{r \<in> {rowAnn, rowBob}. ixAbove ?x (Some [VInt 40]) (indexVals ?x r) \<and>
      ixBelow ?x False (Some [VNull]) (indexVals ?x r)} = {rowAnn}"
    by auto
  show ?thesis
    using scan_index_rows [OF mem.kv_tx_axioms sampleDesc_ok x sampleTx_ok(2,1) b, unfolded s] by blast
qed

text \<open>C9. In a serializable transaction a scan's outcome is fixed by the keys it recorded: on any
  state that agrees with this one on them it yields the same rows, so no row can appear in or vanish
  from the scanned range unnoticed. This holds for both directions, for table and index scans, for
  any consumer, whether it stops early or not.\<close>

theorem scan_repeatable:
  assumes "kv_tracking K ok content reads"
  shows "repeatable ok content reads (\<lambda>t. scanRows K L d from to yield (c, t)) \<and>
    repeatable ok content reads (\<lambda>t. scanRowsRev K L d from to incl yield (c, t)) \<and>
    repeatable ok content reads (\<lambda>t. scanIndexRows K L d x from to yield (c, t)) \<and>
    repeatable ok content reads (\<lambda>t. scanIndexRowsRev K L d x from to incl yield (c, t))"
  by (intro conjI kv_tracking.repeatable_scans [OF assms])

theorem scan_repeatable_witness:
  "repeatable mem_wf mem_content mem_reads (\<lambda>t. scanRows memKv noLib sampleDesc None None collect ([], t)) \<and>
   repeatable mem_wf mem_content mem_reads
     (\<lambda>t. scanIndexRows memKv noLib sampleDesc (d_Indexes sampleDesc ! 0) None None collect ([], t))"
  by (intro conjI) (rule scan_repeatable [OF mem.kv_tracking_axioms, THEN conjunct1],
    rule scan_repeatable [OF mem.kv_tracking_axioms, THEN conjunct2, THEN conjunct2, THEN conjunct1])

end
