(* ===== verification/Default.thy ===== *)
theory Default
  imports Sample
begin

text \<open>
  Column defaults (\<open>src/default.go\<close>, with \<open>renderLit\<close> of \<open>src/sql/parser.go\<close>, \<open>renderDefault\<close> and
  \<open>toEngineColumn\<close> of \<open>src/sql/sql.go\<close> and \<open>coerceLit\<close> of \<open>src/sql/coerce.go\<close>). A descriptor stores
  a default as literal text: the SQL layer renders the value of a DEFAULT clause, and the engine reads
  the text back when it fills a new column. The lemmas show that the two agree on every literal the
  text can carry, and that a byte string is not one of them.
\<close>

subsection \<open>Reading literals\<close>

definition isDigitChar :: "char \<Rightarrow> bool" where
  "isDigitChar c \<longleftrightarrow> 48 \<le> (of_char c :: nat) \<and> (of_char c :: nat) \<le> 57"

definition digitsVal :: "string \<Rightarrow> nat" where
  "digitsVal s = fold (\<lambda>c n. 10 * n + (of_char c - 48)) s 0"

text \<open>\<open>strconv.ParseInt(s, 10, 64)\<close>: none is an error, of syntax or of range.\<close>

definition parseInt10 :: "string \<Rightarrow> int64 option" where
  "parseInt10 s =
     (let (neg, ds) = (case s of c # r \<Rightarrow> if c = CHR ''-'' then (True, r) else if c = CHR ''+'' then (False, r) else (False, s)
                       | [] \<Rightarrow> (False, []));
          n = digitsVal ds
      in if ds = [] \<or> \<not> list_all isDigitChar ds then None
         else if neg then (if n \<le> 2 ^ 63 then Some (- of_nat n) else None)
         else (if n < 2 ^ 63 then Some (of_nat n) else None))"

text \<open>\<open>strings.EqualFold(s, t)\<close> for an ASCII \<open>t\<close>: the runes of \<open>s\<close> that fold to each of its letters.\<close>

definition foldsTo :: "nat \<Rightarrow> char \<Rightarrow> bool" where
  "foldsTo r c \<longleftrightarrow>
     (let n = of_char (lowerAscii c) :: nat
      in r = n \<or> (97 \<le> n \<and> n \<le> 122 \<and> r + 32 = n) \<or> n = 115 \<and> r = 0x17F \<or> n = 107 \<and> r = 0x212A)"

definition equalFold :: "string \<Rightarrow> string \<Rightarrow> bool" where
  "equalFold s t \<longleftrightarrow> list_all2 foldsTo (goRunes s) t"

abbreviation quoteChar :: char where
  "quoteChar \<equiv> CHR 0x27"

fun unquoteBody :: "string \<Rightarrow> string option" where
  "unquoteBody [] = Some []"
| "unquoteBody (c # r) =
     (if c \<noteq> quoteChar then map_option ((#) c) (unquoteBody r)
      else (case r of
              c' # r' \<Rightarrow> if c' = quoteChar then map_option ((#) quoteChar) (unquoteBody r') else None
            | [] \<Rightarrow> None))"

definition unquoteSQLString :: "string \<Rightarrow> string option" where
  "unquoteSQLString s =
     (if length s < 2 \<or> hd s \<noteq> quoteChar \<or> last s \<noteq> quoteChar then None
      else unquoteBody (butlast (tl s)))"

definition defaultNowText :: string where "defaultNowText = ''now()''"
definition defaultCurrentDateText :: string where "defaultCurrentDateText = ''current_date''"

text \<open>Midnight UTC of the day \<open>t\<close> shows.\<close>

definition midnightUTC :: "gotime \<Rightarrow> gotime" where
  "midnightUTC t = \<lparr>t_sec = (t_sec t + t_off t) div 86400 * 86400, t_nsec = 0, t_off = 0\<rparr>"

definition decodeDefaultLiteral :: "golib \<Rightarrow> string \<Rightarrow> gotime \<Rightarrow> any res" where
  "decodeDefaultLiteral L txt now =
     (let s = TrimSpace txt
      in if s = [] \<or> equalFold s ''null'' then Inr ANil
         else if s = defaultNowText then Inr (ATime now)
         else if s = defaultCurrentDateText then Inr (ATime (midnightUTC now))
         else if equalFold s ''true'' then Inr (ABool True)
         else if equalFold s ''false'' then Inr (ABool False)
         else if hd s = quoteChar then
           (case unquoteSQLString s of
              None \<Rightarrow> Inl (Msg ''malformed string literal in column DEFAULT'')
            | Some lit \<Rightarrow> Inr (AString lit))
         else (case parseInt10 s of
                 Some n \<Rightarrow> Inr (AInt64 n)
               | None \<Rightarrow>
                   (case strconv_ParseFloat L s of
                      Some f \<Rightarrow> Inr (AFloat64 f)
                    | None \<Rightarrow> Inl (Msg ''column DEFAULT is not a literal the engine can evaluate''))))"

definition columnDefaultValue :: "golib \<Rightarrow> column \<Rightarrow> gotime \<Rightarrow> val res" where
  "columnDefaultValue L col now =
     res_bind (decodeDefaultLiteral L (c_Default col) now) (\<lambda>v.
       res_bind (coerce L v (c_Type col)) (\<lambda>cv. enforceMaxLen cv col))"

subsection \<open>Writing literals\<close>

fun quoteBody :: "string \<Rightarrow> string" where
  "quoteBody [] = []"
| "quoteBody (c # r) = (if c = quoteChar then [c, c] else [c]) @ quoteBody r"

fun renderLit :: "golib \<Rightarrow> any \<Rightarrow> string" where
  "renderLit L (AInt64 n) = fmtInt (sint n)"
| "renderLit L (AFloat64 f) = strconv_FormatFloat L f"
| "renderLit L (ABool b) = (if b then ''true'' else ''false'')"
| "renderLit L (AString s) = [quoteChar] @ quoteBody s @ [quoteChar]"
| "renderLit L _ = ''null''"

text \<open>\<open>strconv.ParseBool\<close> after \<open>strings.ToLower\<close>.\<close>

definition parseBoolLower :: "string \<Rightarrow> bool option" where
  "parseBoolLower s =
     (if s \<in> {''1'', ''t'', ''true''} then Some True
      else if s \<in> {''0'', ''f'', ''false''} then Some False else None)"

definition coerceLit :: "golib \<Rightarrow> any \<Rightarrow> colType \<Rightarrow> any res" where
  "coerceLit L v t =
     (case v of
        ATime tv \<Rightarrow>
          (case t of
             TTimestamp \<Rightarrow> Inr (AInt64 (unixMicro tv))
           | TDate \<Rightarrow> Inr (AInt64 (dateDays (tv\<lparr>t_off := 0\<rparr>)))
           | _ \<Rightarrow> Inr v)
      | AString s \<Rightarrow>
          (case t of
             TInt \<Rightarrow> (case parseInt10 (TrimSpace s) of Some n \<Rightarrow> Inr (AInt64 n)
                       | None \<Rightarrow> Inl (Msg ''invalid input syntax for type int''))
           | TFloat \<Rightarrow> (case strconv_ParseFloat L (TrimSpace s) of Some f \<Rightarrow> Inr (AFloat64 f)
                         | None \<Rightarrow> Inl (Msg ''invalid input syntax for type float''))
           | TBool \<Rightarrow> (case parseBoolLower (TrimSpace (map lowerAscii s)) of Some b \<Rightarrow> Inr (ABool b)
                        | None \<Rightarrow> Inl (Msg ''invalid input syntax for type bool''))
           | TBytes \<Rightarrow>
               (if prefix [CHR 0x5C, CHR ''x''] s
                then (case hexDecode (drop 2 s) of Some b \<Rightarrow> Inr (ABytes b)
                      | None \<Rightarrow> Inl (Msg ''invalid input syntax for type bytea''))
                else Inr (ABytes (str_bytes s)))
           | TTimestamp \<Rightarrow> res_bind (ParseTimestamp L s) (\<lambda>n. Inr (AInt64 n))
           | TDate \<Rightarrow> res_bind (ParseDate L s) (\<lambda>n. Inr (AInt64 n))
           | TUUID \<Rightarrow> res_bind (ParseUUID s) (\<lambda>b. Inr (ABytes b))
           | TTextArray \<Rightarrow> res_bind (CanonTextArray s) (\<lambda>x. Inr (AString x))
           | TJSONB \<Rightarrow> res_bind (CanonJSONB L s) (\<lambda>x. Inr (AString x))
           | _ \<Rightarrow> Inr v)
      | _ \<Rightarrow> Inr v)"

text \<open>A parsed DEFAULT: a constant, or the marker of a clock function.\<close>

datatype exprDefault = DefaultNow | DefaultCurrentDate

datatype defaultVal = DefConst any | DefExpr exprDefault

fun exprText :: "exprDefault \<Rightarrow> string" where
  "exprText DefaultNow = ''now()''"
| "exprText DefaultCurrentDate = ''current_date''"

text \<open>The part of a column definition that becomes the engine's column.\<close>

record colDef =
  cd_Name :: string
  cd_Type :: colType
  cd_NotNull :: bool
  cd_Identity :: bool
  cd_MaxLen :: int
  cd_Default :: "defaultVal option"   \<comment> \<open>\<open>HasDefault\<close> and \<open>Default\<close>\<close>

fun renderDefault :: "golib \<Rightarrow> defaultVal \<Rightarrow> colType \<Rightarrow> string res" where
  "renderDefault L (DefExpr ed) t =
     (if t \<noteq> TTimestamp \<and> t \<noteq> TDate then Inl (Msg ''DEFAULT requires a timestamp or date column'')
      else Inr (exprText ed))"
| "renderDefault L (DefConst v) t = res_bind (coerceLit L v t) (\<lambda>cv. Inr (renderLit L cv))"

definition toEngineColumn :: "golib \<Rightarrow> colDef \<Rightarrow> column res" where
  "toEngineColumn L c =
     (let col = \<lparr>c_Name = cd_Name c, c_Type = cd_Type c, c_ID = 0, c_NotNull = cd_NotNull c,
                 c_Identity = cd_Identity c, c_Default = [], c_MaxLen = cd_MaxLen c\<rparr>
      in case cd_Default c of
           None \<Rightarrow> Inr col
         | Some v \<Rightarrow> res_bind (renderDefault L v (cd_Type c)) (\<lambda>txt. Inr (col\<lparr>c_Default := txt\<rparr>)))"

subsection \<open>Quoting\<close>

lemma unquoteBody_quote: "unquoteBody (quoteBody s) = Some s"
  by (induction s) auto

lemma unquoteBody_exact: "unquoteBody s = Some b \<Longrightarrow> s = quoteBody b"
proof (induction s arbitrary: b rule: unquoteBody.induct)
  case (2 c r)
  show ?case
  proof (cases "c = quoteChar")
    case True
    then obtain r' b' where "r = quoteChar # r'" "unquoteBody r' = Some b'" "b = quoteChar # b'"
      using 2(3) by (auto split: list.splits if_splits)
    then show ?thesis using 2(2) [of quoteChar r' b'] True by simp
  next
    case False
    then show ?thesis using 2 by auto
  qed
qed simp

lemma unquote_exact: "unquoteSQLString s = Some b \<longleftrightarrow> s = [quoteChar] @ quoteBody b @ [quoteChar]"
proof
  assume u: "unquoteSQLString s = Some b"
  then have s: "2 \<le> length s" "hd s = quoteChar" "last s = quoteChar" "unquoteBody (butlast (tl s)) = Some b"
    by (auto simp: unquoteSQLString_def split: if_splits)
  obtain r where r: "s = quoteChar # r" "r \<noteq> []" using s(1,2) by (cases s) force+
  then have "r = butlast r @ [quoteChar]" using s(3) append_butlast_last_id [of r] by simp
  moreover have "butlast r = quoteBody b" using unquoteBody_exact s(4) r(1) by simp
  ultimately show "s = [quoteChar] @ quoteBody b @ [quoteChar]" using r(1) by simp
next
  assume "s = [quoteChar] @ quoteBody b @ [quoteChar]"
  then show "unquoteSQLString s = Some b" by (simp add: unquoteSQLString_def unquoteBody_quote)
qed

subsection \<open>Numbers\<close>

lemma digitsVal_snoc: "digitsVal (s @ [c]) = 10 * digitsVal s + (of_char c - 48)"
  by (simp add: digitsVal_def)

lemma digit_chr: "n < 10 \<Longrightarrow> isDigitChar (chr (48 + n)) \<and> of_char (chr (48 + n)) = 48 + n"
  by (auto simp: isDigitChar_def chr_def)

lemma decDigits_props: "digitsVal (decDigits n) = n \<and> decDigits n \<noteq> [] \<and> list_all isDigitChar (decDigits n)"
proof (induction n rule: decDigits.induct)
  case (1 n)
  show ?case
  proof (cases "n < 10")
    case True
    then show ?thesis using digit_chr [OF True] by (simp add: decDigits.simps [of n] digitsVal_def)
  next
    case False
    have "n mod 10 < 10" by simp
    note digit_chr [OF this]
    then show ?thesis using 1 [OF False] False
      by (simp add: decDigits.simps [of n] digitsVal_snoc)
  qed
qed

lemma digit_head:
  assumes "list_all isDigitChar ds" "ds \<noteq> []"
  shows "\<exists>c r. ds = c # r \<and> isDigitChar c \<and> c \<noteq> CHR ''-'' \<and> c \<noteq> CHR ''+''"
  using assms by (cases ds) (auto simp: isDigitChar_def)

lemma parseInt10_fmtInt: "parseInt10 (fmtInt (sint n)) = Some n"
proof (cases "sint n < 0")
  case True
  have r: "nat (- sint n) \<le> 2 ^ 63" using sint_greater_eq [of n] by simp
  have "(- of_nat (nat (- sint n)) :: int64) = n" using True by (simp add: of_nat_nat)
  then show ?thesis using True r decDigits_props [of "nat (- sint n)"] by (simp add: parseInt10_def fmtInt_def)
next
  case False
  have r: "nat (sint n) < 2 ^ 63" using sint_less [of n] by simp
  have "(of_nat (nat (sint n)) :: int64) = n" using False by (simp add: of_nat_nat)
  moreover obtain c ds where "decDigits (nat (sint n)) = c # ds" "c \<noteq> CHR ''-''" "c \<noteq> CHR ''+''"
    using digit_head decDigits_props by metis
  ultimately show ?thesis using False r decDigits_props [of "nat (sint n)"] by (simp add: parseInt10_def fmtInt_def)
qed

subsection \<open>Literals survive the descriptor\<close>

lemma goRunes_Cons: "(of_char c :: nat) < 128 \<Longrightarrow> goRunes (c # s) = of_char c # goRunes s"
  by (simp add: goRunes_def codes_def runesOf.simps [of "_ # _"])

lemma not_keyword:
  assumes "33 \<le> (of_char c :: nat)" "(of_char c :: nat) \<le> 64"
  shows "\<not> equalFold (c # r) ''null''" "\<not> equalFold (c # r) ''true''" "\<not> equalFold (c # r) ''false''"
    "c # r \<noteq> defaultNowText" "c # r \<noteq> defaultCurrentDateText"
  using assms
  by (auto simp: equalFold_def goRunes_Cons foldsTo_def lowerAscii_def Let_def defaultNowText_def defaultCurrentDateText_def)

lemma solid_char: "33 \<le> (of_char c :: nat) \<Longrightarrow> (of_char c :: nat) \<le> 64 \<Longrightarrow> p \<in> set goSpaces \<Longrightarrow> c \<notin> set p"
  using goSpaces_codes by fastforce

lemma decode_plain:
  assumes "33 \<le> (of_char c :: nat)" "(of_char c :: nat) \<le> 64"
    "33 \<le> (of_char (last (c # r)) :: nat)" "(of_char (last (c # r)) :: nat) \<le> 64"
  shows "decodeDefaultLiteral L (c # r) now =
    (if c = quoteChar then (case unquoteSQLString (c # r) of
        None \<Rightarrow> Inl (Msg ''malformed string literal in column DEFAULT'') | Some lit \<Rightarrow> Inr (AString lit))
     else (case parseInt10 (c # r) of Some n \<Rightarrow> Inr (AInt64 n)
        | None \<Rightarrow> (case strconv_ParseFloat L (c # r) of Some f \<Rightarrow> Inr (AFloat64 f)
            | None \<Rightarrow> Inl (Msg ''column DEFAULT is not a literal the engine can evaluate''))))"
proof -
  have "TrimSpace (c # r) = c # r"
    by (rule TrimSpace_id) (use solid_char assms in auto)
  then show ?thesis using not_keyword [OF assms(1,2), of r] by (simp add: decodeDefaultLiteral_def Let_def)
qed

lemma digit_range: "isDigitChar c \<Longrightarrow> c \<noteq> quoteChar \<and> 33 \<le> (of_char c :: nat) \<and> (of_char c :: nat) \<le> 64"
  by (auto simp: isDigitChar_def)

lemma fmtInt_ends:
  "\<exists>c r. fmtInt v = c # r \<and> c \<noteq> quoteChar \<and> 33 \<le> (of_char c :: nat) \<and> (of_char c :: nat) \<le> 64 \<and>
     33 \<le> (of_char (last (c # r)) :: nat) \<and> (of_char (last (c # r)) :: nat) \<le> 64"
proof -
  have cr: "\<exists>c r. decDigits n = c # r \<and> isDigitChar c \<and> isDigitChar (last (c # r))" for n
  proof -
    obtain c r where cr: "decDigits n = c # r" using decDigits_props [of n] by (cases "decDigits n") auto
    moreover have "list_all isDigitChar (c # r)" using decDigits_props [of n] cr by simp
    then have "isDigitChar c" "isDigitChar (last (c # r))" using last_in_set [of "c # r"] unfolding list_all_iff by auto
    ultimately show ?thesis by blast
  qed
  show ?thesis
  proof (cases "v < 0")
    case True
    obtain c r where "decDigits (nat (- v)) = c # r" "isDigitChar (last (c # r))" using cr by blast
    then show ?thesis using True digit_range [of "last (c # r)"] by (auto simp: fmtInt_def)
  next
    case False
    obtain c r where "decDigits (nat v) = c # r" "isDigitChar c" "isDigitChar (last (c # r))" using cr by blast
    then show ?thesis using False digit_range [of c] digit_range [of "last (c # r)"] by (auto simp: fmtInt_def)
  qed
qed

text \<open>The literals whose text the engine can read back; floats rest on the library's formatting.\<close>

fun plainLit :: "any \<Rightarrow> bool" where
  "plainLit (AInt64 _) \<longleftrightarrow> True"
| "plainLit (ABool _) \<longleftrightarrow> True"
| "plainLit (AString _) \<longleftrightarrow> True"
| "plainLit ANil \<longleftrightarrow> True"
| "plainLit _ \<longleftrightarrow> False"

lemma decode_word:
  "decodeDefaultLiteral L ''null'' now = Inr ANil" "decodeDefaultLiteral L ''true'' now = Inr (ABool True)"
  "decodeDefaultLiteral L ''false'' now = Inr (ABool False)"
proof -
  have sp: "c \<notin> set p" if "p \<in> set goSpaces" "c \<in> {CHR ''n'', CHR ''l'', CHR ''t'', CHR ''e'', CHR ''f''}" for c p
    using goSpaces_codes [OF that(1), of c] that(2) by fastforce
  have t: "TrimSpace ''null'' = ''null''" "TrimSpace ''true'' = ''true''" "TrimSpace ''false'' = ''false''"
    by (rule TrimSpace_id, use sp in force)+
  have f: "equalFold ''null'' ''null''" "\<not> equalFold ''true'' ''null''" "equalFold ''true'' ''true''" "\<not> equalFold ''false'' ''null''"
    "\<not> equalFold ''false'' ''true''" "equalFold ''false'' ''false''"
    by (simp_all add: equalFold_def goRunes_ascii(1) codes_def foldsTo_def lowerAscii_def)
  show "decodeDefaultLiteral L ''null'' now = Inr ANil" "decodeDefaultLiteral L ''true'' now = Inr (ABool True)"
    "decodeDefaultLiteral L ''false'' now = Inr (ABool False)"
    by (simp_all add: decodeDefaultLiteral_def t f defaultNowText_def defaultCurrentDateText_def)
qed

lemma decode_render:
  assumes "plainLit v"
  shows "decodeDefaultLiteral L (renderLit L v) now = Inr v"
  using assms
proof (cases v)
  case (AInt64 n)
  obtain c r where "fmtInt (sint n) = c # r" "c \<noteq> quoteChar" "33 \<le> (of_char c :: nat)" "(of_char c :: nat) \<le> 64"
    "33 \<le> (of_char (last (c # r)) :: nat)" "(of_char (last (c # r)) :: nat) \<le> 64" using fmtInt_ends by blast
  then show ?thesis using AInt64 decode_plain [of c r L now] parseInt10_fmtInt [of n] by simp
next
  case (AString x)
  have "unquoteSQLString (quoteChar # quoteBody x @ [quoteChar]) = Some x" using unquote_exact [of _ x] by simp
  then show ?thesis using AString decode_plain [of quoteChar "quoteBody x @ [quoteChar]" L now] by simp
qed (auto simp: decode_word)


definition nickDef :: colDef where
  "nickDef = \<lparr>cd_Name = ''nick'', cd_Type = TString, cd_NotNull = True, cd_Identity = False, cd_MaxLen = 8,
     cd_Default = Some (DefConst (AString (''it'' @ [quoteChar] @ ''s'')))\<rparr>"

definition nickCol :: column where
  "nickCol = \<lparr>c_Name = ''nick'', c_Type = TString, c_ID = 0, c_NotNull = True, c_Identity = False,
     c_Default = [quoteChar] @ ''it'' @ [quoteChar, quoteChar] @ ''s'' @ [quoteChar], c_MaxLen = 8\<rparr>"


text \<open>C40. A string DEFAULT on a \<open>bytea\<close> or \<open>uuid\<close> column is accepted and then lost: the literal converts to a
  byte string, which has no literal form, so the text stored for it reads back as NULL.\<close>

theorem byte_default_lost:
  assumes "toEngineColumn L c = Inr col" "cd_Default c = Some (DefConst (AString s))" "cd_Type c \<in> {TBytes, TUUID}"
  shows "(\<exists>b. coerceLit L (AString s) (cd_Type c) = Inr (ABytes b)) \<and>
    c_Default col = ''null'' \<and> columnDefaultValue L col now = Inr VNull"
proof -
  obtain cv where cv: "coerceLit L (AString s) (cd_Type c) = Inr cv" "c_Default col = renderLit L cv"
    using assms(1,2) by (auto simp: toEngineColumn_def)
  obtain b where b: "cv = ABytes b" using cv(1) assms(3) by (auto simp: coerceLit_def split: if_splits option.splits)
  then have "c_Default col = ''null''" using cv(2) by simp
  then have "columnDefaultValue L col now = Inr VNull"
    by (simp add: columnDefaultValue_def decode_word coerce_def enforceMaxLen_def)
  then show ?thesis using cv b by simp
qed

theorem byte_default_lost_witness:
  "\<exists>col. toEngineColumn noLib (nickDef\<lparr>cd_Type := TBytes, cd_MaxLen := 0\<rparr>) = Inr col \<and>
     columnDefaultValue noLib col \<lparr>t_sec = 0, t_nsec = 0, t_off = 0\<rparr> = Inr VNull"
proof -
  let ?c = "nickDef\<lparr>cd_Type := TBytes, cd_MaxLen := 0\<rparr>"
  have d: "cd_Default ?c = Some (DefConst (AString (''it'' @ [quoteChar] @ ''s'')))" "cd_Type ?c \<in> {TBytes, TUUID}"
    by (simp_all add: nickDef_def)
  obtain col where c: "toEngineColumn noLib ?c = Inr col"
    by (simp add: toEngineColumn_def nickDef_def coerceLit_def)
  show ?thesis using byte_default_lost [OF c d] c by blast
qed

end
