(* ===== verification/DdlBase.thy ===== *)
theory DdlBase
  imports TxnSim Scan Default
begin

text \<open>
  What the schema changes share: rewriting a descriptor in a DDL transaction (\<open>alterDesc\<close> and
  \<open>writeDescIn\<close> of \<open>src/ddl.go\<close>), the inbound foreign keys of a table (\<open>referencingFKs\<close> and
  \<open>uniqueKeyCovers\<close> of \<open>src/fk.go\<close>), and counting a table's rows. A mutation also returns what its
  caller captures. The lemmas give the one-step meaning of each on a transaction's content, the
  catalog after a descriptor write, and the rule every schema change is verified with: a committed
  change is one run of its closure on the stored content, and a failed one leaves it alone.
\<close>

subsection \<open>Rewriting a descriptor\<close>

definition writeDescIn :: "descCodec \<Rightarrow> 'tx kvops \<Rightarrow> string \<Rightarrow> tableDesc \<Rightarrow> ('tx, unit) act" where
  "writeDescIn C K table desc = act_bind (act_lift (marshalDesc C desc)) (\<lambda>blob. kv_Set K (descKey table) blob)"

definition alterIn ::
  "('db, 'tx) deps \<Rightarrow> string \<Rightarrow> (tableDesc \<Rightarrow> (('db, 'z) engine_scheme \<times> 'tx, tableDesc option \<times> 'a) act) \<Rightarrow>
   (('db, 'z) engine_scheme \<times> 'tx, 'a) act" where
  "alterIn E table mutate =
     act_bind (descFromView E table) (\<lambda>old.
       act_bind (mutate old) (\<lambda>(desc, x).
         act_bind (case desc of None \<Rightarrow> act_return ()
                   | Some d \<Rightarrow> onTx (writeDescIn (p_desc E) (p_kv E) table d)) (\<lambda>_. act_return x)))"

definition alterDesc ::
  "('db, 'tx) deps \<Rightarrow> string \<Rightarrow> (tableDesc \<Rightarrow> (('db, 'z) engine_scheme \<times> 'tx, tableDesc option \<times> 'a) act) \<Rightarrow>
   (('db, 'z) engine_scheme, 'a) act" where
  "alterDesc E table mutate = updateDDL E (alterIn E table mutate)"

subsection \<open>Foreign keys by referenced table\<close>

fun refsLoop ::
  "('db, 'tx) deps \<Rightarrow> string \<Rightarrow> bool \<Rightarrow> key list \<Rightarrow> (('db, 'z) engine_scheme \<times> 'tx, (tableDesc \<times> fkDesc) list) act" where
  "refsLoop E table skipSelf [] = act_return []"
| "refsLoop E table skipSelf (k # ks) =
     act_bind (tableFromView E (descKeyName k)) (\<lambda>desc.
       act_bind (refsLoop E table skipSelf ks) (\<lambda>rest.
         act_return ((case desc of
             None \<Rightarrow> []
           | Some d \<Rightarrow>
               if skipSelf \<and> d_Name d = table then []
               else map (\<lambda>f. (d, f)) (filter (\<lambda>f. fk_RefTable f = table) (d_ForeignKeys d))) @ rest)))"

definition referencingFKs ::
  "('db, 'tx) deps \<Rightarrow> string \<Rightarrow> bool \<Rightarrow> (('db, 'z) engine_scheme \<times> 'tx, (tableDesc \<times> fkDesc) list) act" where
  "referencingFKs E table skipSelf s =
     refsLoop E table skipSelf
       (map fst (iterAscend (p_kv E) descTablePrefix (prefixEndKey descTablePrefix) (snd s))) s"

definition uniqueKeyCovers :: "tableDesc \<Rightarrow> string list \<Rightarrow> bool" where
  "uniqueKeyCovers d cols =
     (let sameSet = (\<lambda>ords. length ords = length (remdups cols) \<and>
                       list_all (\<lambda>ord. c_Name (d_Columns d ! ord) \<in> set cols) ords)
      in sameSet (d_PKCols d) \<or> list_ex (\<lambda>x. x_Unique x \<and> sameSet (x_Cols x)) (d_Indexes d))"

subsection \<open>Counting rows\<close>

fun countLoop :: "int64 \<Rightarrow> int64 \<Rightarrow> 'a list \<Rightarrow> int64" where
  "countLoop limit n [] = n"
| "countLoop limit n (x # xs) = (let n' = n + 1 in if limit <=s n' then n' else countLoop limit n' xs)"

abbreviation tableRows :: "'tx kvops \<Rightarrow> uint64 \<Rightarrow> 'tx \<Rightarrow> (key \<times> bytes) list" where
  "tableRows K tableID \<equiv> iterAscend K (tablePrefix tableID) (prefixEndKey (tablePrefix tableID))"

definition countRowsUpTo :: "'tx kvops \<Rightarrow> uint64 \<Rightarrow> int64 \<Rightarrow> 'tx \<Rightarrow> int64" where
  "countRowsUpTo K tableID limit t = (if limit <=s 0 then 0 else countLoop limit 0 (tableRows K tableID t))"

definition hasRows :: "'tx kvops \<Rightarrow> uint64 \<Rightarrow> 'tx \<Rightarrow> bool" where
  "hasRows K tableID t \<longleftrightarrow> 0 <s countRowsUpTo K tableID 1 t"

subsection \<open>What a closure does to the content\<close>

text \<open>
  A state a DDL closure can be in: an open writable transaction with content \<open>m\<close> begun on \<open>b\<close>, an engine
  with a correct cache and the given backfill limit, and the store \<open>d\<close>, which closures never touch.
\<close>

definition ddlState ::
  "('db, 'tx) deps \<Rightarrow> ('tx \<Rightarrow> bool) \<Rightarrow> ('tx \<Rightarrow> key \<Rightarrow> bytes option) \<Rightarrow> ('tx \<Rightarrow> key \<Rightarrow> bytes option) \<Rightarrow> int64 \<Rightarrow>
   (key \<Rightarrow> bytes option) \<Rightarrow> (key \<Rightarrow> bytes option) \<Rightarrow> 'db \<Rightarrow> ('db, 'z) engine_scheme \<times> 'tx \<Rightarrow> bool" where
  "ddlState E ok content base lmt m b d s \<longleftrightarrow>
     ok (snd s) \<and> kv_Writable (p_kv E) (snd s) \<and> content (snd s) = m \<and> base (snd s) = b \<and>
     cacheOk (p_desc E) (fst s) \<and> e_backfillLimit (fst s) = lmt \<and> e_kv (fst s) = d"

definition ddlSpec ::
  "('db, 'tx) deps \<Rightarrow> ('tx \<Rightarrow> bool) \<Rightarrow> ('tx \<Rightarrow> key \<Rightarrow> bytes option) \<Rightarrow> ('tx \<Rightarrow> key \<Rightarrow> bytes option) \<Rightarrow> int64 \<Rightarrow>
   (key \<Rightarrow> bytes option) \<Rightarrow> (('db, 'z) engine_scheme \<times> 'tx, 'a) act \<Rightarrow> ('a res \<Rightarrow> (key \<Rightarrow> bytes option) \<Rightarrow> bool) \<Rightarrow> bool" where
  "ddlSpec E ok content base lmt m fn Q \<longleftrightarrow>
     (\<forall>b d s. ddlState E ok content base lmt m b d s \<longrightarrow>
        (\<exists>r s' m'. fn s = (r, s') \<and> ddlState E ok content base lmt m' b d s' \<and> Q r m'))"

text \<open>A closure that refuses states it is not specified on; inside \<open>updateDDL\<close> it never has to.\<close>

definition guarded ::
  "('db, 'tx) deps \<Rightarrow> ('tx \<Rightarrow> key \<Rightarrow> bytes option) \<Rightarrow> (key \<Rightarrow> bytes option) \<Rightarrow> ('e \<times> 'tx, 'a) act \<Rightarrow> ('e \<times> 'tx, 'a) act" where
  "guarded E content m fn s =
     (if kv_Writable (p_kv E) (snd s) \<and> content (snd s) = m then fn s else (Inl ErrTxNotWritable, s))"

context engine_env
begin

abbreviation spec ::
  "int64 \<Rightarrow> (key \<Rightarrow> bytes option) \<Rightarrow> (('db, 'z) engine_scheme \<times> 'tx, 'a) act \<Rightarrow> ('a res \<Rightarrow> (key \<Rightarrow> bytes option) \<Rightarrow> bool) \<Rightarrow> bool" where
  "spec \<equiv> ddlSpec E wf content base"

abbreviation dst :: "int64 \<Rightarrow> (key \<Rightarrow> bytes option) \<Rightarrow> (key \<Rightarrow> bytes option) \<Rightarrow> 'db \<Rightarrow> ('db, 'z) engine_scheme \<times> 'tx \<Rightarrow> bool" where
  "dst \<equiv> ddlState E wf content base"

abbreviation ddlOk :: "int64 \<Rightarrow> ('db, 'z) engine_scheme \<Rightarrow> bool" where
  "ddlOk lmt e \<equiv> cacheOk (p_desc E) e \<and> e_backfillLimit e = lmt"

lemma ddlOk_kv: "ddlOk lmt (e\<lparr>e_kv := d\<rparr>) \<longleftrightarrow> ddlOk lmt e"
  by (simp add: cacheOk_def)

lemma closureOk_guarded:
  assumes "spec lmt m fn Q"
  shows "closureOk (ddlOk lmt) (guarded E content m fn)"
  unfolding closureKeeps_def act_keeps_def
proof (intro allI impI)
  fix b d s r s'
  assume a: "case s of (e, t) \<Rightarrow> txOn b t \<and> ddlOk lmt e \<and> e_kv e = d" and r: "guarded E content m fn s = (r, s')"
  show "case s' of (e, t) \<Rightarrow> txOn b t \<and> ddlOk lmt e \<and> e_kv e = d"
  proof (cases "kv_Writable (p_kv E) (snd s) \<and> content (snd s) = m")
    case True
    then have "dst lmt m b d s" using a by (simp add: ddlState_def case_prod_beta)
    then obtain m' where "dst lmt m' b d s'" using assms r True unfolding ddlSpec_def guarded_def by (metis prod.inject)
    then show ?thesis by (simp add: ddlState_def case_prod_beta)
  next
    case False
    then have "s' = s" using r unfolding guarded_def by (simp split: if_splits)
    then show ?thesis using a by simp
  qed
qed

lemma ran_guarded:
  assumes sp: "spec lmt m fn Q" and r: "ran (ddlOk lmt) (guarded E content m fn) m x e1 m'"
  shows "Q (Inr x) m'"
proof -
  obtain e0 t t' where f: "ddlOk lmt e0" "wf t" "kv_Writable (p_kv E) t" "content t = m"
    "fn (e0, t) = (Inr x, (e1, t'))" "content t' = m'"
    using r by (auto simp: ranOk_def guarded_def)
  then have "dst lmt m (base t) (e_kv e0) (e0, t)" by (simp add: ddlState_def)
  then obtain r s' m2 where g: "fn (e0, t) = (r, s')" "dst lmt m2 (base t) (e_kv e0) s'" "Q r m2"
    using sp unfolding ddlSpec_def by blast
  have "r = Inr x" "s' = (e1, t')" using f(5) g(1) by simp_all
  then have "Q (Inr x) (content t')" using g(2,3) by (simp add: ddlState_def)
  then show ?thesis using f(6) by simp
qed

lemma startTx_cong:
  assumes "\<And>t d'. B (e_kv e) = (Inr t, d') \<Longrightarrow> wf t \<and> kv_Writable (p_kv E) t \<and> content t = m"
    "\<And>e0 t. wf t \<Longrightarrow> kv_Writable (p_kv E) t \<Longrightarrow> content t = m \<Longrightarrow> h (e0, t) = h' (e0, t)"
  shows "act_bind (withDb B) (finishTx E h) e = act_bind (withDb B) (finishTx E h') e"
  using assms by (auto simp: act_bind_def withDb_def finishTx_def split: prod.splits sum.splits)

lemma eUpdate_guarded:
  assumes "dwf (e_kv e)" "dcontent (e_kv e) = m"
  shows "eUpdate E fn e = eUpdate E (guarded E content m fn) e"
    "eUpdate E (markExclusive E fn) e = eUpdate E (markExclusive E (guarded E content m fn)) e"
    "eUpdateExclusive E fn e = eUpdateExclusive E (guarded E content m fn) e"
proof -
  have B: "\<And>t d'. db_Begin (p_db E) True (e_kv e) = (Inr t, d') \<Longrightarrow> wf t \<and> kv_Writable (p_kv E) t \<and> content t = m"
    "\<And>t d'. db_BeginExclusive (p_db E) (e_kv e) = (Inr t, d') \<Longrightarrow> wf t \<and> kv_Writable (p_kv E) t \<and> content t = m"
    using begin_rw [OF assms(1)] beginX_rw [OF assms(1)] assms(2) by blast+
  show "eUpdate E fn e = eUpdate E (guarded E content m fn) e"
    "eUpdate E (markExclusive E fn) e = eUpdate E (markExclusive E (guarded E content m fn)) e"
    unfolding eUpdate_def by (rule startTx_cong [OF B(1)]; simp add: guarded_def markExclusive_def)+
  show "eUpdateExclusive E fn e = eUpdateExclusive E (guarded E content m fn) e"
    unfolding eUpdateExclusive_def by (rule startTx_cong [OF B(2)]) (simp_all add: guarded_def)
qed

lemma ddlTries_guarded:
  assumes sp: "spec lmt m fn Q" and e: "ddlOk lmt e" "dwf (e_kv e)" "dcontent (e_kv e) = m"
  shows "ddlTries E n fn e = ddlTries E n (guarded E content m fn) e"
  using e
proof (induction n arbitrary: e)
  case 0
  then show ?case using eUpdate_guarded(3) [OF 0(2,3)] by simp
next
  case (Suc n)
  note g = eUpdate_guarded(2) [OF Suc.prems(2,3), of fn]
  show ?case
  proof (cases "eUpdate E (markExclusive E (guarded E content m fn)) e")
    case (Pair q e2)
    show ?thesis
    proof (cases "q = Inl ErrTxConflict")
      case True
      note er = eUpdate_err [OF markExclusive_ok [OF closureOk_guarded [OF sp]] ddlOk_kv Suc.prems(1,2) Pair [unfolded True]]
      then show ?thesis using Suc.IH [of e2] Suc.prems(3) Pair True g by simp
    next
      case False
      then show ?thesis using Pair g by (auto split: sum.splits err.splits)
    qed
  qed
qed

lemma updateDDL_guarded:
  assumes sp: "spec lmt m fn Q" and e: "ddlOk lmt e" "dwf (e_kv e)" "dcontent (e_kv e) = m"
  shows "updateDDL E fn e = updateDDL E (guarded E content m fn) e"
proof -
  have b: "guarded E content m fn (e0, t) = fn (e0, t)" if "db_Begin (p_db E) True (e_kv e) = (Inr t, d')" for e0 t d'
    using begin_rw [OF e(2) that] e(3) by (simp add: guarded_def)
  show ?thesis
  proof (cases "checkReentrantWrite E e")
    case (Pair q e0)
    then have "e0 = e" using checkReentrantWrite_id by blast
    then show ?thesis using Pair b eUpdate_guarded(1) [OF e(2,3), of fn] ddlTries_guarded [OF sp e, of ddlOptimisticTries]
      by (cases q) (auto simp: updateDDL_def act_bind_def withDb_def split: option.splits prod.splits sum.splits)
  qed
qed

text \<open>
  The rule for schema changes: the one that commits leaves the content its closure computes from the
  stored one; one that reports an error leaves the store as it was, unless the commit itself failed
  after it took effect.
\<close>

lemma updateDDL_spec:
  assumes sp: "spec lmt (dcontent (e_kv e)) fn Q" and e: "ddlOk lmt e" "dwf (e_kv e)" and r: "updateDDL E fn e = (r, e')"
  shows "ddlOk lmt e' \<and> dwf (e_kv e') \<and>
    (case r of Inr x \<Rightarrow> Q (Inr x) (dcontent (e_kv e'))
     | Inl err \<Rightarrow> dcontent (e_kv e') = dcontent (e_kv e) \<or> err \<noteq> ErrTxConflict \<and> (\<exists>x. Q (Inr x) (dcontent (e_kv e'))))"
proof -
  let ?g = "guarded E content (dcontent (e_kv e)) fn"
  have r': "updateDDL E ?g e = (r, e')" using r updateDDL_guarded [OF sp e] by simp
  note co = closureOk_guarded [OF sp]
  show ?thesis
  proof (cases r)
    case (Inl err)
    from updateDDL_err [OF co ddlOk_kv e(1,2) r' [unfolded Inl]]
    show ?thesis using Inl ran_guarded [OF sp] by auto
  next
    case (Inr x)
    from updateDDL_ok [OF co ddlOk_kv e(1,2) r' [unfolded Inr]]
    show ?thesis using Inr ran_guarded [OF sp] ddlOk_kv by auto
  qed
qed

subsection \<open>Rules\<close>

lemma spec_conseq: "spec lmt m fn P \<Longrightarrow> (\<And>r m'. P r m' \<Longrightarrow> Q r m') \<Longrightarrow> spec lmt m fn Q"
  unfolding ddlSpec_def by meson

lemma spec_cong: "(\<And>b d s. dst lmt m b d s \<Longrightarrow> fn s = gn s) \<Longrightarrow> spec lmt m gn Q \<Longrightarrow> spec lmt m fn Q"
  unfolding ddlSpec_def by metis

lemma spec_bind:
  fixes f :: "(('db, 'z) engine_scheme \<times> 'tx, 'a) act"
  assumes "spec lmt m f P" "\<And>x m'. P (Inr x) m' \<Longrightarrow> spec lmt m' (g x) Q" "\<And>err m'. P (Inl err) m' \<Longrightarrow> Q (Inl err) m'"
  shows "spec lmt m (act_bind f g) Q"
  unfolding ddlSpec_def
proof (intro allI impI)
  fix b d and s :: "('db, 'z) engine_scheme \<times> 'tx"
  assume s: "dst lmt m b d s"
  obtain r s1 m1 where f: "f s = (r, s1)" "dst lmt m1 b d s1" "P r m1" using assms(1) s unfolding ddlSpec_def by blast
  show "\<exists>r s' m'. act_bind f g s = (r, s') \<and> dst lmt m' b d s' \<and> Q r m'"
  proof (cases r)
    case (Inl err)
    then show ?thesis using f assms(3) by auto
  next
    case (Inr x)
    then obtain r2 s2 m2 where "g x s1 = (r2, s2)" "dst lmt m2 b d s2" "Q r2 m2"
      using f assms(2) unfolding ddlSpec_def by blast
    then show ?thesis using f(1) Inr by auto
  qed
qed

lemma spec_pure:
  "Q (Inr x) m \<Longrightarrow> spec lmt m (act_return x) Q" "Q (Inl err) m \<Longrightarrow> spec lmt m (act_fail err) Q" "Q r m \<Longrightarrow> spec lmt m (act_lift r) Q"
  unfolding ddlSpec_def by (auto simp: act_return_def act_fail_def act_lift_def)

lemma spec_get: "(\<And>b d s. dst lmt m b d s \<Longrightarrow> f s = x) \<Longrightarrow> Q (Inr x) m \<Longrightarrow> spec lmt m (act_get f) Q"
  unfolding ddlSpec_def by (auto simp: act_get_def)

lemma spec_onTx:
  assumes "\<And>t. wf t \<Longrightarrow> kv_Writable (p_kv E) t \<Longrightarrow> content t = m \<Longrightarrow>
      \<exists>r t'. a t = (r, t') \<and> wf t' \<and> kv_Writable (p_kv E) t' \<and> Q r (content t')"
    "\<And>b. act_keeps (txOn b) a"
  shows "spec lmt m (onTx a :: (('db, 'z) engine_scheme \<times> 'tx, 'a) act) Q"
  unfolding ddlSpec_def
proof (intro allI impI)
  fix b d and s :: "('db, 'z) engine_scheme \<times> 'tx"
  assume s: "dst lmt m b d s"
  then have "wf (snd s)" "kv_Writable (p_kv E) (snd s)" "content (snd s) = m" "base (snd s) = b" by (auto simp: ddlState_def)
  moreover from assms(1) [OF this(1-3)] obtain r t' where "a (snd s) = (r, t')" "wf t'" "kv_Writable (p_kv E) t'" "Q r (content t')" by blast
  moreover from act_keepsD [OF assms(2) _ this(1)] calculation have "base t' = b" by blast
  ultimately show "\<exists>r s' m'. onTx a s = (r, s') \<and> dst lmt m' b d s' \<and> Q r m'"
    using s by (auto simp: ddlState_def onTx_def)
qed

lemma spec_set: "Q (Inr ()) (m(k \<mapsto> v)) \<Longrightarrow> spec lmt m (onTx (kv_Set (p_kv E) k v)) Q"
  by (rule spec_onTx) (use put in metis, rule keeps_kv)

lemma spec_delete: "Q (Inr (m k \<noteq> None)) (m(k := None)) \<Longrightarrow> spec lmt m (onTx (kv_Delete (p_kv E) k)) Q"
  by (rule spec_onTx) (use del in metis, rule keeps_kv)

lemma spec_counter:
  assumes "counterVal m k start = Inr c" "Q (if c = maxUint64 then Inl exhaustedErr else Inr c) (if c = maxUint64 then m else m(k \<mapsto> be64 (c + 1)))"
  shows "spec lmt m (onTx (nextFromCounter (p_kv E) k start)) Q"
proof (rule spec_onTx)
  fix t
  assume t: "wf t" "kv_Writable (p_kv E) t" "content t = m"
  then show "\<exists>r t'. nextFromCounter (p_kv E) k start t = (r, t') \<and> wf t' \<and> kv_Writable (p_kv E) t' \<and> Q r (content t')"
    using nextFromCounter_eq [OF t(1,2), of k start] assms by (auto split: if_splits)
next
  show "act_keeps (txOn b) (nextFromCounter (p_kv E) k start)" for b
    unfolding nextFromCounter_def by (auto intro!: act_keeps_bind keeps_kv split: option.split)
qed

lemma spec_table:
  "Q (tableAt (p_desc E) m name) m \<Longrightarrow> spec lmt m (tableFromView E name :: (('db, 'z) engine_scheme \<times> 'tx, tableDesc option) act) Q"
  unfolding ddlSpec_def
proof (intro allI impI)
  fix b d and s :: "('db, 'z) engine_scheme \<times> 'tx"
  assume q: "Q (tableAt (p_desc E) m name) m" and s: "dst lmt m b d s"
  obtain e t where et: "s = (e, t)" by (cases s)
  have t: "wf t" "content t = m" "cacheOk (p_desc E) e" using s et by (auto simp: ddlState_def)
  obtain e' where "tableFromView E name (e, t) = (tableAt (p_desc E) m name, (e', t))" "cacheOk (p_desc E) e'" "sameBut e e'"
    using tableFromView_tx [OF t(1,3), of name] unfolding t(2) by blast
  then show "\<exists>r s' m'. tableFromView E name s = (r, s') \<and> dst lmt m' b d s' \<and> Q r m'"
    using s q sameBut_fields(1,8) [of e e'] unfolding et
    by (intro exI [of _ "tableAt (p_desc E) m name"] exI [of _ "(e', t)"] exI [of _ m]) (simp add: ddlState_def)
qed

lemma spec_desc:
  assumes "tableAt (p_desc E) m name = Inr x" "Q (case x of None \<Rightarrow> Inl noTable | Some d \<Rightarrow> Inr d) m"
  shows "spec lmt m (descFromView E name) Q"
  unfolding descFromView_def
  by (rule spec_bind [OF spec_table [where Q = "\<lambda>r m'. r = Inr x \<and> m' = m"]]) (use assms in \<open>auto split: option.splits intro!: spec_pure\<close>)

end

subsection \<open>Reading a region\<close>

definition regionOf :: "(key \<Rightarrow> bytes option) \<Rightarrow> bytes \<Rightarrow> (key \<times> bytes) list" where
  "regionOf m p = (THE xs. sorted_wrt (<) (map fst xs) \<and> set xs = {(k, v). prefix p k \<and> m k = Some v})"

definition regionPrefix :: "bytes \<Rightarrow> bool" where
  "regionPrefix p \<longleftrightarrow> (\<forall>k. p \<le> k \<and> k < prefixEndKey p \<longleftrightarrow> prefix p k)"

lemma regionPrefixes:
  "regionPrefix (tablePrefix i)" "regionPrefix (tableSpace i)" "regionPrefix (indexPrefix i j)" "regionPrefix descTablePrefix"
  "regionPrefix (identitySeqTablePrefix i)"
  unfolding regionPrefix_def descTablePrefix_def tablePrefix_interval tableSpace_interval indexPrefix_interval
  by (simp_all, unfold key_shapes, intro allI prefix_interval') simp

lemma descKeyName_descKey [simp]: "descKeyName (descKey n) = n"
  unfolding descKeyName_def key_shapes Decode_concat by simp

lemma descKey_prefix: "prefix descTablePrefix (descKey n)"
  unfolding descTablePrefix_def by (simp add: key_shapes prefix_def)

text \<open>The inbound foreign keys of a table in a catalog.\<close>

definition inbound :: "(string \<Rightarrow> tableDesc option) \<Rightarrow> string \<Rightarrow> bool \<Rightarrow> (tableDesc \<times> fkDesc) set" where
  "inbound cat table skipSelf =
     {(d, f). (\<exists>n. cat n = Some d) \<and> f \<in> set (d_ForeignKeys d) \<and> fk_RefTable f = table \<and> \<not> (skipSelf \<and> d_Name d = table)}"

context engine_env
begin

lemma region_iter:
  assumes t: "wf t" and p: "regionPrefix p"
  shows "iterAscend (p_kv E) p (prefixEndKey p) t = regionOf (content t) p"
proof -
  let ?xs = "iterAscend (p_kv E) p (prefixEndKey p) t"
  have "{(k, v). p \<le> k \<and> k < prefixEndKey p \<and> content t k = Some v} = {(k, v). prefix p k \<and> content t k = Some v}"
    using p unfolding regionPrefix_def by auto
  then have xs: "sorted_wrt (<) (map fst ?xs)" "set ?xs = {(k, v). prefix p k \<and> content t k = Some v}"
    using iterAscend_props [OF t, of p "prefixEndKey p"] by simp_all
  show ?thesis unfolding regionOf_def
  proof (rule the_equality [symmetric])
    show "sorted_wrt (<) (map fst ?xs) \<and> set ?xs = {(k, v). prefix p k \<and> content t k = Some v}" using xs by blast
    show "ys = ?xs" if "sorted_wrt (<) (map fst ys) \<and> set ys = {(k, v). prefix p k \<and> content t k = Some v}" for ys
      by (rule sorted_pairs_unique) (use that xs in blast)+
  qed
qed

lemma region_props:
  assumes "wf t" "regionPrefix p"
  shows "sorted_wrt (<) (map fst (regionOf (content t) p))"
    "set (regionOf (content t) p) = {(k, v). prefix p k \<and> content t k = Some v}"
  using iterAscend_props [OF assms(1), of p "prefixEndKey p"] assms(2) unfolding region_iter [OF assms] regionPrefix_def by auto

lemma spec_deleteSpace:
  assumes "regionPrefix p" "Q (Inr ()) (\<lambda>k. if prefix p k then None else m k)"
  shows "spec lmt m (onTx (act_bind (kv_DeleteRange (p_kv E) p (prefixEndKey p)) (\<lambda>_. act_return ()))) Q"
proof (rule spec_onTx)
  fix t
  assume t: "wf t" "kv_Writable (p_kv E) t" "content t = m"
  obtain n t' where "kv_DeleteRange (p_kv E) p (prefixEndKey p) t = (Inr n, t')" "wf t'" "kv_Writable (p_kv E) t'"
    "content t' = (\<lambda>k. if p \<le> k \<and> k < prefixEndKey p then None else m k)" using delRange [OF t(1,2)] unfolding t(3) .
  then show "\<exists>r t'. act_bind (kv_DeleteRange (p_kv E) p (prefixEndKey p)) (\<lambda>_. act_return ()) t = (r, t') \<and> wf t' \<and>
      kv_Writable (p_kv E) t' \<and> Q r (content t')"
    using assms by (simp add: regionPrefix_def)
next
  show "act_keeps (txOn b) (act_bind (kv_DeleteRange (p_kv E) p (prefixEndKey p)) (\<lambda>_. act_return ()))" for b
    by (auto intro!: act_keeps_bind keeps_kv)
qed

lemma spec_refsLoop:
  assumes cat: "\<And>n. tableAt (p_desc E) m n = Inr (cat n)"
  shows "spec lmt m (refsLoop E table skipSelf ks :: (('db, 'z) engine_scheme \<times> 'tx, (tableDesc \<times> fkDesc) list) act) (\<lambda>r m'. m' = m \<and>
    (\<exists>refs. r = Inr refs \<and> set refs = {(d, f). (\<exists>k\<in>set ks. cat (descKeyName k) = Some d) \<and> f \<in> set (d_ForeignKeys d) \<and>
       fk_RefTable f = table \<and> \<not> (skipSelf \<and> d_Name d = table)}))"
proof (induction ks)
  case (Cons k ks)
  show ?case
    unfolding refsLoop.simps
  proof (rule spec_bind [OF spec_table [where Q = "\<lambda>r m'. r = Inr (cat (descKeyName k)) \<and> m' = m"]], goal_cases)
    case (2 x m')
    then have x: "x = cat (descKeyName k)" "m' = m" by simp_all
    show ?case unfolding x by (rule spec_bind [OF Cons.IH]) (auto intro!: spec_pure split: option.splits)
  qed (use cat in auto)
qed (unfold refsLoop.simps, rule spec_pure, simp)

lemma spec_refs:
  assumes cat: "\<And>n. tableAt (p_desc E) m n = Inr (cat n)"
    and Q: "\<And>refs. set refs = inbound cat table skipSelf \<Longrightarrow> Q (Inr refs) m"
  shows "spec lmt m (referencingFKs E table skipSelf :: (('db, 'z) engine_scheme \<times> 'tx, (tableDesc \<times> fkDesc) list) act) Q"
proof (rule spec_cong)
  show "referencingFKs E table skipSelf s = refsLoop E table skipSelf (map fst (regionOf m descTablePrefix)) s"
    if "dst lmt m b d s" for b d and s :: "('db, 'z) engine_scheme \<times> 'tx"
    using that region_iter [OF _ regionPrefixes(4), of "snd s"] by (auto simp: referencingFKs_def ddlState_def)
  show "spec lmt m (refsLoop E table skipSelf (map fst (regionOf m descTablePrefix)) :: (('db, 'z) engine_scheme \<times> 'tx, (tableDesc \<times> fkDesc) list) act) Q"
    unfolding ddlSpec_def
  proof (intro allI impI)
    fix b d and s :: "('db, 'z) engine_scheme \<times> 'tx"
    assume s: "dst lmt m b d s"
    then have r: "set (regionOf m descTablePrefix) = {(k, v). prefix descTablePrefix k \<and> m k = Some v}"
      using region_props(2) [OF _ regionPrefixes(4), of "snd s"] by (simp add: ddlState_def)
    have "\<exists>k\<in>set (map fst (regionOf m descTablePrefix)). cat (descKeyName k) = Some e" if cn: "cat n = Some e" for n e
    proof -
      obtain v where "m (descKey n) = Some v" using cat [of n] cn by (auto simp: tableAt_def split: option.splits)
      then have "descKey n \<in> set (map fst (regionOf m descTablePrefix))" using r descKey_prefix [of n] by force
      then show ?thesis using cn by force
    qed
    then have eq: "{(d, f). (\<exists>k\<in>set (map fst (regionOf m descTablePrefix)). cat (descKeyName k) = Some d) \<and> f \<in> set (d_ForeignKeys d) \<and>
       fk_RefTable f = table \<and> \<not> (skipSelf \<and> d_Name d = table)} = inbound cat table skipSelf" unfolding inbound_def by blast
    note sp = spec_refsLoop [OF cat, of lmt table skipSelf "map fst (regionOf m descTablePrefix)", unfolded eq]
    obtain r s' m' where r': "refsLoop E table skipSelf (map fst (regionOf m descTablePrefix)) s = (r, s')" "dst lmt m' b d s'"
      "m' = m \<and> (\<exists>refs. r = Inr refs \<and> set refs = inbound cat table skipSelf)"
      using sp [unfolded ddlSpec_def, THEN spec, THEN spec, THEN spec, THEN mp, OF s] by blast
    then show "\<exists>r s' m'. refsLoop E table skipSelf (map fst (regionOf m descTablePrefix)) s = (r, s') \<and> dst lmt m' b d s' \<and> Q r m'"
      using Q by (intro exI [of _ r] exI [of _ s'] exI [of _ m']) auto
  qed
qed

end

end
