(* ===== verification/Schema.thy ===== *)
theory Schema
  imports DdlBase
begin

text \<open>
  The schema as an abstract object: a catalog of descriptors and a set of rows for each table. The
  lemmas give the effect of every kind of descriptor change on the stored rows: columns are added
  and dropped without rewriting the rows that do not need it, an index is its entries, and a table's
  key space is its own. They are the data half of the schema-change proofs.
\<close>

subsection \<open>Published descriptors\<close>

text \<open>What a reader parses after the descriptor \<open>d\<close> is written.\<close>

definition published :: "tableDesc \<Rightarrow> tableDesc" where
  "published d = buildOrdByID (clone (d\<lparr>d_FormatVersion := descFormatVersion\<rparr>))"

lemma buildOrdByID_fields [simp]:
  "d_ID (buildOrdByID d) = d_ID d" "d_Name (buildOrdByID d) = d_Name d" "d_Columns (buildOrdByID d) = d_Columns d"
  "d_PKCols (buildOrdByID d) = d_PKCols d" "d_Indexes (buildOrdByID d) = d_Indexes d" "d_Checks (buildOrdByID d) = d_Checks d"
  "d_ForeignKeys (buildOrdByID d) = d_ForeignKeys d" "d_NextColID (buildOrdByID d) = d_NextColID d"
  by (simp_all add: buildOrdByID_def Let_def)

lemma published_fields [simp]:
  "d_ID (published d) = d_ID d" "d_Name (published d) = d_Name d" "d_Columns (published d) = d_Columns d"
  "d_PKCols (published d) = d_PKCols d" "d_Indexes (published d) = d_Indexes d" "d_Checks (published d) = d_Checks d"
  "d_ForeignKeys (published d) = d_ForeignKeys d" "d_NextColID (published d) = d_NextColID d"
  by (simp_all add: published_def clone_def)

lemma ordOk_published: "ordOk (published d)"
proof -
  have "buildOrdByID (x\<lparr>d_ordByID := a\<rparr>) = (if 4096 < maxColID (d_Columns x) then x\<lparr>d_ordByID := a\<rparr> else buildOrdByID x)" for x a
    by (simp add: buildOrdByID_def Let_def)
  then show ?thesis
    by (auto simp: ordOk_def published_def clone_def buildOrdByID_def Let_def)
qed

lemma parse_written:
  assumes "codecOk C ok" "ok (d\<lparr>d_FormatVersion := descFormatVersion\<rparr>)"
  shows "\<exists>b. marshalDesc C d = Inr b \<and> parseDesc C b = Inr (published d)"
proof -
  obtain b where "desc_Marshal C (d\<lparr>d_FormatVersion := descFormatVersion\<rparr>) = Inr b"
    "desc_Unmarshal C b = Inr (clone (d\<lparr>d_FormatVersion := descFormatVersion\<rparr>))"
    using assms unfolding codecOk_def by blast
  then show ?thesis by (simp add: marshalDesc_def parseDesc_def published_def clone_def)
qed

subsection \<open>Descriptors that lay rows out alike\<close>

definition layout :: "tableDesc \<Rightarrow> uint64 \<times> uint32 list \<times> nat list \<times> indexDesc list \<times> uint32" where
  "layout d = (d_ID d, map c_ID (d_Columns d), d_PKCols d, d_Indexes d, d_NextColID d)"

lemma layoutD:
  assumes "layout d = layout d'"
  shows "d_ID d = d_ID d'" "map c_ID (d_Columns d) = map c_ID (d_Columns d')" "d_PKCols d = d_PKCols d'"
    "d_Indexes d = d_Indexes d'" "d_NextColID d = d_NextColID d'" "length (d_Columns d) = length (d_Columns d')"
    "i < length (d_Columns d) \<Longrightarrow> c_ID (d_Columns d ! i) = c_ID (d_Columns d' ! i)"
proof -
  show l: "d_ID d = d_ID d'" "map c_ID (d_Columns d) = map c_ID (d_Columns d')" "d_PKCols d = d_PKCols d'"
    "d_Indexes d = d_Indexes d'" "d_NextColID d = d_NextColID d'" using assms by (simp_all add: layout_def)
  then show "length (d_Columns d) = length (d_Columns d')" by (metis length_map)
  then show "i < length (d_Columns d) \<Longrightarrow> c_ID (d_Columns d ! i) = c_ID (d_Columns d' ! i)" using l(2) by (metis nth_map)
qed

lemma layout_keys:
  assumes "layout d = layout d'"
  shows "rowKeyOf d = rowKeyOf d'" "entryKey d = entryKey d'" "entryVal d = entryVal d'" "holdsRow d = holdsRow d'" "entryOf d = entryOf d'"
proof -
  note l = layoutD [OF assms]
  have p: "pkValues d = pkValues d'" by (simp add: fun_eq_iff pkValues_def l)
  show k: "rowKeyOf d = rowKeyOf d'" "entryKey d = entryKey d'" "entryVal d = entryVal d'"
    by (simp_all add: fun_eq_iff rowKeyOf_def entryKey_def entryVal_def p l)
  show h: "holdsRow d = holdsRow d'" by (simp add: fun_eq_iff holdsRow_def isPK_def l cong: conj_cong)
  show "entryOf d = entryOf d'" by (simp add: fun_eq_iff entryOf_def k h l)
qed

lemma stores_layout:
  assumes "layout d = layout d'" "stores d R m" "\<And>r. r \<in> R \<Longrightarrow> rowOk d' r"
  shows "stores d' R m"
  using assms(2,3) layoutD(1,4) [OF assms(1)] unfolding stores_def layout_keys [OF assms(1)] by simp

lemma descOk_layout:
  assumes "layout d = layout d'" "descOk d" "ordOk d'" "list_all colOk (d_Columns d')"
  shows "descOk d'"
proof -
  note l = layoutD [OF assms(1)]
  have "list_all (\<lambda>i. i < d_NextColID d) (map c_ID (d_Columns d))" using assms(2) by (simp add: descOk_def list_all_iff)
  then have "list_all (\<lambda>c. c_ID c < d_NextColID d') (d_Columns d')" unfolding l by (simp add: list_all_iff)
  then show ?thesis using assms(2-4) l by (simp add: descOk_def)
qed

text \<open>Columns that differ in name and default only accept the same values.\<close>

definition sameCols :: "column list \<Rightarrow> column list \<Rightarrow> bool" where
  "sameCols cs cs' \<longleftrightarrow> list_all2 (\<lambda>c c'. c_ID c = c_ID c' \<and> c_Type c = c_Type c' \<and> c_NotNull c = c_NotNull c' \<and>
     c_Identity c = c_Identity c' \<and> c_MaxLen c = c_MaxLen c') cs cs'"

lemma rowOk_sameCols:
  assumes "sameCols (d_Columns d) (d_Columns d')" "d_PKCols d = d_PKCols d'"
  shows "rowOk d r \<longleftrightarrow> rowOk d' r"
proof -
  have l: "length (d_Columns d) = length (d_Columns d')" using assms(1) unfolding sameCols_def by (rule list_all2_lengthD)
  have "colValOk d i v \<longleftrightarrow> colValOk d' i v" if "i < length (d_Columns d)" for i v
    using list_all2_nthD [OF assms(1) [unfolded sameCols_def] that] assms(2)
    by (cases v) (auto simp: colValOk_def Let_def maxLenOk_def isPK_def)
  then show ?thesis unfolding rowOk_simps using l by auto
qed

lemma sameCols_layout:
  assumes "sameCols (d_Columns d) (d_Columns d')" "d_ID d = d_ID d'" "d_PKCols d = d_PKCols d'" "d_Indexes d = d_Indexes d'" "d_NextColID d = d_NextColID d'"
  shows "layout d = layout d'" "list_all colOk (d_Columns d) \<longleftrightarrow> list_all colOk (d_Columns d')"
proof -
  have "map c_ID (d_Columns d) = map c_ID (d_Columns d')"
    using assms(1) unfolding sameCols_def by (auto simp: list_all2_conv_all_nth intro: nth_equalityI)
  then show "layout d = layout d'" using assms by (simp add: layout_def)
  show "list_all colOk (d_Columns d) \<longleftrightarrow> list_all colOk (d_Columns d')"
    using assms(1) unfolding sameCols_def by (auto simp: list_all2_conv_all_nth list_all_length colOk_def)
qed

lemma layout_published [simp]: "layout (published d) = layout d"
  by (simp add: layout_def)

lemma rowOk_published [simp]: "rowOk (published d) r \<longleftrightarrow> rowOk d r"
  by (rule rowOk_sameCols) (simp_all add: sameCols_def list_all2_same)

lemma stores_published [simp]: "stores (published d) R m \<longleftrightarrow> stores d R m"
  using stores_layout [of d "published d" R m] stores_layout [of "published d" d R m] storesD(1) [of d R m] storesD(1) [of "published d" R m]
  by auto

lemma descOk_published: "descOk (d\<lparr>d_ordByID := None\<rparr>) \<Longrightarrow> descOk (published d)"
  using ordOk_published [of d] by (simp add: descOk_def)

subsection \<open>The keys a table owns\<close>

lemmas sys_keys_distinct' [simp] = sys_keys_distinct [symmetric]

text \<open>A table owns its key space and its identity counters, which lie among the engine's own keys.\<close>

definition tableKey :: "uint64 \<Rightarrow> key \<Rightarrow> bool" where
  "tableKey i k \<longleftrightarrow> prefix (tableSpace i) k \<or> prefix (identitySeqTablePrefix i) k"

lemma identityPrefix_key [simp]: "prefix (identitySeqTablePrefix i) (identitySeqKey j c) \<longleftrightarrow> i = j"
  unfolding key_shapes encTup_prefix_iff by auto

lemma identityPrefix_outside [simp]:
  "\<not> prefix (identitySeqTablePrefix i) (descKey n)" "\<not> prefix (identitySeqTablePrefix i) seqKey"
  "\<not> prefix (identitySeqTablePrefix i) (sqlSeqKey n)" "\<not> prefix (identitySeqTablePrefix i) (viewKey n)"
  "\<not> prefix (identitySeqTablePrefix i) (seqNameKey n)"
  unfolding key_shapes encTup_prefix_iff by (simp_all add: sys_ids)

lemma identityPrefix_disjoint: "prefix (identitySeqTablePrefix i) k \<Longrightarrow> prefix (identitySeqTablePrefix j) k \<Longrightarrow> i = j"
  unfolding key_shapes by (auto simp: prefix_def)

lemma tableKey_sys:
  assumes "userTable i"
  shows "\<not> tableKey i (descKey n)" "\<not> tableKey i seqKey" "\<not> tableKey i (sqlSeqKey n)" "\<not> tableKey i (viewKey n)"
    "tableKey i (identitySeqKey j c) \<longleftrightarrow> i = j"
  using sys_keys_outside [OF assms] by (simp_all add: tableKey_def)

lemma tableKey_disjoint:
  assumes "userTable i" "userTable j" "tableKey i k" "tableKey j k"
  shows "i = j"
proof -
  have "\<not> (prefix (tableSpace a) k \<and> prefix (identitySeqTablePrefix b) k)" if "userTable a" for a b
    using dataKey_identityPrefix [of b k] that by (auto simp: dataKey_def)
  then show ?thesis
    using assms tableSpace_disjoint [of i k j] identityPrefix_disjoint [of i k j] unfolding tableKey_def by blast
qed

subsection \<open>Schemas\<close>

text \<open>
  A content represents a schema: the tables of a catalog, each under its own name, with their rows. The
  table-ID counter is above every ID in use and nothing is stored under the IDs it will give out,
  no identity counter exists for a column ID not yet given out, and no table shares its name with a
  sequence or a view.
\<close>

definition schemaRep ::
  "descCodec \<Rightarrow> (string \<Rightarrow> tableDesc option) \<Rightarrow> (key \<Rightarrow> bytes option) \<Rightarrow> (string \<Rightarrow> val list set) \<Rightarrow> bool" where
  "schemaRep C cat m R \<longleftrightarrow>
     dbRep C (\<lambda>n. Inr (cat n)) m R \<and> (\<forall>n d. cat n = Some d \<longrightarrow> d_Name d = n) \<and>
     (\<exists>c. counterVal m seqKey firstUserTableID = Inr c \<and> userTable c \<and> (\<forall>n d. cat n = Some d \<longrightarrow> d_ID d < c) \<and>
        (\<forall>i k. c \<le> i \<and> tableKey i k \<longrightarrow> m k = None)) \<and>
     (\<forall>n d i. cat n = Some d \<and> d_NextColID d \<le> i \<longrightarrow> m (identitySeqKey (d_ID d) i) = None) \<and>
     (\<forall>n. cat n \<noteq> None \<longrightarrow> m (sqlSeqKey n) = None \<and> m (viewKey n) = None)"

lemma schemaRepI:
  assumes "dbRep C (\<lambda>n. Inr (cat n)) m R" "\<And>n d. cat n = Some d \<Longrightarrow> d_Name d = n"
    "counterVal m seqKey firstUserTableID = Inr c" "userTable c" "\<And>n d. cat n = Some d \<Longrightarrow> d_ID d < c"
    "\<And>i k. c \<le> i \<Longrightarrow> tableKey i k \<Longrightarrow> m k = None"
    "\<And>n d i. cat n = Some d \<Longrightarrow> d_NextColID d \<le> i \<Longrightarrow> m (identitySeqKey (d_ID d) i) = None"
    "\<And>n. cat n \<noteq> None \<Longrightarrow> m (sqlSeqKey n) = None \<and> m (viewKey n) = None"
  shows "schemaRep C cat m R"
  unfolding schemaRep_def using assms by (intro conjI exI [of _ c]) blast+

lemma schemaRepD:
  assumes "schemaRep C cat m R"
  shows "tableAt C m n = Inr (cat n)" "cat n = Some d \<Longrightarrow> descOk d" "cat n = Some d \<Longrightarrow> stores d (R n) m" "cat n = Some d \<Longrightarrow> d_Name d = n"
    "cat a = Some d \<Longrightarrow> cat b = Some d' \<Longrightarrow> d_ID d = d_ID d' \<Longrightarrow> a = b"
    "cat n = Some d \<Longrightarrow> d_NextColID d \<le> i \<Longrightarrow> m (identitySeqKey (d_ID d) i) = None"
    "cat n \<noteq> None \<Longrightarrow> m (sqlSeqKey n) = None" "cat n \<noteq> None \<Longrightarrow> m (viewKey n) = None" "cat n = Some d \<Longrightarrow> userTable (d_ID d)"
  using assms descOkD(8) [of d] unfolding schemaRep_def by (auto simp: dbRep_def)

lemma schemaRep_counter:
  assumes "schemaRep C cat m R"
  obtains c where "counterVal m seqKey firstUserTableID = Inr c" "userTable c" "\<And>n d. cat n = Some d \<Longrightarrow> d_ID d < c"
    "\<And>i k. c \<le> i \<Longrightarrow> tableKey i k \<Longrightarrow> m k = None"
proof -
  have "\<exists>c. counterVal m seqKey firstUserTableID = Inr c \<and> userTable c \<and> (\<forall>n d. cat n = Some d \<longrightarrow> d_ID d < c) \<and>
      (\<forall>i k. c \<le> i \<and> tableKey i k \<longrightarrow> m k = None)" using assms by (simp add: schemaRep_def)
  then obtain c where c: "counterVal m seqKey firstUserTableID = Inr c" "userTable c"
    "\<forall>n d. cat n = Some d \<longrightarrow> d_ID d < c" "\<forall>i k. c \<le> i \<and> tableKey i k \<longrightarrow> m k = None" by (elim exE conjE)
  show thesis by (rule that [OF c(1,2)]) (use c(3,4) in simp_all)
qed

lemma schemaRep_absent: "schemaRep C cat m R \<Longrightarrow> cat n = None \<longleftrightarrow> m (descKey n) = None"
  using schemaRepD(1) [of C cat m R n] by (auto simp: tableAt_def res_bind_eq_Inr split: option.splits dest: sym)

text \<open>One table's entry changes; the other tables keep their data.\<close>

lemma dbRep_update:
  assumes rep: "dbRep C (\<lambda>n. Inr (cat n)) m R"
    and new: "tableAt C m' table = Inr new" "\<And>d. new = Some d \<Longrightarrow> descOk d \<and> stores d R' m'"
    and cat: "\<And>n. n \<noteq> table \<Longrightarrow> m' (descKey n) = m (descKey n)"
    and ids: "\<And>d n e. new = Some d \<Longrightarrow> n \<noteq> table \<Longrightarrow> cat n = Some e \<Longrightarrow> d_ID e \<noteq> d_ID d"
    and fr: "\<And>n e k. n \<noteq> table \<Longrightarrow> cat n = Some e \<Longrightarrow> prefix (tableSpace (d_ID e)) k \<Longrightarrow> m' k = m k"
  shows "dbRep C (\<lambda>n. Inr ((cat(table := new)) n)) m' (R(table := R'))"
  unfolding dbRep_def
proof (intro conjI allI impI)
  show "tableAt C m' n = Inr ((cat(table := new)) n)" for n
    using tableAt_same [of m' n m C] cat [of n] dbRepD(1) [OF rep, of n] new(1) by (cases "n = table") simp_all
  show "descOk d" if "Inr ((cat(table := new)) n) = Inr (Some d)" for n d
    using that new(2) dbRepD(2) [OF rep, of n d] by (auto split: if_splits)
  show "stores d ((R(table := R')) n) m'" if "Inr ((cat(table := new)) n) = Inr (Some d)" for n d
  proof (cases "n = table")
    case True
    then show ?thesis using that new(2) by simp
  next
    case False
    then have d: "cat n = Some d" using that by simp
    then show ?thesis using dbRepD(3) [OF rep, of n d] stores_cong [of d m' m "R n"] fr [OF False d] False by simp
  qed
  show "a = b" if "Inr ((cat(table := new)) a) = Inr (Some x) \<and> Inr ((cat(table := new)) b) = Inr (Some y) \<and> d_ID x = d_ID y" for a b x y
    using that ids [of x b y] ids [of y a x] dbRepD(4) [OF rep, of a x b y] by (auto split: if_splits)
qed

lemma schemaRep_alter:
  assumes rep: "schemaRep C cat m R" and d0: "cat table = Some d0"
    and new: "tableAt C m' table = Inr (Some d)" "d_ID d = d_ID d0" "d_Name d = table" "descOk d" "stores d R' m'"
    and fr: "\<And>k. \<not> tableKey (d_ID d0) k \<Longrightarrow> k \<noteq> descKey table \<Longrightarrow> m' k = m k"
    and cols: "\<And>i. d_NextColID d \<le> i \<Longrightarrow> m' (identitySeqKey (d_ID d0) i) = None"
  shows "schemaRep C (cat(table \<mapsto> d)) m' (R(table := R'))"
proof -
  note u = schemaRepD(9) [OF rep d0] and D = schemaRepD [OF rep]
  have other: "\<not> tableKey (d_ID d0) k" if "n \<noteq> table" "cat n = Some e" "tableKey (d_ID e) k" for n e k
    using that tableKey_disjoint [OF u D(9) [OF that(2)], of k] D(5) [OF that(2) d0] by auto
  have keep: "m' k = m k" if "n \<noteq> table" "cat n = Some e" "tableKey (d_ID e) k" for n e k
    using fr [OF other [OF that]] that(3) tableKey_sys(1) [OF D(9) [OF that(2)]] by auto
  have sys: "m' seqKey = m seqKey" "m' (sqlSeqKey n) = m (sqlSeqKey n)" "m' (viewKey n) = m (viewKey n)" for n
    using fr tableKey_sys [OF u] sys_keys_distinct by metis+
  obtain c where c: "counterVal m seqKey firstUserTableID = Inr c" "userTable c" "\<And>n d. cat n = Some d \<Longrightarrow> d_ID d < c"
    "\<And>i k. c \<le> i \<Longrightarrow> tableKey i k \<Longrightarrow> m k = None" by (rule schemaRep_counter [OF rep]) blast
  have high: "m' k = None" if "c \<le> i" "tableKey i k" for i k
  proof -
    have ui: "userTable i" using that(1) c(2) by (simp add: userTable_def)
    have "i \<noteq> d_ID d0" using c(3) [OF d0] that(1) by auto
    then show ?thesis using fr [of k] tableKey_disjoint [OF u ui, of k] tableKey_sys(1) [OF ui] that c(4) by metis
  qed
  have rep': "dbRep C (\<lambda>n. Inr ((cat(table := Some d)) n)) m' (R(table := R'))"
  proof (rule dbRep_update [where m = m])
    show "dbRep C (\<lambda>n. Inr (cat n)) m R" using rep by (simp add: schemaRep_def)
    show "m' (descKey n) = m (descKey n)" if "n \<noteq> table" for n using fr tableKey_sys(1) [OF u] that by simp
    show "d_ID e \<noteq> d_ID f" if "Some d = Some f" "n \<noteq> table" "cat n = Some e" for f n e
      using that D(5) [OF that(3) d0] new(2) by auto
    show "m' k = m k" if "n \<noteq> table" "cat n = Some e" "prefix (tableSpace (d_ID e)) k" for n e k
      using keep [OF that(1,2)] that(3) by (simp add: tableKey_def)
  qed (use new in auto)
  show ?thesis
  proof (rule schemaRepI [of C "cat(table \<mapsto> d)" m' "R(table := R')" c, OF rep'])
    show "m' (identitySeqKey (d_ID e) i) = None" if "(cat(table \<mapsto> d)) n = Some e" "d_NextColID e \<le> i" for n e i
      using that cols [of i] new(2) keep [of n e "identitySeqKey (d_ID e) i"] D(6,9) [of n e] tableKey_sys(5) [of "d_ID e"]
      by (cases "n = table") auto
    show "m' (sqlSeqKey n) = None \<and> m' (viewKey n) = None" if "(cat(table \<mapsto> d)) n \<noteq> None" for n
      using that D(7,8) [of n] d0 sys by (auto split: if_splits)
    show "d_Name f = n" "d_ID f < c" if "(cat(table \<mapsto> d)) n = Some f" for n f
      using that D(4) [of n f] new(2,3) c(3) [of n f] c(3) [OF d0] by (auto split: if_splits)
    show "counterVal m' seqKey firstUserTableID = Inr c" using c(1) sys(1) by (simp add: counterVal_def)
  qed (use c(2) high in blast)+
qed

text \<open>A name is removed; the data of its table no longer counts.\<close>

lemma schemaRep_remove:
  assumes rep: "schemaRep C cat m R" and d0: "cat table = Some d0" and gone: "m' (descKey table) = None"
    and fr: "\<And>k. \<not> tableKey (d_ID d0) k \<Longrightarrow> k \<noteq> descKey table \<Longrightarrow> m' k = m k"
  shows "schemaRep C (cat(table := None)) m' (R(table := {}))"
proof -
  note u = schemaRepD(9) [OF rep d0] and D = schemaRepD [OF rep]
  have keep: "m' k = m k" if "n \<noteq> table" "cat n = Some e" "tableKey (d_ID e) k" for n e k
    using fr [of k] that tableKey_disjoint [OF u D(9) [OF that(2)], of k] D(5) [OF that(2) d0] tableKey_sys(1) [OF D(9) [OF that(2)]] by metis
  obtain c where c: "counterVal m seqKey firstUserTableID = Inr c" "userTable c" "\<And>n d. cat n = Some d \<Longrightarrow> d_ID d < c"
    "\<And>i k. c \<le> i \<Longrightarrow> tableKey i k \<Longrightarrow> m k = None" by (rule schemaRep_counter [OF rep]) blast
  have sys: "m' seqKey = m seqKey" "m' (sqlSeqKey n) = m (sqlSeqKey n)" "m' (viewKey n) = m (viewKey n)" for n
    using fr tableKey_sys [OF u] sys_keys_distinct by metis+
  have rep': "dbRep C (\<lambda>n. Inr ((cat(table := None)) n)) m' (R(table := {}))"
  proof (rule dbRep_update [where m = m])
    show "dbRep C (\<lambda>n. Inr (cat n)) m R" using rep by (simp add: schemaRep_def)
    show "m' (descKey n) = m (descKey n)" if "n \<noteq> table" for n using fr tableKey_sys(1) [OF u] that by simp
    show "m' k = m k" if "n \<noteq> table" "cat n = Some e" "prefix (tableSpace (d_ID e)) k" for n e k
      using keep [OF that(1,2)] that(3) by (simp add: tableKey_def)
  qed (use gone in \<open>auto simp: tableAt_def\<close>)
  show ?thesis
  proof (rule schemaRepI [of C "cat(table := None)" m' "R(table := {})" c, OF rep'])
    show "counterVal m' seqKey firstUserTableID = Inr c" using c(1) sys(1) by (simp add: counterVal_def)
    show "m' k = None" if "c \<le> i" "tableKey i k" for i k
    proof -
      have ui: "userTable i" using that(1) c(2) by (simp add: userTable_def)
      have "i \<noteq> d_ID d0" using c(3) [OF d0] that(1) by auto
      then show ?thesis using fr [of k] tableKey_disjoint [OF u ui, of k] tableKey_sys(1) [OF ui] that c(4) by metis
    qed
    show "m' (identitySeqKey (d_ID e) i) = None" if "(cat(table := None)) n = Some e" "d_NextColID e \<le> i" for n e i
      using that keep [of n e "identitySeqKey (d_ID e) i"] D(6,9) [of n e] tableKey_sys(5) [of "d_ID e"] by (auto split: if_splits)
  qed (use c D(4,7,8) sys in \<open>auto split: if_splits\<close>)
qed

text \<open>A name is added, for a table whose ID no other one has.\<close>

lemma schemaRep_add:
  assumes rep: "schemaRep C cat m R" and no: "cat name = None"
    and new: "tableAt C m' name = Inr (Some d)" "d_Name d = name" "descOk d" "stores d R' m"
    and ids: "\<And>n e. cat n = Some e \<Longrightarrow> d_ID e \<noteq> d_ID d"
    and cnt: "\<And>c. counterVal m seqKey firstUserTableID = Inr c \<Longrightarrow> \<exists>c'. counterVal m' seqKey firstUserTableID = Inr c' \<and> c \<le> c' \<and> d_ID d < c'"
    and free: "m (sqlSeqKey name) = None" "m (viewKey name) = None" "\<And>i. d_NextColID d \<le> i \<Longrightarrow> m (identitySeqKey (d_ID d) i) = None"
    and fr: "\<And>k. k \<noteq> seqKey \<Longrightarrow> k \<noteq> descKey name \<Longrightarrow> m' k = m k"
  shows "schemaRep C (cat(name \<mapsto> d)) m' (R(name := R'))"
proof -
  note D = schemaRepD [OF rep] and u = descOkD(8) [OF new(3)]
  obtain c where c: "counterVal m seqKey firstUserTableID = Inr c" "userTable c" "\<And>n d. cat n = Some d \<Longrightarrow> d_ID d < c"
    "\<And>i k. c \<le> i \<Longrightarrow> tableKey i k \<Longrightarrow> m k = None" by (rule schemaRep_counter [OF rep]) blast
  obtain c' where c': "counterVal m' seqKey firstUserTableID = Inr c'" "c \<le> c'" "d_ID d < c'" using cnt [OF c(1)] by blast
  have keep: "m' k = m k" if "userTable i" "tableKey i k" for i k using fr that tableKey_sys [OF that(1)] by metis
  have keepI: "m' (identitySeqKey i j) = m (identitySeqKey i j)" for i j using fr sys_keys_distinct(3,7) by metis
  have sys: "m' (sqlSeqKey n) = m (sqlSeqKey n)" "m' (viewKey n) = m (viewKey n)" for n using fr sys_keys_distinct by metis+
  have st: "stores d R' m'" using new(4) stores_cong [of d m' m R'] keep [OF u] by (simp add: tableKey_def)
  have rep': "dbRep C (\<lambda>n. Inr ((cat(name := Some d)) n)) m' (R(name := R'))"
  proof (rule dbRep_update [where m = m])
    show "dbRep C (\<lambda>n. Inr (cat n)) m R" using rep by (simp add: schemaRep_def)
    show "m' (descKey n) = m (descKey n)" if "n \<noteq> name" for n using fr that by simp
    show "m' k = m k" if "n \<noteq> name" "cat n = Some e" "prefix (tableSpace (d_ID e)) k" for n e k
      using keep [OF D(9) [OF that(2)]] that(3) by (simp add: tableKey_def)
  qed (use new st ids in auto)
  show ?thesis
  proof (rule schemaRepI [of C "cat(name \<mapsto> d)" m' "R(name := R')" c', OF rep' _ c'(1)])
    show "userTable c'" using c(2) c'(2) by (simp add: userTable_def)
    show "m' k = None" if "c' \<le> i" "tableKey i k" for i k
      using that keep [of i k] c(2) c(4) [of i k] c'(2) by (simp add: userTable_def)
    show "d_ID f < c'" if "(cat(name \<mapsto> d)) n = Some f" for n f using that c(3) [of n f] c'(2,3) by (auto split: if_splits)
    show "m' (identitySeqKey (d_ID e) i) = None" if "(cat(name \<mapsto> d)) n = Some e" "d_NextColID e \<le> i" for n e i
      using that free(3) D(6) [of n e i] keepI by (auto split: if_splits)
    show "m' (sqlSeqKey n) = None \<and> m' (viewKey n) = None" if "(cat(name \<mapsto> d)) n \<noteq> None" for n
      using that D(7,8) [of n] free sys by (auto split: if_splits)
  qed (use new(2) D(4) in \<open>auto split: if_splits\<close>)
qed

end
