(* ===== verification/Ddl.thy ===== *)
theory Ddl
  imports DdlBase
begin

text \<open>
  Table definition (\<open>src/ddl.go\<close>): creating, dropping and renaming tables, adding, dropping and
  renaming columns, defaults, NOT NULL and CHECK constraints, and the catalog listing. Every
  operation runs in one DDL transaction and publishes a new descriptor with whatever row data the
  change rewrites.
\<close>

subsection \<open>Creating a table\<close>

definition validTypes :: "colType set" where
  "validTypes = {TBool, TInt, TFloat, TString, TBytes, TTimestamp, TDate, TUUID, TTextArray, TJSONB}"

definition validMaxLen :: "column \<Rightarrow> unit res" where
  "validMaxLen c =
     (if c_MaxLen c = 0 then Inr ()
      else if c_Type c \<noteq> TString then Inl (Msg ''length limit is only valid on string columns'')
      else if c_MaxLen c < 0 then Inl (Msg ''length limit must be positive'')
      else Inr ())"

fun checkChecks :: "string list \<Rightarrow> checkDesc list \<Rightarrow> unit res" where
  "checkChecks seen [] = Inr ()"
| "checkChecks seen (ck # cks) =
     (if chk_Name ck = [] then Inl (Msg ''check constraint name is required'')
      else if chk_Name ck \<in> set seen then Inl (Msg ''duplicate check constraint name'')
      else checkChecks (chk_Name ck # seen) cks)"

fun checkColumns :: "string list \<Rightarrow> column list \<Rightarrow> unit res" where
  "checkColumns seen [] = Inr ()"
| "checkColumns seen (c # cs) =
     (if c_Name c = [] then Inl (Msg ''column name is required'')
      else if c_Name c \<in> set seen then Inl (Msg ''duplicate column'')
      else if c_Type c \<notin> validTypes then Inl (Msg ''unknown column type'')
      else if c_Identity c \<and> c_Type c \<noteq> TInt then Inl (Msg ''identity column must be an int column'')
      else res_bind (validMaxLen c) (\<lambda>_. checkColumns (c_Name c # seen) cs))"

text \<open>Column IDs are positions counted from one.\<close>

definition numberColumns :: "column list \<Rightarrow> column list" where
  "numberColumns cols = map (\<lambda>(i, c). c\<lparr>c_ID := word_of_nat (i + 1)\<rparr>) (enumerate 0 cols)"

fun resolvePK :: "tableDesc \<Rightarrow> string list \<Rightarrow> nat list \<Rightarrow> nat list res" where
  "resolvePK d [] ords = Inr ords"
| "resolvePK d (p # ps) ords =
     (case ColIndex d p of
        None \<Rightarrow> Inl (Msg ''primary key column not declared'')
      | Some ord \<Rightarrow>
          if ord \<in> set ords then Inl (Msg ''duplicate primary key column'')
          else resolvePK d ps (ords @ [ord]))"

definition newTableDesc :: "string \<Rightarrow> column list \<Rightarrow> checkDesc list \<Rightarrow> string list \<Rightarrow> tableDesc res" where
  "newTableDesc name cols checks pk =
     (if name = [] then Inl (Msg ''table name is required'')
      else if cols = [] then Inl (Msg ''at least one column is required'')
      else if pk = [] then Inl (Msg ''a primary key is required'')
      else
        res_bind (checkChecks [] checks) (\<lambda>_.
          res_bind (checkColumns [] cols) (\<lambda>_.
            let desc = \<lparr>d_FormatVersion = 0, d_ID = 0, d_Name = name, d_Columns = numberColumns cols,
                  d_PKCols = [], d_Indexes = [], d_Checks = checks, d_ForeignKeys = [],
                  d_NextColID = word_of_nat (length cols + 1), d_ordByID = None\<rparr>
            in res_bind (resolvePK desc pk []) (\<lambda>ords. Inr (desc\<lparr>d_PKCols := ords\<rparr>)))))"

definition createTableIn :: "('db, 'tx) deps \<Rightarrow> string \<Rightarrow> tableDesc \<Rightarrow> ('tx, tableDesc) act" where
  "createTableIn E name desc t =
     (if kv_Contains (p_kv E) (descKey name) t then (Inl (Msg ''table already exists''), t)
      else if kv_Contains (p_kv E) (sqlSeqKey name) t \<or> kv_Contains (p_kv E) (viewKey name) t
      then (Inl (relationErr name), t)
      else
        act_bind (nextFromCounter (p_kv E) seqKey firstUserTableID) (\<lambda>next.
          let d = desc\<lparr>d_ID := next\<rparr>
          in act_bind (writeDescIn (p_desc E) (p_kv E) name d) (\<lambda>_. act_return d)) t)"

definition CreateTableWithChecks ::
  "('db, 'tx) deps \<Rightarrow> string \<Rightarrow> column list \<Rightarrow> checkDesc list \<Rightarrow> string list \<Rightarrow> (('db, 'z) engine_scheme, tableDesc) act" where
  "CreateTableWithChecks E name cols checks pk =
     act_bind (act_lift (newTableDesc name cols checks pk)) (\<lambda>desc. updateDDL E (onTx (createTableIn E name desc)))"

definition CreateTable ::
  "('db, 'tx) deps \<Rightarrow> string \<Rightarrow> column list \<Rightarrow> string list \<Rightarrow> (('db, 'z) engine_scheme, tableDesc) act" where
  "CreateTable E name cols pk = CreateTableWithChecks E name cols [] pk"

subsection \<open>Dropping and renaming a table\<close>

definition deleteSpace :: "'tx kvops \<Rightarrow> bytes \<Rightarrow> ('tx, unit) act" where
  "deleteSpace K p = act_bind (kv_DeleteRange K p (prefixEndKey p)) (\<lambda>_. act_return ())"

definition dropTableIn :: "('db, 'tx) deps \<Rightarrow> string \<Rightarrow> (('db, 'z) engine_scheme \<times> 'tx, uint64) act" where
  "dropTableIn E name =
     act_bind (descFromView E name) (\<lambda>desc.
       act_bind (referencingFKs E name True) (\<lambda>refs.
         if refs \<noteq> [] then act_fail (Msg (''cannot drop table '' @ name @ '' because other objects depend on it''))
         else
           act_bind (onTx (deleteSpace (p_kv E) (tableSpace (d_ID desc)))) (\<lambda>_.
             act_bind (onTx (deleteSpace (p_kv E) (identitySeqTablePrefix (d_ID desc)))) (\<lambda>_.
               act_bind (onTx (kv_Delete (p_kv E) (descKey name))) (\<lambda>_. act_return (d_ID desc))))))"

definition DropTable :: "('db, 'tx) deps \<Rightarrow> string \<Rightarrow> (('db, 'z) engine_scheme, unit) act" where
  "DropTable E name =
     act_bind (updateDDL E (dropTableIn E name)) (\<lambda>droppedID.
       act_modify (\<lambda>e. cacheEvict name (invalidateCounterPrefix (identitySeqTablePrefix droppedID) e)))"

definition renameTableIn :: "('db, 'tx) deps \<Rightarrow> string \<Rightarrow> string \<Rightarrow> (('db, 'z) engine_scheme \<times> 'tx, unit) act" where
  "renameTableIn E oldName newName =
     act_bind (descFromView E oldName) (\<lambda>desc.
       act_bind (act_get (\<lambda>(e, t). list_ex (\<lambda>k. kv_Contains (p_kv E) k t) [descKey newName, sqlSeqKey newName, viewKey newName])) (\<lambda>taken.
         if taken then act_fail (relationErr newName)
         else
           act_bind (referencingFKs E oldName True) (\<lambda>refs.
             if refs \<noteq> [] then act_fail (Msg ''cannot rename a table referenced by a foreign key'')
             else
               (let nxt = (clone desc)\<lparr>d_Name := newName,
                      d_ForeignKeys := map (\<lambda>f. if fk_RefTable f = oldName then f\<lparr>fk_RefTable := newName\<rparr> else f)
                        (d_ForeignKeys desc)\<rparr>
                in act_bind (onTx (kv_Delete (p_kv E) (descKey oldName))) (\<lambda>_.
                     onTx (writeDescIn (p_desc E) (p_kv E) newName nxt))))))"

definition RenameTable :: "('db, 'tx) deps \<Rightarrow> string \<Rightarrow> string \<Rightarrow> (('db, 'z) engine_scheme, unit) act" where
  "RenameTable E oldName newName =
     (if newName = [] then act_fail (Msg ''new table name is required'')
      else act_bind (updateDDL E (renameTableIn E oldName newName)) (\<lambda>_. act_modify (cacheEvict oldName)))"

subsection \<open>Adding a column\<close>

definition notNullValueErr :: "string \<Rightarrow> string \<Rightarrow> err" where
  "notNullValueErr table column =
     Msg (''column '' @ [CHR 0x22] @ column @ [CHR 0x22] @ '' of relation '' @ [CHR 0x22] @ table @ [CHR 0x22] @ '' contains null values'')"

definition columnExistsErr :: "string \<Rightarrow> string \<Rightarrow> err" where
  "columnExistsErr table column =
     Msg (''column '' @ [CHR 0x22] @ column @ [CHR 0x22] @ '' of relation '' @ [CHR 0x22] @ table @ [CHR 0x22] @ '' already exists'')"

definition backfillTooLargeErr :: err where
  "backfillTooLargeErr = Msg ''adding a column with a DEFAULT would rewrite more rows than the backfill limit allows in one transaction''"

text \<open>One row of a backfill: the pair is appended to the stored value.\<close>

definition appendPair :: "'tx kvops \<Rightarrow> uint32 \<Rightarrow> val \<Rightarrow> key \<Rightarrow> bytes \<Rightarrow> ('tx, unit) act" where
  "appendPair K colID v k raw =
     act_bind (act_lift (Append raw [AInt64 (ucast colID), any_of v])) (\<lambda>buf. kv_Set K k buf)"

definition backfillColumn :: "'tx kvops \<Rightarrow> tableDesc \<Rightarrow> uint32 \<Rightarrow> val \<Rightarrow> ('tx, unit) act" where
  "backfillColumn K desc colID v t =
     act_iter (\<lambda>(k, raw). appendPair K colID v k raw) (tableRows K (d_ID desc) t) t"

definition overLimit :: "('db, 'tx) deps \<Rightarrow> uint64 \<Rightarrow> ('db, 'z) engine_scheme \<times> 'tx \<Rightarrow> bool" where
  "overLimit E tableID s =
     (let limit = e_backfillLimit (fst s)
      in 0 <s limit \<and> limit <s countRowsUpTo (p_kv E) tableID (limit + 1) (snd s))"

definition backfillIdentity :: "('db, 'tx) deps \<Rightarrow> tableDesc \<Rightarrow> column \<Rightarrow> (('db, 'z) engine_scheme \<times> 'tx, unit) act" where
  "backfillIdentity E desc col s =
     (if overLimit E (d_ID desc) s
      then (Inl (Msg ''adding an identity column would rewrite more rows than the backfill limit allows in one transaction''), s)
      else
        (let rows = tableRows (p_kv E) (d_ID desc) (snd s)
         in act_bind (onTx (act_iter (\<lambda>(i, k, raw). appendPair (p_kv E) (c_ID col) (VInt (word_of_nat (i + 1))) k raw) (enumerate 0 rows)))
              (\<lambda>_. onTx (bumpCounterTo (p_kv E) (identitySeqKey (d_ID desc) (c_ID col)) (word_of_nat (length rows) + 1))) s))"

definition withColumn :: "column \<Rightarrow> tableDesc \<Rightarrow> tableDesc" where
  "withColumn col old =
     (clone old)\<lparr>d_NextColID := d_NextColID old + 1, d_Columns := d_Columns old @ [col\<lparr>c_ID := d_NextColID old\<rparr>]\<rparr>"

definition addColumnIn ::
  "('db, 'tx) deps \<Rightarrow> string \<Rightarrow> column \<Rightarrow> tableDesc \<Rightarrow> (('db, 'z) engine_scheme \<times> 'tx, tableDesc option \<times> unit) act" where
  "addColumnIn E table col0 old =
     (if ColIndex old (c_Name col0) \<noteq> None then act_fail (columnExistsErr table (c_Name col0))
      else
        (let col = col0\<lparr>c_ID := d_NextColID old\<rparr>; desc = withColumn col0 old
         in if c_Identity col then act_bind (backfillIdentity E desc col) (\<lambda>_. act_return (Some desc, ()))
            else
              act_bind (act_lift (if c_Default col \<noteq> [] then columnDefaultValue (p_lib E) col (p_now E) else Inr VNull)) (\<lambda>fill.
                act_bind (act_get (\<lambda>s. (hasRows (p_kv E) (d_ID desc) (snd s), overLimit E (d_ID desc) s))) (\<lambda>(rows, large).
                  if fill = VNull \<and> c_NotNull col \<and> rows then act_fail (notNullValueErr table (c_Name col))
                  else if fill \<noteq> VNull then
                    (if large then act_fail backfillTooLargeErr
                     else act_bind (onTx (backfillColumn (p_kv E) desc (c_ID col) fill)) (\<lambda>_. act_return (Some desc, ())))
                  else act_return (Some desc, ())))))"

definition checkNewColumn :: "column \<Rightarrow> unit res" where
  "checkNewColumn col =
     (if c_Name col = [] then Inl (Msg ''column name is required'')
      else if c_Type col \<notin> validTypes then Inl (Msg ''unknown column type'')
      else if c_Identity col \<and> c_Type col \<noteq> TInt then Inl (Msg ''identity column must be an int column'')
      else if c_Identity col \<and> c_Default col \<noteq> [] then Inl (Msg ''conflicting DEFAULT for identity column'')
      else validMaxLen col)"

definition AddColumn :: "('db, 'tx) deps \<Rightarrow> string \<Rightarrow> column \<Rightarrow> (('db, 'z) engine_scheme, unit) act" where
  "AddColumn E table col =
     act_bind (act_lift (checkNewColumn col)) (\<lambda>_.
       act_bind (if c_Default col \<noteq> [] \<or> c_Identity col then CheckMemory E else act_return ()) (\<lambda>_.
         alterDesc E table (addColumnIn E table col)))"

subsection \<open>Dropping and renaming a column\<close>

definition deleteAt :: "nat \<Rightarrow> 'a list \<Rightarrow> 'a list" where
  "deleteAt i xs = take i xs @ drop (Suc i) xs"

definition shiftOrd :: "nat \<Rightarrow> nat \<Rightarrow> nat" where
  "shiftOrd ord c = (if c > ord then c - 1 else c)"

definition withoutColumn :: "nat \<Rightarrow> tableDesc \<Rightarrow> tableDesc" where
  "withoutColumn ord old =
     (clone old)\<lparr>d_Columns := deleteAt ord (d_Columns old),
        d_PKCols := map (shiftOrd ord) (d_PKCols old),
        d_Indexes := map (\<lambda>x. x\<lparr>x_Cols := map (shiftOrd ord) (x_Cols x)\<rparr>) (d_Indexes old),
        d_ForeignKeys := map (\<lambda>f. f\<lparr>fk_Cols := map (shiftOrd ord) (fk_Cols f)\<rparr>) (d_ForeignKeys old)\<rparr>"

abbreviation noColumn :: err where
  "noColumn \<equiv> Msg ''no such column''"

definition dropColumnIn ::
  "('db, 'tx) deps \<Rightarrow> string \<Rightarrow> string \<Rightarrow> tableDesc \<Rightarrow> (('db, 'z) engine_scheme \<times> 'tx, tableDesc option \<times> key option) act" where
  "dropColumnIn E table name old =
     (case ColIndex old name of
        None \<Rightarrow> act_fail noColumn
      | Some ord \<Rightarrow>
          (let col = d_Columns old ! ord; ck = identitySeqKey (d_ID old) (c_ID col)
           in act_bind (if c_Identity col then act_bind (onTx (kv_Delete (p_kv E) ck)) (\<lambda>_. act_return (Some ck)) else act_return None) (\<lambda>droppedCounterKey.
                if isPK old ord then act_fail (Msg ''cannot drop a primary key column'')
                else if list_ex (\<lambda>x. ord \<in> set (x_Cols x)) (d_Indexes old)
                then act_fail (Msg ''cannot drop an indexed column; drop the index first'')
                else if list_ex (\<lambda>f. ord \<in> set (fk_Cols f)) (d_ForeignKeys old)
                then act_fail (Msg ''cannot drop a foreign key column; drop the constraint first'')
                else
                  act_bind (referencingFKs E table False) (\<lambda>refs.
                    if list_ex (\<lambda>(d, f). name \<in> set (fk_RefCols f)) refs
                    then act_fail (Msg ''cannot drop a column referenced by a foreign key'')
                    else act_return (Some (withoutColumn ord old), droppedCounterKey)))))"

definition DropColumn :: "('db, 'tx) deps \<Rightarrow> string \<Rightarrow> string \<Rightarrow> (('db, 'z) engine_scheme, unit) act" where
  "DropColumn E table name =
     act_bind (alterDesc E table (dropColumnIn E table name)) (\<lambda>droppedCounterKey.
       case droppedCounterKey of None \<Rightarrow> act_return () | Some k \<Rightarrow> act_modify (invalidateCounter k))"

definition renamedColumn :: "string \<Rightarrow> nat \<Rightarrow> string \<Rightarrow> string \<Rightarrow> tableDesc \<Rightarrow> tableDesc" where
  "renamedColumn table ord oldName newName old =
     (clone old)\<lparr>d_Columns := (d_Columns old)[ord := (d_Columns old ! ord)\<lparr>c_Name := newName\<rparr>],
        d_ForeignKeys := map (\<lambda>f. if fk_RefTable f \<noteq> table then f
           else f\<lparr>fk_RefCols := map (\<lambda>n. if n = oldName then newName else n) (fk_RefCols f)\<rparr>) (d_ForeignKeys old)\<rparr>"

definition renameColumnIn ::
  "('db, 'tx) deps \<Rightarrow> string \<Rightarrow> string \<Rightarrow> string \<Rightarrow> tableDesc \<Rightarrow> (('db, 'z) engine_scheme \<times> 'tx, tableDesc option \<times> unit) act" where
  "renameColumnIn E table oldName newName old =
     (case ColIndex old oldName of
        None \<Rightarrow> act_fail noColumn
      | Some ord \<Rightarrow>
          if ColIndex old newName \<noteq> None then act_fail (columnExistsErr table newName)
          else
            act_bind (referencingFKs E table False) (\<lambda>refs.
              if list_ex (\<lambda>(d, f). oldName \<in> set (fk_RefCols f) \<and> d_Name d \<noteq> table) refs
              then act_fail (Msg ''cannot rename a column referenced by a foreign key'')
              else act_return (Some (renamedColumn table ord oldName newName old), ())))"

definition RenameColumn :: "('db, 'tx) deps \<Rightarrow> string \<Rightarrow> string \<Rightarrow> string \<Rightarrow> (('db, 'z) engine_scheme, unit) act" where
  "RenameColumn E table oldName newName =
     (if newName = [] then act_fail (Msg ''new column name is required'')
      else alterDesc E table (renameColumnIn E table oldName newName))"

subsection \<open>Defaults and NOT NULL\<close>

definition setColumn :: "nat \<Rightarrow> (column \<Rightarrow> column) \<Rightarrow> tableDesc \<Rightarrow> tableDesc" where
  "setColumn ord f old = (clone old)\<lparr>d_Columns := (d_Columns old)[ord := f (d_Columns old ! ord)]\<rparr>"

text \<open>The mutations that touch nothing but one column's entry; none publishes nothing.\<close>

definition onColumn ::
  "string \<Rightarrow> (tableDesc \<Rightarrow> nat \<Rightarrow> ('s, tableDesc option) act) \<Rightarrow> tableDesc \<Rightarrow> ('s, tableDesc option \<times> unit) act" where
  "onColumn column f old =
     (case ColIndex old column of
        None \<Rightarrow> act_fail noColumn
      | Some ord \<Rightarrow> act_bind (f old ord) (\<lambda>d. act_return (d, ())))"

definition dropDefaultIn :: "tableDesc \<Rightarrow> nat \<Rightarrow> ('s, tableDesc option) act" where
  "dropDefaultIn old ord =
     (if c_Default (d_Columns old ! ord) = [] then act_return None
      else act_return (Some (setColumn ord (\<lambda>c. c\<lparr>c_Default := []\<rparr>) old)))"

definition DropColumnDefault :: "('db, 'tx) deps \<Rightarrow> string \<Rightarrow> string \<Rightarrow> (('db, 'z) engine_scheme, unit) act" where
  "DropColumnDefault E table column = alterDesc E table (onColumn column dropDefaultIn)"

definition setDefaultIn :: "('db, 'tx) deps \<Rightarrow> string \<Rightarrow> tableDesc \<Rightarrow> nat \<Rightarrow> ('s, tableDesc option) act" where
  "setDefaultIn E literal old ord =
     (if c_Identity (d_Columns old ! ord) then act_fail (Msg ''conflicting DEFAULT for identity column'')
      else
        (let desc = setColumn ord (\<lambda>c. c\<lparr>c_Default := literal\<rparr>) old
         in act_bind (act_lift (columnDefaultValue (p_lib E) (d_Columns desc ! ord) (p_now E))) (\<lambda>_. act_return (Some desc))))"

definition SetColumnDefault :: "('db, 'tx) deps \<Rightarrow> string \<Rightarrow> string \<Rightarrow> string \<Rightarrow> (('db, 'z) engine_scheme, unit) act" where
  "SetColumnDefault E table column literal =
     (if literal = [] then DropColumnDefault E table column
      else alterDesc E table (onColumn column (setDefaultIn E literal)))"

text \<open>The pairs of a stored value hold one for the column, with a value that is not NULL.\<close>

fun hasPair :: "uint32 \<Rightarrow> val list \<Rightarrow> bool" where
  "hasPair colID (VInt i # v # pairs) \<longleftrightarrow> ucast i = colID \<and> v \<noteq> VNull \<or> hasPair colID pairs"
| "hasPair colID (_ # _ # pairs) \<longleftrightarrow> hasPair colID pairs"
| "hasPair colID _ \<longleftrightarrow> False"

fun noNullsLoop :: "uint32 \<Rightarrow> (key \<times> bytes) list \<Rightarrow> bool res" where
  "noNullsLoop colID [] = Inr True"
| "noNullsLoop colID ((k, v) # kvs) =
     res_bind (Decode v) (\<lambda>pairs. if \<not> hasPair colID pairs then Inr False else noNullsLoop colID kvs)"

definition columnHasNoNulls :: "'tx kvops \<Rightarrow> tableDesc \<Rightarrow> uint32 \<Rightarrow> 'tx \<Rightarrow> bool res" where
  "columnHasNoNulls K desc colID t = noNullsLoop colID (tableRows K (d_ID desc) t)"

definition setNotNullIn ::
  "('db, 'tx) deps \<Rightarrow> string \<Rightarrow> string \<Rightarrow> tableDesc \<Rightarrow> nat \<Rightarrow> (('db, 'z) engine_scheme \<times> 'tx, tableDesc option) act" where
  "setNotNullIn E table column old ord =
     (if c_NotNull (d_Columns old ! ord) then act_return None
      else
        act_bind (if isPK old ord then act_return True
                  else act_bind (act_get (\<lambda>s. columnHasNoNulls (p_kv E) old (c_ID (d_Columns old ! ord)) (snd s))) act_lift) (\<lambda>ok.
          if \<not> ok then act_fail (notNullValueErr table column)
          else act_return (Some (setColumn ord (\<lambda>c. c\<lparr>c_NotNull := True\<rparr>) old))))"

definition SetColumnNotNull :: "('db, 'tx) deps \<Rightarrow> string \<Rightarrow> string \<Rightarrow> (('db, 'z) engine_scheme, unit) act" where
  "SetColumnNotNull E table column = alterDesc E table (onColumn column (setNotNullIn E table column))"

definition dropNotNullIn :: "tableDesc \<Rightarrow> nat \<Rightarrow> ('s, tableDesc option) act" where
  "dropNotNullIn old ord =
     (if isPK old ord then act_fail (Msg ''column is in a primary key'')
      else if c_Identity (d_Columns old ! ord) then act_fail (Msg ''an identity column is always NOT NULL'')
      else if \<not> c_NotNull (d_Columns old ! ord) then act_return None
      else act_return (Some (setColumn ord (\<lambda>c. c\<lparr>c_NotNull := False\<rparr>) old)))"

definition DropColumnNotNull :: "('db, 'tx) deps \<Rightarrow> string \<Rightarrow> string \<Rightarrow> (('db, 'z) engine_scheme, unit) act" where
  "DropColumnNotNull E table column = alterDesc E table (onColumn column dropNotNullIn)"

subsection \<open>CHECK constraints\<close>

definition constraintExists :: "string \<Rightarrow> string \<Rightarrow> err" where
  "constraintExists name table =
     Msg (''constraint '' @ [CHR 0x22] @ name @ [CHR 0x22] @ '' for relation '' @ [CHR 0x22] @ table @ [CHR 0x22] @ '' already exists'')"

text \<open>The body of a loop over rows that stops at the first error.\<close>

definition untilErr :: "(val list \<Rightarrow> 'c \<Rightarrow> 'c res) \<Rightarrow> ('c res) yield" where
  "untilErr f r c =
     (case c of
        Inl e \<Rightarrow> (False, Inl e)
      | Inr x \<Rightarrow> (case res_bind r (\<lambda>row. f row x) of Inl e \<Rightarrow> (False, Inl e) | Inr y \<Rightarrow> (True, Inr y)))"

definition foldRows ::
  "'tx kvops \<Rightarrow> golib \<Rightarrow> tableDesc \<Rightarrow> (val list \<Rightarrow> 'c \<Rightarrow> 'c res) \<Rightarrow> 'c \<Rightarrow> ('tx, 'c) act" where
  "foldRows K L desc f c t = scanRows K L desc None None (untilErr f) (Inr c, t)"

definition addCheckIn ::
  "('db, 'tx) deps \<Rightarrow> string \<Rightarrow> checkDesc \<Rightarrow> (val list \<Rightarrow> unit res) option \<Rightarrow> tableDesc \<Rightarrow>
   (('db, 'z) engine_scheme \<times> 'tx, tableDesc option \<times> unit) act" where
  "addCheckIn E table ck validate old =
     (if list_ex (\<lambda>c. chk_Name c = chk_Name ck) (d_Checks old) then act_fail (constraintExists (chk_Name ck) table)
      else
        act_bind (case validate of None \<Rightarrow> act_return ()
                  | Some f \<Rightarrow> onTx (foldRows (p_kv E) (p_lib E) old (\<lambda>row _. f row) ())) (\<lambda>_.
          act_return (Some ((clone old)\<lparr>d_Checks := d_Checks old @ [ck]\<rparr>), ())))"

definition AddCheck ::
  "('db, 'tx) deps \<Rightarrow> string \<Rightarrow> checkDesc \<Rightarrow> (val list \<Rightarrow> unit res) option \<Rightarrow> (('db, 'z) engine_scheme, unit) act" where
  "AddCheck E table ck validate =
     (if chk_Name ck = [] then act_fail (Msg ''check constraint name is required'')
      else alterDesc E table (addCheckIn E table ck validate))"

definition dropCheckIn :: "string \<Rightarrow> tableDesc \<Rightarrow> ('s, tableDesc option \<times> bool) act" where
  "dropCheckIn name old =
     (case firstPos (\<lambda>c. chk_Name c = name) (d_Checks old) of
        None \<Rightarrow> act_return (None, False)
      | Some i \<Rightarrow> act_return (Some ((clone old)\<lparr>d_Checks := deleteAt i (d_Checks old)\<rparr>), True))"

definition DropCheck :: "('db, 'tx) deps \<Rightarrow> string \<Rightarrow> string \<Rightarrow> (('db, 'z) engine_scheme, bool) act" where
  "DropCheck E table name = alterDesc E table (dropCheckIn name)"

subsection \<open>The catalog from outside\<close>

definition Tables :: "('db, 'tx) deps \<Rightarrow> (('db, 'z) engine_scheme, string list) act" where
  "Tables E e =
     (case eView E (act_get (\<lambda>s. map (\<lambda>x. descKeyName (fst x))
         (iterAscend (p_kv E) descTablePrefix (prefixEndKey descTablePrefix) (snd s)))) e of
        (Inl _, e') \<Rightarrow> (Inr [], e')
      | (Inr names, e') \<Rightarrow> (Inr names, e'))"

definition TableOf :: "('db, 'tx) deps \<Rightarrow> string \<Rightarrow> (('db, 'z) engine_scheme, tableDesc option) act" where
  "TableOf E name e =
     (case eView E (tableFromView E name) e of
        (Inl _, e') \<Rightarrow> (Inr None, e')
      | (Inr d, e') \<Rightarrow> (Inr d, e'))"

end
