(* ===== verification/IndexDdl.thy ===== *)
theory IndexDdl
  imports Ddl
begin

text \<open>
  Creating and dropping secondary indexes (\<open>CreateIndexCols\<close> and \<open>DropIndex\<close> of \<open>src/index.go\<close>). A new
  index is filled from the rows in the transaction that publishes it.
\<close>

record indexCol =
  ic_Name :: string
  ic_Desc :: bool

definition nextIndexID :: "tableDesc \<Rightarrow> uint64" where
  "nextIndexID old = fold (\<lambda>x i. if x_ID x \<ge> i then x_ID x + 1 else i) (d_Indexes old) (primaryIndexID + 1)"

fun resolveIndexCols :: "tableDesc \<Rightarrow> indexCol list \<Rightarrow> nat list \<Rightarrow> nat list res" where
  "resolveIndexCols d [] ords = Inr ords"
| "resolveIndexCols d (c # cs) ords =
     (case ColIndex d (ic_Name c) of
        None \<Rightarrow> Inl (Msg ''indexed column not declared'')
      | Some ord \<Rightarrow>
          if ord \<in> set ords then Inl (Msg ''duplicate indexed column'')
          else resolveIndexCols d cs (ords @ [ord]))"

definition newIndex :: "tableDesc \<Rightarrow> string \<Rightarrow> bool \<Rightarrow> indexCol list \<Rightarrow> nat list \<Rightarrow> indexDesc" where
  "newIndex old name unique cols ords =
     \<lparr>x_ID = nextIndexID old, x_Name = name, x_Cols = ords, x_Unique = unique,
      x_Desc = (if list_ex ic_Desc cols then map ic_Desc cols else [])\<rparr>"

text \<open>The entries of the existing rows, in one pass, before any is written.\<close>

definition entriesFor :: "tableDesc \<Rightarrow> indexDesc \<Rightarrow> (key \<times> bytes) list \<Rightarrow> (key \<times> bytes) list res" where
  "entriesFor desc idx =
     res_map (\<lambda>(k, v).
       res_bind (decodeRow desc k v) (\<lambda>row.
         res_bind (indexEntry desc idx row) (\<lambda>(ek, ev, _). Inr (ek, ev))))"

definition putEntry :: "'tx kvops \<Rightarrow> indexDesc \<Rightarrow> key \<Rightarrow> bytes \<Rightarrow> ('tx, unit) act" where
  "putEntry K idx k v t =
     (if x_Unique idx \<and> kv_Contains K k t then (Inl (Msg ''existing rows violate unique index''), t)
      else kv_Set K k v t)"

definition fillIndex :: "'tx kvops \<Rightarrow> tableDesc \<Rightarrow> indexDesc \<Rightarrow> ('tx, unit) act" where
  "fillIndex K desc idx t =
     act_bind (act_lift (entriesFor desc idx (tableRows K (d_ID desc) t)))
       (act_iter (\<lambda>(k, v). putEntry K idx k v)) t"

definition createIndexIn ::
  "('db, 'tx) deps \<Rightarrow> string \<Rightarrow> bool \<Rightarrow> indexCol list \<Rightarrow> tableDesc \<Rightarrow>
   (('db, 'z) engine_scheme \<times> 'tx, tableDesc option \<times> indexDesc) act" where
  "createIndexIn E name unique cols old =
     (if findIndex old name \<noteq> None then act_fail (Msg ''index already exists'')
      else
        act_bind (act_lift (resolveIndexCols old cols [])) (\<lambda>ords.
          (let idx = newIndex old name unique cols ords; desc = (clone old)\<lparr>d_Indexes := d_Indexes old @ [idx]\<rparr>
           in act_bind (onTx (fillIndex (p_kv E) desc idx)) (\<lambda>_. act_return (Some desc, idx)))))"

definition CreateIndexCols ::
  "('db, 'tx) deps \<Rightarrow> string \<Rightarrow> string \<Rightarrow> bool \<Rightarrow> indexCol list \<Rightarrow> (('db, 'z) engine_scheme, indexDesc) act" where
  "CreateIndexCols E table name unique cols =
     (if name = [] then act_fail (Msg ''index name is required'')
      else if cols = [] then act_fail (Msg ''at least one indexed column is required'')
      else act_bind (CheckMemory E) (\<lambda>_. alterDesc E table (createIndexIn E name unique cols)))"

definition CreateIndex ::
  "('db, 'tx) deps \<Rightarrow> string \<Rightarrow> string \<Rightarrow> bool \<Rightarrow> string list \<Rightarrow> (('db, 'z) engine_scheme, indexDesc) act" where
  "CreateIndex E table name unique cols =
     CreateIndexCols E table name unique (map (\<lambda>c. \<lparr>ic_Name = c, ic_Desc = False\<rparr>) cols)"

definition withoutIndex :: "string \<Rightarrow> tableDesc \<Rightarrow> tableDesc" where
  "withoutIndex name old = (clone old)\<lparr>d_Indexes := filter (\<lambda>x. x_Name x \<noteq> name) (d_Indexes old)\<rparr>"

definition dropIndexIn ::
  "('db, 'tx) deps \<Rightarrow> string \<Rightarrow> string \<Rightarrow> tableDesc \<Rightarrow> (('db, 'z) engine_scheme \<times> 'tx, tableDesc option \<times> unit) act" where
  "dropIndexIn E table name old =
     (case findIndex old name of
        None \<Rightarrow> act_fail (Msg ''no such index'')
      | Some idx \<Rightarrow>
          act_bind (if x_Unique idx then referencingFKs E table False else act_return []) (\<lambda>refs.
            if list_ex (\<lambda>(d, f). uniqueKeyCovers old (fk_RefCols f) \<and> \<not> uniqueKeyCovers (withoutIndex name old) (fk_RefCols f)) refs
            then act_fail (Msg ''cannot drop the unique index a foreign key depends on'')
            else act_bind (onTx (deleteSpace (p_kv E) (indexPrefix (d_ID old) (x_ID idx))))
                   (\<lambda>_. act_return (Some (withoutIndex name old), ()))))"

definition DropIndex :: "('db, 'tx) deps \<Rightarrow> string \<Rightarrow> string \<Rightarrow> (('db, 'z) engine_scheme, unit) act" where
  "DropIndex E table name = alterDesc E table (dropIndexIn E table name)"

end
