(* ===== verification/Fk.thy ===== *)
theory Fk
  imports IndexDdl
begin

text \<open>
  Foreign-key constraints (\<open>src/fk.go\<close>): adding one checks its shape against the referenced table and,
  when asked, every row of the child, in the transaction that publishes it. A row's key tuple with a
  NULL in it references nothing and can never be referenced.
\<close>

definition FKCascade :: string where "FKCascade = ''cascade''"

text \<open>
  The key tuple of a row at some ordinals: none when it holds a NULL, and the reading stops there. An
  ordinal the row does not have is an index out of range.
\<close>

fun keyTuple :: "nat option list \<Rightarrow> val list \<Rightarrow> val list option res" where
  "keyTuple [] row = Inr (Some [])"
| "keyTuple (c # cs) row =
     (case c of
        None \<Rightarrow> Inl (GoPanic ''index out of range'')
      | Some i \<Rightarrow>
          if i \<ge> length row then Inl (GoPanic ''index out of range'')
          else if row ! i = VNull then Inr None
          else res_bind (keyTuple cs row) (\<lambda>r. Inr (map_option ((#) (row ! i)) r)))"

definition encodedKey :: "nat option list \<Rightarrow> val list \<Rightarrow> bytes option res" where
  "encodedKey ords row =
     res_bind (keyTuple ords row) (\<lambda>vs.
       case vs of None \<Rightarrow> Inr None | Some vals \<Rightarrow> res_bind (Encode (map any_of vals)) (\<lambda>kb. Inr (Some kb)))"

definition danglingErr :: "tableDesc \<Rightarrow> fkDesc \<Rightarrow> err" where
  "danglingErr child fk =
     Msg (''insert or update on table '' @ [CHR 0x22] @ d_Name child @ [CHR 0x22] @ '' violates foreign key constraint ''
          @ [CHR 0x22] @ fk_Name fk @ [CHR 0x22])"

definition validateExistingRefs ::
  "'tx kvops \<Rightarrow> golib \<Rightarrow> tableDesc \<Rightarrow> tableDesc \<Rightarrow> fkDesc \<Rightarrow> ('tx, unit) act" where
  "validateExistingRefs K L child parent fk =
     act_bind (foldRows K L parent (\<lambda>row keys.
         res_bind (encodedKey (map (ColIndex parent) (fk_RefCols fk)) row) (\<lambda>kb.
           Inr (case kb of None \<Rightarrow> keys | Some b \<Rightarrow> b # keys))) []) (\<lambda>keys.
       foldRows K L child (\<lambda>row _.
         res_bind (encodedKey (map Some (fk_Cols fk)) row) (\<lambda>kb.
           case kb of
             None \<Rightarrow> Inr ()
           | Some b \<Rightarrow> if b \<in> set keys then Inr () else Inl (danglingErr child fk))) ())"

fun checkRefTypes :: "tableDesc \<Rightarrow> tableDesc \<Rightarrow> (nat \<times> string) list \<Rightarrow> unit res" where
  "checkRefTypes old parent [] = Inr ()"
| "checkRefTypes old parent ((i, name) # ps) =
     (case ColIndex parent name of
        None \<Rightarrow> Inl noColumn
      | Some p \<Rightarrow>
          if c_Type (d_Columns old ! i) \<noteq> c_Type (d_Columns parent ! p) then Inl (Msg ''foreign key column types do not match'')
          else checkRefTypes old parent ps)"

text \<open>The shape of a foreign key against its parent, and the key with its referenced columns filled in.\<close>

definition resolveFK :: "tableDesc \<Rightarrow> tableDesc \<Rightarrow> fkDesc \<Rightarrow> fkDesc res" where
  "resolveFK old parent fk0 =
     (let fk = (if fk_RefCols fk0 = [] then fk0\<lparr>fk_RefCols := map (\<lambda>ord. c_Name (d_Columns parent ! ord)) (d_PKCols parent)\<rparr> else fk0)
      in if length (fk_RefCols fk) \<noteq> length (fk_Cols fk)
         then Inl (Msg ''number of referencing and referenced columns for foreign key disagree'')
         else
           res_bind (checkRefTypes old parent (zip (fk_Cols fk) (fk_RefCols fk))) (\<lambda>_.
             if \<not> uniqueKeyCovers parent (fk_RefCols fk)
             then Inl (Msg ''there is no unique constraint matching given keys for referenced table'')
             else Inr fk))"

definition addForeignKeyIn ::
  "('db, 'tx) deps \<Rightarrow> string \<Rightarrow> fkDesc \<Rightarrow> bool \<Rightarrow> tableDesc \<Rightarrow> (('db, 'z) engine_scheme \<times> 'tx, tableDesc option \<times> unit) act" where
  "addForeignKeyIn E table fk0 validateRows old =
     (if list_ex (\<lambda>c. chk_Name c = fk_Name fk0) (d_Checks old) \<or> list_ex (\<lambda>f. fk_Name f = fk_Name fk0) (d_ForeignKeys old)
      then act_fail (constraintExists (fk_Name fk0) table)
      else if list_ex (\<lambda>ord. ord \<ge> length (d_Columns old)) (fk_Cols fk0)
      then act_fail (Msg ''foreign key column ordinal out of range'')
      else
        act_bind (if fk_RefTable fk0 = table then act_return old
                  else act_bind (tableFromView E (fk_RefTable fk0)) (\<lambda>p.
                         case p of None \<Rightarrow> act_fail noTable | Some d \<Rightarrow> act_return d)) (\<lambda>parent.
          act_bind (act_lift (resolveFK old parent fk0)) (\<lambda>fk.
            act_bind (if validateRows then onTx (validateExistingRefs (p_kv E) (p_lib E) old parent fk) else act_return ()) (\<lambda>_.
              act_return (Some ((clone old)\<lparr>d_ForeignKeys := d_ForeignKeys old @ [fk]\<rparr>), ())))))"

definition AddForeignKey :: "('db, 'tx) deps \<Rightarrow> string \<Rightarrow> fkDesc \<Rightarrow> bool \<Rightarrow> (('db, 'z) engine_scheme, unit) act" where
  "AddForeignKey E table fk validateRows =
     (if fk_Name fk = [] then act_fail (Msg ''foreign key constraint name is required'')
      else if fk_Cols fk = [] then act_fail (Msg ''foreign key needs at least one column'')
      else if fk_OnDelete fk \<noteq> [] \<and> fk_OnDelete fk \<noteq> FKCascade then act_fail (Msg ''unsupported ON DELETE action'')
      else alterDesc E table (addForeignKeyIn E table fk validateRows))"

definition dropForeignKeyIn :: "string \<Rightarrow> tableDesc \<Rightarrow> ('s, tableDesc option \<times> bool) act" where
  "dropForeignKeyIn name old =
     (case firstPos (\<lambda>f. fk_Name f = name) (d_ForeignKeys old) of
        None \<Rightarrow> act_return (None, False)
      | Some i \<Rightarrow> act_return (Some ((clone old)\<lparr>d_ForeignKeys := deleteAt i (d_ForeignKeys old)\<rparr>), True))"

definition DropForeignKey :: "('db, 'tx) deps \<Rightarrow> string \<Rightarrow> string \<Rightarrow> (('db, 'z) engine_scheme, bool) act" where
  "DropForeignKey E table name = alterDesc E table (dropForeignKeyIn name)"

end
