(* ===== verification/View.thy ===== *)
theory View
  imports DdlBase
begin

text \<open>
  Views (\<open>src/view.go\<close>): a name bound to the text of a query. Views share the relation namespace with
  tables and sequences.
\<close>

definition createViewIn :: "('db, 'tx) deps \<Rightarrow> string \<Rightarrow> string \<Rightarrow> bool \<Rightarrow> ('tx, unit) act" where
  "createViewIn E name query orReplace t =
     (if kv_Contains (p_kv E) (descKey name) t \<or> kv_Contains (p_kv E) (sqlSeqKey name) t then (Inl (relationErr name), t)
      else if \<not> orReplace \<and> kv_Contains (p_kv E) (viewKey name) t then (Inl (relationErr name), t)
      else act_bind (act_lift (view_Marshal (p_view E) \<lparr>vw_Name = name, vw_Query = query\<rparr>)) (\<lambda>blob.
             kv_Set (p_kv E) (viewKey name) blob) t)"

definition CreateView :: "('db, 'tx) deps \<Rightarrow> string \<Rightarrow> string \<Rightarrow> bool \<Rightarrow> (('db, 'z) engine_scheme, unit) act" where
  "CreateView E name query orReplace =
     (if name = [] then act_fail (Msg ''view name is required'')
      else if query = [] then act_fail (Msg ''view query is required'')
      else updateDDL E (onTx (createViewIn E name query orReplace)))"

definition DropView :: "('db, 'tx) deps \<Rightarrow> string \<Rightarrow> (('db, 'z) engine_scheme, bool) act" where
  "DropView E name = updateDDL E (onTx (kv_Delete (p_kv E) (viewKey name)))"

definition viewIn :: "('db, 'tx) deps \<Rightarrow> string \<Rightarrow> 'tx \<Rightarrow> viewDesc option" where
  "viewIn E name t =
     (case kv_Get (p_kv E) (viewKey name) t of
        None \<Rightarrow> None
      | Some blob \<Rightarrow> (case view_Unmarshal (p_view E) blob of Inl _ \<Rightarrow> None | Inr v \<Rightarrow> Some v))"

definition ViewOf :: "('db, 'tx) deps \<Rightarrow> string \<Rightarrow> (('db, 'z) engine_scheme, viewDesc option) act" where
  "ViewOf E name e =
     (case eView E (act_get (\<lambda>s. viewIn E name (snd s))) e of (Inl _, e') \<Rightarrow> (Inr None, e') | r \<Rightarrow> r)"

definition viewPrefix :: bytes where
  "viewPrefix = mustEncode [AInt64 sysViewTableID, AInt64 primaryIndexID]"

definition viewsIn :: "('db, 'tx) deps \<Rightarrow> 'tx \<Rightarrow> viewDesc list" where
  "viewsIn E t =
     concat (map (\<lambda>(k, blob). case view_Unmarshal (p_view E) blob of Inl _ \<Rightarrow> [] | Inr v \<Rightarrow> [v])
       (iterAscend (p_kv E) viewPrefix (prefixEndKey viewPrefix) t))"

definition Views :: "('db, 'tx) deps \<Rightarrow> (('db, 'z) engine_scheme, viewDesc list) act" where
  "Views E e = (case eView E (act_get (\<lambda>s. viewsIn E (snd s))) e of (Inl _, e') \<Rightarrow> (Inr [], e') | r \<Rightarrow> r)"

end
