(* ===== verification/Reshape.thy ===== *)
theory Reshape
  imports Schema Fk View
begin

text \<open>
  What a change of shape does to the stored rows. A row is a list of column values; adding a column
  appends a value, dropping one removes it. The keys of the rows and of their index entries do not
  move, and a stored value that has no pair for a column reads it as NULL.
\<close>

subsection \<open>Adding a column\<close>

lemma withColumn_fields [simp]:
  "d_ID (withColumn c d) = d_ID d" "d_Name (withColumn c d) = d_Name d" "d_PKCols (withColumn c d) = d_PKCols d"
  "d_Indexes (withColumn c d) = d_Indexes d" "d_NextColID (withColumn c d) = d_NextColID d + 1"
  "d_Columns (withColumn c d) = d_Columns d @ [c\<lparr>c_ID := d_NextColID d\<rparr>]" "isPK (withColumn c d) i \<longleftrightarrow> isPK d i"
  by (simp_all add: withColumn_def clone_def isPK_def)

lemma less_plus1: "n \<noteq> (- 1 :: 'a::len word) \<Longrightarrow> i < n + 1 \<longleftrightarrow> i \<le> n"
  using unatSuc [of n] by (auto simp: word_less_nat_alt word_le_nat_alt add.commute eq_neg_iff_add_eq_0 less_Suc_eq_le)

lemma descOk_withColumn:
  assumes d: "descOk d" and n: "d_NextColID d \<noteq> - 1" and c: "colOk c"
  shows "descOk (published (withColumn c d))"
proof -
  have id: "c_ID x < d_NextColID d" if "x \<in> set (d_Columns d)" for x using descOkD(10) [OF d that] .
  then have "d_NextColID d \<notin> c_ID ` set (d_Columns d)" by (metis imageE less_irrefl)
  moreover have "list_all (\<lambda>x. c_ID x < d_NextColID d + 1) (d_Columns d)" using id less_plus1 [OF n] by (auto simp: list_all_iff intro: less_imp_le)
  ultimately show ?thesis using d c ordOk_published [of "withColumn c d"] less_plus1 [OF n, of "d_NextColID d"]
    by (auto simp: descOk_def colOk_def list_all_iff less_SucI)
qed

text \<open>A row with the value for the new column.\<close>

lemma withColumn_keys:
  assumes d: "descOk d" and r: "length r = length (d_Columns d)"
  shows "rowKeyOf (withColumn c d) (r @ [v]) = rowKeyOf d r"
    "x \<in> set (d_Indexes d) \<Longrightarrow> entryKey (withColumn c d) x (r @ [v]) = entryKey d x r"
    "x \<in> set (d_Indexes d) \<Longrightarrow> entryVal (withColumn c d) x (r @ [v]) = entryVal d x r"
proof -
  have p: "pkValues (withColumn c d) (r @ [v]) = pkValues d r"
    using descOkD(4) [OF d] r by (auto simp: pkValues_def nth_append)
  then show "rowKeyOf (withColumn c d) (r @ [v]) = rowKeyOf d r" by (simp add: rowKeyOf_def)
  have i: "indexVals x (r @ [v]) = indexVals x r" if "x \<in> set (d_Indexes d)" for x
    using descOkD(5) [OF d that] r by (auto simp: indexVals_def nth_append)
  then show "x \<in> set (d_Indexes d) \<Longrightarrow> entryKey (withColumn c d) x (r @ [v]) = entryKey d x r"
    "x \<in> set (d_Indexes d) \<Longrightarrow> entryVal (withColumn c d) x (r @ [v]) = entryVal d x r"
    using p by (simp_all add: entryKey_def entryVal_def enforced_def)
qed

lemma map_of_fresh: "(\<And>p. p \<in> set ps \<Longrightarrow> fst p < n) \<Longrightarrow> map_of ps (n :: 'a::order) = None"
  by (metis less_irrefl map_of_eq_None_iff imageE)

lemma flatPairs_append [simp]: "flatPairs (ps @ qs) = flatPairs ps @ flatPairs qs"
  by (simp add: flatPairs_def)

text \<open>The old bytes read as NULL in the new column; with a pair appended they give its value.\<close>

lemma holdsRow_withColumn:
  assumes d: "descOk d" and n: "d_NextColID d \<noteq> - 1" and r: "length r = length (d_Columns d)" and h: "holdsRow d r b"
  shows "holdsRow (withColumn c d) (r @ [VNull]) b"
    "v \<noteq> VNull \<Longrightarrow> holdsRow (withColumn c d) (r @ [v]) (b @ encTup [VInt (ucast (d_NextColID d)), v])"
proof -
  obtain ps where ps: "b = encTup (flatPairs ps)" "distinct (map fst ps)" "\<And>p. p \<in> set ps \<Longrightarrow> fst p < d_NextColID d \<and> snd p \<noteq> VNull"
    "\<And>i. i < length (d_Columns d) \<Longrightarrow> map_of ps (c_ID (d_Columns d ! i)) = (if isPK d i \<or> r ! i = VNull then None else Some (r ! i))"
    using h unfolding holdsRow_def by blast
  have fresh: "map_of ps (d_NextColID d) = None" using ps(3) by (intro map_of_fresh) auto
  have up: "i < d_NextColID d + 1 \<longleftrightarrow> i \<le> d_NextColID d" for i by (rule less_plus1 [OF n])
  have nid: "c_ID (d_Columns d ! i) \<noteq> d_NextColID d" if "i < length (d_Columns d)" for i
    using descOkD(10) [OF d, of "d_Columns d ! i"] that by auto
  have npk: "\<not> isPK d (length (d_Columns d))" using descOkD(4) [OF d] by (auto simp: isPK_def)
  show "holdsRow (withColumn c d) (r @ [VNull]) b"
    unfolding holdsRow_def using ps fresh up r
    by (intro exI [of _ ps]) (auto simp: nth_append less_Suc_eq intro: less_imp_le)
  show "holdsRow (withColumn c d) (r @ [v]) (b @ encTup [VInt (ucast (d_NextColID d)), v])" if "v \<noteq> VNull"
    unfolding holdsRow_def
  proof (intro exI [of _ "ps @ [(d_NextColID d, v)]"] conjI)
    show "distinct (map fst (ps @ [(d_NextColID d, v)]))" using ps(2) fresh by (simp add: map_of_eq_None_iff)
    show "\<forall>p\<in>set (ps @ [(d_NextColID d, v)]). fst p < d_NextColID (withColumn c d) \<and> snd p \<noteq> VNull"
      using ps(3) up that by (auto intro: less_imp_le)
    show "\<forall>i<length (d_Columns (withColumn c d)). map_of (ps @ [(d_NextColID d, v)]) (c_ID (d_Columns (withColumn c d) ! i)) =
        (if isPK (withColumn c d) i \<or> (r @ [v]) ! i = VNull then None else Some ((r @ [v]) ! i))"
      using ps(4) fresh r nid npk that by (auto simp: nth_append less_Suc_eq map_add_def split: option.splits)
  qed (use ps(1) in simp)
qed

lemma stores_withColumn:
  assumes d: "descOk d" and n: "d_NextColID d \<noteq> - 1" and st: "stores d R m"
    and row: "\<And>r. r \<in> R \<Longrightarrow> rowOk (withColumn c d) (r @ [f r])"
    and at: "\<And>r. r \<in> R \<Longrightarrow> m' (rowKeyOf d r) = Some (if f r = VNull then rowBytes d m r
        else rowBytes d m r @ encTup [VInt (ucast (d_NextColID d)), f r])"
    and fr: "\<And>k. prefix (tableSpace (d_ID d)) k \<Longrightarrow> k \<notin> rowKeyOf d ` R \<Longrightarrow> m' k = m k"
  shows "stores (withColumn c d) ((\<lambda>r. r @ [f r]) ` R) m'"
proof -
  let ?d = "withColumn c d"
  have len: "length r = length (d_Columns d)" if "r \<in> R" for r using storesD(1) [OF st that] rowOkD(1) by blast
  note keys = withColumn_keys [OF d len, where c = c]
  have h: "\<exists>b. m' (rowKeyOf d r) = Some b \<and> holdsRow ?d (r @ [f r]) b" if "r \<in> R" for r
    using at [OF that] holdsRow_withColumn [OF d n len [OF that] storesD(3) [OF st that, THEN conjunct2], where c = c] by auto
  have ix: "m' (entryKey d x r) = Some (entryVal d x r)" if "r \<in> R" "x \<in> set (d_Indexes d)" for r x
    using fr [of "entryKey d x r"] storesD(4) [OF st that] rowKeyOf_neq_entry [OF d that(2)]
      indexPrefix_space [OF entryKey_prefix [of d x r]] by (metis imageE)
  have cover: "\<exists>r\<in>R. entryOf ?d (r @ [f r]) k v" if k: "prefix (tableSpace (d_ID d)) k" "m' k = Some v" for k v
  proof (cases "k \<in> rowKeyOf d ` R")
    case True
    then obtain r where r: "r \<in> R" "k = rowKeyOf d r" by blast
    then show ?thesis using h [OF r(1)] keys(1) [OF r(1)] k(2) unfolding entryOf_def by (intro bexI [OF _ r(1)]) auto
  next
    case False
    then obtain r where r: "r \<in> R" "entryOf d r k v" using storesD(2) [OF st k(1)] fr [OF k(1)] k(2) by metis
    then show ?thesis using False keys(2,3) [OF r(1)] unfolding entryOf_def by (intro bexI [OF _ r(1)]) auto
  qed
  show ?thesis unfolding stores_def using row h ix cover keys by auto
qed

subsection \<open>Dropping a column\<close>

definition unshift :: "nat \<Rightarrow> nat \<Rightarrow> nat" where
  "unshift ord j = (if j < ord then j else Suc j)"

lemma deleteAt_nth: "ord < length xs \<Longrightarrow> j < length xs - 1 \<Longrightarrow> deleteAt ord xs ! j = xs ! unshift ord j"
  by (auto simp: deleteAt_def unshift_def nth_append)

lemma length_deleteAt: "ord < length xs \<Longrightarrow> length (deleteAt ord xs) = length xs - 1"
  by (auto simp: deleteAt_def)

lemma shift_unshift:
  "shiftOrd ord (unshift ord j) = j" "i \<noteq> ord \<Longrightarrow> unshift ord (shiftOrd ord i) = i" "unshift ord j \<noteq> ord"
  "unshift ord j = unshift ord j' \<longleftrightarrow> j = j'" "ord < n \<Longrightarrow> j < n - 1 \<Longrightarrow> unshift ord j < n"
  "i \<noteq> ord \<Longrightarrow> i < n \<Longrightarrow> ord < n \<Longrightarrow> shiftOrd ord i < n - 1"
  by (auto simp: shiftOrd_def unshift_def)

lemma deleteAt_shift: "ord < length xs \<Longrightarrow> i < length xs \<Longrightarrow> i \<noteq> ord \<Longrightarrow> deleteAt ord xs ! shiftOrd ord i = xs ! i"
  using deleteAt_nth [of ord xs "shiftOrd ord i"] shift_unshift(2,6) by simp

lemma set_deleteAt: "set (deleteAt ord xs) \<subseteq> set xs"
  by (auto simp: deleteAt_def dest: in_set_takeD in_set_dropD)

abbreviation shiftIndex :: "nat \<Rightarrow> indexDesc \<Rightarrow> indexDesc" where
  "shiftIndex ord x \<equiv> x\<lparr>x_Cols := map (shiftOrd ord) (x_Cols x)\<rparr>"

lemma withoutColumn_fields [simp]:
  "d_ID (withoutColumn ord d) = d_ID d" "d_Name (withoutColumn ord d) = d_Name d" "d_PKCols (withoutColumn ord d) = map (shiftOrd ord) (d_PKCols d)"
  "d_Indexes (withoutColumn ord d) = map (shiftIndex ord) (d_Indexes d)" "d_NextColID (withoutColumn ord d) = d_NextColID d"
  "d_Columns (withoutColumn ord d) = deleteAt ord (d_Columns d)"
  by (simp_all add: withoutColumn_def clone_def)

text \<open>A column that neither the key nor an index uses.\<close>

definition droppable :: "tableDesc \<Rightarrow> nat \<Rightarrow> bool" where
  "droppable d ord \<longleftrightarrow> ord < length (d_Columns d) \<and> \<not> isPK d ord \<and> (\<forall>x\<in>set (d_Indexes d). ord \<notin> set (x_Cols x))"

lemma withoutColumn_isPK:
  assumes "droppable d ord"
  shows "isPK (withoutColumn ord d) j \<longleftrightarrow> isPK d (unshift ord j)"
proof -
  have o: "ord \<notin> set (d_PKCols d)" using assms by (simp add: droppable_def isPK_def)
  have "unshift ord j \<in> set (d_PKCols d)" if "j = shiftOrd ord i" "i \<in> set (d_PKCols d)" for i
    using that o shift_unshift(2) [of i ord] by (cases "i = ord") simp_all
  moreover have "j \<in> shiftOrd ord ` set (d_PKCols d)" if "unshift ord j \<in> set (d_PKCols d)"
    using image_eqI [OF _ that, of j "shiftOrd ord"] shift_unshift(1) by simp
  ultimately show ?thesis by (auto simp: isPK_def)
qed

lemma encDirs_shift: "encDirs (shiftIndex ord x) n vs = encDirs x n vs"
  by (simp add: encDirs_def DescAt_def)

lemma withoutColumn_keys:
  assumes d: "descOk d" and o: "droppable d ord" and r: "length r = length (d_Columns d)"
  shows "rowKeyOf (withoutColumn ord d) (deleteAt ord r) = rowKeyOf d r"
    "x \<in> set (d_Indexes d) \<Longrightarrow> entryKey (withoutColumn ord d) (shiftIndex ord x) (deleteAt ord r) = entryKey d x r"
    "x \<in> set (d_Indexes d) \<Longrightarrow> entryVal (withoutColumn ord d) (shiftIndex ord x) (deleteAt ord r) = entryVal d x r"
proof -
  have ol: "ord < length r" using o r by (simp add: droppable_def)
  have p: "pkValues (withoutColumn ord d) (deleteAt ord r) = pkValues d r"
    using descOkD(4) [OF d] r ol o deleteAt_shift [OF ol] unfolding droppable_def isPK_def by (auto simp: pkValues_def)
  then show "rowKeyOf (withoutColumn ord d) (deleteAt ord r) = rowKeyOf d r" by (simp add: rowKeyOf_def)
  have i: "indexVals (shiftIndex ord x) (deleteAt ord r) = indexVals x r" if "x \<in> set (d_Indexes d)" for x
    using descOkD(5) [OF d that] r ol o that deleteAt_shift [OF ol] unfolding droppable_def by (auto simp: indexVals_def)
  then show "x \<in> set (d_Indexes d) \<Longrightarrow> entryKey (withoutColumn ord d) (shiftIndex ord x) (deleteAt ord r) = entryKey d x r"
    "x \<in> set (d_Indexes d) \<Longrightarrow> entryVal (withoutColumn ord d) (shiftIndex ord x) (deleteAt ord r) = entryVal d x r"
    using p by (simp_all add: entryKey_def entryVal_def enforced_def encDirs_shift)
qed

text \<open>The same bytes hold the shorter row: the pair of the dropped column is passed over.\<close>

lemma holdsRow_withoutColumn:
  assumes o: "droppable d ord" and r: "length r = length (d_Columns d)" and h: "holdsRow d r b"
  shows "holdsRow (withoutColumn ord d) (deleteAt ord r) b"
proof -
  have l: "ord < length (d_Columns d)" using o by (simp add: droppable_def)
  obtain ps where ps: "b = encTup (flatPairs ps)" "distinct (map fst ps)" "\<And>p. p \<in> set ps \<Longrightarrow> fst p < d_NextColID d \<and> snd p \<noteq> VNull"
    "\<And>i. i < length (d_Columns d) \<Longrightarrow> map_of ps (c_ID (d_Columns d ! i)) = (if isPK d i \<or> r ! i = VNull then None else Some (r ! i))"
    using h unfolding holdsRow_def by blast
  show ?thesis unfolding holdsRow_def
    by (intro exI [of _ ps])
      (use ps l r in \<open>auto simp: length_deleteAt deleteAt_nth withoutColumn_isPK [OF o] shift_unshift(5)\<close>)
qed

lemma rowOk_withoutColumn:
  assumes o: "droppable d ord" and r: "rowOk d r"
  shows "rowOk (withoutColumn ord d) (deleteAt ord r)"
proof -
  have l: "ord < length (d_Columns d)" "length r = length (d_Columns d)" using o rowOkD(1) [OF r] by (simp_all add: droppable_def)
  have "colValOk (withoutColumn ord d) j v \<longleftrightarrow> colValOk d (unshift ord j) v" if "j < length (d_Columns d) - 1" for j v
    using that l deleteAt_nth [of ord "d_Columns d" j] by (simp add: colValOk_def Let_def withoutColumn_isPK [OF o])
  then show ?thesis using r l set_deleteAt [of ord r] unfolding rowOk_simps
    by (auto simp: length_deleteAt deleteAt_nth shift_unshift(5))
qed

lemma stores_withoutColumn:
  assumes d: "descOk d" and o: "droppable d ord" and st: "stores d R m"
  shows "stores (withoutColumn ord d) (deleteAt ord ` R) m"
proof -
  have len: "length r = length (d_Columns d)" if "r \<in> R" for r using storesD(1) [OF st that] rowOkD(1) by blast
  note keys = withoutColumn_keys [OF d o len]
  have "\<exists>r\<in>R. entryOf (withoutColumn ord d) (deleteAt ord r) k v" if k: "prefix (tableSpace (d_ID d)) k" "m k = Some v" for k v
  proof -
    obtain r where r: "r \<in> R" "entryOf d r k v" using storesD(2) [OF st k] by blast
    then show ?thesis using keys [OF r(1)] holdsRow_withoutColumn [OF o len [OF r(1)]]
      unfolding entryOf_def by (intro bexI [OF _ r(1)]) auto
  qed
  then show ?thesis unfolding stores_def
    using storesD [OF st] rowOk_withoutColumn [OF o] holdsRow_withoutColumn [OF o len] keys by auto
qed

lemma descOk_withoutColumn:
  assumes d: "descOk d" and o: "droppable d ord"
  shows "descOk (published (withoutColumn ord d))"
proof -
  have l: "ord < length (d_Columns d)" using o by (simp add: droppable_def)
  have sh: "i \<noteq> ord \<Longrightarrow> i < length (d_Columns d) \<Longrightarrow> shiftOrd ord i < length (deleteAt ord (d_Columns d))" for i
    using shift_unshift(6) [OF _ _ l] by (simp add: length_deleteAt [OF l])
  have inj: "distinct (map (shiftOrd ord) xs)" if "distinct xs" "ord \<notin> set xs" for xs
    unfolding distinct_map using that by (auto intro!: inj_onI) (metis shift_unshift(2))
  have c: "distinct (map c_ID (deleteAt ord (d_Columns d)))"
    using d unfolding deleteAt_def descOk_def map_append take_map [symmetric] drop_map [symmetric]
    by (simp add: set_take_disj_set_drop_if_distinct)
  have b: "i \<in> set (d_PKCols d) \<Longrightarrow> shiftOrd ord i < length (deleteAt ord (d_Columns d))"
    "x \<in> set (d_Indexes d) \<Longrightarrow> i \<in> set (x_Cols x) \<Longrightarrow> shiftOrd ord i < length (deleteAt ord (d_Columns d))" for i x
    using sh [of i] descOkD(4,5) [OF d] o by (auto simp: droppable_def isPK_def)
  show ?thesis
    using d o c inj b ordOk_published [of "withoutColumn ord d"] set_deleteAt [of ord "d_Columns d"]
    unfolding descOk_def droppable_def isPK_def
    by (auto simp: list_all_iff o_def)
qed

subsection \<open>Adding and dropping an index\<close>

definition withIndex :: "indexDesc \<Rightarrow> tableDesc \<Rightarrow> tableDesc" where
  "withIndex x d = (clone d)\<lparr>d_Indexes := d_Indexes d @ [x]\<rparr>"

text \<open>Descriptors that differ in their indexes only.\<close>

definition sameRows :: "tableDesc \<Rightarrow> tableDesc \<Rightarrow> bool" where
  "sameRows d d' \<longleftrightarrow> d_ID d = d_ID d' \<and> d_Columns d = d_Columns d' \<and> d_PKCols d = d_PKCols d' \<and> d_NextColID d = d_NextColID d'"

lemma sameRows_keys:
  assumes "sameRows d d'"
  shows "rowKeyOf d = rowKeyOf d'" "entryKey d = entryKey d'" "entryVal d = entryVal d'" "holdsRow d = holdsRow d'" "rowOk d = rowOk d'"
proof -
  have p: "pkValues d = pkValues d'" "isPK d = isPK d'" using assms by (simp_all add: sameRows_def fun_eq_iff pkValues_def isPK_def)
  then show "rowKeyOf d = rowKeyOf d'" "entryKey d = entryKey d'" "entryVal d = entryVal d'" "holdsRow d = holdsRow d'" "rowOk d = rowOk d'"
    using assms by (auto simp: sameRows_def fun_eq_iff rowKeyOf_def entryKey_def entryVal_def holdsRow_def rowOk_simps colValOk_def Let_def)
qed

lemma withIndex_fields [simp]:
  "d_ID (withIndex x d) = d_ID d" "d_Name (withIndex x d) = d_Name d" "d_Columns (withIndex x d) = d_Columns d" "d_PKCols (withIndex x d) = d_PKCols d"
  "d_Indexes (withIndex x d) = d_Indexes d @ [x]" "d_NextColID (withIndex x d) = d_NextColID d"
  by (simp_all add: withIndex_def clone_def)

lemma withoutIndex_fields [simp]:
  "d_ID (withoutIndex n d) = d_ID d" "d_Name (withoutIndex n d) = d_Name d" "d_Columns (withoutIndex n d) = d_Columns d" "d_PKCols (withoutIndex n d) = d_PKCols d"
  "d_Indexes (withoutIndex n d) = filter (\<lambda>x. x_Name x \<noteq> n) (d_Indexes d)" "d_NextColID (withoutIndex n d) = d_NextColID d"
  by (simp_all add: withoutIndex_def clone_def)

lemma sameRows_index: "sameRows (withIndex x d) d" "sameRows (withoutIndex n d) d"
  by (simp_all add: sameRows_def)

lemma descOk_withIndex:
  assumes "descOk d" "x_ID x \<noteq> primaryIndexID" "x_ID x \<notin> x_ID ` set (d_Indexes d)" "x_Cols x \<noteq> []" "\<forall>i\<in>set (x_Cols x). i < length (d_Columns d)"
  shows "descOk (published (withIndex x d))"
  using assms ordOk_published [of "withIndex x d"] by (auto simp: descOk_def list_all_iff)

lemma descOk_withoutIndex: "descOk d \<Longrightarrow> descOk (published (withoutIndex n d))"
  using ordOk_published [of "withoutIndex n d"] by (auto simp: descOk_def list_all_iff distinct_map inj_on_def)

text \<open>Nothing is stored under an index ID that is not in use.\<close>

lemma stores_unused:
  assumes "descOk d" "stores d R m" "j \<noteq> primaryIndexID" "j \<notin> x_ID ` set (d_Indexes d)" "prefix (indexPrefix (d_ID d) j) k"
  shows "m k = None"
proof (rule ccontr)
  assume "m k \<noteq> None"
  then obtain v r where "entryOf d r k v" using storesD(2) [OF assms(2) indexPrefix_space [OF assms(5)]] by blast
  then show False
    using assms(3-5) rowKeyOf_prefix [of d r] entryKey_prefix [of d _ r] indexPrefix_disjoint [of "d_ID d" j k "d_ID d"]
    unfolding entryOf_def tablePrefix_def by blast
qed

lemma stores_withIndex:
  assumes d: "descOk d" and st: "stores d R m" and x: "x_ID x \<noteq> primaryIndexID" "x_ID x \<notin> x_ID ` set (d_Indexes d)"
    and at: "\<And>r. r \<in> R \<Longrightarrow> m' (entryKey d x r) = Some (entryVal d x r)"
    and cover: "\<And>k v. m' k = Some v \<Longrightarrow> prefix (indexPrefix (d_ID d) (x_ID x)) k \<Longrightarrow> \<exists>r\<in>R. k = entryKey d x r"
    and fr: "\<And>k. \<not> prefix (indexPrefix (d_ID d) (x_ID x)) k \<Longrightarrow> m' k = m k"
  shows "stores (withIndex x d) R m'"
proof -
  note k = sameRows_keys [OF sameRows_index(1) [of x d]]
  have row: "m' (rowKeyOf d r) = m (rowKeyOf d r)" for r
    by (rule fr) (use rowKeyOf_prefix [of d r] indexPrefix_disjoint x(1) tablePrefix_def in metis)
  have ent: "m' (entryKey d y r) = m (entryKey d y r)" if "y \<in> set (d_Indexes d)" for y r
    by (rule fr) (use entryKey_prefix [of d y r] indexPrefix_disjoint [of "d_ID d"] x(2) that in blast)
  have cov: "\<exists>r\<in>R. entryOf (withIndex x d) r k v" if kv: "prefix (tableSpace (d_ID d)) k" "m' k = Some v" for k v
  proof (cases "prefix (indexPrefix (d_ID d) (x_ID x)) k")
    case True
    then obtain r where "r \<in> R" "k = entryKey d x r" using cover kv(2) by blast
    then show ?thesis using at kv(2) unfolding entryOf_def k by auto
  next
    case False
    then obtain r where "r \<in> R" "entryOf d r k v" using storesD(2) [OF st kv(1)] fr kv(2) by metis
    then show ?thesis unfolding entryOf_def k by auto
  qed
  show ?thesis unfolding stores_def k withIndex_fields using storesD [OF st] row ent at cov unfolding k by auto
qed

lemma stores_withoutIndex:
  assumes d: "descOk d" and st: "stores d R m" and x: "x \<in> set (d_Indexes d)" "x_Name x = n" "\<And>y. y \<in> set (d_Indexes d) \<Longrightarrow> x_Name y = n \<Longrightarrow> y = x"
    and m': "\<And>k. m' k = (if prefix (indexPrefix (d_ID d) (x_ID x)) k then None else m k)"
  shows "stores (withoutIndex n d) R m'"
proof -
  note k = sameRows_keys [OF sameRows_index(2) [of n d]]
  have row: "m' (rowKeyOf d r) = m (rowKeyOf d r)" for r
    using rowKeyOf_prefix [of d r] indexPrefix_disjoint descOkD(6) [OF d x(1)] unfolding m' tablePrefix_def by metis
  have ent: "m' (entryKey d y r) = m (entryKey d y r)" if "y \<in> set (d_Indexes d)" "x_Name y \<noteq> n" for y r
  proof -
    have "x_ID y \<noteq> x_ID x" using descOkD(7) [OF d] that x(1,2) by (auto simp: distinct_map inj_on_def)
    then show ?thesis using entryKey_prefix [of d y r] indexPrefix_disjoint unfolding m' by metis
  qed
  have cov: "\<exists>r\<in>R. entryOf (withoutIndex n d) r k v" if kv: "prefix (tableSpace (d_ID d)) k" "m' k = Some v" for k v
  proof -
    have p: "\<not> prefix (indexPrefix (d_ID d) (x_ID x)) k" "m k = Some v" using kv(2) unfolding m' by (auto split: if_splits)
    obtain r where r: "r \<in> R" "entryOf d r k v" using storesD(2) [OF st kv(1) p(2)] by blast
    then show ?thesis using p(1) entryKey_prefix [of d x r] x(3) unfolding entryOf_def k by (intro bexI [OF _ r(1)]) auto
  qed
  show ?thesis unfolding stores_def k withoutIndex_fields using storesD [OF st] row ent cov unfolding k by auto
qed

end
