(* ===== verification/SampleSchema.thy ===== *)
theory SampleSchema
  imports Schema
begin

text \<open>
  A store with one table and two rows, and an empty one, for the concrete instances of the theorems on
  schema changes. Nothing here models code.
\<close>

definition peopleKv :: alist where
  "peopleKv = al_set seqKey (be64 101) (al_set (descKey ''users'') [0] sampleStore)"

text \<open>The codec knows the sample descriptor and the given ones.\<close>

abbreviation peopleDeps :: "tableDesc list \<Rightarrow> (alist, memTx) deps" where
  "peopleDeps ds \<equiv> memDeps (listCodec (sampleDesc # ds)) tupleSeqCodec noViewCodec"

abbreviation peopleEngine :: "alist engine" where
  "peopleEngine \<equiv> openEngine peopleKv False"

abbreviation peopleCat :: "string \<Rightarrow> tableDesc option" where
  "peopleCat \<equiv> [''users'' \<mapsto> usersDesc]"

abbreviation peopleRows :: "string \<Rightarrow> val list set" where
  "peopleRows \<equiv> (\<lambda>_. {})(''users'' := {rowAnn, rowBob})"

lemma usersDesc_ID: "d_ID usersDesc = 100" "d_NextColID usersDesc = 4"
  by (simp_all add: usersDesc_def sampleDesc_def)

lemma sampleStore_space:
  assumes "map_of sampleStore k = Some v"
  shows "prefix (tableSpace 100) k"
proof -
  have s: "al_sorted (putAll (rowEntries sampleDesc rowAnn) [])" by (rule putAll_props [OF _ distinct_rowEntries [OF sampleDesc_ok]]) simp
  have "map_of (rowEntries sampleDesc rowBob) k = Some v \<or> map_of (rowEntries sampleDesc rowAnn) k = Some v"
    using assms unfolding sampleStore_def putAll_props(2) [OF s distinct_rowEntries [OF sampleDesc_ok]]
    by (auto simp: putAll_props(2) [OF _ distinct_rowEntries [OF sampleDesc_ok], of "[]", simplified] split: option.splits)
  then show ?thesis using rowEntries_space [of k v sampleDesc] by (auto dest!: map_of_SomeD simp: sampleDesc_def)
qed

lemma peopleKv_map: "map_of peopleKv = (map_of sampleStore)(descKey ''users'' \<mapsto> [0], seqKey \<mapsto> be64 101)" "al_sorted peopleKv"
  using sample_stores(2) by (simp_all add: peopleKv_def)

lemma people_stores: "stores usersDesc {rowAnn, rowBob} (map_of peopleKv)"
proof -
  have "userTable (100 :: uint64)" by code_simp
  note o = sys_keys_outside(1,2) [OF this]
  have l: "layout sampleDesc = layout usersDesc" by (simp add: usersDesc_def layout_def)
  have "rowOk usersDesc rowAnn" "rowOk usersDesc rowBob" by code_simp+
  then have "stores usersDesc {rowAnn, rowBob} (map_of sampleStore)" by (intro stores_layout [OF l sample_stores(1)]) auto
  moreover have "map_of peopleKv k = map_of sampleStore k" if "prefix (tableSpace (d_ID usersDesc)) k" for k
    using that o by (auto simp: peopleKv_map usersDesc_ID)
  ultimately show ?thesis using stores_cong [of usersDesc "map_of peopleKv" "map_of sampleStore" "{rowAnn, rowBob}"] by blast
qed

lemma people_free: "map_of peopleKv (identitySeqKey i j) = None" "map_of peopleKv (sqlSeqKey n) = None" "map_of peopleKv (viewKey n) = None"
proof -
  have u: "userTable (100 :: uint64)" by code_simp
  have none: "map_of sampleStore k = None" if "\<not> prefix (tableSpace 100) k" for k using sampleStore_space that by (metis not_None_eq)
  then show "map_of peopleKv (identitySeqKey i j) = None" "map_of peopleKv (sqlSeqKey n) = None" "map_of peopleKv (viewKey n) = None"
    using sys_keys_outside(4-6) [OF u] by (simp_all add: peopleKv_map)
qed

lemma people_schema: "schemaRep (listCodec (sampleDesc # ds)) peopleCat (map_of peopleKv) peopleRows"
proof (rule schemaRepI [of _ _ _ _ 101])
  have u: "userTable (100 :: uint64)" by code_simp
  have none: "map_of sampleStore k = None" if "\<not> prefix (tableSpace 100) k" for k using sampleStore_space that by (metis not_None_eq)
  have p: "parseDesc (listCodec (sampleDesc # ds)) [0] = Inr usersDesc"
  proof -
    have "clone sampleDesc = sampleDesc" "d_FormatVersion sampleDesc = descFormatVersion" by code_simp+
    then show ?thesis by (simp add: parseDesc_def listCodec_def usersDesc_def)
  qed
  have at: "tableAt (listCodec (sampleDesc # ds)) (map_of peopleKv) n = Inr (peopleCat n)" for n
    using p none [of "descKey n"] sys_keys_outside(1) [OF u] by (simp add: tableAt_def peopleKv_map)
  show "dbRep (listCodec (sampleDesc # ds)) (\<lambda>n. Inr (peopleCat n)) (map_of peopleKv) peopleRows"
    unfolding dbRep_def using at people_stores usersDesc_ok by (auto split: if_splits)
  show "userTable 101" by code_simp
  show "counterVal (map_of peopleKv) seqKey firstUserTableID = Inr 101" by (simp add: counterVal_def peopleKv_map)
  show "map_of peopleKv k = None" if i: "101 \<le> i" "tableKey i k" for i k
  proof -
    have ui: "userTable i" using i(1) \<open>userTable 101\<close> by (simp add: userTable_def)
    have "i \<noteq> 100" using i(1) by auto
    then have "\<not> prefix (tableSpace 100) k" using tableKey_disjoint [OF u ui, of k] i(2) by (auto simp: tableKey_def)
    then show ?thesis using none [of k] tableKey_sys(1,2) [OF ui] i(2) by (auto simp: peopleKv_map)
  qed
  show "map_of peopleKv (identitySeqKey (d_ID d) i) = None" for d i by (rule people_free)
  show "map_of peopleKv (sqlSeqKey n) = None \<and> map_of peopleKv (viewKey n) = None" for n using people_free by blast
qed (auto simp: usersDesc_def sampleDesc_def split: if_splits)

lemma peopleEngine_ok: "cacheOk C peopleEngine" "e_kv peopleEngine = peopleKv" "al_sorted (e_kv peopleEngine)"
  using peopleKv_map(2) by (simp_all add: openEngine_def cacheOk_def)

lemma empty_schema: "schemaRep C (\<lambda>_. None) Map.empty R"
  by (rule schemaRepI [of _ _ _ _ firstUserTableID]) (auto simp: dbRep_def tableAt_def counterVal_def userTable_def)

end
