(* ===== verification/DdlSim.thy ===== *)
theory DdlSim
  imports Reshape SampleSchema
begin

text \<open>
  Schema changes against the schema they mean: the rules for operations that write descriptors, and
  creating and dropping tables. Every operation either leaves the store as it was or leaves exactly
  the schema and the rows that the change stands for; a new table is empty and its name was free, a
  dropped one leaves nothing behind.
\<close>

subsection \<open>Rules for descriptor rewrites\<close>

text \<open>A change that succeeded, failed and left nothing, or failed in the commit after it took effect.\<close>

definition ddlDone :: "('a \<Rightarrow> (key \<Rightarrow> bytes option) \<Rightarrow> bool) \<Rightarrow> (key \<Rightarrow> bytes option) \<Rightarrow> 'a res \<Rightarrow> (key \<Rightarrow> bytes option) \<Rightarrow> bool" where
  "ddlDone P m r m' \<longleftrightarrow> (case r of Inr x \<Rightarrow> P x m' | Inl err \<Rightarrow> m' = m \<or> err \<noteq> ErrTxConflict \<and> (\<exists>x. P x m'))"

text \<open>The parsed form of a descriptor replaces a table's entry in the content.\<close>

definition described :: "descCodec \<Rightarrow> string \<Rightarrow> tableDesc \<Rightarrow> (key \<Rightarrow> bytes option) \<Rightarrow> (key \<Rightarrow> bytes option) \<Rightarrow> bool" where
  "described C name d m m' \<longleftrightarrow> (\<exists>b. parseDesc C b = Inr (published d) \<and> m' = m(descKey name \<mapsto> b))"

lemma describedD:
  assumes "described C name d m m'"
  shows "tableAt C m' name = Inr (Some (published d))" "k \<noteq> descKey name \<Longrightarrow> m' k = m k"
  using assms by (auto simp: described_def tableAt_def)

lemma fold_kill: "e_kv (fold killAlloc ps e) = e_kv e \<and> e_descCache (fold killAlloc ps e) = e_descCache e"
  by (induction ps arbitrary: e) (simp_all add: killAlloc_def)

lemma invalidate_fields [simp]:
  "e_kv (invalidateCounterPrefix p e) = e_kv e" "e_descCache (invalidateCounterPrefix p e) = e_descCache e"
  "e_kv (invalidateCounter k e) = e_kv e" "e_descCache (invalidateCounter k e) = e_descCache e"
  by (auto simp: fold_kill invalidateCounterPrefix_def invalidateCounter_def Let_def killAlloc_def split: option.splits)

lemma onTx_pure [simp]: "onTx (act_return x) = act_return x" "onTx (act_fail er) = act_fail er" "onTx (act_lift r) = act_lift r"
  by (simp_all add: fun_eq_iff onTx_def act_return_def act_fail_def act_lift_def)

lemma act_bind_pure [simp]: "act_bind (act_return x) f = f x" "act_bind (act_fail er) f = act_fail er"
  by (simp_all add: fun_eq_iff act_return_def act_fail_def act_bind_def)

lemma onTx_bind: "onTx (act_bind f g) = act_bind (onTx f) (\<lambda>x. onTx (g x))"
  by (auto simp: fun_eq_iff onTx_def act_bind_def split: prod.splits sum.splits)

context engine_env
begin

lemma spec_read:
  assumes "\<And>t. wf t \<Longrightarrow> content t = m \<Longrightarrow> a t = a' t" "spec lmt m (onTx a' :: (('db, 'z) engine_scheme \<times> 'tx, 'a) act) Q"
  shows "spec lmt m (onTx a :: (('db, 'z) engine_scheme \<times> 'tx, 'a) act) Q"
  by (rule spec_cong [OF _ assms(2)]) (simp add: ddlState_def onTx_def assms(1))

lemma spec_writeDesc:
  assumes c: "codecOk (p_desc E) good" "good (d\<lparr>d_FormatVersion := descFormatVersion\<rparr>)"
    and Q: "\<And>m'. described (p_desc E) name d m m' \<Longrightarrow> Q (Inr ()) m'"
  shows "spec lmt m (onTx (writeDescIn (p_desc E) (p_kv E) name d)) Q"
proof -
  obtain b where b: "marshalDesc (p_desc E) d = Inr b" "parseDesc (p_desc E) b = Inr (published d)" using parse_written [OF c] by blast
  then have "Q (Inr ()) (m(descKey name \<mapsto> b))" by (intro Q) (auto simp: described_def)
  moreover have "writeDescIn (p_desc E) (p_kv E) name d = kv_Set (p_kv E) (descKey name) b" by (simp add: fun_eq_iff writeDescIn_def b)
  ultimately show ?thesis by (simp add: spec_set)
qed

lemma spec_alter:
  fixes f :: "tableDesc \<Rightarrow> (('db, 'z) engine_scheme \<times> 'tx, tableDesc option \<times> 'a) act"
  assumes d0: "tableAt (p_desc E) m table = Inr (Some d0)" and f: "spec lmt m (f d0) P"
    and none: "\<And>x m'. P (Inr (None, x)) m' \<Longrightarrow> Q (Inr x) m'"
    and some: "\<And>d x m'. P (Inr (Some d, x)) m' \<Longrightarrow> codecOk (p_desc E) good \<and> good (d\<lparr>d_FormatVersion := descFormatVersion\<rparr>)"
      "\<And>d x m' m''. P (Inr (Some d, x)) m' \<Longrightarrow> described (p_desc E) table d m' m'' \<Longrightarrow> Q (Inr x) m''"
    and err: "\<And>er m'. P (Inl er) m' \<Longrightarrow> Q (Inl er) m'"
  shows "spec lmt m (alterIn E table f) Q"
  unfolding alterIn_def
proof (rule spec_bind [OF spec_desc [OF d0, where Q = "\<lambda>r m'. r = Inr d0 \<and> m' = m"]], goal_cases)
  case (2 x m')
  then have x: "x = d0" "m' = m" by simp_all
  show ?case unfolding x
  proof (rule spec_bind [OF f], goal_cases)
    case (1 y m1)
    obtain o1 z where y: "y = (o1, z)" by (cases y)
    show ?case
    proof (cases o1)
      case None
      show ?thesis unfolding y None prod.case option.case act_bind_pure by (rule spec_pure) (use none 1 y None in simp)
    next
      case (Some d)
      have p: "P (Inr (Some d, z)) m1" using 1 y Some by simp
      note c = some(1) [OF p, THEN conjunct1] some(1) [OF p, THEN conjunct2]
      show ?thesis unfolding y Some prod.case option.case
        by (rule spec_bind [OF spec_writeDesc [OF c, where Q = "\<lambda>r m'. r = Inr () \<and> described (p_desc E) table d m1 m'"]])
          (use some(2) [OF p] in \<open>auto intro: spec_pure\<close>)
    qed
  qed (rule err)
qed simp_all

lemma ddl_run:
  assumes "cacheOk (p_desc E) e" "dwf (e_kv e)" "spec (e_backfillLimit e) (dcontent (e_kv e)) fn Q" "updateDDL E fn e = (r, e')"
    "\<And>x m'. Q (Inr x) m' \<Longrightarrow> P x m'"
  shows "cacheOk (p_desc E) e' \<and> dwf (e_kv e') \<and> ddlDone P (dcontent (e_kv e)) r (dcontent (e_kv e'))"
  using updateDDL_spec [OF assms(3) _ assms(2,4)] assms(1,5) by (auto simp: ddlDone_def split: sum.splits)

end

subsection \<open>Creating and dropping tables\<close>

lemma resolvePK_ok:
  "resolvePK d ps ords = Inr qs \<Longrightarrow> distinct ords \<Longrightarrow> list_all (\<lambda>i. i < length (d_Columns d)) ords \<Longrightarrow>
   distinct qs \<and> list_all (\<lambda>i. i < length (d_Columns d)) qs \<and> length qs = length ords + length ps"
proof (induction d ps ords rule: resolvePK.induct)
  case (2 d p ps ords)
  then show ?case by (auto simp: ColIndex_def firstPos_Some split: option.splits if_splits)
qed simp

lemma checkColumns_ok: "checkColumns seen cs = Inr () \<Longrightarrow> c \<in> set cs \<Longrightarrow> colOk c"
  by (induction seen cs rule: checkColumns.induct)
    (auto simp: res_bind_eq_Inr validMaxLen_def colOk_def split: if_splits)

lemma numberColumns_nth: "i < length cols \<Longrightarrow> numberColumns cols ! i = (cols ! i)\<lparr>c_ID := word_of_nat (i + 1)\<rparr>"
  by (simp add: numberColumns_def nth_enumerate_eq)

lemma length_numberColumns [simp]: "length (numberColumns cols) = length cols"
  by (simp add: numberColumns_def)

lemma newTableDesc_ok:
  assumes n: "newTableDesc name cols checks pk = Inr d" and l: "length cols < 2 ^ 32 - 1" and i: "userTable i"
  shows "descOk (published (d\<lparr>d_ID := i\<rparr>))" "d_Name d = name" "d_Indexes d = []" "d_Columns d = numberColumns cols"
proof -
  let ?d = "\<lparr>d_FormatVersion = 0, d_ID = 0, d_Name = name, d_Columns = numberColumns cols, d_PKCols = [], d_Indexes = [],
      d_Checks = checks, d_ForeignKeys = [], d_NextColID = word_of_nat (length cols + 1), d_ordByID = None\<rparr>"
  obtain ords where c: "pk \<noteq> []" "checkColumns [] cols = Inr ()" "resolvePK ?d pk [] = Inr ords" "d = ?d\<lparr>d_PKCols := ords\<rparr>"
    using n by (auto simp: newTableDesc_def Let_def res_bind_eq_Inr split: if_splits)
  show "d_Name d = name" "d_Indexes d = []" "d_Columns d = numberColumns cols" by (simp_all add: c(4))
  note pk = resolvePK_ok [OF c(3)]
  have un: "unat (word_of_nat (j + 1) :: uint32) = j + 1" if "j \<le> length cols" for j
    using that l by (simp add: unsigned_of_nat take_bit_nat_eq_self del: of_nat_Suc of_nat_add)
  have id: "unat (c_ID (numberColumns cols ! j)) = j + 1" if "j < length cols" for j using un [of j] that numberColumns_nth [OF that] by simp
  have "distinct (map c_ID (numberColumns cols))" unfolding distinct_conv_nth using id by (auto simp: word_unat_eq_iff)
  moreover have "list_all (\<lambda>c. c_ID c < word_of_nat (length cols + 1)) (numberColumns cols)"
    unfolding list_all_length word_less_nat_alt using id un [of "length cols"] by simp
  moreover have "list_all colOk (numberColumns cols)"
    unfolding list_all_length using checkColumns_ok [OF c(2)] numberColumns_nth by (simp add: colOk_def)
  ultimately show "descOk (published (d\<lparr>d_ID := i\<rparr>))"
    using pk c(1) i ordOk_published by (auto simp: descOk_def c(4))
qed

text \<open>A relation has the name: a table, a sequence or a view.\<close>

definition nameTaken :: "(string \<Rightarrow> tableDesc option) \<Rightarrow> (key \<Rightarrow> bytes option) \<Rightarrow> string \<Rightarrow> bool" where
  "nameTaken cat m name \<longleftrightarrow> cat name \<noteq> None \<or> m (sqlSeqKey name) \<noteq> None \<or> m (viewKey name) \<noteq> None"

context engine_env
begin

lemma spec_createTable:
  assumes rep: "schemaRep (p_desc E) cat m R" and c: "codecOk (p_desc E) good"
    and n: "newTableDesc name cols checks pk = Inr d" "length cols < 2 ^ 32 - 1"
    and g: "\<And>i. counterVal m seqKey firstUserTableID = Inr i \<Longrightarrow> good (d\<lparr>d_ID := i, d_FormatVersion := descFormatVersion\<rparr>)"
  shows "spec lmt m (onTx (createTableIn E name d)) (\<lambda>r m'. case r of Inl _ \<Rightarrow> nameTaken cat m name \<or> counterVal m seqKey firstUserTableID = Inr maxUint64
    | Inr x \<Rightarrow> cat name = None \<and> x = d\<lparr>d_ID := d_ID x\<rparr> \<and> schemaRep (p_desc E) (cat(name \<mapsto> published x)) m' (R(name := {})) \<and>
        (\<forall>k. k \<noteq> seqKey \<and> k \<noteq> descKey name \<longrightarrow> m' k = m k))" (is "spec _ _ _ ?Q")
proof -
  let ?taken = "m (descKey name) \<noteq> None \<or> m (sqlSeqKey name) \<noteq> None \<or> m (viewKey name) \<noteq> None"
  obtain i where i: "counterVal m seqKey firstUserTableID = Inr i" "userTable i" "\<And>n d. cat n = Some d \<Longrightarrow> d_ID d < i"
    "\<And>j k. i \<le> j \<Longrightarrow> tableKey j k \<Longrightarrow> m k = None" by (rule schemaRep_counter [OF rep]) blast
  let ?d = "d\<lparr>d_ID := i\<rparr>"
  have made: "?Q (Inr ?d) m'" if free: "\<not> ?taken" and mx: "i \<noteq> maxUint64" and m': "described (p_desc E) name ?d (m(seqKey \<mapsto> be64 (i + 1))) m'" for m'
  proof -
    have up: "i < i + 1" unfolding word_less_nat_alt using unat_plus1 [OF mx] by simp
    have fr: "m' k = m k" if "k \<noteq> seqKey" "k \<noteq> descKey name" for k using describedD(2) [OF m' that(2)] that(1) by simp
    have no: "cat name = None" using free schemaRep_absent [OF rep, of name] by simp
    have "schemaRep (p_desc E) (cat(name \<mapsto> published ?d)) m' (R(name := {}))"
    proof (rule schemaRep_add [OF rep no describedD(1) [OF m']])
      show "\<exists>c'. counterVal m' seqKey firstUserTableID = Inr c' \<and> c \<le> c' \<and> d_ID (published ?d) < c'"
        if "counterVal m seqKey firstUserTableID = Inr c" for c
        using that i(1) up describedD(2) [OF m', of seqKey] by (auto simp: counterVal_def)
      show "m (identitySeqKey (d_ID (published ?d)) j) = None" for j
        using i(4) [of i "identitySeqKey i j"] by (simp add: tableKey_def)
      show "stores (published ?d) {} m" using i(4) [of i] by (simp add: stores_empty tableKey_def)
      show "d_ID e \<noteq> d_ID (published ?d)" if "cat n = Some e" for n e using i(3) [OF that] by auto
    qed (use newTableDesc_ok [OF n i(2)] free fr in auto)
    then show ?thesis using no fr by simp
  qed
  show ?thesis
  proof (rule spec_read)
    let ?a = "if ?taken then act_fail (if m (descKey name) \<noteq> None then Msg ''table already exists'' else relationErr name)
      else act_bind (nextFromCounter (p_kv E) seqKey firstUserTableID) (\<lambda>next.
        act_bind (writeDescIn (p_desc E) (p_kv E) name (d\<lparr>d_ID := next\<rparr>)) (\<lambda>_. act_return (d\<lparr>d_ID := next\<rparr>)))"
    show "createTableIn E name d t = ?a t" if "wf t" "content t = m" for t
      using that by (simp add: createTableIn_def Contains Let_def act_fail_def)
    show "spec lmt m (onTx ?a) ?Q"
    proof (cases ?taken)
      case True
      show ?thesis unfolding if_P [OF True] onTx_pure by (rule spec_pure) (use True schemaRep_absent [OF rep, of name] in \<open>auto simp: nameTaken_def\<close>)
    next
      case False
      show ?thesis unfolding if_not_P [OF False] onTx_bind
      proof (rule spec_bind [OF spec_counter [OF i(1), where Q = "\<lambda>r m'. r = Inr i \<and> i \<noteq> maxUint64 \<and> m' = m(seqKey \<mapsto> be64 (i + 1)) \<or> i = maxUint64 \<and> (\<exists>er. r = Inl er)"]], goal_cases)
        case (2 x m1)
        then have x: "x = i" "i \<noteq> maxUint64" "m1 = m(seqKey \<mapsto> be64 (i + 1))" by simp_all
        show ?case unfolding x onTx_pure
          by (rule spec_bind [OF spec_writeDesc [OF c, where Q = "\<lambda>r m'. r = Inr () \<and> described (p_desc E) name ?d (m(seqKey \<mapsto> be64 (i + 1))) m'"]])
            (use g [OF i(1)] made [OF False x(2)] in \<open>auto intro!: spec_pure\<close>)
      qed (use i(1) in auto)
    qed
  qed
qed

lemma alter_run:
  fixes f :: "tableDesc \<Rightarrow> (('db, 'z) engine_scheme \<times> 'tx, tableDesc option \<times> 'a) act"
  assumes e: "cacheOk (p_desc E) e" "dwf (e_kv e)" and rep: "schemaRep (p_desc E) cat (dcontent (e_kv e)) R" and d: "cat table = Some d"
    and c: "codecOk (p_desc E) good"
    and f: "spec (e_backfillLimit e) (dcontent (e_kv e)) (f d) (\<lambda>r m1. case r of Inl _ \<Rightarrow> True
        | Inr (None, x) \<Rightarrow> P x m1
        | Inr (Some d1, x) \<Rightarrow> good (d1\<lparr>d_FormatVersion := descFormatVersion\<rparr>) \<and> (\<forall>m'. described (p_desc E) table d1 m1 m' \<longrightarrow> P x m'))"
    and r: "alterDesc E table f e = (r, e')"
  shows "cacheOk (p_desc E) e' \<and> dwf (e_kv e') \<and> ddlDone P (dcontent (e_kv e)) r (dcontent (e_kv e'))"
proof (rule ddl_run [OF e])
  show "spec (e_backfillLimit e) (dcontent (e_kv e)) (alterIn E table f) (\<lambda>r m'. case r of Inl _ \<Rightarrow> True | Inr x \<Rightarrow> P x m')"
    by (rule spec_alter [where f = f and ?d0.0 = d, OF _ f, where good = good]) (use schemaRepD(1) [OF rep, of table] d c in auto)
  show "updateDDL E (alterIn E table f) e = (r, e')" using r by (simp add: alterDesc_def)
qed auto

lemma CreateTable_run:
  assumes e: "cacheOk (p_desc E) e" "dwf (e_kv e)" and rep: "schemaRep (p_desc E) cat (dcontent (e_kv e)) R" and c: "codecOk (p_desc E) good"
    and n: "newTableDesc name cols checks pk = Inr d" "length cols < 2 ^ 32 - 1"
    and g: "\<forall>i. counterVal (dcontent (e_kv e)) seqKey firstUserTableID = Inr i \<longrightarrow> good (d\<lparr>d_ID := i, d_FormatVersion := descFormatVersion\<rparr>)"
    and r: "CreateTableWithChecks E name cols checks pk e = (r, e')"
  shows "cacheOk (p_desc E) e' \<and> dwf (e_kv e') \<and>
    ddlDone (\<lambda>x m'. cat name = None \<and> x = d\<lparr>d_ID := d_ID x\<rparr> \<and> schemaRep (p_desc E) (cat(name \<mapsto> published x)) m' (R(name := {})) \<and>
      (\<forall>k. k \<noteq> seqKey \<and> k \<noteq> descKey name \<longrightarrow> m' k = dcontent (e_kv e) k)) (dcontent (e_kv e)) r (dcontent (e_kv e'))"
proof (rule ddl_run [OF e])
  show "spec (e_backfillLimit e) (dcontent (e_kv e)) (onTx (createTableIn E name d)) (\<lambda>r m'. case r of Inl _ \<Rightarrow> nameTaken cat (dcontent (e_kv e)) name \<or> counterVal (dcontent (e_kv e)) seqKey firstUserTableID = Inr maxUint64
    | Inr x \<Rightarrow> cat name = None \<and> x = d\<lparr>d_ID := d_ID x\<rparr> \<and> schemaRep (p_desc E) (cat(name \<mapsto> published x)) m' (R(name := {})) \<and>
        (\<forall>k. k \<noteq> seqKey \<and> k \<noteq> descKey name \<longrightarrow> m' k = dcontent (e_kv e) k))"
    by (rule spec_createTable [OF rep c n]) (use g in blast)
  show "updateDDL E (onTx (createTableIn E name d)) e = (r, e')" using r n(1) by (simp add: CreateTableWithChecks_def)
qed auto

lemma spec_dropTable:
  assumes rep: "schemaRep (p_desc E) cat m R" and d: "cat name = Some d"
  shows "spec lmt m (dropTableIn E name) (\<lambda>r m'. case r of Inl _ \<Rightarrow> True
    | Inr x \<Rightarrow> x = d_ID d \<and> inbound cat name True = {} \<and> m' = (\<lambda>k. if tableKey (d_ID d) k \<or> k = descKey name then None else m k))"
  unfolding dropTableIn_def
proof (rule spec_bind [OF spec_desc [OF schemaRepD(1) [OF rep], where Q = "\<lambda>r m'. r = Inr d \<and> m' = m"]], goal_cases)
  case (2 x m1)
  then have x: "x = d" "m1 = m" by simp_all
  show ?case unfolding x
  proof (rule spec_bind [OF spec_refs [OF schemaRepD(1) [OF rep], where Q = "\<lambda>r m'. m' = m \<and> (\<exists>refs. r = Inr refs \<and> set refs = inbound cat name True)"]], goal_cases)
    case (2 refs m2)
    then have refs: "set refs = inbound cat name True" "m2 = m" by auto
    show ?case
    proof (cases "refs = []")
      case True
      let ?m1 = "\<lambda>k. if prefix (tableSpace (d_ID d)) k then None else m k"
      let ?m2 = "\<lambda>k. if prefix (identitySeqTablePrefix (d_ID d)) k then None else ?m1 k"
      show ?thesis unfolding refs(2) True if_not_P [OF not_not [THEN iffD2, OF refl]] deleteSpace_def
        by (rule spec_bind [OF spec_deleteSpace [OF regionPrefixes(2), where Q = "\<lambda>r m'. r = Inr () \<and> m' = ?m1"]], simp,
            simp only: simp_thms sum.inject,
            rule spec_bind [OF spec_deleteSpace [OF regionPrefixes(5), where Q = "\<lambda>r m'. r = Inr () \<and> m' = ?m2"]], simp,
            simp only: simp_thms sum.inject,
            rule spec_bind [OF spec_delete [where Q = "\<lambda>r m'. (\<exists>b. r = Inr b) \<and> m' = ?m2(descKey name := None)"]], simp,
            rule spec_pure)
          (use refs True in \<open>auto simp: tableKey_def fun_eq_iff\<close>)
    next
      case False
      show ?thesis unfolding if_P [OF False] by (rule spec_pure) simp
    qed
  qed auto
qed (use d in auto)

lemma DropTable_run:
  assumes e: "cacheOk (p_desc E) e" "dwf (e_kv e)" and rep: "schemaRep (p_desc E) cat (dcontent (e_kv e)) R" and d: "cat name = Some d"
    and r: "DropTable E name e = (r, e')"
  shows "cacheOk (p_desc E) e' \<and> dwf (e_kv e') \<and>
    ddlDone (\<lambda>_ m'. inbound cat name True = {} \<and> schemaRep (p_desc E) (cat(name := None)) m' (R(name := {})) \<and>
      (\<forall>k. m' k = (if tableKey (d_ID d) k \<or> k = descKey name then None else dcontent (e_kv e) k)))
      (dcontent (e_kv e)) r (dcontent (e_kv e'))"
proof -
  obtain q e1 where q: "updateDDL E (dropTableIn E name) e = (q, e1)" by fastforce
  have "cacheOk (p_desc E) e1 \<and> dwf (e_kv e1) \<and> ddlDone (\<lambda>_ m'. inbound cat name True = {} \<and>
      schemaRep (p_desc E) (cat(name := None)) m' (R(name := {})) \<and>
      (\<forall>k. m' k = (if tableKey (d_ID d) k \<or> k = descKey name then None else dcontent (e_kv e) k)))
      (dcontent (e_kv e)) q (dcontent (e_kv e1))"
    by (rule ddl_run [OF e spec_dropTable [OF rep d] q]) (auto intro!: schemaRep_remove [OF rep d])
  then show ?thesis using r q
    by (cases q) (auto simp: DropTable_def act_modify_def ddlDone_def cacheOk_def cacheEvict_def split: if_splits)
qed

end

subsection \<open>Progress\<close>

text \<open>
  What the key-value store promises about starting and committing: a transaction can always be begun,
  an optimistic commit fails only by losing its validation, and an exclusive transaction, whose head
  is frozen, cannot lose.
\<close>

locale kv_progress = engine_env +
  assumes Begin_ok: "dwf d \<Longrightarrow> \<exists>t d'. db_Begin (p_db E) True d = (Inr t, d')"
    and BeginExclusive_ok: "dwf d \<Longrightarrow> \<exists>t d'. db_BeginExclusive (p_db E) d = (Inr t, d')"
    and Commit_conflict: "dwf d \<Longrightarrow> wf t \<Longrightarrow> kv_Writable (p_kv E) t \<Longrightarrow> db_Commit (p_db E) t d = (Inl er, d') \<Longrightarrow> er = ErrTxConflict"
    and Commit_exclusive: "dwf d \<Longrightarrow> db_BeginExclusive (p_db E) d = (Inr t, d1) \<Longrightarrow> wf t' \<Longrightarrow> kv_Writable (p_kv E) t' \<Longrightarrow>
      base t' = base t \<Longrightarrow> \<exists>d'. db_Commit (p_db E) t' d1 = (Inr (), d')"
begin

lemma finish_state:
  assumes sp: "spec lmt m fn (\<lambda>r m'. \<exists>x. r = Inr x)" and s: "dst lmt m b d (e, t)"
  obtains x e1 t1 m1 where "fn (e, t) = (Inr x, (e1, t1))" "dst lmt m1 b d (e1, t1)"
    "finishTx E fn t e = (case db_Commit (p_db E) t1 d of (Inl er, d') \<Rightarrow> (Inl er, e1\<lparr>e_kv := d'\<rparr>) | (Inr _, d') \<Rightarrow> (Inr x, e1\<lparr>e_kv := d'\<rparr>))"
proof -
  obtain r s' m1 where f: "fn (e, t) = (r, s')" "dst lmt m1 b d s'" "\<exists>x. r = Inr x" using sp s unfolding ddlSpec_def by blast
  then obtain x e1 t1 where x: "r = Inr x" "s' = (e1, t1)" by (cases s') auto
  show thesis by (rule that [of x e1 t1 m1]) (use f x in \<open>auto simp: finishTx_def ddlState_def\<close>)
qed

lemma ddlTries_progress:
  assumes sp: "spec lmt m fn (\<lambda>r m'. \<exists>x. r = Inr x)" and e: "ddlOk lmt e" "dwf (e_kv e)" "dcontent (e_kv e) = m"
  shows "\<exists>x e'. ddlTries E n fn e = (Inr x, e')"
  using e
proof (induction n arbitrary: e)
  case 0
  obtain t d where b: "db_BeginExclusive (p_db E) (e_kv e) = (Inr t, d)" using BeginExclusive_ok [OF 0(2)] by blast
  note t = beginX_rw [OF 0(2) b]
  have "dst lmt m (base t) d (e\<lparr>e_kv := d\<rparr>, t)" using t 0 by (simp add: ddlState_def cacheOk_def)
  then obtain x e1 t1 m1 where f: "dst lmt m1 (base t) d (e1, t1)"
    "finishTx E fn t (e\<lparr>e_kv := d\<rparr>) = (case db_Commit (p_db E) t1 d of (Inl er, d') \<Rightarrow> (Inl er, e1\<lparr>e_kv := d'\<rparr>) | (Inr _, d') \<Rightarrow> (Inr x, e1\<lparr>e_kv := d'\<rparr>))"
    by (rule finish_state [OF sp])
  obtain d2 where "db_Commit (p_db E) t1 d = (Inr (), d2)" using Commit_exclusive [OF 0(2) b, of t1] f(1) by (auto simp: ddlState_def)
  then show ?case using b f(2) by (simp add: eUpdateExclusive_def act_bind_def withDb_def)
next
  case (Suc n)
  obtain t d where b: "db_Begin (p_db E) True (e_kv e) = (Inr t, d)" using Begin_ok [OF Suc.prems(2)] by blast
  note t = begin_rw [OF Suc.prems(2) b]
  have m: "dst lmt m (base t) d (e\<lparr>e_kv := d\<rparr>, kv_MarkExclusive (p_kv E) t)" using t Suc.prems base_Mark [of t] by (simp add: ddlState_def cacheOk_def)
  then obtain x e1 t1 m1 where f: "fn (e\<lparr>e_kv := d\<rparr>, kv_MarkExclusive (p_kv E) t) = (Inr x, (e1, t1))" "dst lmt m1 (base t) d (e1, t1)"
    by (rule finish_state [OF sp]) blast
  have up: "eUpdate E (markExclusive E fn) e = (case db_Commit (p_db E) t1 d of (Inl er, d') \<Rightarrow> (Inl er, e1\<lparr>e_kv := d'\<rparr>) | (Inr _, d') \<Rightarrow> (Inr x, e1\<lparr>e_kv := d'\<rparr>))"
    using b f by (simp add: eUpdate_def act_bind_def withDb_def finishTx_def markExclusive_def ddlState_def)
  have w: "wf t1" "kv_Writable (p_kv E) t1" "ddlOk lmt e1" "dwf d" "dcontent d = m" using f(2) t Suc.prems by (auto simp: ddlState_def)
  show ?case
  proof (cases "db_Commit (p_db E) t1 d")
    case (Pair q d2)
    show ?thesis
    proof (cases q)
      case (Inl er)
      have er: "er = ErrTxConflict" using Commit_conflict [OF w(4,1,2)] Pair Inl by blast
      then have "dwf d2" "dcontent d2 = m" using Commit_err [OF w(4,1), of er d2] Pair Inl w(5) by auto
      then show ?thesis using Suc.IH [of "e1\<lparr>e_kv := d2\<rparr>"] up Pair Inl er w(3) by (simp add: cacheOk_def)
    next
      case (Inr u)
      then show ?thesis using up Pair by simp
    qed
  qed
qed

lemma updateDDL_progress:
  assumes "spec (e_backfillLimit e) (dcontent (e_kv e)) fn (\<lambda>r m'. \<exists>x. r = Inr x)" "cacheOk (p_desc E) e" "dwf (e_kv e)" "e_occ e" "e_testCommitErr e = None"
  shows "\<exists>x e'. updateDDL E fn e = (Inr x, e')"
  using ddlTries_progress [OF assms(1), of e ddlOptimisticTries] assms(2-5) by (simp add: updateDDL_def checkReentrantWrite_def)

end

interpretation memP: kv_progress "memDeps C S V" mem_wf mem_content al_sorted map_of mem_base "\<lambda>t. set (mt_wrote t)" for C S V
proof unfold_locales
  fix d :: alist and t t' :: memTx and er and d1 d' :: alist
  show "\<exists>t d'. db_Begin (p_db (memDeps C S V)) True d = (Inr t, d')" "\<exists>t d'. db_BeginExclusive (p_db (memDeps C S V)) d = (Inr t, d')"
    by (simp_all add: memDb_def)
  show "er = ErrTxConflict" if "kv_Writable (p_kv (memDeps C S V)) t" "db_Commit (p_db (memDeps C S V)) t d = (Inl er, d')"
    using that by (auto simp: memDb_def memKv_def split: if_splits)
  assume a: "al_sorted d" "db_BeginExclusive (p_db (memDeps C S V)) d = (Inr t, d1)" "mem_wf t'" "kv_Writable (p_kv (memDeps C S V)) t'" "mem_base t' = mem_base t"
  then have t: "t = mem_begin True d" "d1 = d" by (auto simp: memDb_def)
  have "mt_base t' = d" using a t by (intro map_of_sorted_eq) (auto simp: mem_wf_def mem_base_def mem_begin_def)
  then have "\<not> mem_conflict t' d" by (simp add: mem_conflict_def list_ex_iff)
  then show "\<exists>d'. db_Commit (p_db (memDeps C S V)) t' d1 = (Inr (), d')" using a(4) t by (simp add: memDb_def memKv_def)
qed

subsection \<open>Correctness\<close>

text \<open>C20. Creating a table is atomic. From a store that represents a schema, creating a table with acceptable columns
  and key either leaves the store as it was or adds exactly one empty table: the name was taken by no
  table, sequence or view, the ID is one no table has had, the descriptor a reader parses is the
  one built from the arguments, and no other key changes. A failed commit that took effect leaves the
  same complete table.\<close>

theorem create_table:
  assumes "engine_env E ok content dwf dcontent base written" "cacheOk (p_desc E) e" "dwf (e_kv e)"
    "schemaRep (p_desc E) cat (dcontent (e_kv e)) R" "codecOk (p_desc E) good"
    "newTableDesc name cols checks pk = Inr d" "length cols < 2 ^ 32 - 1"
    "\<forall>i. counterVal (dcontent (e_kv e)) seqKey firstUserTableID = Inr i \<longrightarrow> good (d\<lparr>d_ID := i, d_FormatVersion := descFormatVersion\<rparr>)"
    "CreateTableWithChecks E name cols checks pk e = (r, e')"
  shows "cacheOk (p_desc E) e' \<and> dwf (e_kv e') \<and>
    ddlDone (\<lambda>x m'. cat name = None \<and> x = d\<lparr>d_ID := d_ID x\<rparr> \<and> schemaRep (p_desc E) (cat(name \<mapsto> published x)) m' (R(name := {})) \<and>
      (\<forall>k. k \<noteq> seqKey \<and> k \<noteq> descKey name \<longrightarrow> m' k = dcontent (e_kv e) k)) (dcontent (e_kv e)) r (dcontent (e_kv e'))"
  using engine_env.CreateTable_run [OF assms] .

definition noteCols :: "column list" where
  "noteCols = [\<lparr>c_Name = ''k'', c_Type = TInt, c_ID = 0, c_NotNull = True, c_Identity = False, c_Default = [], c_MaxLen = 0\<rparr>,
     \<lparr>c_Name = ''txt'', c_Type = TString, c_ID = 0, c_NotNull = False, c_Identity = False, c_Default = [], c_MaxLen = 0\<rparr>]"

definition noteDesc :: tableDesc where
  "noteDesc = (case newTableDesc ''notes'' noteCols [] [''k''] of Inr d \<Rightarrow> d)"

definition notesTable :: tableDesc where
  "notesTable = noteDesc\<lparr>d_ID := 101, d_FormatVersion := descFormatVersion\<rparr>"

lemma noteDesc_new: "newTableDesc ''notes'' noteCols [] [''k''] = Inr noteDesc"
  by code_simp

theorem create_table_witness:
  "case CreateTableWithChecks (peopleDeps [notesTable]) ''notes'' noteCols [] [''k''] peopleEngine of (r, e') \<Rightarrow>
     al_sorted (e_kv e') \<and>
     ddlDone (\<lambda>x m'. schemaRep (listCodec [sampleDesc, notesTable]) (peopleCat(''notes'' \<mapsto> published x)) m' (peopleRows(''notes'' := {})))
       (map_of peopleKv) r (map_of (e_kv e'))"
proof -
  obtain r e' where r: "CreateTableWithChecks (peopleDeps [notesTable]) ''notes'' noteCols [] [''k''] peopleEngine = (r, e')" by fastforce
  have g: "\<forall>i. counterVal (map_of peopleKv) seqKey firstUserTableID = Inr i \<longrightarrow>
      noteDesc\<lparr>d_ID := i, d_FormatVersion := descFormatVersion\<rparr> \<in> set [sampleDesc, notesTable]"
    by (simp add: peopleKv_map counterVal_def notesTable_def)
  have l: "length noteCols < 2 ^ 32 - 1" by (simp add: noteCols_def)
  show ?thesis
    using create_table [OF memE.engine_env_axioms _ peopleEngine_ok(3) _ _ noteDesc_new l _ r, of peopleCat peopleRows "\<lambda>d. d \<in> set [sampleDesc, notesTable]"]
      peopleEngine_ok(1,2) people_schema [of "[notesTable]"] listCodec_ok [of "[sampleDesc, notesTable]"] g r
    by (auto simp: ddlDone_def split: sum.splits)
qed

text \<open>C22. A schema change is never starved. In concurrent-writes mode, creating a table whose name no relation has and
  whose ID the counter can still give out returns with success, however many of the optimistic
  attempts lose their commit: after them the change runs exclusively, and an exclusive transaction
  cannot lose.\<close>

theorem create_table_commits:
  assumes "kv_progress E ok content dwf dcontent base written" "cacheOk (p_desc E) e" "dwf (e_kv e)" "e_occ e" "e_testCommitErr e = None"
    "schemaRep (p_desc E) cat (dcontent (e_kv e)) R" "codecOk (p_desc E) good"
    "newTableDesc name cols checks pk = Inr d" "length cols < 2 ^ 32 - 1"
    "\<forall>i. counterVal (dcontent (e_kv e)) seqKey firstUserTableID = Inr i \<longrightarrow>
       i \<noteq> maxUint64 \<and> good (d\<lparr>d_ID := i, d_FormatVersion := descFormatVersion\<rparr>)"
    "\<not> nameTaken cat (dcontent (e_kv e)) name"
  shows "\<exists>x e'. CreateTableWithChecks E name cols checks pk e = (Inr x, e')"
proof -
  have env: "engine_env E ok content dwf dcontent base written" using assms(1) by (simp add: kv_progress_def)
  have "ddlSpec E ok content base (e_backfillLimit e) (dcontent (e_kv e)) (onTx (createTableIn E name d)) (\<lambda>r m'. \<exists>x. r = Inr x)"
    by (rule engine_env.spec_conseq [OF env engine_env.spec_createTable [OF env assms(6-9)]]) (use assms(10,11) in \<open>auto split: sum.splits\<close>)
  from kv_progress.updateDDL_progress [OF assms(1) this assms(2-5)] show ?thesis
    using assms(8) by (simp add: CreateTableWithChecks_def)
qed

theorem create_table_commits_witness:
  "\<exists>x e'. CreateTableWithChecks (peopleDeps [notesTable]) ''notes'' noteCols [] [''k''] (openEngine peopleKv True) = (Inr x, e')"
proof -
  have g: "\<forall>i. counterVal (map_of peopleKv) seqKey firstUserTableID = Inr i \<longrightarrow>
      i \<noteq> maxUint64 \<and> noteDesc\<lparr>d_ID := i, d_FormatVersion := descFormatVersion\<rparr> \<in> set [sampleDesc, notesTable]"
    by (simp add: peopleKv_map counterVal_def notesTable_def maxUint64_def)
  have l: "length noteCols < 2 ^ 32 - 1" by (simp add: noteCols_def)
  have n: "\<not> nameTaken peopleCat (map_of peopleKv) ''notes''" by (simp add: nameTaken_def people_free)
  show ?thesis
    using create_table_commits [OF memP.kv_progress_axioms _ _ _ _ _ _ noteDesc_new l, of "listCodec [sampleDesc, notesTable]" tupleSeqCodec noViewCodec
        "openEngine peopleKv True" peopleCat peopleRows "\<lambda>d. d \<in> set [sampleDesc, notesTable]"]
      peopleKv_map(2) people_schema [of "[notesTable]"] listCodec_ok [of "[sampleDesc, notesTable]"] g n
    by (simp add: openEngine_def cacheOk_def)
qed

text \<open>C21. Dropping a table is atomic and leaves nothing behind. It succeeds only when no foreign key of another table
  references the table. Afterwards the name is free, no key of the table's space and none of its
  identity counters is left, every other key is as it was, and the other tables have the rows they had.
  A refused or failed drop leaves the store as it was, unless only the commit failed after the whole drop.\<close>

theorem drop_table:
  assumes "engine_env E ok content dwf dcontent base written" "cacheOk (p_desc E) e" "dwf (e_kv e)"
    "schemaRep (p_desc E) cat (dcontent (e_kv e)) R" "cat name = Some d" "DropTable E name e = (r, e')"
  shows "cacheOk (p_desc E) e' \<and> dwf (e_kv e') \<and>
    ddlDone (\<lambda>_ m'. inbound cat name True = {} \<and> schemaRep (p_desc E) (cat(name := None)) m' (R(name := {})) \<and>
      (\<forall>k. m' k = (if tableKey (d_ID d) k \<or> k = descKey name then None else dcontent (e_kv e) k)))
      (dcontent (e_kv e)) r (dcontent (e_kv e'))"
  using engine_env.DropTable_run [OF assms] .

theorem drop_table_witness:
  "case DropTable (peopleDeps []) ''users'' peopleEngine of (r, e') \<Rightarrow>
     ddlDone (\<lambda>_ m'. schemaRep (listCodec [sampleDesc]) (peopleCat(''users'' := None)) m' (peopleRows(''users'' := {})))
       (map_of peopleKv) r (map_of (e_kv e'))"
proof -
  obtain r e' where r: "DropTable (peopleDeps []) ''users'' peopleEngine = (r, e')" by fastforce
  show ?thesis
    using drop_table [OF memE.engine_env_axioms _ peopleEngine_ok(3) _ _ r, of peopleCat peopleRows usersDesc]
      peopleEngine_ok(1,2) people_schema [of "[]"] r
    by (auto simp: ddlDone_def split: sum.splits)
qed

end
