(* ===== verification/ColumnSim.thy ===== *)
theory ColumnSim
  imports DdlSim
begin

text \<open>
  Adding and dropping columns and NOT NULL constraints. An added column extends every row by NULL, by
  its default or by the row's number; a dropped column shortens every row although no row is
  rewritten; a column becomes NOT NULL only if no row has a NULL in it.
\<close>

subsection \<open>Rewriting every row\<close>

lemma countLoop_eq:
  "0 \<le> sint n \<Longrightarrow> sint n < sint limit \<Longrightarrow> sint (countLoop limit n xs) = min (sint limit) (sint n + int (length xs))"
proof (induction xs arbitrary: n)
  case (Cons x xs)
  have "sint limit < 2 ^ 63" using sint_lt [of limit] by simp
  then have s: "sint (n + 1) = sint n + 1" using Cons.prems by (simp add: sint_word_ariths signed_take_bit_int_eq_self)
  show ?case
  proof (cases "limit <=s n + 1")
    case True
    then show ?thesis using Cons.prems s by (simp add: word_sle_eq Let_def)
  next
    case False
    then show ?thesis using Cons s by (simp add: word_sle_eq Let_def)
  qed
qed simp

lemma countRows_eq:
  assumes "0 < sint limit"
  shows "sint (countRowsUpTo K i limit t) = min (sint limit) (int (length (tableRows K i t)))"
proof -
  have "\<not> limit <=s 0" using assms by (simp add: word_sle_eq)
  then show ?thesis using countLoop_eq [of 0 limit "tableRows K i t"] assms by (simp add: countRowsUpTo_def)
qed

lemma sorted_position:
  fixes ks :: "'a::linorder list"
  assumes "sorted_wrt (<) ks" "i < length ks"
  shows "card {k \<in> set ks. k < ks ! i} = i"
proof -
  have lt: "ks ! j < ks ! j' \<longleftrightarrow> j < j'" if "j < length ks" "j' < length ks" for j j'
    using assms(1) that by (metis linorder_neqE_nat not_less_iff_gr_or_eq sorted_wrt_nth_less)
  have "{k \<in> set ks. k < ks ! i} = (!) ks ` {..<i}" using assms(2) lt by (auto simp: in_set_conv_nth image_iff) (metis order.strict_trans)
  moreover have "inj_on ((!) ks) {..<i}" using lt assms(2) by (intro inj_onI) (metis lessThan_iff linorder_neqE_nat order.strict_trans less_irrefl)
  ultimately show ?thesis by (simp add: card_image)
qed

text \<open>The pair that a backfill appends.\<close>

abbreviation pairBytes :: "uint32 \<Rightarrow> val \<Rightarrow> bytes" where
  "pairBytes i v \<equiv> encTup [VInt (ucast i), v]"

lemma appendPair_eq:
  "appendPair K i v k raw = (if isNaN v then act_fail nanErr else kv_Set K k (raw @ pairBytes i (canonVal v)))"
  by (rule ext) (simp add: appendPair_def Append_concat normalize_any act_fail_def)

lemma act_iter_cong: "(\<And>x. x \<in> set xs \<Longrightarrow> f x = g x) \<Longrightarrow> act_iter f xs = act_iter g xs"
  by (rule ext, induction xs) (auto simp: act_bind_def split: prod.splits sum.splits)

lemma act_iter_map: "act_iter f (map h xs) = act_iter (\<lambda>x. f (h x)) xs"
  by (rule ext) (induction xs rule: list.induct; auto simp: act_bind_def split: prod.splits sum.splits)

text \<open>Every row of a table with some bytes appended to its value.\<close>

definition filled :: "uint64 \<Rightarrow> (key \<Rightarrow> bytes) \<Rightarrow> (key \<Rightarrow> bytes option) \<Rightarrow> key \<Rightarrow> bytes option" where
  "filled i p m k = (if prefix (tablePrefix i) k then map_option (\<lambda>raw. raw @ p k) (m k) else m k)"

lemma filled_region:
  assumes "sorted_wrt (<) (map fst xs)" "set xs = {(k, v). prefix (tablePrefix i) k \<and> m k = Some v}"
  shows "m ++ map_of (rev (map (\<lambda>(k, raw). (k, raw @ p k)) xs)) = filled i p m"
proof -
  have fe: "map fst (map (\<lambda>(k, raw). (k, raw @ p k)) xs) = map fst xs" by (simp add: case_prod_beta o_def)
  have d: "distinct (map fst xs)" using assms(1) strict_sorted_iff by auto
  then have "map_of (rev (map (\<lambda>(k, raw). (k, raw @ p k)) xs)) = map_of (map (\<lambda>(k, raw). (k, raw @ p k)) xs)"
    by (subst map_of_inject_set) (simp_all only: fe rev_map [symmetric] set_rev distinct_rev)
  moreover have "map_of (map (\<lambda>(k, raw). (k, raw @ p k)) xs) k = (if prefix (tablePrefix i) k then map_option (\<lambda>raw. raw @ p k) (m k) else None)" for k
  proof (cases "prefix (tablePrefix i) k \<and> m k \<noteq> None")
    case True
    then obtain v where "(k, v) \<in> set xs" "m k = Some v" using assms(2) by auto
    moreover from this(1) have "(k, v @ p k) \<in> set (map (\<lambda>(k, raw). (k, raw @ p k)) xs)" by force
    then have "map_of (map (\<lambda>(k, raw). (k, raw @ p k)) xs) k = Some (v @ p k)" using d unfolding fe [symmetric] by (intro map_of_is_SomeI)
    ultimately show ?thesis using True by simp
  next
    case False
    then have "map_of (map (\<lambda>(k, raw). (k, raw @ p k)) xs) k = None" using assms(2) by (auto simp: map_of_eq_None_iff)
    then show ?thesis using False by auto
  qed
  ultimately show ?thesis by (auto simp: fun_eq_iff filled_def map_add_def split: option.splits)
qed

context engine_env
begin

lemma spec_putAll: "Q (Inr ()) (m ++ map_of (rev es)) \<Longrightarrow> spec lmt m (onTx (act_iter (\<lambda>(k, v). kv_Set (p_kv E) k v) es)) Q"
  by (rule spec_onTx) (use putList in metis, auto intro!: act_keeps_iter keeps_kv split: prod.splits)

lemma tableRows_region: "wf t \<Longrightarrow> content t = m \<Longrightarrow> tableRows (p_kv E) i t = regionOf m (tablePrefix i)"
  using region_iter [OF _ regionPrefixes(1)] by blast

lemma spec_region:
  assumes "sorted_wrt (<) (map fst (regionOf m p)) \<Longrightarrow> set (regionOf m p) = {(k, v). prefix p k \<and> m k = Some v} \<Longrightarrow> spec lmt m (fn :: (('db, 'z) engine_scheme \<times> 'tx, 'a) act) Q"
    "regionPrefix p"
  shows "spec lmt m fn Q"
  unfolding ddlSpec_def
proof (intro allI impI)
  fix b d and s :: "('db, 'z) engine_scheme \<times> 'tx"
  assume s: "dst lmt m b d s"
  then have "wf (snd s)" "content (snd s) = m" by (auto simp: ddlState_def)
  then have "spec lmt m fn Q" using region_props [OF _ assms(2), of "snd s"] assms(1) by auto
  then show "\<exists>r s' m'. fn s = (r, s') \<and> dst lmt m' b d s' \<and> Q r m'" using s unfolding ddlSpec_def by blast
qed

lemma spec_fill:
  assumes Q: "Q (Inr ()) (filled i p m)"
  shows "spec lmt m (onTx (act_iter (\<lambda>(k, raw). kv_Set (p_kv E) k (raw @ p k)) (regionOf m (tablePrefix i))) :: (('db, 'z) engine_scheme \<times> 'tx, unit) act) Q"
proof (rule spec_region [OF _ regionPrefixes(1)])
  assume r: "sorted_wrt (<) (map fst (regionOf m (tablePrefix i)))"
    "set (regionOf m (tablePrefix i)) = {(k, v). prefix (tablePrefix i) k \<and> m k = Some v}"
  have "act_iter (\<lambda>(k, raw). kv_Set (p_kv E) k (raw @ p k)) (regionOf m (tablePrefix i)) =
      act_iter (\<lambda>(k, v). kv_Set (p_kv E) k v) (map (\<lambda>(k, raw). (k, raw @ p k)) (regionOf m (tablePrefix i)))"
    unfolding act_iter_map by (rule act_iter_cong) auto
  then show "spec lmt m (onTx (act_iter (\<lambda>(k, raw). kv_Set (p_kv E) k (raw @ p k)) (regionOf m (tablePrefix i))) :: (('db, 'z) engine_scheme \<times> 'tx, unit) act) Q"
    using spec_putAll [of Q m "map (\<lambda>(k, raw). (k, raw @ p k)) (regionOf m (tablePrefix i))"] Q filled_region [OF r] by simp
qed

lemma spec_backfillColumn:
  assumes nan: "isNaN v \<Longrightarrow> regionOf m (tablePrefix (d_ID d)) \<noteq> [] \<Longrightarrow> Q (Inl nanErr) m"
    and Q: "\<not> isNaN v \<or> regionOf m (tablePrefix (d_ID d)) = [] \<Longrightarrow> Q (Inr ()) (filled (d_ID d) (\<lambda>_. pairBytes i (canonVal v)) m)"
  shows "spec lmt m (onTx (backfillColumn (p_kv E) d i v) :: (('db, 'z) engine_scheme \<times> 'tx, unit) act) Q"
proof (rule spec_read)
  let ?xs = "regionOf m (tablePrefix (d_ID d))"
  show "backfillColumn (p_kv E) d i v t = act_iter (\<lambda>(k, raw). appendPair (p_kv E) i v k raw) ?xs t" if "wf t" "content t = m" for t
    using tableRows_region [OF that] by (simp add: backfillColumn_def)
  show "spec lmt m (onTx (act_iter (\<lambda>(k, raw). appendPair (p_kv E) i v k raw) ?xs) :: (('db, 'z) engine_scheme \<times> 'tx, unit) act) Q"
  proof (cases "isNaN v \<and> ?xs \<noteq> []")
    case True
    then have "act_iter (\<lambda>(k, raw). appendPair (p_kv E) i v k raw) ?xs = act_fail nanErr"
      by (cases ?xs) (auto simp: fun_eq_iff appendPair_eq act_fail_def act_bind_def)
    then show ?thesis using True nan by (simp add: spec_pure(2) del: act_fail_def)
  next
    case False
    then have "act_iter (\<lambda>(k, raw). appendPair (p_kv E) i v k raw) ?xs = act_iter (\<lambda>(k, raw). kv_Set (p_kv E) k (raw @ pairBytes i (canonVal v))) ?xs"
      by (intro act_iter_cong) (auto simp: appendPair_eq)
    then show ?thesis using spec_fill [of Q "d_ID d" "\<lambda>_. pairBytes i (canonVal v)" m lmt] Q False by auto
  qed
qed

end

text \<open>A backfill of \<open>n\<close> rows is within the limit; a limit that is not positive is none.\<close>

definition withinLimit :: "int64 \<Rightarrow> nat \<Rightarrow> bool" where
  "withinLimit limit n \<longleftrightarrow> sint limit \<le> 0 \<or> sint limit = 2 ^ 63 - 1 \<or> int n \<le> sint limit"

lemma overLimit_eq: "overLimit E i s \<longleftrightarrow> \<not> withinLimit (e_backfillLimit (fst s)) (length (tableRows (p_kv E) i (snd s)))"
proof -
  let ?l = "e_backfillLimit (fst s)" and ?n = "int (length (tableRows (p_kv E) i (snd s)))"
  consider "sint ?l \<le> 0" | "0 < sint ?l" "sint ?l = 2 ^ 63 - 1" | "0 < sint ?l" "sint ?l < 2 ^ 63 - 1"
    using sint_lt [of ?l] by fastforce
  then show ?thesis
  proof cases
    case 2
    have "word_of_int (sint ?l) = ?l" by simp
    then have "?l = 0x7FFFFFFFFFFFFFFF" unfolding 2(2) by simp
    moreover have "(0x7FFFFFFFFFFFFFFF :: int64) + 1 <=s 0" by code_simp
    ultimately have "?l + 1 <=s 0" by (simp only:)
    then show ?thesis using 2 by (simp add: overLimit_def countRowsUpTo_def withinLimit_def word_sless_alt Let_def)
  next
    case 3
    then have s: "sint (?l + 1) = sint ?l + 1" by (simp add: sint_word_ariths signed_take_bit_int_eq_self)
    then have "sint (countRowsUpTo (p_kv E) i (?l + 1) (snd s)) = min (sint ?l + 1) ?n" using 3 countRows_eq [of "?l + 1"] by simp
    then show ?thesis using 3 by (auto simp: overLimit_def withinLimit_def word_sless_alt Let_def)
  qed (simp add: overLimit_def withinLimit_def word_sless_alt Let_def)
qed

lemma hasRows_eq: "hasRows K i t \<longleftrightarrow> tableRows K i t \<noteq> []"
  using countRows_eq [of 1 K i t] by (auto simp: hasRows_def word_sless_alt)

text \<open>The number of a row: how many come before it in key order, counted from one.\<close>

definition rowNumber :: "(key \<Rightarrow> bytes option) \<Rightarrow> uint64 \<Rightarrow> key \<Rightarrow> int64" where
  "rowNumber m i k = word_of_nat (card {k'. prefix (tablePrefix i) k' \<and> m k' \<noteq> None \<and> k' < k} + 1)"

context engine_env
begin

lemma spec_bump:
  assumes "counterVal m k 1 = Inr c"
    "\<And>m'. counterVal m' k 1 = Inr (max c n) \<Longrightarrow> (\<And>k'. k' \<noteq> k \<Longrightarrow> m' k' = m k') \<Longrightarrow> Q (Inr ()) m'"
  shows "spec lmt m (onTx (bumpCounterTo (p_kv E) k n)) Q"
proof (rule spec_onTx)
  fix t
  assume t: "wf t" "kv_Writable (p_kv E) t" "content t = m"
  then show "\<exists>r t'. bumpCounterTo (p_kv E) k n t = (r, t') \<and> wf t' \<and> kv_Writable (p_kv E) t' \<and> Q r (content t')"
    using bumpCounterTo_eq [OF t(1,2), of k c n] assms by auto
next
  show "act_keeps (txOn b) (bumpCounterTo (p_kv E) k n)" for b
    unfolding bumpCounterTo_def by (auto intro!: act_keeps_bind keeps_kv split: option.split)
qed

lemma spec_backfillIdentity:
  assumes c: "counterVal m (identitySeqKey (d_ID d) (c_ID col)) 1 = Inr 1"
    and err: "\<And>er m'. Q (Inl er) m'"
    and Q: "\<And>m'. withinLimit lmt (length (regionOf m (tablePrefix (d_ID d)))) \<Longrightarrow>
        counterVal m' (identitySeqKey (d_ID d) (c_ID col)) 1 = Inr (max 1 (word_of_nat (length (regionOf m (tablePrefix (d_ID d)))) + 1)) \<Longrightarrow>
        (\<And>k. k \<noteq> identitySeqKey (d_ID d) (c_ID col) \<Longrightarrow>
          m' k = filled (d_ID d) (\<lambda>k. pairBytes (c_ID col) (VInt (rowNumber m (d_ID d) k))) m k) \<Longrightarrow> Q (Inr ()) m'"
    and u: "\<not> prefix (tablePrefix (d_ID d)) (identitySeqKey (d_ID d) (c_ID col))"
  shows "spec lmt m (backfillIdentity E d col :: (('db, 'z) engine_scheme \<times> 'tx, unit) act) Q"
proof (rule spec_region [OF _ regionPrefixes(1) [of "d_ID d"]])
  let ?xs = "regionOf m (tablePrefix (d_ID d))" and ?ck = "identitySeqKey (d_ID d) (c_ID col)"
  let ?p = "\<lambda>k. pairBytes (c_ID col) (VInt (rowNumber m (d_ID d) k))"
  let ?fill = "act_iter (\<lambda>(k, raw). kv_Set (p_kv E) k (raw @ ?p k)) ?xs"
  assume r: "sorted_wrt (<) (map fst ?xs)" "set ?xs = {(k, v). prefix (tablePrefix (d_ID d)) k \<and> m k = Some v}"
  have num: "rowNumber m (d_ID d) (fst (?xs ! i)) = word_of_nat (i + 1)" if "i < length ?xs" for i
  proof -
    have "{k'. prefix (tablePrefix (d_ID d)) k' \<and> m k' \<noteq> None \<and> k' < fst (?xs ! i)} = {k \<in> set (map fst ?xs). k < map fst ?xs ! i}"
      using r(2) that by force
    then show ?thesis using sorted_position [OF r(1), of i] that by (simp add: rowNumber_def)
  qed
  then have num': "rowNumber m (d_ID d) k = word_of_nat (Suc i)" if "i < length ?xs" "?xs ! i = (k, raw)" for i k raw
    using that by (metis Suc_eq_plus1 fst_conv)
  have "act_iter (\<lambda>(i, k, raw). appendPair (p_kv E) (c_ID col) (VInt (word_of_nat (i + 1))) k raw) (enumerate 0 ?xs) =
      act_iter (\<lambda>(i, k, raw). kv_Set (p_kv E) k (raw @ ?p k)) (enumerate 0 ?xs)"
    by (rule act_iter_cong) (auto simp: in_set_enumerate_eq appendPair_eq isNaN_def canonVal_def num' simp del: of_nat_add of_nat_Suc)
  also have "\<dots> = act_iter (\<lambda>x. (\<lambda>(k, raw). kv_Set (p_kv E) k (raw @ ?p k)) (snd x)) (enumerate 0 ?xs)" by (rule act_iter_cong) auto
  also have "\<dots> = ?fill" unfolding act_iter_map [symmetric] by simp
  finally have eq: "act_iter (\<lambda>(i, k, raw). appendPair (p_kv E) (c_ID col) (VInt (word_of_nat (i + 1))) k raw) (enumerate 0 ?xs) = ?fill" .
  show "spec lmt m (backfillIdentity E d col :: (('db, 'z) engine_scheme \<times> 'tx, unit) act) Q"
  proof (rule spec_cong [where gn = "if withinLimit lmt (length ?xs) then act_bind (onTx ?fill) (\<lambda>_. onTx (bumpCounterTo (p_kv E) ?ck (word_of_nat (length ?xs) + 1)))
      else act_fail (Msg ''adding an identity column would rewrite more rows than the backfill limit allows in one transaction'')"])
    fix b dd and s :: "('db, 'z) engine_scheme \<times> 'tx"
    assume s: "dst lmt m b dd s"
    have t: "tableRows (p_kv E) (d_ID d) (snd s) = ?xs" by (rule tableRows_region) (use s in \<open>simp_all add: ddlState_def\<close>)
    have l: "e_backfillLimit (fst s) = lmt" using s by (simp add: ddlState_def)
    show "backfillIdentity E d col s = (if withinLimit lmt (length ?xs) then act_bind (onTx ?fill) (\<lambda>_. onTx (bumpCounterTo (p_kv E) ?ck (word_of_nat (length ?xs) + 1)))
      else act_fail (Msg ''adding an identity column would rewrite more rows than the backfill limit allows in one transaction'')) s"
      unfolding backfillIdentity_def Let_def overLimit_eq t l eq by (simp add: act_fail_def)
  next
    have c': "counterVal (filled (d_ID d) ?p m) ?ck 1 = Inr 1" using c u by (simp add: counterVal_def filled_def)
    show "spec lmt m (if withinLimit lmt (length ?xs) then act_bind (onTx ?fill) (\<lambda>_. onTx (bumpCounterTo (p_kv E) ?ck (word_of_nat (length ?xs) + 1)))
      else act_fail (Msg ''adding an identity column would rewrite more rows than the backfill limit allows in one transaction'') :: (('db, 'z) engine_scheme \<times> 'tx, unit) act) Q"
    proof (cases "withinLimit lmt (length ?xs)")
      case True
      show ?thesis unfolding if_P [OF True]
      proof (rule spec_bind [OF spec_fill [where Q = "\<lambda>r m'. r = Inr () \<and> m' = filled (d_ID d) ?p m"]], goal_cases)
        case (2 x m1)
        then have m1: "m1 = filled (d_ID d) ?p m" by blast
        show ?case unfolding m1 by (rule spec_bump [OF c'], rule Q [OF True])
      qed blast+
    next
      case False
      show ?thesis unfolding if_not_P [OF False] by (rule spec_pure) (rule err)
    qed
  qed
qed

end

subsection \<open>Adding a column\<close>

lemma stores_rowKeys:
  assumes d: "descOk d" and st: "stores d R m"
  shows "{k. prefix (tablePrefix (d_ID d)) k \<and> m k \<noteq> None} = rowKeyOf d ` R" "inj_on (rowKeyOf d) R"
proof -
  show "inj_on (rowKeyOf d) R" using stores_pk_unique [OF d st] by (auto intro!: inj_onI)
  have "k \<in> rowKeyOf d ` R" if k: "prefix (tablePrefix (d_ID d)) k" "m k = Some v" for k v
  proof -
    obtain r where r: "r \<in> R" "entryOf d r k v" using storesD(2) [OF st tablePrefix_space [OF k(1)] k(2)] by blast
    then have "k = rowKeyOf d r"
      using k(1) entryKey_prefix [of d _ r] indexPrefix_disjoint descOkD(6) [OF d] unfolding entryOf_def tablePrefix_def by metis
    then show ?thesis using r(1) by simp
  qed
  then show "{k. prefix (tablePrefix (d_ID d)) k \<and> m k \<noteq> None} = rowKeyOf d ` R"
    using storesD(3) [OF st] rowKeyOf_prefix [of d] by (auto simp: image_iff)
qed

lemma rowNumber_row:
  assumes "descOk d" "stores d R m"
  shows "rowNumber m (d_ID d) k = word_of_nat (card {q \<in> R. rowKeyOf d q < k} + 1)"
proof -
  have "{k'. prefix (tablePrefix (d_ID d)) k' \<and> m k' \<noteq> None \<and> k' < k} = {k' \<in> {k. prefix (tablePrefix (d_ID d)) k \<and> m k \<noteq> None}. k' < k}"
    by (simp add: conj_assoc)
  also have "\<dots> = rowKeyOf d ` {q \<in> R. rowKeyOf d q < k}" unfolding stores_rowKeys(1) [OF assms] by auto
  finally have "{k'. prefix (tablePrefix (d_ID d)) k' \<and> m k' \<noteq> None \<and> k' < k} = rowKeyOf d ` {q \<in> R. rowKeyOf d q < k}" .
  moreover have "inj_on (rowKeyOf d) {q \<in> R. rowKeyOf d q < k}" using stores_rowKeys(2) [OF assms] by (rule inj_on_subset) blast
  ultimately show ?thesis by (simp add: rowNumber_def card_image)
qed

lemma region_card:
  assumes "descOk d" "stores d R m" "sorted_wrt (<) (map fst xs)" "set xs = {(k, v). prefix (tablePrefix (d_ID d)) k \<and> m k = Some v}"
  shows "length xs = card R" "xs = [] \<longleftrightarrow> R = {}"
proof -
  have "distinct (map fst xs)" using assms(3) strict_sorted_iff by auto
  moreover have "set (map fst xs) = rowKeyOf d ` R" unfolding stores_rowKeys(1) [OF assms(1,2), symmetric] using assms(4) by force
  ultimately show "length xs = card R" "xs = [] \<longleftrightarrow> R = {}"
    using distinct_card [of "map fst xs"] card_image [OF stores_rowKeys(2) [OF assms(1,2)]] by auto
qed

lemma filled_rows:
  assumes "descOk d" "stores d R m"
  shows "r \<in> R \<Longrightarrow> filled (d_ID d) p m (rowKeyOf d r) = Some (rowBytes d m r @ p (rowKeyOf d r))"
    "k \<notin> rowKeyOf d ` R \<Longrightarrow> filled (d_ID d) p m k = m k"
proof -
  show "r \<in> R \<Longrightarrow> filled (d_ID d) p m (rowKeyOf d r) = Some (rowBytes d m r @ p (rowKeyOf d r))"
    using storesD(3) [OF assms(2), of r] rowKeyOf_prefix [of d r] by (simp add: filled_def)
  show "k \<notin> rowKeyOf d ` R \<Longrightarrow> filled (d_ID d) p m k = m k"
    unfolding stores_rowKeys(1) [OF assms, symmetric] by (auto simp: filled_def)
qed

lemma maxLenOk_ID [simp]: "maxLenOk (c\<lparr>c_ID := i\<rparr>) v \<longleftrightarrow> maxLenOk c v"
  by (cases v) (simp_all add: maxLenOk_def)

lemma rowOk_withColumn:
  assumes d: "descOk d" and r: "rowOk d r" and v: "normalVal v" "valOk (c_Type c) v" "maxLenOk c v" "v = VNull \<Longrightarrow> \<not> c_NotNull c \<and> \<not> c_Identity c"
  shows "rowOk (withColumn c d) (r @ [v])"
proof -
  have l: "length r = length (d_Columns d)" using r by (rule rowOkD)
  have npk: "\<not> isPK d (length (d_Columns d))" using descOkD(4) [OF d] by (auto simp: isPK_def)
  have "colValOk (withColumn c d) i ((r @ [v]) ! i)" if "i < Suc (length r)" for i
    using that r l v npk by (cases "i < length r") (auto simp: rowOk_simps colValOk_def Let_def nth_append less_Suc_eq)
  then show ?thesis using r v(1) l unfolding rowOk_simps by auto
qed

text \<open>The schema after the rows have their new values and the descriptor is written.\<close>

lemma schemaRep_withColumn:
  assumes rep: "schemaRep C cat m R" and d: "cat table = Some d" and n: "d_NextColID d \<noteq> - 1" and c: "colOk c"
    and row: "\<And>r. r \<in> R table \<Longrightarrow> rowOk (withColumn c d) (r @ [f r])"
    and at: "\<And>r. r \<in> R table \<Longrightarrow> m1 (rowKeyOf d r) = Some (if f r = VNull then rowBytes d m r else rowBytes d m r @ pairBytes (d_NextColID d) (f r))"
    and fr: "\<And>k. k \<notin> rowKeyOf d ` R table \<Longrightarrow> k \<noteq> identitySeqKey (d_ID d) (d_NextColID d) \<Longrightarrow> m1 k = m k"
    and m': "described C table (withColumn c d) m1 m'"
  shows "schemaRep C (cat(table \<mapsto> published (withColumn c d))) m' (R(table := (\<lambda>r. r @ [f r]) ` R table))"
proof (rule schemaRep_alter [OF rep d describedD(1) [OF m']])
  note D = schemaRepD [OF rep] and ok = schemaRepD(2) [OF rep d] and st = schemaRepD(3) [OF rep d] and u = schemaRepD(9) [OF rep d]
  have sp: "prefix (tableSpace (d_ID d)) k" if "k \<in> rowKeyOf d ` R table" for k using that tablePrefix_space [OF rowKeyOf_prefix] by auto
  have id: "\<not> prefix (tableSpace (d_ID d)) (identitySeqKey (d_ID d) j)" for j using sys_keys_outside(4) [OF u] .
  have "stores (withColumn c d) ((\<lambda>r. r @ [f r]) ` R table) m1"
    by (rule stores_withColumn [OF ok n st row at]) (use fr id in auto)
  moreover have "m' k = m1 k" if "prefix (tableSpace (d_ID d)) k" for k
    using describedD(2) [OF m', of k] that sys_keys_outside(1) [OF u] by auto
  ultimately show "stores (published (withColumn c d)) ((\<lambda>r. r @ [f r]) ` R table) m'"
    using stores_cong [of "withColumn c d" m' m1] by simp
  show "descOk (published (withColumn c d))" by (rule descOk_withColumn [OF ok n c])
  show "m' k = m k" if "\<not> tableKey (d_ID d) k" "k \<noteq> descKey table" for k
    using that describedD(2) [OF m' that(2)] fr [of k] sp [of k] tableKey_sys(5) [OF u, of "d_ID d" "d_NextColID d"] unfolding tableKey_def by metis
  show "m' (identitySeqKey (d_ID d) i) = None" if i: "d_NextColID (published (withColumn c d)) \<le> i" for i
  proof -
    have "d_NextColID d < i" using i less_plus1 [OF n, of "d_NextColID d"] by simp
    then show ?thesis using D(6) [OF d, of i] describedD(2) [OF m', of "identitySeqKey (d_ID d) i"] fr [of "identitySeqKey (d_ID d) i"]
        sp [of "identitySeqKey (d_ID d) i"] id by auto
  qed
qed (use schemaRepD(4) [OF rep d] in simp_all)

text \<open>
  A column was added: its name was free, and every row has one more value, which is NULL without a
  DEFAULT, the value of the DEFAULT, or, in an identity column, the row's number in key order, with
  the counter just past the last one. A backfill stayed within its limit, and no key outside the table changed.
\<close>

definition columnAdded ::
  "('db, 'tx) deps \<Rightarrow> int64 \<Rightarrow> (string \<Rightarrow> tableDesc option) \<Rightarrow> (string \<Rightarrow> val list set) \<Rightarrow> string \<Rightarrow> tableDesc \<Rightarrow> column \<Rightarrow>
   (key \<Rightarrow> bytes option) \<Rightarrow> (key \<Rightarrow> bytes option) \<Rightarrow> bool" where
  "columnAdded E limit cat R table d col m m' \<longleftrightarrow>
     ColIndex d (c_Name col) = None \<and>
     (\<exists>f. schemaRep (p_desc E) (cat(table \<mapsto> published (withColumn col d))) m' (R(table := (\<lambda>r. r @ [f r]) ` R table)) \<and>
        (if c_Identity col then
           withinLimit limit (card (R table)) \<and>
           (\<forall>r. f r = VInt (word_of_nat (card {q \<in> R table. rowKeyOf d q < rowKeyOf d r} + 1))) \<and>
           counterVal m' (identitySeqKey (d_ID d) (d_NextColID d)) 1 = Inr (word_of_nat (card (R table) + 1))
         else if c_Default col = [] then (\<forall>r. f r = VNull) \<and> (\<forall>k. k \<noteq> descKey table \<longrightarrow> m' k = m k)
         else \<exists>v. columnDefaultValue (p_lib E) col (p_now E) = Inr v \<and> (\<forall>r. f r = canonVal v) \<and>
           (v \<noteq> VNull \<longrightarrow> withinLimit limit (card (R table))))) \<and>
     (\<forall>k. k \<noteq> descKey table \<and> \<not> tableKey (d_ID d) k \<longrightarrow> m' k = m k)"

lemma columnDefault_ID [simp]: "columnDefaultValue L (c\<lparr>c_ID := i\<rparr>) now = columnDefaultValue L c now"
proof -
  have "enforceMaxLen v (c\<lparr>c_ID := i\<rparr>) = enforceMaxLen v c" for v by (cases v) (simp_all add: enforceMaxLen_def Let_def)
  then show ?thesis by (simp add: columnDefaultValue_def)
qed

lemma columnDefault_ok:
  assumes "columnDefaultValue L c now = Inr v" "colOk c"
  shows "valOk (c_Type c) v" "maxLenOk c v"
proof -
  obtain a w where a: "decodeDefaultLiteral L (c_Default c) now = Inr a" "coerce L a (c_Type c) = Inr w" "enforceMaxLen w c = Inr v"
    using assms(1) by (auto simp: columnDefaultValue_def res_bind_eq_Inr)
  have "goValue a" using a(1) by (auto simp: decodeDefaultLiteral_def Let_def split: if_splits option.splits)
  then show "valOk (c_Type c) v" "maxLenOk c v"
    using coerce_typed(1) [OF a(2)] enforceMaxLen_props(1,2) [OF a(3)] assms(2) by (auto simp: colOk_def)
qed

lemma checkNewColumn_ok:
  assumes "checkNewColumn c = Inr ()"
  shows "colOk c" "c_Identity c \<Longrightarrow> c_Type c = TInt \<and> c_Default c = []"
  using assms by (auto simp: checkNewColumn_def validMaxLen_def colOk_def split: if_splits)

lemma published_table_frame:
  assumes "described C table d1 m1 m'" "userTable i" "\<And>k. k \<notin> rowKeyOf d ` S \<Longrightarrow> k \<noteq> identitySeqKey i j \<Longrightarrow> m1 k = m k" "d_ID d = i"
    "k \<noteq> descKey table" "\<not> tableKey i k"
  shows "m' k = m k"
proof -
  have "k \<notin> rowKeyOf d ` S" using assms(4,6) tablePrefix_space [OF rowKeyOf_prefix, of d] by (auto simp: tableKey_def)
  moreover have "k \<noteq> identitySeqKey i j" using assms(6) by (auto simp: tableKey_def)
  ultimately show ?thesis using assms(3) [of k] describedD(2) [OF assms(1,5)] by simp
qed

context engine_env
begin

lemma identity_columnAdded:
  assumes rep: "schemaRep (p_desc E) cat m R" and d: "cat table = Some d" and n: "d_NextColID d \<noteq> - 1" and col: "checkNewColumn col = Inr ()"
    and big: "card (R table) + 1 < 2 ^ 64" and no: "ColIndex d (c_Name col) = None" and idc: "c_Identity col"
    and xs: "length xs = card (R table)" "withinLimit lmt (length xs)"
    and cnt: "counterVal m1 (identitySeqKey (d_ID d) (d_NextColID d)) 1 = Inr (max 1 (word_of_nat (length xs) + 1))"
    and fr: "\<And>k. k \<noteq> identitySeqKey (d_ID d) (d_NextColID d) \<Longrightarrow>
        m1 k = filled (d_ID d) (\<lambda>k. pairBytes (d_NextColID d) (VInt (rowNumber m (d_ID d) k))) m k"
    and m': "described (p_desc E) table (withColumn col d) m1 m'"
  shows "columnAdded E lmt cat R table d col m m'"
proof -
  note ok = schemaRepD(2) [OF rep d] and st = schemaRepD(3) [OF rep d] and u = schemaRepD(9) [OF rep d]
  let ?f = "\<lambda>r. VInt (word_of_nat (card {q \<in> R table. rowKeyOf d q < rowKeyOf d r} + 1))"
  have ck: "rowKeyOf d r \<noteq> identitySeqKey (d_ID d) (d_NextColID d)" for r
    using sys_keys_outside(4) [OF u] tablePrefix_space [OF rowKeyOf_prefix, of d r] by metis
  have at: "m1 (rowKeyOf d r) = Some (rowBytes d m r @ pairBytes (d_NextColID d) (?f r))" if "r \<in> R table" for r
    using fr [OF ck] filled_rows(1) [OF ok st that] rowNumber_row [OF ok st] by simp
  have out: "m1 k = m k" if "k \<notin> rowKeyOf d ` R table" "k \<noteq> identitySeqKey (d_ID d) (d_NextColID d)" for k
    using fr [OF that(2)] filled_rows(2) [OF ok st that(1)] by simp
  have row: "rowOk (withColumn col d) (r @ [?f r])" if "r \<in> R table" for r
    using rowOk_withColumn [OF ok storesD(1) [OF st that], of "?f r" col] checkNewColumn_ok(2) [OF col idc] by (simp add: maxLenOk_def)
  have "schemaRep (p_desc E) (cat(table \<mapsto> published (withColumn col d))) m' (R(table := (\<lambda>r. r @ [?f r]) ` R table))"
    by (rule schemaRep_withColumn [OF rep d n checkNewColumn_ok(1) [OF col] row _ out m']) (use at in simp_all)
  moreover have "unat (word_of_nat (card (R table) + 1) :: uint64) = card (R table) + 1"
    using big by (simp add: unsigned_of_nat take_bit_nat_eq_self del: of_nat_Suc of_nat_add)
  then have "1 \<le> (word_of_nat (card (R table) + 1) :: uint64)" unfolding word_le_nat_alt by simp
  then have "max 1 (word_of_nat (length xs) + 1) = (word_of_nat (card (R table) + 1) :: uint64)" using xs(1) by (simp add: max_def add.commute)
  then have "counterVal m' (identitySeqKey (d_ID d) (d_NextColID d)) 1 = Inr (word_of_nat (card (R table) + 1))"
    using cnt describedD(2) [OF m', of "identitySeqKey (d_ID d) (d_NextColID d)"] by (simp add: counterVal_def)
  ultimately show ?thesis
    unfolding columnAdded_def using no idc xs published_table_frame [OF m' u out refl] by (auto intro!: exI [of _ ?f])
qed

lemma default_columnAdded:
  assumes rep: "schemaRep (p_desc E) cat m R" and d: "cat table = Some d" and n: "d_NextColID d \<noteq> - 1" and col: "checkNewColumn col = Inr ()"
    and no: "ColIndex d (c_Name col) = None" and idc: "\<not> c_Identity col"
    and v: "(if c_Default col \<noteq> [] then columnDefaultValue (p_lib E) col (p_now E) else Inr VNull) = Inr v"
    and rows: "v = VNull \<Longrightarrow> c_NotNull col \<Longrightarrow> R table = {}" "isNaN v \<Longrightarrow> R table = {}" "v \<noteq> VNull \<Longrightarrow> withinLimit lmt (card (R table))"
    and m1: "m1 = (if v = VNull then m else filled (d_ID d) (\<lambda>_. pairBytes (d_NextColID d) (canonVal v)) m)"
    and m': "described (p_desc E) table (withColumn col d) m1 m'"
  shows "columnAdded E lmt cat R table d col m m'"
proof -
  note ok = schemaRepD(2) [OF rep d] and st = schemaRepD(3) [OF rep d] and u = schemaRepD(9) [OF rep d] and cok = checkNewColumn_ok(1) [OF col]
  have typed: "valOk (c_Type col) v" "maxLenOk col v" using v columnDefault_ok [OF _ cok] by (auto simp: maxLenOk_def split: if_splits)
  have row: "rowOk (withColumn col d) (r @ [canonVal v])" if "r \<in> R table" for r
    by (rule rowOk_withColumn [OF ok storesD(1) [OF st that]]) (use typed rows(1,2) that idc in \<open>auto intro!: normal_canonVal\<close>)
  have at: "m1 (rowKeyOf d r) = Some (if canonVal v = VNull then rowBytes d m r else rowBytes d m r @ pairBytes (d_NextColID d) (canonVal v))" if "r \<in> R table" for r
    using filled_rows(1) [OF ok st that] storesD(3) [OF st that] unfolding m1 by simp
  have out: "m1 k = m k" if "k \<notin> rowKeyOf d ` R table" "k \<noteq> identitySeqKey (d_ID d) (d_NextColID d)" for k
    using filled_rows(2) [OF ok st that(1)] unfolding m1 by simp
  have "schemaRep (p_desc E) (cat(table \<mapsto> published (withColumn col d))) m' (R(table := (\<lambda>r. r @ [canonVal v]) ` R table))"
    by (rule schemaRep_withColumn [OF rep d n cok row at out m'])
  then show ?thesis
    unfolding columnAdded_def using no idc rows(3) published_table_frame [OF m' u out refl] v describedD(2) [OF m'] m1
    by (auto intro!: exI [of _ "\<lambda>_. canonVal v"] split: if_splits)
qed

lemma spec_addRest:
  assumes fin: "\<And>m1. (\<And>m'. described C table d1 m1 m' \<Longrightarrow> added m') \<Longrightarrow> Q (Inr (Some d1, ())) m1"
    and added: "\<And>m1 m'. (v = VNull \<Longrightarrow> nn \<Longrightarrow> R = {}) \<Longrightarrow> (isNaN v \<Longrightarrow> R = {}) \<Longrightarrow> (v \<noteq> VNull \<Longrightarrow> withinLimit lmt (card R)) \<Longrightarrow>
        m1 = (if v = VNull then m else filled i (\<lambda>_. pairBytes j (canonVal v)) m) \<Longrightarrow> described C table d1 m1 m' \<Longrightarrow> added m'"
    and xs: "xs = regionOf m (tablePrefix i)" "xs = [] \<longleftrightarrow> R = {}" "length xs = card R" "d_ID d1 = i" and err: "\<And>er. Q (Inl er) m"
  shows "spec lmt m (if v = VNull \<and> nn \<and> xs \<noteq> [] then act_fail e1
     else if v \<noteq> VNull then
       (if \<not> withinLimit lmt (length xs) then act_fail e2 else act_bind (onTx (backfillColumn (p_kv E) d1 j v)) (\<lambda>_. act_return (Some d1, ())))
     else act_return (Some d1, ()) :: (('db, 'z) engine_scheme \<times> 'tx, tableDesc option \<times> unit) act) Q"
proof -
  consider "v = VNull \<and> nn \<and> xs \<noteq> []" | "v = VNull" "\<not> (v = VNull \<and> nn \<and> xs \<noteq> [])" | "v \<noteq> VNull" "\<not> withinLimit lmt (length xs)" | "v \<noteq> VNull" "withinLimit lmt (length xs)"
    by blast
  then show ?thesis
  proof cases
    case 1
    show ?thesis unfolding if_P [OF 1] by (rule spec_pure) (rule err)
  next
    case 2
    then have "(if v = VNull \<and> nn \<and> xs \<noteq> [] then act_fail e1 else if v \<noteq> VNull then
       (if \<not> withinLimit lmt (length xs) then act_fail e2 else act_bind (onTx (backfillColumn (p_kv E) d1 j v)) (\<lambda>_. act_return (Some d1, ())))
     else act_return (Some d1, ()) :: (('db, 'z) engine_scheme \<times> 'tx, tableDesc option \<times> unit) act) = act_return (Some d1, ())" by auto
    moreover have "isNaN v \<Longrightarrow> R = {}" using 2(1) by (simp add: isNaN_def)
    ultimately show ?thesis using 2 xs(2) by (simp only:, intro spec_pure fin added [of m]) auto
  next
    case 3
    then show ?thesis by (simp only: simp_thms if_True if_False, intro spec_pure err)
  next
    case 4
    have bf: "spec lmt m (onTx (backfillColumn (p_kv E) d1 j v) :: (('db, 'z) engine_scheme \<times> 'tx, unit) act)
      (\<lambda>r m1. case r of Inl _ \<Rightarrow> m1 = m | Inr _ \<Rightarrow> (isNaN v \<longrightarrow> R = {}) \<and> m1 = filled i (\<lambda>_. pairBytes j (canonVal v)) m)"
      by (rule spec_backfillColumn) (use xs in auto)
    have "spec lmt m (act_bind (onTx (backfillColumn (p_kv E) d1 j v)) (\<lambda>_. act_return (Some d1, ())) :: (('db, 'z) engine_scheme \<times> 'tx, tableDesc option \<times> unit) act) Q"
      by (rule spec_bind [OF bf]) (rule spec_pure, rule fin, rule added, use 4 xs(3) err in auto)
    then show ?thesis using 4 by simp
  qed
qed

lemma spec_addColumn:
  assumes rep: "schemaRep (p_desc E) cat m R" and d: "cat table = Some d" and n: "d_NextColID d \<noteq> - 1" and col: "checkNewColumn col = Inr ()"
    and big: "card (R table) + 1 < 2 ^ 64"
  shows "spec lmt m (addColumnIn E table col d :: (('db, 'z) engine_scheme \<times> 'tx, tableDesc option \<times> unit) act)
    (\<lambda>r m1. case r of Inl _ \<Rightarrow> True | Inr (d1, x) \<Rightarrow> d1 = Some (withColumn col d) \<and>
       (\<forall>m'. described (p_desc E) table (withColumn col d) m1 m' \<longrightarrow> columnAdded E lmt cat R table d col m m'))" (is "spec _ _ _ ?Q")
proof (rule spec_region [OF _ regionPrefixes(1) [of "d_ID d"]])
  note ok = schemaRepD(2) [OF rep d] and st = schemaRepD(3) [OF rep d] and u = schemaRepD(9) [OF rep d]
  let ?xs = "regionOf m (tablePrefix (d_ID d))" and ?col = "col\<lparr>c_ID := d_NextColID d\<rparr>"
  assume r: "sorted_wrt (<) (map fst ?xs)" "set ?xs = {(k, v). prefix (tablePrefix (d_ID d)) k \<and> m k = Some v}"
  note rc = region_card [OF ok st r]
  have fin: "?Q (Inr (Some (withColumn col d), ())) m1"
    if "\<And>m'. described (p_desc E) table (withColumn col d) m1 m' \<Longrightarrow> columnAdded E lmt cat R table d col m m'" for m1
    using that by simp
  show "spec lmt m (addColumnIn E table col d :: (('db, 'z) engine_scheme \<times> 'tx, tableDesc option \<times> unit) act) ?Q"
  proof (cases "ColIndex d (c_Name col) = None")
    case False
    show ?thesis unfolding addColumnIn_def if_P [OF False] by (rule spec_pure) simp
  next
    case no: True
    show ?thesis
    proof (cases "c_Identity col")
      case True
      have c1: "counterVal m (identitySeqKey (d_ID (withColumn col d)) (c_ID ?col)) 1 = Inr 1" using schemaRepD(6) [OF rep d, of "d_NextColID d"] by (simp add: counterVal_def)
      have "\<not> prefix (tablePrefix (d_ID (withColumn col d))) (identitySeqKey (d_ID (withColumn col d)) (c_ID ?col))"
        using tablePrefix_space sys_keys_outside(4) [OF u] by fastforce
      note bi = spec_backfillIdentity [OF c1 _ _ this, where lmt = lmt and
          Q = "\<lambda>r m1. \<forall>m'. r = Inr () \<longrightarrow> described (p_desc E) table (withColumn col d) m1 m' \<longrightarrow> columnAdded E lmt cat R table d col m m'"]
      have eq: "addColumnIn E table col d = act_bind (backfillIdentity E (withColumn col d) ?col) (\<lambda>_. act_return (Some (withColumn col d), ()))"
        using no True by (simp add: addColumnIn_def Let_def)
      show ?thesis unfolding eq
      proof (rule spec_bind [OF bi], goal_cases)
        case (2 m1)
        then show ?case using identity_columnAdded [OF rep d n col big no True rc(1)] by simp
      next
        case (3 x m1)
        then show ?case by (intro spec_pure fin) simp
      qed simp_all
    next
      case False
      let ?dv = "if c_Default col \<noteq> [] then columnDefaultValue (p_lib E) col (p_now E) else Inr VNull"
      note added = default_columnAdded [OF rep d n col no False]
      have eq: "addColumnIn E table col d = act_bind (act_lift ?dv) (\<lambda>fill.
          act_bind (act_get (\<lambda>s. (hasRows (p_kv E) (d_ID d) (snd s), overLimit E (d_ID d) s))) (\<lambda>(rows, large).
            if fill = VNull \<and> c_NotNull col \<and> rows then act_fail (notNullValueErr table (c_Name col))
            else if fill \<noteq> VNull then
              (if large then act_fail backfillTooLargeErr
               else act_bind (onTx (backfillColumn (p_kv E) (withColumn col d) (d_NextColID d) fill)) (\<lambda>_. act_return (Some (withColumn col d), ())))
            else act_return (Some (withColumn col d), ())))"
      proof -
        have f: "c_Name ?col = c_Name col" "c_Identity ?col = c_Identity col" "c_Default ?col = c_Default col" "c_NotNull ?col = c_NotNull col" "c_ID ?col = d_NextColID d"
          by simp_all
        show ?thesis unfolding addColumnIn_def Let_def f columnDefault_ID withColumn_fields(1)
          by (simp only: no False if_False simp_thms)
      qed
      show ?thesis unfolding eq
      proof (rule spec_bind [OF spec_pure(3) [where Q = "\<lambda>r m1. r = ?dv \<and> m1 = m"]], goal_cases)
        case (2 v m1)
        then have v: "?dv = Inr v" and m1: "m1 = m" by simp_all
        show ?case unfolding m1
        proof (rule spec_bind [OF spec_get [where x = "(?xs \<noteq> [], \<not> withinLimit lmt (length ?xs))" and
              Q = "\<lambda>r m1. r = Inr (?xs \<noteq> [], \<not> withinLimit lmt (length ?xs)) \<and> m1 = m"]], goal_cases)
          case (1 b dd s)
          then show ?case using tableRows_region [of "snd s" m "d_ID d"] by (simp add: hasRows_eq overLimit_eq ddlState_def)
        next
          case (3 x m2)
          then have x: "x = (?xs \<noteq> [], \<not> withinLimit lmt (length ?xs))" "m2 = m" by simp_all
          show ?case unfolding x prod.case
            by (rule spec_addRest [where Q = ?Q and C = "p_desc E" and table = table and R = "R table" and i = "d_ID d" and
                added = "columnAdded E lmt cat R table d col m"], erule fin, rule added [OF v]) (use rc in auto)
        qed simp_all
      qed simp_all
    qed
  qed
qed

lemma AddColumn_run:
  assumes e: "cacheOk (p_desc E) e" "dwf (e_kv e)" and rep: "schemaRep (p_desc E) cat (dcontent (e_kv e)) R" and d: "cat table = Some d"
    and c: "codecOk (p_desc E) good" "good ((withColumn col d)\<lparr>d_FormatVersion := descFormatVersion\<rparr>)"
    and n: "d_NextColID d \<noteq> - 1" "card (R table) + 1 < 2 ^ 64" and r: "AddColumn E table col e = (r, e')"
  shows "cacheOk (p_desc E) e' \<and> dwf (e_kv e') \<and>
    ddlDone (\<lambda>_. columnAdded E (e_backfillLimit e) cat R table d col (dcontent (e_kv e))) (dcontent (e_kv e)) r (dcontent (e_kv e'))"
proof (cases "checkNewColumn col")
  case (Inl er)
  then have "r = Inl er" "e' = e" using r by (simp_all add: AddColumn_def)
  then show ?thesis using e by (simp add: ddlDone_def)
next
  case (Inr u)
  obtain q e1 where q: "(if c_Default col \<noteq> [] \<or> c_Identity col then CheckMemory E else act_return ()) e = (q, e1)" by fastforce
  have e1: "e_kv e1 = e_kv e" "e_descCache e1 = e_descCache e" "e_backfillLimit e1 = e_backfillLimit e"
    using q by (auto simp: CheckMemory_def split: if_splits prod.splits)
  show ?thesis
  proof (cases q)
    case (Inl er)
    then have "r = Inl er" "e' = e1" using r q Inr by (auto simp: AddColumn_def act_bind_def split: if_splits)
    then show ?thesis using e e1 by (simp add: ddlDone_def cacheOk_def)
  next
    case (Inr y)
    have co: "cacheOk (p_desc E) e1" using e(1) e1 by (simp add: cacheOk_def)
    have run: "alterDesc E table (addColumnIn E table col) e1 = (r, e')" using r q Inr \<open>checkNewColumn col = Inr u\<close>
      by (auto simp: AddColumn_def act_bind_def split: if_splits)
    show ?thesis
      by (rule alter_run [OF co, unfolded e1, OF e(2) rep d c(1) _ run])
        (rule spec_conseq [OF spec_addColumn [OF rep d n(1) _ n(2)]], use c(2) \<open>checkNewColumn col = Inr u\<close> in \<open>auto split: sum.splits option.splits\<close>)
  qed
qed

end

subsection \<open>Dropping a column\<close>

text \<open>
  A column was dropped: neither the key, an index nor a foreign key used it, every row lost its value,
  its identity counter is gone, and nothing else changed in the store but the descriptor.
\<close>

definition columnDropped ::
  "descCodec \<Rightarrow> (string \<Rightarrow> tableDesc option) \<Rightarrow> (string \<Rightarrow> val list set) \<Rightarrow> string \<Rightarrow> tableDesc \<Rightarrow> string \<Rightarrow>
   (key \<Rightarrow> bytes option) \<Rightarrow> (key \<Rightarrow> bytes option) \<Rightarrow> bool" where
  "columnDropped C cat R table d name m m' \<longleftrightarrow>
     (\<exists>ord. ColIndex d name = Some ord \<and> droppable d ord \<and> (\<forall>f\<in>set (d_ForeignKeys d). ord \<notin> set (fk_Cols f)) \<and>
        (\<forall>(c, f)\<in>inbound cat table False. name \<notin> set (fk_RefCols f)) \<and>
        schemaRep C (cat(table \<mapsto> published (withoutColumn ord d))) m' (R(table := deleteAt ord ` R table)) \<and>
        (\<forall>k. k \<noteq> descKey table \<longrightarrow> m' k =
           (if c_Identity (d_Columns d ! ord) \<and> k = identitySeqKey (d_ID d) (c_ID (d_Columns d ! ord)) then None else m k)))"

lemma schemaRep_withoutColumn:
  assumes rep: "schemaRep C cat m R" and d: "cat table = Some d" and o: "droppable d ord"
    and m1: "\<And>k. m1 k = (if b \<and> k = identitySeqKey (d_ID d) i then None else m k)"
    and m': "described C table (withoutColumn ord d) m1 m'"
  shows "schemaRep C (cat(table \<mapsto> published (withoutColumn ord d))) m' (R(table := deleteAt ord ` R table))"
proof (rule schemaRep_alter [OF rep d describedD(1) [OF m']])
  note ok = schemaRepD(2) [OF rep d] and st = schemaRepD(3) [OF rep d] and u = schemaRepD(9) [OF rep d]
  have "m' k = m k" if "prefix (tableSpace (d_ID d)) k" for k
    using describedD(2) [OF m', of k] m1 [of k] that sys_keys_outside(1,4) [OF u] by (auto split: if_splits)
  then show "stores (published (withoutColumn ord d)) (deleteAt ord ` R table) m'"
    using stores_withoutColumn [OF ok o st] stores_cong [of "withoutColumn ord d" m' m] by simp
  show "descOk (published (withoutColumn ord d))" by (rule descOk_withoutColumn [OF ok o])
  show "m' k = m k" if "\<not> tableKey (d_ID d) k" "k \<noteq> descKey table" for k
    using that describedD(2) [OF m' that(2)] m1 [of k] by (auto simp: tableKey_def split: if_splits)
  show "m' (identitySeqKey (d_ID d) j) = None" if "d_NextColID (published (withoutColumn ord d)) \<le> j" for j
    using that schemaRepD(6) [OF rep d, of j] describedD(2) [OF m', of "identitySeqKey (d_ID d) j"] m1 by auto
qed (use schemaRepD(4) [OF rep d] in simp_all)

context engine_env
begin

lemma spec_dropRest:
  assumes rep: "schemaRep (p_desc E) cat m R" and d: "cat table = Some d" and ord: "ColIndex d name = Some ord"
    and m1: "\<And>k. m1 k = (if c_Identity (d_Columns d ! ord) \<and> k = identitySeqKey (d_ID d) (c_ID (d_Columns d ! ord)) then None else m k)"
  shows "spec lmt m1 (if isPK d ord then act_fail er1 else if list_ex (\<lambda>x. ord \<in> set (x_Cols x)) (d_Indexes d) then act_fail er2
      else if list_ex (\<lambda>f. ord \<in> set (fk_Cols f)) (d_ForeignKeys d) then act_fail er3
      else act_bind (referencingFKs E table False) (\<lambda>refs. if list_ex (\<lambda>(d, f). name \<in> set (fk_RefCols f)) refs then act_fail er4
          else act_return (Some (withoutColumn ord d), ck)) :: (('db, 'z) engine_scheme \<times> 'tx, tableDesc option \<times> key option) act)
    (\<lambda>r m1. case r of Inl _ \<Rightarrow> True | Inr (d1, x) \<Rightarrow> d1 = Some (withoutColumn ord d) \<and>
       (\<forall>m'. described (p_desc E) table (withoutColumn ord d) m1 m' \<longrightarrow> columnDropped (p_desc E) cat R table d name m m'))" (is "spec _ _ ?fn ?Q")
proof (cases "isPK d ord \<or> list_ex (\<lambda>x. ord \<in> set (x_Cols x)) (d_Indexes d) \<or> list_ex (\<lambda>f. ord \<in> set (fk_Cols f)) (d_ForeignKeys d)")
  case True
  then have "\<exists>er. ?fn = act_fail er" by auto
  then obtain er where er: "?fn = act_fail er" by blast
  show ?thesis unfolding er by (rule spec_pure) simp
next
  case False
  then have n: "\<not> isPK d ord" "\<not> list_ex (\<lambda>x. ord \<in> set (x_Cols x)) (d_Indexes d)" "\<not> list_ex (\<lambda>f. ord \<in> set (fk_Cols f)) (d_ForeignKeys d)" by auto
  have o: "droppable d ord" using n ord by (auto simp: droppable_def ColIndex_def firstPos_Some list_ex_iff)
  have cat: "tableAt (p_desc E) m1 n = Inr (cat n)" for n
    using tableAt_same [of m1 n m "p_desc E"] m1 schemaRepD(1) [OF rep] by simp
  show ?thesis unfolding if_not_P [OF n(1)] if_not_P [OF n(2)] if_not_P [OF n(3)]
  proof (rule spec_bind [OF spec_refs [OF cat, where Q = "\<lambda>r m'. m' = m1 \<and> (\<exists>refs. r = Inr refs \<and> set refs = inbound cat table False)"]], goal_cases)
    case (2 refs m2)
    then have refs: "set refs = inbound cat table False" "m2 = m1" by auto
    show ?case
    proof (cases "list_ex (\<lambda>(d, f). name \<in> set (fk_RefCols f)) refs")
      case True
      show ?thesis unfolding if_P [OF True] by (rule spec_pure) simp
    next
      case False
      have "columnDropped (p_desc E) cat R table d name m m'" if m': "described (p_desc E) table (withoutColumn ord d) m1 m'" for m'
        unfolding columnDropped_def
        using False n(3) o ord refs(1) schemaRep_withoutColumn [OF rep d o m1 m'] describedD(2) [OF m'] m1
        by (intro exI [of _ ord]) (auto simp: list_ex_iff)
      then show ?thesis unfolding if_not_P [OF False] refs(2) by (intro spec_pure) simp
    qed
  qed auto
qed

lemma spec_dropColumn:
  assumes rep: "schemaRep (p_desc E) cat m R" and d: "cat table = Some d"
  shows "spec lmt m (dropColumnIn E table name d :: (('db, 'z) engine_scheme \<times> 'tx, tableDesc option \<times> key option) act)
    (\<lambda>r m1. case r of Inl _ \<Rightarrow> True | Inr (d1, x) \<Rightarrow> \<exists>ord. ColIndex d name = Some ord \<and> d1 = Some (withoutColumn ord d) \<and>
       (\<forall>m'. described (p_desc E) table (withoutColumn ord d) m1 m' \<longrightarrow> columnDropped (p_desc E) cat R table d name m m'))" (is "spec _ _ _ ?Q")
proof (cases "ColIndex d name")
  case None
  show ?thesis unfolding dropColumnIn_def None option.case by (rule spec_pure) simp
next
  case (Some ord)
  let ?c = "d_Columns d ! ord" and ?ck = "identitySeqKey (d_ID d) (c_ID (d_Columns d ! ord))"
  have del: "spec lmt m (if c_Identity ?c then act_bind (onTx (kv_Delete (p_kv E) ?ck)) (\<lambda>_. act_return (Some ?ck)) else act_return None :: (('db, 'z) engine_scheme \<times> 'tx, key option) act)
    (\<lambda>r m1. (\<exists>x. r = Inr x) \<and> m1 = (\<lambda>k. if c_Identity ?c \<and> k = ?ck then None else m k))"
  proof (cases "c_Identity ?c")
    case True
    show ?thesis unfolding if_P [OF True]
      by (rule spec_bind [OF spec_delete [where Q = "\<lambda>r m1. r = Inr (m ?ck \<noteq> None) \<and> m1 = m(?ck := None)"]]) (use True in \<open>auto intro!: spec_pure simp: fun_eq_iff\<close>)
  next
    case False
    show ?thesis unfolding if_not_P [OF False] by (rule spec_pure) (use False in simp)
  qed
  show ?thesis unfolding dropColumnIn_def Some option.case Let_def
    by (rule spec_bind [OF del])
      (rule spec_conseq [OF spec_dropRest [OF rep d Some]], auto split: sum.splits)
qed

lemma DropColumn_run:
  assumes e: "cacheOk (p_desc E) e" "dwf (e_kv e)" and rep: "schemaRep (p_desc E) cat (dcontent (e_kv e)) R" and d: "cat table = Some d"
    and c: "codecOk (p_desc E) good" "\<forall>ord. ColIndex d name = Some ord \<longrightarrow> good ((withoutColumn ord d)\<lparr>d_FormatVersion := descFormatVersion\<rparr>)"
    and r: "DropColumn E table name e = (r, e')"
  shows "cacheOk (p_desc E) e' \<and> dwf (e_kv e') \<and>
    ddlDone (\<lambda>_. columnDropped (p_desc E) cat R table d name (dcontent (e_kv e))) (dcontent (e_kv e)) r (dcontent (e_kv e'))"
proof -
  obtain q e1 where q: "alterDesc E table (dropColumnIn E table name) e = (q, e1)" by fastforce
  have "cacheOk (p_desc E) e1 \<and> dwf (e_kv e1) \<and>
      ddlDone (\<lambda>_. columnDropped (p_desc E) cat R table d name (dcontent (e_kv e))) (dcontent (e_kv e)) q (dcontent (e_kv e1))"
    by (rule alter_run [OF e rep d c(1) _ q])
      (rule spec_conseq [OF spec_dropColumn [OF rep d]], use c(2) in \<open>auto split: sum.splits option.splits\<close>)
  then show ?thesis using r q
    by (cases q) (auto simp: DropColumn_def act_modify_def ddlDone_def cacheOk_def split: option.splits)
qed

end

subsection \<open>NOT NULL\<close>

lemma hasPair_flat: "\<forall>p\<in>set ps. snd p \<noteq> VNull \<Longrightarrow> hasPair i (flatPairs ps) \<longleftrightarrow> i \<in> fst ` set ps"
  by (induction ps) auto

lemma hasPair_row:
  assumes "holdsRow d r b" "ord < length (d_Columns d)" "\<not> isPK d ord"
  shows "\<exists>pairs. Decode b = Inr pairs \<and> (hasPair (c_ID (d_Columns d ! ord)) pairs \<longleftrightarrow> r ! ord \<noteq> VNull)"
proof -
  obtain ps where ps: "b = encTup (flatPairs ps)" "\<forall>p\<in>set ps. snd p \<noteq> VNull"
    "map_of ps (c_ID (d_Columns d ! ord)) = (if isPK d ord \<or> r ! ord = VNull then None else Some (r ! ord))"
    using assms(1,2) unfolding holdsRow_def by blast
  then show ?thesis using hasPair_flat [OF ps(2)] assms(3) map_of_eq_None_iff [of ps "c_ID (d_Columns d ! ord)"] by auto
qed

lemma noNullsLoop_eq:
  "(\<And>k b. (k, b) \<in> set xs \<Longrightarrow> \<exists>pairs. Decode b = Inr pairs \<and> (hasPair i pairs \<longleftrightarrow> P k)) \<Longrightarrow>
   noNullsLoop i xs = Inr (\<forall>k\<in>fst ` set xs. P k)"
proof (induction xs)
  case (Cons x xs)
  obtain k b where x: "x = (k, b)" by (cases x)
  obtain pairs where p: "Decode b = Inr pairs" "hasPair i pairs \<longleftrightarrow> P k" using Cons.prems [of k b] x by auto
  have "noNullsLoop i xs = Inr (\<forall>k\<in>fst ` set xs. P k)" using Cons.prems by (intro Cons.IH) auto
  then show ?case using p x by auto
qed simp

context engine_env
begin

lemma columnHasNoNulls_exact:
  assumes t: "wf t" and d: "descOk d" and st: "stores d R (content t)" and o: "ord < length (d_Columns d)" "\<not> isPK d ord"
  shows "columnHasNoNulls (p_kv E) d (c_ID (d_Columns d ! ord)) t = Inr (\<forall>r\<in>R. r ! ord \<noteq> VNull)"
proof -
  let ?xs = "regionOf (content t) (tablePrefix (d_ID d))"
  note r = region_props [OF t regionPrefixes(1), of "d_ID d"]
  have keys: "fst ` set ?xs = rowKeyOf d ` R" unfolding stores_rowKeys(1) [OF d st, symmetric] r(2) by force
  let ?P = "\<lambda>k. \<forall>r\<in>R. k = rowKeyOf d r \<longrightarrow> r ! ord \<noteq> VNull"
  have "noNullsLoop (c_ID (d_Columns d ! ord)) ?xs = Inr (\<forall>k\<in>fst ` set ?xs. ?P k)"
  proof (rule noNullsLoop_eq)
    fix k b
    assume kb: "(k, b) \<in> set ?xs"
    then have "k \<in> rowKeyOf d ` R" using keys by force
    then obtain q where q: "q \<in> R" "k = rowKeyOf d q" by blast
    have "b = rowBytes d (content t) q" using kb storesD(3) [OF st q(1)] unfolding r(2) q(2) by simp
    then have "holdsRow d q b" using storesD(3) [OF st q(1)] by simp
    then show "\<exists>pairs. Decode b = Inr pairs \<and> (hasPair (c_ID (d_Columns d ! ord)) pairs \<longleftrightarrow> ?P k)"
      using hasPair_row [OF _ o] stores_rowKeys(2) [OF d st] q unfolding inj_on_def by metis
  qed
  then show ?thesis unfolding columnHasNoNulls_def tableRows_region [OF t refl] keys by auto
qed

end

text \<open>A change of the descriptor alone.\<close>

lemma schemaRep_descOnly:
  assumes rep: "schemaRep C cat m R" and d: "cat table = Some d" and l: "layout d1 = layout d" "d_Name d1 = d_Name d" "list_all colOk (d_Columns d1)"
    and row: "\<And>r. r \<in> R table \<Longrightarrow> rowOk d1 r" and m': "described C table d1 m m'"
  shows "schemaRep C (cat(table \<mapsto> published d1)) m' R"
proof -
  note ok = schemaRepD(2) [OF rep d] and st = schemaRepD(3) [OF rep d] and u = schemaRepD(9) [OF rep d] and lD = layoutD [OF l(1)]
  have "schemaRep C (cat(table \<mapsto> published d1)) m' (R(table := R table))"
  proof (rule schemaRep_alter [OF rep d describedD(1) [OF m']])
    have "m' k = m k" if "prefix (tableSpace (d_ID d)) k" for k
      using describedD(2) [OF m', of k] that sys_keys_outside(1) [OF u] by auto
    then show "stores (published d1) (R table) m'"
      using stores_layout [OF l(1) [symmetric] st row] stores_cong [of d1 m' m] lD(1) by simp
    show "descOk (published d1)" by (rule descOk_layout [OF _ ok ordOk_published]) (use l in simp_all)
    show "m' k = m k" if "\<not> tableKey (d_ID d) k" "k \<noteq> descKey table" for k using describedD(2) [OF m' that(2)] .
    show "m' (identitySeqKey (d_ID d) j) = None" if "d_NextColID (published d1) \<le> j" for j
      using that schemaRepD(6) [OF rep d, of j] describedD(2) [OF m', of "identitySeqKey (d_ID d) j"] lD(5) by simp
  qed (use schemaRepD(4) [OF rep d] l(2) lD(1) in simp_all)
  then show ?thesis by simp
qed

text \<open>NOT NULL was set: no row has a NULL there, and only the descriptor changed.\<close>

abbreviation notNull :: "nat \<Rightarrow> tableDesc \<Rightarrow> tableDesc" where
  "notNull ord d \<equiv> setColumn ord (\<lambda>c. c\<lparr>c_NotNull := True\<rparr>) d"

definition notNullSet ::
  "descCodec \<Rightarrow> (string \<Rightarrow> tableDesc option) \<Rightarrow> (string \<Rightarrow> val list set) \<Rightarrow> string \<Rightarrow> tableDesc \<Rightarrow> string \<Rightarrow>
   (key \<Rightarrow> bytes option) \<Rightarrow> (key \<Rightarrow> bytes option) \<Rightarrow> bool" where
  "notNullSet C cat R table d column m m' \<longleftrightarrow>
     (\<exists>ord. ColIndex d column = Some ord \<and> (\<forall>r\<in>R table. r ! ord \<noteq> VNull) \<and>
        (if c_NotNull (d_Columns d ! ord) then m' = m
         else schemaRep C (cat(table \<mapsto> published (notNull ord d))) m' R \<and> (\<forall>k. k \<noteq> descKey table \<longrightarrow> m' k = m k)))"

lemma notNull_shape:
  assumes "ord < length (d_Columns d)"
  shows "layout (notNull ord d) = layout d" "d_Name (notNull ord d) = d_Name d" "list_all colOk (d_Columns d) \<Longrightarrow> list_all colOk (d_Columns (notNull ord d))"
    "rowOk d r \<Longrightarrow> r ! ord \<noteq> VNull \<Longrightarrow> rowOk (notNull ord d) r"
proof -
  have c: "d_Columns (notNull ord d) = (d_Columns d)[ord := (d_Columns d ! ord)\<lparr>c_NotNull := True\<rparr>]" "d_PKCols (notNull ord d) = d_PKCols d" "d_Name (notNull ord d) = d_Name d"
    by (simp_all add: setColumn_def clone_def)
  show "d_Name (notNull ord d) = d_Name d" by (rule c)
  have "map c_ID (d_Columns (notNull ord d)) = map c_ID (d_Columns d)" unfolding c map_update using assms by (simp add: list_update_same_conv)
  then show "layout (notNull ord d) = layout d" unfolding layout_def by (simp add: setColumn_def clone_def)
  show "list_all colOk (d_Columns d) \<Longrightarrow> list_all colOk (d_Columns (notNull ord d))"
    unfolding c list_all_length using assms by (auto simp: nth_list_update colOk_def)
  have m: "maxLenOk (x\<lparr>c_NotNull := True\<rparr>) v = maxLenOk x v" for x v by (cases v) (simp_all add: maxLenOk_def)
  show "rowOk d r \<Longrightarrow> r ! ord \<noteq> VNull \<Longrightarrow> rowOk (notNull ord d) r"
    unfolding rowOk_simps colValOk_def Let_def isPK_def c using assms by (auto simp: nth_list_update m)
qed

context engine_env
begin

lemma spec_setNotNull:
  assumes rep: "schemaRep (p_desc E) cat m R" and d: "cat table = Some d"
  shows "spec lmt m (onColumn column (setNotNullIn E table column) d :: (('db, 'z) engine_scheme \<times> 'tx, tableDesc option \<times> unit) act)
    (\<lambda>r m1. case r of Inl _ \<Rightarrow> True
     | Inr (d1, x) \<Rightarrow> (case d1 of None \<Rightarrow> notNullSet (p_desc E) cat R table d column m m1
        | Some d2 \<Rightarrow> (\<exists>ord. ColIndex d column = Some ord \<and> d2 = notNull ord d) \<and>
            (\<forall>m'. described (p_desc E) table d2 m1 m' \<longrightarrow> notNullSet (p_desc E) cat R table d column m m')))" (is "spec _ _ _ ?Q")
proof (cases "ColIndex d column")
  case None
  show ?thesis unfolding onColumn_def None option.case by (rule spec_pure) simp
next
  case (Some ord)
  note ok = schemaRepD(2) [OF rep d] and st = schemaRepD(3) [OF rep d]
  have ol: "ord < length (d_Columns d)" using Some by (auto simp: ColIndex_def firstPos_Some)
  have row: "colValOk d ord (r ! ord)" if "r \<in> R table" for r using storesD(1) [OF st that] ol by (simp add: rowOk_simps)
  let ?nn = "\<forall>r\<in>R table. r ! ord \<noteq> VNull" and ?c = "d_Columns d ! ord"
  show ?thesis
  proof (cases "c_NotNull ?c")
    case True
    then have "?nn" using row by (auto simp: colValOk_def Let_def)
    then have "notNullSet (p_desc E) cat R table d column m m" using Some True by (auto simp: notNullSet_def)
    then show ?thesis unfolding onColumn_def Some option.case setNotNullIn_def if_P [OF True] act_bind_pure by (intro spec_pure) simp
  next
    case False
    have pk: "isPK d ord \<Longrightarrow> ?nn" using row by (auto simp: colValOk_def Let_def)
    have chk: "spec lmt m (if isPK d ord then act_return True else act_bind (act_get (\<lambda>s. columnHasNoNulls (p_kv E) d (c_ID ?c) (snd s))) act_lift :: (('db, 'z) engine_scheme \<times> 'tx, bool) act)
      (\<lambda>r m1. r = Inr ?nn \<and> m1 = m)"
    proof (cases "isPK d ord")
      case True
      show ?thesis unfolding if_P [OF True] by (rule spec_pure) (use pk [OF True] in simp)
    next
      case npk: False
      show ?thesis unfolding if_not_P [OF npk]
        by (rule spec_bind [OF spec_get [where x = "Inr ?nn" and Q = "\<lambda>r m1. r = Inr (Inr ?nn) \<and> m1 = m"]])
          (use columnHasNoNulls_exact [OF _ ok _ ol npk] st in \<open>auto simp: ddlState_def intro!: spec_pure(3)\<close>)
    qed
    have done': "notNullSet (p_desc E) cat R table d column m m'" if "?nn" "described (p_desc E) table (notNull ord d) m m'" for m'
      unfolding notNullSet_def
      using that Some False schemaRep_descOnly [OF rep d notNull_shape(1,2) [OF ol] notNull_shape(3) [OF ol] _ that(2)]
        notNull_shape(4) [OF ol storesD(1) [OF st]] descOkD(9) [OF ok] describedD(2) [OF that(2)] by (auto simp: list_all_iff)
    show ?thesis unfolding onColumn_def Some option.case setNotNullIn_def if_not_P [OF False]
    proof (rule spec_bind [where P = "\<lambda>r m1. m1 = m \<and> (case r of Inl _ \<Rightarrow> True | Inr x \<Rightarrow> ?nn \<and> x = Some (notNull ord d))"], goal_cases)
      case 1
      show ?case
      proof (rule spec_bind [OF chk], goal_cases)
        case (1 x m1)
        then have x: "x = ?nn" "m1 = m" by simp_all
        show ?case
        proof (cases "?nn")
          case True
          then have "\<not> \<not> x" using x(1) by simp
          then show ?thesis unfolding if_not_P [OF \<open>\<not> \<not> x\<close>] x(2) by (intro spec_pure) (use True in simp)
        next
          case False
          then have "\<not> x" using x(1) by simp
          then show ?thesis unfolding if_P [OF \<open>\<not> x\<close>] x(2) by (intro spec_pure) simp
        qed
      qed simp
    next
      case (2 x m1)
      then have x: "x = Some (notNull ord d)" "m1 = m" "?nn" by simp_all
      show ?case unfolding x(1,2) by (rule spec_pure) (use Some done' [OF x(3)] in auto)
    qed simp
  qed
qed

lemma SetColumnNotNull_run:
  assumes e: "cacheOk (p_desc E) e" "dwf (e_kv e)" and rep: "schemaRep (p_desc E) cat (dcontent (e_kv e)) R" and d: "cat table = Some d"
    and c: "codecOk (p_desc E) good" "\<forall>ord. ColIndex d column = Some ord \<longrightarrow> good ((notNull ord d)\<lparr>d_FormatVersion := descFormatVersion\<rparr>)"
    and r: "SetColumnNotNull E table column e = (r, e')"
  shows "cacheOk (p_desc E) e' \<and> dwf (e_kv e') \<and>
    ddlDone (\<lambda>_. notNullSet (p_desc E) cat R table d column (dcontent (e_kv e))) (dcontent (e_kv e)) r (dcontent (e_kv e'))"
  by (rule alter_run [OF e rep d c(1) _ r [unfolded SetColumnNotNull_def]])
    (rule spec_conseq [OF spec_setNotNull [OF rep d]], use c(2) in \<open>auto split: sum.splits option.splits\<close>)

end

subsection \<open>Correctness\<close>

text \<open>C23. Adding a column extends every row and nothing else. After a success each row of the table has one more value:
  NULL without a DEFAULT, and then no row was rewritten; the value of the DEFAULT for the column's
  type; or, for an identity column, the row's number in key order, with the column's counter left
  just past the last number. A NOT NULL column without a value for existing rows, a backfill over the
  limit and a name in use are refused. A failure leaves the store as it was, unless only the commit
  failed after the whole change.\<close>

theorem add_column:
  assumes "engine_env E ok content dwf dcontent base written" "cacheOk (p_desc E) e" "dwf (e_kv e)"
    "schemaRep (p_desc E) cat (dcontent (e_kv e)) R" "cat table = Some d"
    "codecOk (p_desc E) good" "good ((withColumn col d)\<lparr>d_FormatVersion := descFormatVersion\<rparr>)"
    "d_NextColID d \<noteq> - 1" "card (R table) + 1 < 2 ^ 64" "AddColumn E table col e = (r, e')"
  shows "cacheOk (p_desc E) e' \<and> dwf (e_kv e') \<and>
    ddlDone (\<lambda>_. columnAdded E (e_backfillLimit e) cat R table d col (dcontent (e_kv e))) (dcontent (e_kv e)) r (dcontent (e_kv e'))"
  using engine_env.AddColumn_run [OF assms] .

definition serialCol :: column where
  "serialCol = \<lparr>c_Name = ''n'', c_Type = TInt, c_ID = 0, c_NotNull = True, c_Identity = True, c_Default = [], c_MaxLen = 0\<rparr>"

definition serialTable :: tableDesc where
  "serialTable = (withColumn serialCol usersDesc)\<lparr>d_FormatVersion := descFormatVersion\<rparr>"

theorem add_column_witness:
  "case AddColumn (peopleDeps [serialTable]) ''users'' serialCol peopleEngine of (r, e') \<Rightarrow>
     ddlDone (\<lambda>_ m'. columnAdded (peopleDeps [serialTable]) DefaultBackfillLimit peopleCat peopleRows ''users'' usersDesc serialCol (map_of peopleKv) m')
       (map_of peopleKv) r (map_of (e_kv e'))"
proof -
  obtain r e' where r: "AddColumn (peopleDeps [serialTable]) ''users'' serialCol peopleEngine = (r, e')" by fastforce
  have n: "d_NextColID usersDesc \<noteq> - 1" "card (peopleRows ''users'') + 1 < 2 ^ 64" by (simp_all add: usersDesc_ID card_insert_if)
  show ?thesis
    using add_column [OF memE.engine_env_axioms _ peopleEngine_ok(3) _ _ _ _ n(1) _ r, of peopleCat peopleRows "\<lambda>d. d \<in> set [sampleDesc, serialTable]"]
      peopleEngine_ok(1,2) people_schema [of "[serialTable]"] listCodec_ok [of "[sampleDesc, serialTable]"] n(2) r
    by (auto simp: serialTable_def openEngine_def)
qed

text \<open>C24. Dropping a column needs no rewrite. It is refused for a column of the primary key, of an index or of a foreign
  key on either side. After a success the stored bytes of every row are what they were, yet every row
  reads as itself without the column, the column's identity counter is gone, and the column's ID is
  not given out again, so its old data cannot come back.\<close>

theorem drop_column:
  assumes "engine_env E ok content dwf dcontent base written" "cacheOk (p_desc E) e" "dwf (e_kv e)"
    "schemaRep (p_desc E) cat (dcontent (e_kv e)) R" "cat table = Some d" "codecOk (p_desc E) good"
    "\<forall>ord. ColIndex d name = Some ord \<longrightarrow> good ((withoutColumn ord d)\<lparr>d_FormatVersion := descFormatVersion\<rparr>)"
    "DropColumn E table name e = (r, e')"
  shows "cacheOk (p_desc E) e' \<and> dwf (e_kv e') \<and>
    ddlDone (\<lambda>_. columnDropped (p_desc E) cat R table d name (dcontent (e_kv e))) (dcontent (e_kv e)) r (dcontent (e_kv e'))"
  using engine_env.DropColumn_run [OF assms] .

text \<open>The table of the first example alone in a store.\<close>

definition notesDesc :: tableDesc where "notesDesc = noteDesc\<lparr>d_ID := 100, d_FormatVersion := descFormatVersion\<rparr>"
definition shortDesc :: tableDesc where "shortDesc = (withoutColumn 1 (published notesDesc))\<lparr>d_FormatVersion := descFormatVersion\<rparr>"
definition notesKv :: alist where "notesKv = al_set seqKey (be64 101) (al_set (descKey ''notes'') [0] [])"

lemma notesKv_map: "map_of notesKv = [descKey ''notes'' \<mapsto> [0], seqKey \<mapsto> be64 101]" "al_sorted notesKv"
  by (simp_all add: notesKv_def del: al_set.simps)

lemma notes_schema: "schemaRep (listCodec [notesDesc, shortDesc]) [''notes'' \<mapsto> published notesDesc] (map_of notesKv) ((\<lambda>_. {})(''notes'' := {}))"
proof (rule schemaRep_add [OF empty_schema])
  have "clone notesDesc = notesDesc" "d_FormatVersion notesDesc = descFormatVersion" by code_simp+
  then show "tableAt (listCodec [notesDesc, shortDesc]) (map_of notesKv) ''notes'' = Inr (Some (published notesDesc))"
    by (simp add: tableAt_def notesKv_map parseDesc_def listCodec_def published_def notesDesc_def)
  show "descOk (published notesDesc)" "d_Name (published notesDesc) = ''notes''" by code_simp+
  show "\<exists>c'. counterVal (map_of notesKv) seqKey firstUserTableID = Inr c' \<and> c \<le> c' \<and> d_ID (published notesDesc) < c'"
    if "counterVal Map.empty seqKey firstUserTableID = Inr c" for c
    using that by (auto simp: counterVal_def notesKv_map notesDesc_def sys_ids)
qed (auto simp: stores_empty notesKv_map)

theorem drop_column_witness:
  "case DropColumn (memDeps (listCodec [notesDesc, shortDesc]) tupleSeqCodec noViewCodec) ''notes'' ''txt'' (openEngine notesKv False) of (r, e') \<Rightarrow>
     ddlDone (\<lambda>_. columnDropped (listCodec [notesDesc, shortDesc]) [''notes'' \<mapsto> published notesDesc] ((\<lambda>_. {})(''notes'' := {}))
       ''notes'' (published notesDesc) ''txt'' (map_of notesKv)) (map_of notesKv) r (map_of (e_kv e'))"
proof -
  let ?E = "memDeps (listCodec [notesDesc, shortDesc]) tupleSeqCodec noViewCodec"
  obtain r e' where r: "DropColumn ?E ''notes'' ''txt'' (openEngine notesKv False) = (r, e')" by fastforce
  have "ColIndex (published notesDesc) ''txt'' = Some 1" by code_simp
  then show ?thesis
    using drop_column [OF memE.engine_env_axioms _ _ _ _ _ _ r, of "[''notes'' \<mapsto> published notesDesc]" "(\<lambda>_. {})(''notes'' := {})"
        "published notesDesc" "\<lambda>d. d \<in> set [notesDesc, shortDesc]"]
      notesKv_map(2) notes_schema listCodec_ok [of "[notesDesc, shortDesc]"] r
    by (auto simp: shortDesc_def openEngine_def cacheOk_def)
qed

text \<open>C25. NOT NULL is set exactly on columns without NULLs. The scan that validates it reads stored pairs only, and reports
  whether every row has a value in the column. When the change succeeds no row of the table has a
  NULL there, only the descriptor changed, and the store represents the schema with the constraint;
  when it fails nothing changed, unless only the commit failed.\<close>

theorem set_not_null:
  assumes "engine_env E ok content dwf dcontent base written" "cacheOk (p_desc E) e" "dwf (e_kv e)"
    "schemaRep (p_desc E) cat (dcontent (e_kv e)) R" "cat table = Some d" "codecOk (p_desc E) good"
    "\<forall>ord. ColIndex d column = Some ord \<longrightarrow> good ((notNull ord d)\<lparr>d_FormatVersion := descFormatVersion\<rparr>)"
    "SetColumnNotNull E table column e = (r, e')"
  shows "(\<forall>t ord. ok t \<and> content t = dcontent (e_kv e) \<and> ord < length (d_Columns d) \<and> \<not> isPK d ord \<longrightarrow>
      columnHasNoNulls (p_kv E) d (c_ID (d_Columns d ! ord)) t = Inr (\<forall>r\<in>R table. r ! ord \<noteq> VNull)) \<and>
    cacheOk (p_desc E) e' \<and> dwf (e_kv e') \<and>
    ddlDone (\<lambda>_. notNullSet (p_desc E) cat R table d column (dcontent (e_kv e))) (dcontent (e_kv e)) r (dcontent (e_kv e'))"
  using engine_env.SetColumnNotNull_run [OF assms] engine_env.columnHasNoNulls_exact [OF assms(1) _ schemaRepD(2) [OF assms(4,5)], of _ "R table"]
    schemaRepD(3) [OF assms(4,5)] by auto

theorem set_not_null_witness:
  "case SetColumnNotNull (peopleDeps [(notNull 2 usersDesc)\<lparr>d_FormatVersion := descFormatVersion\<rparr>]) ''users'' ''age'' peopleEngine of (r, e') \<Rightarrow>
     map_of (e_kv e') = map_of peopleKv \<and> columnHasNoNulls memKv usersDesc 3 (mem_begin True peopleKv) = Inr False"
proof -
  let ?ds = "[(notNull 2 usersDesc)\<lparr>d_FormatVersion := descFormatVersion\<rparr>]"
  obtain r e' where r: "SetColumnNotNull (peopleDeps ?ds) ''users'' ''age'' peopleEngine = (r, e')" by fastforce
  have o: "ColIndex usersDesc ''age'' = Some 2" "length (d_Columns usersDesc) = 3" "\<not> isPK usersDesc 2" "c_ID (d_Columns usersDesc ! 2) = 3" by code_simp+
  have t: "mem_wf (mem_begin True peopleKv)" "mem_content (mem_begin True peopleKv) = map_of peopleKv"
    using peopleKv_map(2) by (simp_all add: mem_begin_def mem_wf_def mem_content_def mem_base_def saves_ok_def)
  have "\<not> notNullSet C cat peopleRows ''users'' usersDesc ''age'' m m'" for C cat m m'
    using o(1) by (auto simp: notNullSet_def rowBob_def)
  then show ?thesis
    using set_not_null [OF memE.engine_env_axioms _ peopleEngine_ok(3) _ _ _ _ r, of peopleCat peopleRows usersDesc "\<lambda>d. d \<in> set (sampleDesc # ?ds)"]
      peopleEngine_ok(1,2) people_schema [of ?ds] listCodec_ok [of "sampleDesc # ?ds"] r o t
    by (auto simp: ddlDone_def rowBob_def split: sum.splits dest!: spec [of _ "mem_begin True peopleKv"] spec [of _ 2])
qed

end
