(* ===== verification/IndexSim.thy ===== *)
theory IndexSim
  imports ColumnSim
begin

text \<open>
  Creating an index and adding a foreign key. A new index holds exactly the entries of the rows, and a
  unique one is accepted only when no two rows agree on its columns; a validated foreign key is
  accepted exactly when every row of the child references a row of the parent.
\<close>

subsection \<open>The new index\<close>

lemma nextIndexID_fresh:
  assumes "\<And>x. x \<in> set (d_Indexes d) \<Longrightarrow> x_ID x \<noteq> - 1"
  shows "nextIndexID d \<noteq> primaryIndexID" "nextIndexID d \<notin> x_ID ` set (d_Indexes d)"
proof -
  have step: "i \<le> fold (\<lambda>x i. if x_ID x \<ge> i then x_ID x + 1 else i) xs i \<and>
      (\<forall>x\<in>set xs. x_ID x < fold (\<lambda>x i. if x_ID x \<ge> i then x_ID x + 1 else i) xs i)" if "\<And>x. x \<in> set xs \<Longrightarrow> x_ID x \<noteq> - 1" for xs i
    using that
  proof (induction xs arbitrary: i)
    case (Cons x xs)
    have up: "x_ID x < x_ID x + 1" using less_plus1 [of "x_ID x" "x_ID x"] Cons.prems by simp
    show ?case
    proof (cases "x_ID x \<ge> i")
      case True
      then show ?thesis using Cons.IH [of "x_ID x + 1"] Cons.prems up by (auto intro: order.strict_trans2 less_imp_le order_trans)
    next
      case False
      then show ?thesis using Cons.IH [of i] Cons.prems by (auto intro: order.strict_trans2)
    qed
  qed simp
  note s = step [of "d_Indexes d" "primaryIndexID + 1", folded nextIndexID_def]
  have "primaryIndexID < primaryIndexID + 1" by code_simp
  moreover have "primaryIndexID + 1 \<le> nextIndexID d" using s assms by simp
  ultimately have "primaryIndexID < nextIndexID d" by (rule order.strict_trans2)
  then show "nextIndexID d \<noteq> primaryIndexID" by simp
  show "nextIndexID d \<notin> x_ID ` set (d_Indexes d)" using s assms by (metis imageE less_irrefl)
qed

lemma resolveIndexCols_ok:
  "resolveIndexCols d cs ords = Inr qs \<Longrightarrow> list_all (\<lambda>i. i < length (d_Columns d)) ords \<Longrightarrow>
   list_all (\<lambda>i. i < length (d_Columns d)) qs \<and> length qs = length ords + length cs"
proof (induction d cs ords rule: resolveIndexCols.induct)
  case (2 d c cs ords)
  then show ?case by (auto simp: ColIndex_def firstPos_Some split: option.splits if_splits)
qed simp

text \<open>The entries of the rows, in key order.\<close>

lemma entriesFor_rows:
  assumes d: "descOk d" "stores d R m" and x: "descOk (withIndex x d)"
    and xs: "set xs = {(k, v). prefix (tablePrefix (d_ID d)) k \<and> m k = Some v}" "sorted_wrt (<) (map fst xs)"
  shows "\<exists>rs. distinct rs \<and> set rs = R \<and> entriesFor (withIndex x d) x xs = Inr (map (\<lambda>r. (entryKey d x r, entryVal d x r)) rs)"
proof -
  note sk = sameRows_keys [OF sameRows_index(1) [of x d]]
  have row: "\<exists>r\<in>R. k = rowKeyOf d r \<and> v = rowBytes d m r" if "(k, v) \<in> set xs" for k v
  proof -
    have "k \<in> rowKeyOf d ` R" unfolding stores_rowKeys(1) [OF d, symmetric] using that xs(1) by auto
    then obtain r where "r \<in> R" "k = rowKeyOf d r" by blast
    then show ?thesis using that xs(1) storesD(3) [OF d(2)] by auto
  qed
  define g :: "key \<times> bytes \<Rightarrow> val list" where "g = (\<lambda>kv. SOME r. r \<in> R \<and> fst kv = rowKeyOf d r)"
  have g: "g (k, v) \<in> R \<and> k = rowKeyOf d (g (k, v)) \<and> v = rowBytes d m (g (k, v))" if "(k, v) \<in> set xs" for k v
  proof -
    have r: "g (k, v) \<in> R \<and> k = rowKeyOf d (g (k, v))" unfolding g_def using row [OF that] by (auto intro: someI2)
    moreover have "m (rowKeyOf d (g (k, v))) = Some v" using r that xs(1) by auto
    ultimately show ?thesis using storesD(3) [OF d(2), of "g (k, v)"] by simp
  qed
  have one: "res_bind (decodeRow (withIndex x d) k v) (\<lambda>row. res_bind (indexEntry (withIndex x d) x row) (\<lambda>(ek, ev, _). Inr (ek, ev))) =
      Inr (entryKey d x (g (k, v)), entryVal d x (g (k, v)))" if kv: "(k, v) \<in> set xs" for k v
  proof -
    let ?r = "g (k, v)"
    have r: "rowOk (withIndex x d) ?r" "holdsRow (withIndex x d) ?r v" using g [OF kv] storesD(1,3) [OF d(2)] unfolding sk by metis+
    have "decodeRow (withIndex x d) k v = Inr ?r"
      using decodeRow_holds [OF x _ r(2)] rowOkD(1) [OF r(1)] g [OF kv] unfolding sk by metis
    moreover have "indexEntry (withIndex x d) x ?r = Inr (entryKey d x ?r, entryVal d x ?r, enforced x ?r)"
      using indexEntry_of [OF x _ r(1), of x] unfolding sk by simp
    ultimately show ?thesis by simp
  qed
  have "entriesFor (withIndex x d) x ys = Inr (map (\<lambda>r. (entryKey d x r, entryVal d x r)) (map g ys))" if "set ys \<subseteq> set xs" for ys
    using that unfolding entriesFor_def by (induction ys) (auto simp: one)
  moreover have dk: "distinct (map fst xs)" using xs(2) strict_sorted_iff by auto
  have "inj_on g (set xs)" using g by (intro inj_onI) (metis prod.collapse)
  then have "distinct (map g xs)" using dk by (simp add: distinct_map)
  moreover have "set (map g xs) = R"
  proof
    show "set (map g xs) \<subseteq> R" using g by auto
    show "R \<subseteq> set (map g xs)"
    proof
      fix r
      assume r: "r \<in> R"
      have kv: "(rowKeyOf d r, rowBytes d m r) \<in> set xs" using storesD(3) [OF d(2) r] rowKeyOf_prefix [of d r] xs(1) by simp
      have "g (rowKeyOf d r, rowBytes d m r) = r" using g [OF kv] stores_rowKeys(2) [OF d] r unfolding inj_on_def by metis
      then show "r \<in> set (map g xs)" using kv by force
    qed
  qed
  ultimately show ?thesis by blast
qed

subsection \<open>Filling it\<close>

lemma entryKey_inj:
  assumes "descOk d" "stores d R m" "r \<in> R" "r' \<in> R" "entryKey d x r = entryKey d x r'" "\<not> (x_Unique x \<and> VNull \<notin> set (indexVals x r))"
  shows "r = r'"
  using assms(5,6) stores_pk_unique [OF assms(1-4)] unfolding entryKey_eq enforced_def by blast

context engine_env
begin

lemma spec_putEntries:
  fixes es :: "(key \<times> bytes) list"
  assumes ok: "(x_Unique x \<longrightarrow> distinct (map fst es) \<and> (\<forall>k\<in>fst ` set es. m k = None)) \<Longrightarrow> Q (Inr ()) (m ++ map_of (rev es))"
    and err: "\<And>er m'. Q (Inl er) m'"
  shows "spec lmt m (onTx (act_iter (\<lambda>(k, v). putEntry (p_kv E) x k v) es) :: (('db, 'z) engine_scheme \<times> 'tx, unit) act) Q"
  using ok
proof (induction es arbitrary: m)
  case Nil
  have "act_iter (\<lambda>(k, v). putEntry (p_kv E) x k v) [] = act_return ()" by (simp add: fun_eq_iff)
  then show ?case using Nil by (simp only: onTx_pure, intro spec_pure) simp
next
  case (Cons e es)
  obtain k v where e: "e = (k, v)" by (cases e)
  have eq: "act_iter (\<lambda>(k, v). putEntry (p_kv E) x k v) (e # es) = act_bind (putEntry (p_kv E) x k v) (\<lambda>_. act_iter (\<lambda>(k, v). putEntry (p_kv E) x k v) es)"
    by (simp add: fun_eq_iff e)
  have put: "spec lmt m (onTx (putEntry (p_kv E) x k v) :: (('db, 'z) engine_scheme \<times> 'tx, unit) act)
      (\<lambda>r m'. case r of Inl _ \<Rightarrow> True | Inr _ \<Rightarrow> (x_Unique x \<longrightarrow> m k = None) \<and> m' = m(k \<mapsto> v))"
  proof (rule spec_read)
    show "putEntry (p_kv E) x k v t = (if x_Unique x \<and> m k \<noteq> None then act_fail (Msg ''existing rows violate unique index'') else kv_Set (p_kv E) k v) t"
      if "wf t" "content t = m" for t using that by (auto simp: putEntry_def Contains act_fail_def)
    show "spec lmt m (onTx (if x_Unique x \<and> m k \<noteq> None then act_fail (Msg ''existing rows violate unique index'') else kv_Set (p_kv E) k v) :: (('db, 'z) engine_scheme \<times> 'tx, unit) act)
        (\<lambda>r m'. case r of Inl _ \<Rightarrow> True | Inr _ \<Rightarrow> (x_Unique x \<longrightarrow> m k = None) \<and> m' = m(k \<mapsto> v))"
    proof (cases "x_Unique x \<and> m k \<noteq> None")
      case True
      show ?thesis unfolding if_P [OF True] onTx_pure by (rule spec_pure) simp
    next
      case False
      show ?thesis unfolding if_not_P [OF False] by (rule spec_set) (use False in auto)
    qed
  qed
  have upd: "m(k \<mapsto> v) ++ map_of (rev es) = m ++ map_of (rev (e # es))"
    unfolding e by (auto simp: map_add_def fun_eq_iff split: option.splits)
  show ?case unfolding eq onTx_bind
  proof (rule spec_bind [OF put], goal_cases)
    case (1 y m')
    then have m': "m' = m(k \<mapsto> v)" "x_Unique x \<longrightarrow> m k = None" by simp_all
    show ?case unfolding m'(1)
      by (rule Cons.IH, unfold upd, rule Cons.prems) (use m'(2) in \<open>auto simp: e split: if_splits\<close>)
  qed (rule err)
qed

end

text \<open>
  An index was created: its columns exist, no two rows agree on the values of a unique one unless
  one is NULL, its key space holds exactly the entries of the rows, and no other key changed but the
  descriptor's.
\<close>

definition indexCreated ::
  "descCodec \<Rightarrow> (string \<Rightarrow> tableDesc option) \<Rightarrow> (string \<Rightarrow> val list set) \<Rightarrow> string \<Rightarrow> tableDesc \<Rightarrow> indexDesc \<Rightarrow>
   (key \<Rightarrow> bytes option) \<Rightarrow> (key \<Rightarrow> bytes option) \<Rightarrow> bool" where
  "indexCreated C cat R table d x m m' \<longleftrightarrow>
     (\<forall>r\<in>R table. \<forall>r'\<in>R table. x_Unique x \<and> indexVals x r = indexVals x r' \<and> VNull \<notin> set (indexVals x r) \<longrightarrow> r = r') \<and>
     schemaRep C (cat(table \<mapsto> published (withIndex x d))) m' R \<and>
     (\<forall>k. k \<noteq> descKey table \<and> \<not> prefix (indexPrefix (d_ID d) (x_ID x)) k \<longrightarrow> m' k = m k)"

lemma index_filled:
  assumes rep: "schemaRep C cat m R" and d: "cat table = Some d"
    and x: "x_ID x \<noteq> primaryIndexID" "x_ID x \<notin> x_ID ` set (d_Indexes d)" "x_Cols x \<noteq> []" "\<forall>i\<in>set (x_Cols x). i < length (d_Columns d)"
    and rs: "distinct rs" "set rs = R table" "x_Unique x \<Longrightarrow> distinct (map (entryKey d x) rs)"
    and m': "described C table (withIndex x d) (m ++ map_of (rev (map (\<lambda>r. (entryKey d x r, entryVal d x r)) rs))) m'"
  shows "indexCreated C cat R table d x m m'"
proof -
  note ok = schemaRepD(2) [OF rep d] and st = schemaRepD(3) [OF rep d] and u = schemaRepD(9) [OF rep d]
  let ?es = "map (\<lambda>r. (entryKey d x r, entryVal d x r)) rs" let ?m1 = "m ++ map_of (rev ?es)"
  have inj: "inj_on (entryKey d x) (R table)"
  proof (cases "x_Unique x")
    case True
    then show ?thesis using rs by (simp add: distinct_map)
  next
    case False
    then show ?thesis using entryKey_inj [OF ok st] by (intro inj_onI) blast
  qed
  then have dk: "distinct (map fst ?es)" using rs by (simp add: distinct_map o_def)
  have "map_of (rev ?es) = map_of ?es" by (subst map_of_inject_set) (simp_all only: rev_map [symmetric] distinct_rev set_rev dk)
  then have m1: "?m1 k = (case map_of ?es k of Some v \<Rightarrow> Some v | None \<Rightarrow> m k)" for k by (simp add: map_add_def)
  have at: "?m1 (entryKey d x r) = Some (entryVal d x r)" if "r \<in> R table" for r
    unfolding m1 using map_of_is_SomeI [OF dk, of "entryKey d x r" "entryVal d x r"] that rs(2) by auto
  have out: "?m1 k = m k" if "\<not> prefix (indexPrefix (d_ID d) (x_ID x)) k" for k
  proof -
    have "map_of ?es k = None" unfolding map_of_eq_None_iff using that entryKey_prefix [of d x] by auto
    then show ?thesis unfolding m1 by simp
  qed
  have cover: "\<exists>r\<in>R table. k = entryKey d x r" if k: "?m1 k = Some v" "prefix (indexPrefix (d_ID d) (x_ID x)) k" for k v
  proof (rule ccontr)
    assume "\<not> ?thesis"
    then have "map_of ?es k = None" unfolding map_of_eq_None_iff using rs(2) by auto
    then show False using k(1) stores_unused [OF ok st x(1,2) k(2)] unfolding m1 by simp
  qed
  have "stores (withIndex x d) (R table) ?m1" by (rule stores_withIndex [OF ok st x(1,2) at cover out])
  have "schemaRep C (cat(table \<mapsto> published (withIndex x d))) m' (R(table := R table))"
  proof (rule schemaRep_alter [OF rep d describedD(1) [OF m']])
    have "m' k = ?m1 k" if "prefix (tableSpace (d_ID d)) k" for k using describedD(2) [OF m', of k] that sys_keys_outside(1) [OF u] by auto
    then show "stores (published (withIndex x d)) (R table) m'"
      using \<open>stores (withIndex x d) (R table) ?m1\<close> stores_cong [of "withIndex x d" m' ?m1] by simp
    show "descOk (published (withIndex x d))" by (rule descOk_withIndex [OF ok x])
    show "m' k = m k" if "\<not> tableKey (d_ID d) k" "k \<noteq> descKey table" for k
      using describedD(2) [OF m' that(2)] out [of k] that(1) indexPrefix_space by (auto simp: tableKey_def)
    show "m' (identitySeqKey (d_ID d) j) = None" if "d_NextColID (published (withIndex x d)) \<le> j" for j
      using that schemaRepD(6) [OF rep d, of j] describedD(2) [OF m', of "identitySeqKey (d_ID d) j"] out [of "identitySeqKey (d_ID d) j"]
        indexPrefix_space sys_keys_outside(4) [OF u] by fastforce
  qed (use schemaRepD(4) [OF rep d] in simp_all)
  moreover have "r = r'" if "r \<in> R table" "r' \<in> R table" "x_Unique x" "indexVals x r = indexVals x r'" "VNull \<notin> set (indexVals x r)" for r r'
    using that inj by (auto simp: inj_on_def entryKey_eq enforced_def)
  ultimately show ?thesis unfolding indexCreated_def using describedD(2) [OF m'] out by auto
qed

lemma descOk_unpublished: "descOk (published d) \<Longrightarrow> d_ordByID d = None \<Longrightarrow> descOk d"
  by (simp add: descOk_def ordOk_def)

context engine_env
begin

lemma spec_createIndex:
  assumes rep: "schemaRep (p_desc E) cat m R" and d: "cat table = Some d" and cols: "cols \<noteq> []" and ids: "\<And>x. x \<in> set (d_Indexes d) \<Longrightarrow> x_ID x \<noteq> - 1"
  shows "spec lmt m (createIndexIn E name unique cols d :: (('db, 'z) engine_scheme \<times> 'tx, tableDesc option \<times> indexDesc) act)
    (\<lambda>r m1. case r of Inl _ \<Rightarrow> True
     | Inr (d1, x) \<Rightarrow> d1 = Some (withIndex x d) \<and> findIndex d name = None \<and> (\<exists>ords. resolveIndexCols d cols [] = Inr ords \<and> x = newIndex d name unique cols ords) \<and>
         (\<forall>m'. described (p_desc E) table (withIndex x d) m1 m' \<longrightarrow> indexCreated (p_desc E) cat R table d x m m'))" (is "spec _ _ _ ?Q")
proof (cases "findIndex d name = None")
  case False
  show ?thesis unfolding createIndexIn_def if_P [OF False] by (rule spec_pure) simp
next
  case nf: True
  note ok = schemaRepD(2) [OF rep d] and st = schemaRepD(3) [OF rep d]
  have nn: "\<not> findIndex d name \<noteq> None" using nf by simp
  show ?thesis unfolding createIndexIn_def if_not_P [OF nn] Let_def
  proof (rule spec_bind [OF spec_pure(3) [where Q = "\<lambda>r m1. r = resolveIndexCols d cols [] \<and> m1 = m"]], goal_cases)
    case (2 ords m1)
    let ?x = "newIndex d name unique cols ords"
    have o: "resolveIndexCols d cols [] = Inr ords" "m1 = m" using 2 by simp_all
    have xs: "x_Cols ?x \<noteq> []" "\<forall>i\<in>set (x_Cols ?x). i < length (d_Columns d)"
      using resolveIndexCols_ok [OF o(1)] cols by (auto simp: newIndex_def list_all_iff)
    have xi: "x_ID ?x \<noteq> primaryIndexID" "x_ID ?x \<notin> x_ID ` set (d_Indexes d)"
      using nextIndexID_fresh [of d] ids by (simp_all add: newIndex_def)
    have dx: "descOk (withIndex ?x d)" by (rule descOk_unpublished [OF descOk_withIndex [OF ok xi xs]]) (simp add: withIndex_def clone_def)
    have fold: "(clone d)\<lparr>d_Indexes := d_Indexes d @ [?x]\<rparr> = withIndex ?x d" by (simp add: withIndex_def)
    show ?case unfolding o(2) fold
    proof (rule spec_region [OF _ regionPrefixes(1) [of "d_ID d"]])
      let ?rg = "regionOf m (tablePrefix (d_ID d))"
      assume rg: "sorted_wrt (<) (map fst ?rg)" "set ?rg = {(k, v). prefix (tablePrefix (d_ID d)) k \<and> m k = Some v}"
      obtain rs where rs: "distinct rs" "set rs = R table" "entriesFor (withIndex ?x d) ?x ?rg = Inr (map (\<lambda>r. (entryKey d ?x r, entryVal d ?x r)) rs)"
        using entriesFor_rows [OF ok st dx rg(2,1)] by blast
      let ?es = "map (\<lambda>r. (entryKey d ?x r, entryVal d ?x r)) rs"
      have fill: "spec lmt m (onTx (fillIndex (p_kv E) (withIndex ?x d) ?x) :: (('db, 'z) engine_scheme \<times> 'tx, unit) act)
          (\<lambda>r m1. case r of Inl _ \<Rightarrow> True | Inr _ \<Rightarrow> (x_Unique ?x \<longrightarrow> distinct (map (entryKey d ?x) rs)) \<and> m1 = m ++ map_of (rev ?es))"
      proof (rule spec_read)
        show "fillIndex (p_kv E) (withIndex ?x d) ?x t = act_iter (\<lambda>(k, v). putEntry (p_kv E) ?x k v) ?es t" if "wf t" "content t = m" for t
          using tableRows_region [OF that, of "d_ID d"] rs(3) by (simp add: fillIndex_def)
      qed (rule spec_putEntries, auto simp: o_def)
      show "spec lmt m (act_bind (onTx (fillIndex (p_kv E) (withIndex ?x d) ?x)) (\<lambda>_. act_return (Some (withIndex ?x d), ?x)) :: (('db, 'z) engine_scheme \<times> 'tx, tableDesc option \<times> indexDesc) act) ?Q"
        by (rule spec_bind [OF fill], rule spec_pure)
          (use index_filled [OF rep d xi xs rs(1,2)] nf o(1) in auto)
    qed
  qed simp_all
qed

lemma CreateIndex_run:
  assumes e: "cacheOk (p_desc E) e" "dwf (e_kv e)" and rep: "schemaRep (p_desc E) cat (dcontent (e_kv e)) R" and d: "cat table = Some d"
    and c: "codecOk (p_desc E) good"
      "\<forall>ords. resolveIndexCols d cols [] = Inr ords \<longrightarrow> good ((withIndex (newIndex d name unique cols ords) d)\<lparr>d_FormatVersion := descFormatVersion\<rparr>)"
    and ids: "\<forall>x\<in>set (d_Indexes d). x_ID x \<noteq> - 1" and r: "CreateIndexCols E table name unique cols e = (r, e')"
  shows "cacheOk (p_desc E) e' \<and> dwf (e_kv e') \<and>
    ddlDone (\<lambda>x m'. findIndex d name = None \<and> x_Name x = name \<and> x_Unique x = unique \<and> indexCreated (p_desc E) cat R table d x (dcontent (e_kv e)) m')
      (dcontent (e_kv e)) r (dcontent (e_kv e'))"
proof (cases "name = [] \<or> cols = []")
  case True
  then have "e' = e" "\<exists>er. r = Inl er" using r by (auto simp: CreateIndexCols_def act_fail_def split: if_splits)
  then show ?thesis using e by (auto simp: ddlDone_def)
next
  case False
  obtain q e1 where q: "CheckMemory E e = (q, e1)" by fastforce
  have e1: "e_kv e1 = e_kv e" "e_descCache e1 = e_descCache e" "e_backfillLimit e1 = e_backfillLimit e"
    using q by (auto simp: CheckMemory_def split: if_splits prod.splits)
  have co: "cacheOk (p_desc E) e1" using e(1) e1 by (simp add: cacheOk_def)
  show ?thesis
  proof (cases q)
    case (Inl er)
    then have "r = Inl er" "e' = e1" using r q False by (auto simp: CreateIndexCols_def)
    then show ?thesis using e e1 co by (simp add: ddlDone_def)
  next
    case (Inr y)
    have run: "alterDesc E table (createIndexIn E name unique cols) e1 = (r, e')" using r q Inr False by (auto simp: CreateIndexCols_def)
    show ?thesis
      by (rule alter_run [OF co, unfolded e1, OF e(2) rep d c(1) _ run])
        (rule spec_conseq [OF spec_createIndex [OF rep d]], use c(2) ids False in \<open>auto simp: newIndex_def split: sum.splits option.splits\<close>)
  qed
qed

end

subsection \<open>Correctness\<close>

text \<open>C26. A new index holds exactly the table's rows. After a success the name was not in use, the store represents the schema
  with the index in the table's descriptor, so the index has one entry for each row and no other, no
  key outside the index and the descriptor changed, and for a unique index no two rows agree on
  columns without NULL. A failure, a duplicate among them, leaves the store as it was, unless only
  the commit failed after the whole change.\<close>

theorem create_index:
  assumes "engine_env E ok content dwf dcontent base written" "cacheOk (p_desc E) e" "dwf (e_kv e)"
    "schemaRep (p_desc E) cat (dcontent (e_kv e)) R" "cat table = Some d" "codecOk (p_desc E) good"
    "\<forall>ords. resolveIndexCols d cols [] = Inr ords \<longrightarrow> good ((withIndex (newIndex d name unique cols ords) d)\<lparr>d_FormatVersion := descFormatVersion\<rparr>)"
    "\<forall>x\<in>set (d_Indexes d). x_ID x \<noteq> - 1" "CreateIndexCols E table name unique cols e = (r, e')"
  shows "cacheOk (p_desc E) e' \<and> dwf (e_kv e') \<and>
    ddlDone (\<lambda>x m'. findIndex d name = None \<and> x_Name x = name \<and> x_Unique x = unique \<and> indexCreated (p_desc E) cat R table d x (dcontent (e_kv e)) m')
      (dcontent (e_kv e)) r (dcontent (e_kv e'))"
  using engine_env.CreateIndex_run [OF assms] .

definition agesIndex :: indexDesc where
  "agesIndex = newIndex usersDesc ''ages'' True [\<lparr>ic_Name = ''age'', ic_Desc = True\<rparr>] [2]"

definition agesTable :: tableDesc where
  "agesTable = (withIndex agesIndex usersDesc)\<lparr>d_FormatVersion := descFormatVersion\<rparr>"

theorem create_index_witness:
  "case CreateIndexCols (peopleDeps [agesTable]) ''users'' ''ages'' True [\<lparr>ic_Name = ''age'', ic_Desc = True\<rparr>] peopleEngine of (r, e') \<Rightarrow>
     ddlDone (\<lambda>x. indexCreated (listCodec [sampleDesc, agesTable]) peopleCat peopleRows ''users'' usersDesc x (map_of peopleKv))
       (map_of peopleKv) r (map_of (e_kv e'))"
proof -
  let ?c = "[\<lparr>ic_Name = ''age'', ic_Desc = True\<rparr>]"
  obtain r e' where r: "CreateIndexCols (peopleDeps [agesTable]) ''users'' ''ages'' True ?c peopleEngine = (r, e')" by fastforce
  have i: "resolveIndexCols usersDesc ?c [] = Inr [2]" "\<forall>x\<in>set (d_Indexes usersDesc). x_ID x \<noteq> - 1" by code_simp+
  show ?thesis
    using create_index [OF memE.engine_env_axioms _ peopleEngine_ok(3) _ _ _ _ i(2) r, of peopleCat peopleRows "\<lambda>d. d \<in> set [sampleDesc, agesTable]"]
      peopleEngine_ok(1,2) people_schema [of "[agesTable]"] listCodec_ok [of "[sampleDesc, agesTable]"] i(1) r
    by (auto simp: agesTable_def agesIndex_def ddlDone_def split: sum.splits)
qed

end
