(* ===== verification/FkSim.thy ===== *)
theory FkSim
  imports IndexSim
begin

text \<open>
  What adding a foreign key validates (\<open>AddForeignKey\<close> of \<open>src/fk.go\<close>): the key tuples of the child's rows
  are compared as encoded bytes, and that comparison is equality of the tuples.
\<close>

subsection \<open>Folding over the rows of a table\<close>

lemma scanLoop_untilErr:
  "scanLoop (\<lambda>(k, v). act_lift (decodeRow d k v)) (untilErr f) kvs (Inr c, t) =
   (res_fold (\<lambda>(k, v) c. res_bind (decodeRow d k v) (\<lambda>row. f row c)) kvs c, t)"
proof (induction kvs arbitrary: c)
  case (Cons kv kvs)
  obtain k v where kv: "kv = (k, v)" by (cases kv)
  show ?case using Cons.IH
    by (cases "decodeRow d k v"; cases "res_bind (decodeRow d k v) (\<lambda>row. f row c)") (auto simp: kv untilErr_def act_lift_def)
qed simp

lemma foldRows_run:
  "foldRows K L d f c t =
     (let t' = kv_MarkReadRange K (tablePrefix (d_ID d)) (prefixEndKey (tablePrefix (d_ID d))) t
      in (res_fold (\<lambda>(k, v) c. res_bind (decodeRow d k v) (\<lambda>row. f row c)) (tableRows K (d_ID d) t') c, t'))"
  by (simp add: foldRows_def scanRows_def scanBounded_def orBound_def Let_def scanLoop_untilErr)

lemma res_fold_map: "res_fold f (map g xs) s = res_fold (\<lambda>x. f (g x)) xs s"
  by (induction xs arbitrary: s) (auto simp: res_bind_def split: sum.splits)

lemma res_fold_cong: "(\<And>x s. x \<in> set xs \<Longrightarrow> f x s = g x s) \<Longrightarrow> res_fold f xs s = res_fold g xs s"
  by (induction xs arbitrary: s) (auto simp: res_bind_def split: sum.splits)

context engine_env
begin

lemma foldRows_rows:
  assumes t: "wf t" "content t = m" and d: "descOk d" and st: "stores d R m"
  shows "\<exists>rows t'. set rows = R \<and> (\<forall>c. foldRows (p_kv E) L d f c t = (res_fold f rows c, t')) \<and> wf t' \<and> content t' = m \<and> base t' = base t \<and>
    kv_Writable (p_kv E) t' = kv_Writable (p_kv E) t"
proof -
  let ?t = "kv_MarkReadRange (p_kv E) (tablePrefix (d_ID d)) (prefixEndKey (tablePrefix (d_ID d))) t"
  have w: "wf ?t" "content ?t = m" "base ?t = base t" "kv_Writable (p_kv E) ?t = kv_Writable (p_kv E) t"
    using t base_Mark rw_Mark by auto
  have n: "pkBound L d None = Inr None" by (simp add: pkBound_def keyBound_def)
  obtain rows where r: "tableRows (p_kv E) (d_ID d) ?t = map (\<lambda>r. (rowKeyOf d r, rowBytes d m r)) rows" "set rows = R"
    using scan_table [OF d _ w(1) n n, of R False] st w(2) by (auto simp: loKey_def hiKey_def aboveLo_def belowHi_def)
  have "foldRows (p_kv E) L d f c t = (res_fold f rows c, ?t)" for c
    unfolding foldRows_run Let_def r(1) res_fold_map prod.case
    by (intro arg_cong [where f = "\<lambda>x. (x, ?t)"] res_fold_cong) (simp add: r(2) decodeRow_stored [OF d st])
  then show ?thesis using w r(2) by blast
qed

end

subsection \<open>Key tuples\<close>

text \<open>The values of a row at some ordinals, and whether one of them is NULL.\<close>

abbreviation valsAt :: "nat list \<Rightarrow> val list \<Rightarrow> val list" where
  "valsAt ords r \<equiv> map ((!) r) ords"

lemma keyTuple_eq:
  "\<forall>i\<in>set ords. i < length r \<Longrightarrow> keyTuple (map Some ords) r = Inr (if VNull \<in> set (valsAt ords r) then None else Some (valsAt ords r))"
  by (induction ords) (auto simp: not_le)

lemma encodedKey_eq:
  assumes "rowOk d r" "\<forall>i\<in>set ords. i < length (d_Columns d)"
  shows "encodedKey (map Some ords) r = Inr (if VNull \<in> set (valsAt ords r) then None else Some (encTup (valsAt ords r)))"
proof -
  have l: "\<forall>i\<in>set ords. i < length r" and n: "list_all normalVal (valsAt ords r)"
    using assms by (auto simp: rowOk_simps list_all_iff)
  show ?thesis using mustEncode_key [OF n] by (simp add: encodedKey_def keyTuple_eq [OF l])
qed

lemma encTup_inj: "encTup us = encTup vs \<longleftrightarrow> us = vs"
  using encTup_prefix_iff [of us vs] encTup_prefix_iff [of vs us] prefix_order.antisym by auto

text \<open>Every row of the child has a NULL in the foreign key, or a row of the parent with its values.\<close>

definition refsHold :: "nat list \<Rightarrow> val list set \<Rightarrow> nat list \<Rightarrow> val list set \<Rightarrow> bool" where
  "refsHold cols R ords P \<longleftrightarrow> (\<forall>r\<in>R. VNull \<in> set (valsAt cols r) \<or> (\<exists>q\<in>P. valsAt ords q = valsAt cols r))"

lemma collect_keys:
  assumes "\<And>r. r \<in> set rows \<Longrightarrow> encodedKey ks r = Inr (if VNull \<in> set (valsAt ords r) then None else Some (encTup (valsAt ords r)))"
  shows "\<exists>keys. res_fold (\<lambda>row keys. res_bind (encodedKey ks row) (\<lambda>kb. Inr (case kb of None \<Rightarrow> keys | Some b \<Rightarrow> b # keys))) rows acc = Inr keys \<and>
    set keys = set acc \<union> {encTup (valsAt ords r) | r. r \<in> set rows \<and> VNull \<notin> set (valsAt ords r)}"
  using assms
proof (induction rows arbitrary: acc)
  case (Cons r rows)
  let ?acc = "if VNull \<in> set (valsAt ords r) then acc else encTup (valsAt ords r) # acc"
  obtain keys where "res_fold (\<lambda>row keys. res_bind (encodedKey ks row) (\<lambda>kb. Inr (case kb of None \<Rightarrow> keys | Some b \<Rightarrow> b # keys))) rows ?acc = Inr keys"
    "set keys = set ?acc \<union> {encTup (valsAt ords r) | r. r \<in> set rows \<and> VNull \<notin> set (valsAt ords r)}"
    using Cons.IH [of ?acc] Cons.prems by auto
  then show ?case using Cons.prems [of r] by (intro exI [of _ keys]) (auto split: if_splits)
qed simp

lemma check_keys:
  assumes "\<And>r. r \<in> set rows \<Longrightarrow> encodedKey ks r = Inr (if VNull \<in> set (valsAt cols r) then None else Some (encTup (valsAt cols r)))"
  shows "res_fold (\<lambda>row _. res_bind (encodedKey ks row) (\<lambda>kb. case kb of None \<Rightarrow> Inr () | Some b \<Rightarrow> if b \<in> K then Inr () else Inl er)) rows () =
    (if \<forall>r\<in>set rows. VNull \<in> set (valsAt cols r) \<or> encTup (valsAt cols r) \<in> K then Inr () else Inl er)"
  using assms by (induction rows) auto

context engine_env
begin

lemma validateExistingRefs_exact:
  assumes t: "wf t" "content t = m" and d: "descOk d" "stores d R m" and p: "descOk p" "stores p P m"
    and fk: "\<forall>i\<in>set (fk_Cols fk). i < length (d_Columns d)" "map (ColIndex p) (fk_RefCols fk) = map Some ords"
  shows "\<exists>t'. validateExistingRefs (p_kv E) L d p fk t = (if refsHold (fk_Cols fk) R ords P then Inr () else Inl (danglingErr d fk), t') \<and>
    wf t' \<and> content t' = m \<and> base t' = base t \<and> kv_Writable (p_kv E) t' = kv_Writable (p_kv E) t"
proof -
  let ?f = "\<lambda>row keys. res_bind (encodedKey (map Some ords) row) (\<lambda>kb. Inr (case kb of None \<Rightarrow> keys | Some b \<Rightarrow> b # keys))"
  have o: "\<forall>i\<in>set ords. i < length (d_Columns p)"
  proof
    fix i assume "i \<in> set ords"
    then have "Some i \<in> set (map (ColIndex p) (fk_RefCols fk))" unfolding fk(2) by simp
    then show "i < length (d_Columns p)" by (auto simp: ColIndex_def firstPos_Some dest: sym)
  qed
  obtain qs t1 where q: "set qs = P" "\<forall>c. foldRows (p_kv E) L p ?f c t = (res_fold ?f qs c, t1)"
    and t1: "wf t1" "content t1 = m" "base t1 = base t" "kv_Writable (p_kv E) t1 = kv_Writable (p_kv E) t"
    using foldRows_rows [OF t p, of L ?f] by blast
  obtain keys where k: "res_fold ?f qs [] = Inr keys" "set keys = {encTup (valsAt ords r) | r. r \<in> P \<and> VNull \<notin> set (valsAt ords r)}"
    using collect_keys [of qs "map Some ords" ords "[]"] encodedKey_eq [OF storesD(1) [OF p(2)] o] q(1) by auto
  let ?g = "\<lambda>row (_ :: unit). res_bind (encodedKey (map Some (fk_Cols fk)) row) (\<lambda>kb.
      case kb of None \<Rightarrow> Inr () | Some b \<Rightarrow> if b \<in> set keys then Inr () else Inl (danglingErr d fk))"
  obtain rs t2 where r: "set rs = R" "\<forall>c. foldRows (p_kv E) L d ?g c t1 = (res_fold ?g rs c, t2)"
    and t2: "wf t2" "content t2 = m" "base t2 = base t1" "kv_Writable (p_kv E) t2 = kv_Writable (p_kv E) t1"
    using foldRows_rows [OF t1(1,2) d, of L ?g] by blast
  have mem: "encTup (valsAt (fk_Cols fk) x) \<in> set keys \<longleftrightarrow> (\<exists>y\<in>P. valsAt ords y = valsAt (fk_Cols fk) x)" if "VNull \<notin> set (valsAt (fk_Cols fk) x)" for x
    unfolding k(2) mem_Collect_eq encTup_inj using that by metis
  have "refsHold (fk_Cols fk) R ords P \<longleftrightarrow> (\<forall>r\<in>set rs. VNull \<in> set (valsAt (fk_Cols fk) r) \<or> encTup (valsAt (fk_Cols fk) r) \<in> set keys)"
    unfolding refsHold_def r(1) using mem by blast
  then have "res_fold ?g rs () = (if refsHold (fk_Cols fk) R ords P then Inr () else Inl (danglingErr d fk))"
    using check_keys [of rs "map Some (fk_Cols fk)" "fk_Cols fk" "set keys" "danglingErr d fk"] encodedKey_eq [OF storesD(1) [OF d(2)] fk(1)] r(1) by metis
  then show ?thesis unfolding validateExistingRefs_def fk(2) act_bind_def q(2) [rule_format] k(1) using r(2) t1 t2 by auto
qed

end

text \<open>A foreign key was added: its parent exists, its shape was resolved, the rows refer when asked, and only the descriptor changed.\<close>

abbreviation withFK :: "fkDesc \<Rightarrow> tableDesc \<Rightarrow> tableDesc" where
  "withFK fk d \<equiv> (clone d)\<lparr>d_ForeignKeys := d_ForeignKeys d @ [fk]\<rparr>"

definition fkAdded ::
  "descCodec \<Rightarrow> (string \<Rightarrow> tableDesc option) \<Rightarrow> (string \<Rightarrow> val list set) \<Rightarrow> string \<Rightarrow> tableDesc \<Rightarrow> fkDesc \<Rightarrow> bool \<Rightarrow>
   (key \<Rightarrow> bytes option) \<Rightarrow> (key \<Rightarrow> bytes option) \<Rightarrow> bool" where
  "fkAdded C cat R table d fk0 validateRows m m' \<longleftrightarrow>
     (\<exists>p fk ords. cat (fk_RefTable fk0) = Some p \<and> resolveFK d p fk0 = Inr fk \<and> map (ColIndex p) (fk_RefCols fk) = map Some ords \<and>
        length ords = length (fk_Cols fk) \<and> uniqueKeyCovers p (fk_RefCols fk) \<and>
        (validateRows \<longrightarrow> refsHold (fk_Cols fk) (R table) ords (R (fk_RefTable fk0))) \<and>
        schemaRep C (cat(table \<mapsto> published (withFK fk d))) m' R \<and> (\<forall>k. k \<noteq> descKey table \<longrightarrow> m' k = m k))"

lemma checkRefTypes_ok:
  "checkRefTypes d p ps = Inr () \<Longrightarrow> \<exists>ords. map (\<lambda>x. ColIndex p (snd x)) ps = map Some ords"
proof (induction d p ps rule: checkRefTypes.induct)
  case (2 d p i name ps)
  then obtain o' ords where "ColIndex p name = Some o'" "map (\<lambda>x. ColIndex p (snd x)) ps = map Some ords"
    by (fastforce split: option.splits if_splits)
  then have "map (\<lambda>x. ColIndex p (snd x)) ((i, name) # ps) = map Some (o' # ords)" by simp
  then show ?case by blast
qed simp

lemma resolveFK_ok:
  assumes "resolveFK d p fk0 = Inr fk"
  shows "\<exists>ords. map (ColIndex p) (fk_RefCols fk) = map Some ords \<and> length ords = length (fk_Cols fk)" "fk_Cols fk = fk_Cols fk0" "fk_RefTable fk = fk_RefTable fk0"
    "uniqueKeyCovers p (fk_RefCols fk)"
proof -
  have f: "fk_Cols fk = fk_Cols fk0" "fk_RefTable fk = fk_RefTable fk0" "uniqueKeyCovers p (fk_RefCols fk)" "length (fk_RefCols fk) = length (fk_Cols fk)"
    "checkRefTypes d p (zip (fk_Cols fk) (fk_RefCols fk)) = Inr ()"
    using assms by (auto simp: resolveFK_def Let_def split: if_splits)
  obtain ords where o: "map (\<lambda>x. ColIndex p (snd x)) (zip (fk_Cols fk) (fk_RefCols fk)) = map Some ords" using checkRefTypes_ok [OF f(5)] by blast
  have "map (\<lambda>x. ColIndex p (snd x)) (zip (fk_Cols fk) (fk_RefCols fk)) = map (ColIndex p) (map snd (zip (fk_Cols fk) (fk_RefCols fk)))" by simp
  also have "\<dots> = map (ColIndex p) (fk_RefCols fk)" using f(4) by (simp only: map_snd_zip)
  finally have e: "map (ColIndex p) (fk_RefCols fk) = map Some ords" using o by simp
  then have "length ords = length (fk_Cols fk)" using f(4) by (metis length_map)
  then show "\<exists>ords. map (ColIndex p) (fk_RefCols fk) = map Some ords \<and> length ords = length (fk_Cols fk)" using e by blast
qed (use assms in \<open>auto simp: resolveFK_def Let_def split: if_splits\<close>)

lemma fkAddedI:
  assumes rep: "schemaRep C cat m R" and d: "cat table = Some d" and p: "cat (fk_RefTable fk0) = Some p" and fk: "resolveFK d p fk0 = Inr fk"
    and o: "map (ColIndex p) (fk_RefCols fk) = map Some ords" "length ords = length (fk_Cols fk)"
    and v: "validateRows \<Longrightarrow> refsHold (fk_Cols fk) (R table) ords (R (fk_RefTable fk0))" and m': "described C table (withFK fk d) m m'"
  shows "fkAdded C cat R table d fk0 validateRows m m'"
proof -
  note ok = schemaRepD(2) [OF rep d] and st = schemaRepD(3) [OF rep d]
  have c: "d_Columns (withFK fk d) = d_Columns d" "d_PKCols (withFK fk d) = d_PKCols d" "d_Name (withFK fk d) = d_Name d" "layout (withFK fk d) = layout d"
    by (simp_all add: clone_def layout_def)
  have "rowOk (withFK fk d) r" if "r \<in> R table" for r
    using storesD(1) [OF st that] unfolding rowOk_simps colValOk_def isPK_def c .
  then have "schemaRep C (cat(table \<mapsto> published (withFK fk d))) m' R"
    by (intro schemaRep_descOnly [OF rep d c(4,3) _ _ m']) (use descOkD(9) [OF ok] c(1) in \<open>simp_all add: list_all_iff\<close>)
  then show ?thesis unfolding fkAdded_def using p fk o v resolveFK_ok(4) [OF fk] describedD(2) [OF m'] by blast
qed

context engine_env
begin

lemma spec_validateRefs:
  assumes rep: "schemaRep (p_desc E) cat m R" and d: "cat table = Some d" and p: "cat ref = Some p"
    and fk: "\<forall>i\<in>set (fk_Cols fk). i < length (d_Columns d)" "map (ColIndex p) (fk_RefCols fk) = map Some ords"
  shows "spec lmt m (onTx (validateExistingRefs (p_kv E) (p_lib E) d p fk) :: (('db, 'z) engine_scheme \<times> 'tx, unit) act)
    (\<lambda>r m1. m1 = m \<and> r = (if refsHold (fk_Cols fk) (R table) ords (R ref) then Inr () else Inl (danglingErr d fk)))"
proof (rule spec_onTx)
  note ok = schemaRepD(2) [OF rep d] and st = schemaRepD(3) [OF rep d] and okp = schemaRepD(2) [OF rep p] and stp = schemaRepD(3) [OF rep p]
  show "\<exists>r t'. validateExistingRefs (p_kv E) (p_lib E) d p fk t = (r, t') \<and> wf t' \<and> kv_Writable (p_kv E) t' \<and>
      content t' = m \<and> r = (if refsHold (fk_Cols fk) (R table) ords (R ref) then Inr () else Inl (danglingErr d fk))"
    if "wf t" "kv_Writable (p_kv E) t" "content t = m" for t
    using validateExistingRefs_exact [OF that(1,3) ok st okp stp fk, of "p_lib E"] that(2) by metis
  show "act_keeps (txOn b) (validateExistingRefs (p_kv E) (p_lib E) d p fk)" for b
    unfolding validateExistingRefs_def by (rule act_keeps_bind) (auto simp: act_keeps_def foldRows_run Let_def base_Mark)
qed

lemma spec_addForeignKey:
  assumes rep: "schemaRep (p_desc E) cat m R" and d: "cat table = Some d"
  shows "spec lmt m (addForeignKeyIn E table fk0 validateRows d :: (('db, 'z) engine_scheme \<times> 'tx, tableDesc option \<times> unit) act)
    (\<lambda>r m1. case r of Inl _ \<Rightarrow> True
     | Inr (d1, _) \<Rightarrow> \<exists>p fk. cat (fk_RefTable fk0) = Some p \<and> resolveFK d p fk0 = Inr fk \<and> d1 = Some (withFK fk d) \<and>
         (\<forall>m'. described (p_desc E) table (withFK fk d) m1 m' \<longrightarrow> fkAdded (p_desc E) cat R table d fk0 validateRows m m'))" (is "spec _ _ _ ?Q")
proof (cases "list_ex (\<lambda>c. chk_Name c = fk_Name fk0) (d_Checks d) \<or> list_ex (\<lambda>f. fk_Name f = fk_Name fk0) (d_ForeignKeys d)")
  case True
  show ?thesis unfolding addForeignKeyIn_def if_P [OF True] by (rule spec_pure) simp
next
  case n1: False
  show ?thesis
  proof (cases "list_ex (\<lambda>ord. ord \<ge> length (d_Columns d)) (fk_Cols fk0)")
    case True
    show ?thesis unfolding addForeignKeyIn_def if_not_P [OF n1] if_P [OF True] by (rule spec_pure) simp
  next
    case n2: False
    have cols: "\<forall>i\<in>set (fk_Cols fk0). i < length (d_Columns d)" using n2 by (auto simp: list_ex_iff)
    have par: "spec lmt m (if fk_RefTable fk0 = table then act_return d
        else act_bind (tableFromView E (fk_RefTable fk0)) (\<lambda>p. case p of None \<Rightarrow> act_fail noTable | Some d \<Rightarrow> act_return d) :: (('db, 'z) engine_scheme \<times> 'tx, tableDesc) act)
      (\<lambda>r m1. m1 = m \<and> (case r of Inl _ \<Rightarrow> True | Inr p \<Rightarrow> cat (fk_RefTable fk0) = Some p))"
    proof (cases "fk_RefTable fk0 = table")
      case True
      show ?thesis unfolding if_P [OF True] by (rule spec_pure) (use True d in simp)
    next
      case False
      show ?thesis unfolding if_not_P [OF False]
        by (rule spec_bind [OF spec_table [where Q = "\<lambda>r m1. r = Inr (cat (fk_RefTable fk0)) \<and> m1 = m"]])
          (use schemaRepD(1) [OF rep, of "fk_RefTable fk0"] in \<open>auto intro!: spec_pure split: option.splits\<close>)
    qed
    show ?thesis unfolding addForeignKeyIn_def if_not_P [OF n1] if_not_P [OF n2]
    proof (rule spec_bind [OF par], goal_cases)
      case (1 p m1)
      then have p: "m1 = m" "cat (fk_RefTable fk0) = Some p" by simp_all
      show ?case unfolding p(1)
      proof (rule spec_bind [OF spec_pure(3) [where Q = "\<lambda>r m1. r = resolveFK d p fk0 \<and> m1 = m"]], goal_cases)
        case (2 fk m2)
        then have fk: "resolveFK d p fk0 = Inr fk" "m2 = m" by simp_all
        obtain ords where o: "map (ColIndex p) (fk_RefCols fk) = map Some ords" "length ords = length (fk_Cols fk)" using resolveFK_ok(1) [OF fk(1)] by blast
        have val: "spec lmt m (if validateRows then onTx (validateExistingRefs (p_kv E) (p_lib E) d p fk) else act_return () :: (('db, 'z) engine_scheme \<times> 'tx, unit) act)
          (\<lambda>r m1. m1 = m \<and> (case r of Inl _ \<Rightarrow> True | Inr _ \<Rightarrow> validateRows \<longrightarrow> refsHold (fk_Cols fk) (R table) ords (R (fk_RefTable fk0))))"
        proof (cases validateRows)
          case True
          show ?thesis unfolding if_P [OF True]
            by (rule spec_conseq [OF spec_validateRefs [OF rep d p(2) _ o(1)]]) (use cols resolveFK_ok(2) [OF fk(1)] in \<open>auto split: if_splits\<close>)
        next
          case False
          show ?thesis unfolding if_not_P [OF False] by (rule spec_pure) (use False in simp)
        qed
        show ?case unfolding fk(2)
          by (rule spec_bind [OF val], rule spec_pure) (use p(2) fk(1) fkAddedI [OF rep d p(2) fk(1) o] in auto)
      qed simp_all
    qed simp
  qed
qed

lemma AddForeignKey_run:
  assumes e: "cacheOk (p_desc E) e" "dwf (e_kv e)" and rep: "schemaRep (p_desc E) cat (dcontent (e_kv e)) R" and d: "cat table = Some d"
    and c: "codecOk (p_desc E) good"
      "\<forall>p fk'. cat (fk_RefTable fk) = Some p \<and> resolveFK d p fk = Inr fk' \<longrightarrow> good ((withFK fk' d)\<lparr>d_FormatVersion := descFormatVersion\<rparr>)"
    and r: "AddForeignKey E table fk validateRows e = (r, e')"
  shows "cacheOk (p_desc E) e' \<and> dwf (e_kv e') \<and>
    ddlDone (\<lambda>_. fkAdded (p_desc E) cat R table d fk validateRows (dcontent (e_kv e))) (dcontent (e_kv e)) r (dcontent (e_kv e'))"
proof (cases "fk_Name fk = [] \<or> fk_Cols fk = [] \<or> fk_OnDelete fk \<noteq> [] \<and> fk_OnDelete fk \<noteq> FKCascade")
  case True
  then have "e' = e" "\<exists>er. r = Inl er" using r by (auto simp: AddForeignKey_def act_fail_def split: if_splits)
  then show ?thesis using e by (auto simp: ddlDone_def)
next
  case False
  then have run: "alterDesc E table (addForeignKeyIn E table fk validateRows) e = (r, e')" using r by (auto simp: AddForeignKey_def split: if_splits)
  show ?thesis
    by (rule alter_run [OF e rep d c(1) _ run])
      (rule spec_conseq [OF spec_addForeignKey [OF rep d]], use c(2) in \<open>auto split: sum.splits option.splits\<close>)
qed

end

subsection \<open>Correctness\<close>

text \<open>C27. A validated foreign key holds of the stored rows. The validation reads both tables and succeeds exactly when every row
  of the child has a NULL in the referencing columns or finds a row of the parent with the same
  values, though it compares encoded bytes; it changes nothing stored. When adding the key succeeds
  the parent exists and has a unique key over the referenced columns, the rows passed the validation
  if it was asked for, only the descriptor changed, and the store represents the schema with the
  key; a failure leaves the store as it was, unless only the commit failed after the whole change.\<close>

theorem add_foreign_key:
  assumes "engine_env E ok content dwf dcontent base written" "cacheOk (p_desc E) e" "dwf (e_kv e)"
    "schemaRep (p_desc E) cat (dcontent (e_kv e)) R" "cat table = Some d" "codecOk (p_desc E) good"
    "\<forall>p fk'. cat (fk_RefTable fk) = Some p \<and> resolveFK d p fk = Inr fk' \<longrightarrow> good ((withFK fk' d)\<lparr>d_FormatVersion := descFormatVersion\<rparr>)"
    "AddForeignKey E table fk validateRows e = (r, e')"
  shows "(\<forall>t p fk' ords. ok t \<and> content t = dcontent (e_kv e) \<and> cat (fk_RefTable fk) = Some p \<and> list_all (\<lambda>i. i < length (d_Columns d)) (fk_Cols fk') \<and>
        map (ColIndex p) (fk_RefCols fk') = map Some ords \<longrightarrow>
      (\<exists>t'. validateExistingRefs (p_kv E) (p_lib E) d p fk' t =
         (if refsHold (fk_Cols fk') (R table) ords (R (fk_RefTable fk)) then Inr () else Inl (danglingErr d fk'), t') \<and> content t' = content t)) \<and>
    cacheOk (p_desc E) e' \<and> dwf (e_kv e') \<and>
    ddlDone (\<lambda>_. fkAdded (p_desc E) cat R table d fk validateRows (dcontent (e_kv e))) (dcontent (e_kv e)) r (dcontent (e_kv e'))"
proof (intro conjI allI impI)
  fix t p and fk' :: fkDesc and ords
  assume a: "ok t \<and> content t = dcontent (e_kv e) \<and> cat (fk_RefTable fk) = Some p \<and> list_all (\<lambda>i. i < length (d_Columns d)) (fk_Cols fk') \<and>
    map (ColIndex p) (fk_RefCols fk') = map Some ords"
  then have p: "cat (fk_RefTable fk) = Some p" by simp
  show "\<exists>t'. validateExistingRefs (p_kv E) (p_lib E) d p fk' t =
      (if refsHold (fk_Cols fk') (R table) ords (R (fk_RefTable fk)) then Inr () else Inl (danglingErr d fk'), t') \<and> content t' = content t"
    using engine_env.validateExistingRefs_exact [OF assms(1) _ _ schemaRepD(2,3) [OF assms(4,5)] schemaRepD(2,3) [OF assms(4) p], of t fk' ords "p_lib E"] a
    by (auto simp: list_all_iff)
qed (use engine_env.AddForeignKey_run [OF assms] in auto)

definition ageFK :: fkDesc where
  "ageFK = \<lparr>fk_Name = ''age_id'', fk_Cols = [2], fk_RefTable = ''users'', fk_RefCols = [''id''], fk_OnDelete = []\<rparr>"

definition ageTable :: tableDesc where
  "ageTable = (withFK ageFK usersDesc)\<lparr>d_FormatVersion := descFormatVersion\<rparr>"

theorem add_foreign_key_witness:
  "(case AddForeignKey (peopleDeps [ageTable]) ''users'' ageFK True peopleEngine of (r, e') \<Rightarrow> map_of (e_kv e') = map_of peopleKv) \<and>
   fst (validateExistingRefs memKv (p_lib (peopleDeps [ageTable])) usersDesc usersDesc ageFK (mem_begin True peopleKv)) = Inl (danglingErr usersDesc ageFK)"
proof -
  obtain r e' where r: "AddForeignKey (peopleDeps [ageTable]) ''users'' ageFK True peopleEngine = (r, e')" by fastforce
  have f: "resolveFK usersDesc usersDesc ageFK = Inr ageFK" "fk_RefTable ageFK = ''users''" "fk_Cols ageFK = [2]" "map (ColIndex usersDesc) (fk_RefCols ageFK) = map Some [0]"
    "list_all (\<lambda>i. i < length (d_Columns usersDesc)) [2]" by code_simp+
  have n: "\<not> refsHold [2] {rowAnn, rowBob} [0] {rowAnn, rowBob}" by code_simp
  have t: "mem_wf (mem_begin True peopleKv)" "mem_content (mem_begin True peopleKv) = map_of peopleKv"
    using peopleKv_map(2) by (simp_all add: mem_begin_def mem_wf_def mem_content_def mem_base_def saves_ok_def)
  have "\<not> fkAdded C peopleCat peopleRows ''users'' usersDesc ageFK True m m'" for C m m'
    unfolding fkAdded_def using f n by (auto simp: map_eq_Cons_conv)
  then show ?thesis
    using add_foreign_key [OF memE.engine_env_axioms _ peopleEngine_ok(3) _ _ _ _ r, of peopleCat peopleRows usersDesc "\<lambda>d. d \<in> set [sampleDesc, ageTable]"]
      peopleEngine_ok(1,2) people_schema [of "[ageTable]"] listCodec_ok [of "[sampleDesc, ageTable]"] r f n t
    by (auto simp: ddlDone_def ageTable_def split: sum.splits dest!: spec [of _ "mem_begin True peopleKv"] spec [of _ ageFK] spec [of _ "[0]"])
qed

end
