(* ===== verification/Lexer.thy ===== *)
theory Lexer
  imports Default
begin

text \<open>
  The SQL lexer (\<open>src/sql/lexer.go\<close>). Its loop is written as the code has it, so that it ends is a
  theorem: every turn of the loop consumes at least one byte. Positions are byte offsets.
\<close>

subsection \<open>Tokens\<close>

datatype tokKind = tEOF | tIdent | tQIdent | tString | tNumber | tOp | tParam

record token =
  k_kind :: tokKind
  k_text :: string
  k_pos :: nat

abbreviation dquote :: char where "dquote \<equiv> CHR 0x22"
abbreviation backslash :: char where "backslash \<equiv> CHR 0x5C"
abbreviation newline :: char where "newline \<equiv> CHR 0x0A"

definition isDigit :: "char \<Rightarrow> bool" where
  "isDigit c \<longleftrightarrow> 48 \<le> (of_char c :: nat) \<and> (of_char c :: nat) \<le> 57"

definition isIdentStart :: "char \<Rightarrow> bool" where
  "isIdentStart c \<longleftrightarrow> (let n = (of_char c :: nat) in n = 95 \<or> 97 \<le> n \<and> n \<le> 122 \<or> 65 \<le> n \<and> n \<le> 90)"

definition isIdentPart :: "char \<Rightarrow> bool" where
  "isIdentPart c \<longleftrightarrow> isIdentStart c \<or> isDigit c"

subsection \<open>The parts of a token\<close>

text \<open>\<open>for i < len(src) && P(src[i]) { i++ }\<close>\<close>

definition skipWhile :: "(char \<Rightarrow> bool) \<Rightarrow> string \<Rightarrow> nat \<Rightarrow> nat" where
  "skipWhile P src i = i + length (takeWhile P (drop i src))"

text \<open>\<open>i < len(src) && P(src[i])\<close>\<close>

definition byteAt :: "(char \<Rightarrow> bool) \<Rightarrow> string \<Rightarrow> nat \<Rightarrow> bool" where
  "byteAt P src i \<longleftrightarrow> i < length src \<and> P (src ! i)"

fun commentLoop :: "int \<Rightarrow> string \<Rightarrow> nat \<Rightarrow> nat option" where
  "commentLoop depth (c # d # s) i =
     (if c = CHR ''/'' \<and> d = CHR ''*'' then commentLoop (depth + 1) s (i + 2)
      else if c = CHR ''*'' \<and> d = CHR ''/'' then (if depth - 1 = 0 then Some (i + 2) else commentLoop (depth - 1) s (i + 2))
      else commentLoop depth (d # s) (i + 1))"
| "commentLoop depth _ i = None"

text \<open>None stands for the code's -1.\<close>

definition blockCommentLen :: "string \<Rightarrow> nat option" where
  "blockCommentLen s = commentLoop 0 s 0"

fun quotedLoop :: "char \<Rightarrow> string \<Rightarrow> nat \<Rightarrow> string \<Rightarrow> (string \<times> nat) option" where
  "quotedLoop q [] i b = None"
| "quotedLoop q [c] i b = (if c = q then Some (b, i + 1) else None)"
| "quotedLoop q (c # d # s) i b =
     (if c = q then (if d = q then quotedLoop q s (i + 2) (b @ [q]) else Some (b, i + 1))
      else quotedLoop q (d # s) (i + 1) (b @ [c]))"

definition scanQuoted :: "string \<Rightarrow> char \<Rightarrow> (string \<times> nat) res" where
  "scanQuoted s q =
     (case quotedLoop q (drop 1 s) 1 [] of
        Some r \<Rightarrow> Inr r
      | None \<Rightarrow> Inl (Msg (''unterminated '' @ (if q = dquote then ''quoted identifier'' else ''string literal''))))"

definition escapeOf :: "char \<Rightarrow> char" where
  "escapeOf c =
     (if c = CHR ''n'' then newline else if c = CHR ''t'' then CHR 0x09 else if c = CHR ''r'' then CHR 0x0D
      else if c = CHR ''b'' then CHR 0x08 else if c = CHR ''f'' then CHR 0x0C else c)"

fun eStringLoop :: "string \<Rightarrow> nat \<Rightarrow> string \<Rightarrow> (string \<times> nat) option" where
  "eStringLoop [] i b = None"
| "eStringLoop [c] i b = (if c = quoteChar then Some (b, i + 1) else None)"
| "eStringLoop (c # d # s) i b =
     (if c = quoteChar then (if d = quoteChar then eStringLoop s (i + 2) (b @ [quoteChar]) else Some (b, i + 1))
      else if c = backslash then eStringLoop s (i + 2) (b @ [escapeOf d])
      else eStringLoop (d # s) (i + 1) (b @ [c]))"

definition scanEString :: "string \<Rightarrow> (string \<times> nat) res" where
  "scanEString s = (case eStringLoop (drop 1 s) 1 [] of Some r \<Rightarrow> Inr r | None \<Rightarrow> Inl (Msg ''unterminated string literal''))"

definition scanNumber :: "string \<Rightarrow> nat \<Rightarrow> nat" where
  "scanNumber src i0 =
     (let i1 = skipWhile isDigit src i0;
          i2 = (if byteAt ((=) (CHR ''.'')) src i1 then skipWhile isDigit src (i1 + 1) else i1);
          j = (if byteAt (\<lambda>c. c = CHR ''+'' \<or> c = CHR ''-'') src (i2 + 1) then i2 + 2 else i2 + 1)
      in if byteAt (\<lambda>c. c = CHR ''e'' \<or> c = CHR ''E'') src i2 \<and> byteAt isDigit src j then skipWhile isDigit src j else i2)"

definition scanOp :: "string \<Rightarrow> nat \<Rightarrow> string" where
  "scanOp src i =
     (let three = take 3 (drop i src); two = take 2 (drop i src); one = take 1 (drop i src)
      in if i + 2 < length src \<and> three \<in> {''!~*'', ''->>'', ''#>>''} then three
         else if i + 1 < length src \<and> two \<in> {''!='', ''<>'', ''<='', ''>='', ''!~'', ''~*'', ''::'', ''||'', ''->'', ''#>'', ''@>'', ''<@'', ''?|'', ''?&''} then two
         else if set one \<subseteq> set ''=<>(),;*.+-~[]/%?'' then one
         else [])"

subsection \<open>The loop\<close>

text \<open>One turn: the token it appends, if any, and the next offset.\<close>

definition lexAt :: "string \<Rightarrow> nat \<Rightarrow> (token option \<times> nat) res" where
  "lexAt src i =
     (let c = src ! i; tok = (\<lambda>k t j. Inr (Some \<lparr>k_kind = k, k_text = t, k_pos = i\<rparr>, j));
          text = (\<lambda>j. take (j - i) (drop i src))
      in if c \<in> {CHR '' '', CHR 0x09, newline, CHR 0x0D} then Inr (None, i + 1)
         else if c = CHR ''-'' \<and> byteAt ((=) (CHR ''-'')) src (i + 1) then Inr (None, skipWhile (\<lambda>c. c \<noteq> newline) src i)
         else if c = CHR ''/'' \<and> byteAt ((=) (CHR ''*'')) src (i + 1)
         then (case blockCommentLen (drop i src) of None \<Rightarrow> Inl (Msg ''unterminated block comment'') | Some n \<Rightarrow> Inr (None, i + n))
         else if (c = CHR ''e'' \<or> c = CHR ''E'') \<and> byteAt ((=) quoteChar) src (i + 1)
         then res_bind (scanEString (drop (i + 1) src)) (\<lambda>(t, n). tok tString t (i + 1 + n))
         else if isIdentStart c then (let j = skipWhile isIdentPart src i in tok tIdent (map lowerAscii (text j)) j)
         else if c = dquote then res_bind (scanQuoted (drop i src) dquote) (\<lambda>(t, n). tok tQIdent t (i + n))
         else if c = quoteChar then res_bind (scanQuoted (drop i src) quoteChar) (\<lambda>(t, n). tok tString t (i + n))
         else if isDigit c \<or> c = CHR ''.'' \<and> byteAt isDigit src (i + 1) then (let j = scanNumber src i in tok tNumber (text j) j)
         else if c = CHR ''$'' \<and> byteAt isDigit src (i + 1) then (let j = skipWhile isDigit src (i + 1) in tok tParam (text j) j)
         else (let op = scanOp src i in if op = [] then Inl (Msg ''unexpected character'') else tok tOp op (i + length op)))"

partial_function (option) lexLoop :: "string \<Rightarrow> nat \<Rightarrow> token list \<Rightarrow> token list res option" where
  "lexLoop src i toks =
     (if i < length src
      then (case lexAt src i of
              Inl e \<Rightarrow> Some (Inl e)
            | Inr (t, j) \<Rightarrow> lexLoop src j (toks @ (case t of None \<Rightarrow> [] | Some x \<Rightarrow> [x])))
      else Some (Inr (toks @ [\<lparr>k_kind = tEOF, k_text = [], k_pos = length src\<rparr>])))"

definition lex :: "string \<Rightarrow> token list res option" where
  "lex src = lexLoop src 0 []"

declare lexLoop.simps [code]

subsection \<open>Every turn consumes input\<close>

lemma byteAt_eq [simp]: "byteAt ((=) c) src i \<longleftrightarrow> i < length src \<and> src ! i = c"
  by (auto simp: byteAt_def)

lemma skipWhile_bounds: "i \<le> skipWhile P src i" "i \<le> length src \<Longrightarrow> skipWhile P src i \<le> length src"
  using length_takeWhile_le [of P "drop i src"] by (auto simp: skipWhile_def)

lemma skipWhile_first: "byteAt P src i \<Longrightarrow> i < skipWhile P src i"
  by (auto simp: skipWhile_def byteAt_def Cons_nth_drop_Suc [symmetric])

lemma skipWhile_in: "i \<le> k \<Longrightarrow> k < skipWhile P src i \<Longrightarrow> k < length src \<and> P (src ! k)"
proof -
  assume k: "i \<le> k" "k < skipWhile P src i"
  then have "k - i < length (takeWhile P (drop i src))" by (simp add: skipWhile_def less_diff_conv2)
  moreover from this have "takeWhile P (drop i src) ! (k - i) = src ! k" using takeWhile_nth k(1) length_takeWhile_le [of P "drop i src"] by fastforce
  ultimately show ?thesis using set_takeWhileD [OF nth_mem, of "k - i" P "drop i src"] k(1) length_takeWhile_le [of P "drop i src"] by auto
qed

lemma skipWhile_stop: "skipWhile P src i < length src \<Longrightarrow> \<not> P (src ! skipWhile P src i)"
proof -
  assume l: "skipWhile P src i < length src"
  then have "length (takeWhile P (drop i src)) < length (drop i src)" by (simp add: skipWhile_def less_diff_conv)
  then have "\<not> P (drop i src ! length (takeWhile P (drop i src)))" by (rule nth_length_takeWhile)
  then show ?thesis using l by (simp add: skipWhile_def)
qed

lemma commentLoop_bounds: "commentLoop depth s i = Some n \<Longrightarrow> i < n \<and> n \<le> i + length s"
  by (induction depth s i rule: commentLoop.induct) (auto split: if_splits)

lemma quotedLoop_bounds: "quotedLoop q s i b = Some (t, n) \<Longrightarrow> i < n \<and> n \<le> i + length s"
  by (induction q s i b rule: quotedLoop.induct) (auto split: if_splits)

lemma eStringLoop_bounds: "eStringLoop s i b = Some (t, n) \<Longrightarrow> i < n \<and> n \<le> i + length s"
  by (induction s i b rule: eStringLoop.induct) (auto split: if_splits)

lemma scanNumber_bounds:
  assumes "i < length src" "isDigit (src ! i) \<or> src ! i = CHR ''.''"
  shows "i < scanNumber src i" "scanNumber src i \<le> length src"
proof -
  let ?i1 = "skipWhile isDigit src i"
  let ?i2 = "if byteAt ((=) (CHR ''.'')) src ?i1 then skipWhile isDigit src (?i1 + 1) else ?i1"
  have i1: "i \<le> ?i1" "?i1 \<le> length src" using assms(1) skipWhile_bounds(1) [of i isDigit src] skipWhile_bounds(2) [of i src isDigit] by auto
  have i2: "?i1 \<le> ?i2" "?i2 \<le> length src" "byteAt ((=) (CHR ''.'')) src ?i1 \<Longrightarrow> ?i1 < ?i2"
    using i1(2) skipWhile_bounds(1) [of "?i1 + 1" isDigit src] skipWhile_bounds(2) [of "?i1 + 1" src isDigit] by (auto simp: byteAt_def)
  have "i < ?i2"
  proof (cases "isDigit (src ! i)")
    case True
    then show ?thesis using skipWhile_first [of isDigit src i] assms(1) i2(1) by (auto simp: byteAt_def)
  next
    case False
    then have "?i1 = i" using skipWhile_in [of i i isDigit src] i1(1) by fastforce
    then show ?thesis using i2(3) False assms by (simp add: byteAt_def)
  qed
  moreover have "skipWhile isDigit src j \<le> length src" "i < j \<Longrightarrow> i < skipWhile isDigit src j" if "byteAt isDigit src j" for j
    using that skipWhile_bounds(1) [of j isDigit src] skipWhile_bounds(2) [of j src isDigit] by (auto simp: byteAt_def)
  ultimately show "i < scanNumber src i" "scanNumber src i \<le> length src"
    using i2(2) unfolding scanNumber_def Let_def by (auto simp: less_SucI)
qed

lemma scanOp_length: "length (scanOp src i) \<le> length src - i"
  by (auto simp: scanOp_def Let_def)

lemma quoted_bounds:
  "scanQuoted s q = Inr (t, n) \<Longrightarrow> s \<noteq> [] \<Longrightarrow> 1 < n \<and> n \<le> length s" "scanEString s = Inr (t, n) \<Longrightarrow> s \<noteq> [] \<Longrightarrow> 1 < n \<and> n \<le> length s"
  using quotedLoop_bounds [of q "drop 1 s" 1 "[]" t n] eStringLoop_bounds [of "drop 1 s" 1 "[]" t n]
  by (cases s; auto simp: scanQuoted_def scanEString_def split: option.splits)+

text \<open>The branches of a turn that appends or skips.\<close>

lemma lexAt_cases [consumes 1]:
  assumes "lexAt src i = Inr (t, j)"
  obtains (space) "src ! i \<in> {CHR '' '', CHR 0x09, newline, CHR 0x0D}" "t = None" "j = i + 1"
  | (line) "src ! i = CHR ''-''" "byteAt ((=) (CHR ''-'')) src (i + 1)" "t = None" "j = skipWhile (\<lambda>c. c \<noteq> newline) src i"
  | (block) n where "src ! i = CHR ''/''" "byteAt ((=) (CHR ''*'')) src (i + 1)" "blockCommentLen (drop i src) = Some n" "t = None" "j = i + n"
  | (estring) tx n where "src ! i = CHR ''e'' \<or> src ! i = CHR ''E''" "byteAt ((=) quoteChar) src (i + 1)"
      "scanEString (drop (i + 1) src) = Inr (tx, n)" "t = Some \<lparr>k_kind = tString, k_text = tx, k_pos = i\<rparr>" "j = i + 1 + n"
  | (ident) tx where "isIdentStart (src ! i)" "\<not> ((src ! i = CHR ''e'' \<or> src ! i = CHR ''E'') \<and> byteAt ((=) quoteChar) src (i + 1))"
      "t = Some \<lparr>k_kind = tIdent, k_text = tx, k_pos = i\<rparr>" "j = skipWhile isIdentPart src i"
  | (quoted) q k tx n where "q = dquote \<and> k = tQIdent \<or> q = quoteChar \<and> k = tString" "src ! i = q" "scanQuoted (drop i src) q = Inr (tx, n)"
      "t = Some \<lparr>k_kind = k, k_text = tx, k_pos = i\<rparr>" "j = i + n"
  | (number) "isDigit (src ! i) \<or> src ! i = CHR ''.'' \<and> byteAt isDigit src (i + 1)"
      "t = Some \<lparr>k_kind = tNumber, k_text = take (j - i) (drop i src), k_pos = i\<rparr>" "j = scanNumber src i"
  | (param) "src ! i = CHR ''$''" "byteAt isDigit src (i + 1)"
      "t = Some \<lparr>k_kind = tParam, k_text = take (j - i) (drop i src), k_pos = i\<rparr>" "j = skipWhile isDigit src (i + 1)"
  | (oper) op where "op = scanOp src i" "op \<noteq> []" "src ! i = CHR ''-'' \<Longrightarrow> \<not> byteAt ((=) (CHR ''-'')) src (i + 1)"
      "src ! i = CHR ''/'' \<Longrightarrow> \<not> byteAt ((=) (CHR ''*'')) src (i + 1)" "src ! i \<noteq> dquote" "src ! i \<noteq> quoteChar"
      "t = Some \<lparr>k_kind = tOp, k_text = op, k_pos = i\<rparr>" "j = i + length op"
proof -
  note r = assms [unfolded lexAt_def Let_def]
  show thesis
    using r
    apply (split if_split_asm, use that(1) in force)
    apply (split if_split_asm, use that(2) in force)
    apply (split if_split_asm, use that(3) in \<open>force split: option.splits\<close>)
    apply (split if_split_asm, use that(4) in force)
    apply (split if_split_asm, use that(5) in force)
    apply (split if_split_asm, use that(6) [of dquote tQIdent] in force)
    apply (split if_split_asm, use that(6) [of quoteChar tString] in force)
    apply (split if_split_asm, use that(7) in force)
    apply (split if_split_asm, use that(8) in force)
    apply (split if_split_asm, simp)
    apply (rule that(9) [of "scanOp src i"])
    apply auto
    done
qed

lemma lexAt_progress:
  assumes i: "i < length src" and r: "lexAt src i = Inr (t, j)"
  shows "i < j \<and> j \<le> length src \<and> (\<forall>x. t = Some x \<longrightarrow> k_pos x = i \<and> k_kind x \<noteq> tEOF)"
  using r
proof (cases rule: lexAt_cases)
  case line
  have "byteAt (\<lambda>c. c \<noteq> newline) src i" using i by (simp add: byteAt_def line(1))
  then show ?thesis using skipWhile_first skipWhile_bounds(2) [of i src] i unfolding line(3,4) by simp
next
  case (block n)
  then show ?thesis using i commentLoop_bounds [of 0 "drop i src" 0 n] by (auto simp: blockCommentLen_def)
next
  case (estring tx n)
  then show ?thesis using quoted_bounds(2) [of "drop (i + 1) src" tx n] by (auto simp: byteAt_def)
next
  case ident
  then show ?thesis using i skipWhile_first [of isIdentPart src i] skipWhile_bounds(2) [of i src] by (auto simp: byteAt_def isIdentPart_def)
next
  case (quoted q k tx n)
  then show ?thesis using i quoted_bounds(1) [of "drop i src" q tx n] by auto
next
  case number
  then show ?thesis using scanNumber_bounds [OF i] by auto
next
  case param
  then show ?thesis using skipWhile_bounds(1) [of "i + 1" isDigit src] skipWhile_bounds(2) [of "i + 1" src isDigit] by (auto simp: byteAt_def)
next
  case (oper op)
  then show ?thesis using i scanOp_length [of src i] by auto
qed (use i in auto)

subsection \<open>The loop returns\<close>

abbreviation eofAt :: "nat \<Rightarrow> token" where
  "eofAt n \<equiv> \<lparr>k_kind = tEOF, k_text = [], k_pos = n\<rparr>"

text \<open>The turns of a run that returns tokens, from an offset on.\<close>

inductive lexesTo :: "string \<Rightarrow> nat \<Rightarrow> token list \<Rightarrow> bool" for src where
  stop: "i = length src \<Longrightarrow> lexesTo src i [eofAt i]"
| turn: "i < length src \<Longrightarrow> lexAt src i = Inr (t, j) \<Longrightarrow> lexesTo src j ts \<Longrightarrow> lexesTo src i (case_option [] (\<lambda>x. [x]) t @ ts)"

inductive_cases lexesTo_cases: "lexesTo src i ts"

lemma lexLoop_returns:
  "i \<le> length src \<Longrightarrow> \<exists>r. lexLoop src i toks = Some r \<and> (\<forall>ts. r = Inr ts \<longrightarrow> (\<exists>us. ts = toks @ us \<and> lexesTo src i us))"
proof (induction "length src - i" arbitrary: i toks rule: less_induct)
  case less
  show ?case
  proof (cases "i < length src \<and> (\<exists>t j. lexAt src i = Inr (t, j))")
    case True
    then obtain t j where tj: "lexAt src i = Inr (t, j)" and i: "i < length src" by blast
    note pr = lexAt_progress [OF i tj]
    let ?toks = "toks @ case_option [] (\<lambda>x. [x]) t"
    have step: "lexLoop src i toks = lexLoop src j ?toks" using i tj by (subst lexLoop.simps) simp
    obtain r where r: "lexLoop src j ?toks = Some r" "\<forall>ts. r = Inr ts \<longrightarrow> (\<exists>us. ts = ?toks @ us \<and> lexesTo src j us)"
      using less.hyps [of j ?toks] pr i diff_less_mono2 [of i j "length src"] by blast
    then show ?thesis unfolding step using lexesTo.turn [OF i tj] by fastforce
  next
    case False
    then show ?thesis using less.prems lexesTo.stop [of i src]
      by (subst lexLoop.simps) (cases "lexAt src i"; auto simp: not_less)
  qed
qed

lemma lex_lexesTo: "lex src = Some (Inr ts) \<Longrightarrow> lexesTo src 0 ts"
  using lexLoop_returns [of 0 src "[]"] by (auto simp: lex_def)

lemma lexesTo_shape:
  assumes "lexesTo src i ts" "i \<le> length src"
  shows "\<exists>us. ts = us @ [eofAt (length src)] \<and> sorted_wrt (<) (map k_pos us) \<and>
    (\<forall>t\<in>set us. i \<le> k_pos t \<and> k_pos t < length src \<and> k_kind t \<noteq> tEOF)"
  using assms
proof (induction rule: lexesTo.induct)
  case (turn i t j ts)
  note pr = lexAt_progress [OF turn.hyps(1,2)]
  obtain us where us: "ts = us @ [eofAt (length src)]" "sorted_wrt (<) (map k_pos us)"
    "\<forall>t\<in>set us. j \<le> k_pos t \<and> k_pos t < length src \<and> k_kind t \<noteq> tEOF" using turn.IH pr by blast
  show ?case
  proof (cases t)
    case None
    then show ?thesis using us pr by fastforce
  next
    case (Some x)
    have "sorted_wrt (<) (map k_pos (x # us))" using us(2,3) pr Some by fastforce
    moreover have "\<forall>t\<in>set (x # us). i \<le> k_pos t \<and> k_pos t < length src \<and> k_kind t \<noteq> tEOF" using us(3) pr Some turn.hyps(1) by fastforce
    ultimately show ?thesis using us(1) Some by (intro exI [of _ "x # us"]) auto
  qed
qed simp

text \<open>C29. The lexer returns on every input. Its loop ends, with an error or with tokens; the tokens begin at increasing offsets
  of the source, and the one end marker is the last token, at the end of the source.\<close>

theorem lex_returns:
  "\<exists>r. lex src = Some r \<and>
     (\<forall>toks. r = Inr toks \<longrightarrow>
        (\<exists>us. toks = us @ [\<lparr>k_kind = tEOF, k_text = [], k_pos = length src\<rparr>] \<and> sorted_wrt (<) (map k_pos us) \<and>
           (\<forall>t\<in>set us. k_pos t < length src \<and> k_kind t \<noteq> tEOF)))"
proof -
  obtain r where r: "lex src = Some r" using lexLoop_returns [of 0 src "[]"] by (auto simp: lex_def)
  show ?thesis using r lexesTo_shape [OF lex_lexesTo, of src] by (intro exI [of _ r]) fastforce
qed

theorem lex_returns_witness:
  "\<exists>us. lex (''SELECT '' @ [CHR 0x27] @ ''a'' @ [CHR 0x27] @ '' -- x'') = Some (Inr (us @ [\<lparr>k_kind = tEOF, k_text = [], k_pos = 15\<rparr>])) \<and>
     map k_kind us = [tIdent, tString] \<and> sorted_wrt (<) (map k_pos us)"
proof -
  let ?s = "''SELECT '' @ [CHR 0x27] @ ''a'' @ [CHR 0x27] @ '' -- x''"
  have l: "lex ?s = Some (Inr [\<lparr>k_kind = tIdent, k_text = ''select'', k_pos = 0\<rparr>, \<lparr>k_kind = tString, k_text = ''a'', k_pos = 7\<rparr>, \<lparr>k_kind = tEOF, k_text = [], k_pos = 15\<rparr>])"
    by code_simp
  show ?thesis using lex_returns [of ?s] l by auto
qed

end
