(* ===== verification/Split.thy ===== *)
theory Split
  imports Lexer
begin

text \<open>
  Cutting a query buffer into statements: the splitter of the wire protocol (\<open>src/pgwire/split.go\<close>) and
  the scanner of the shell (\<open>src/pgwire/cmd/bytdb/scan.go\<close>), which also reports whether the buffer ends
  inside a string or comment, and flattens a statement into one line of history.
\<close>

subsection \<open>The splitter of the wire protocol\<close>

record stmtPart =
  sp_text :: string
  sp_off :: nat

definition isIdentByte :: "char \<Rightarrow> bool" where
  "isIdentByte c \<longleftrightarrow>
     (let n = (of_char c :: nat) in n = 95 \<or> 97 \<le> n \<and> n \<le> 122 \<or> 65 \<le> n \<and> n \<le> 90 \<or> 48 \<le> n \<and> n \<le> 57)"

definition isEStringPrefix :: "string \<Rightarrow> nat \<Rightarrow> bool" where
  "isEStringPrefix q opn \<longleftrightarrow>
     \<not> (opn = 0 \<or> q ! (opn - 1) \<noteq> CHR ''e'' \<and> q ! (opn - 1) \<noteq> CHR ''E'') \<and> (opn < 2 \<or> \<not> isIdentByte (q ! (opn - 2)))"

text \<open>The loop of \<open>skipQuoted\<close> over the bytes after the opening quote; \<open>n\<close> is the length of the buffer.\<close>

fun skipLoop :: "bool \<Rightarrow> char \<Rightarrow> nat \<Rightarrow> string \<Rightarrow> nat \<Rightarrow> nat" where
  "skipLoop escapes quote n [] i = n"
| "skipLoop escapes quote n [c] i = (if escapes \<and> c = backslash then n else if c = quote then i else n)"
| "skipLoop escapes quote n (c # d # s) i =
     (if escapes \<and> c = backslash then skipLoop escapes quote n s (i + 2)
      else if c = quote then (if d = quote then skipLoop escapes quote n s (i + 2) else i)
      else skipLoop escapes quote n (d # s) (i + 1))"

definition skipQuoted :: "string \<Rightarrow> nat \<Rightarrow> nat" where
  "skipQuoted q opn =
     (let quote = q ! opn; escapes = (quote = quoteChar \<and> isEStringPrefix q opn)
      in skipLoop escapes quote (length q) (drop (opn + 1) q) (opn + 1))"

definition emitPart :: "string \<Rightarrow> nat \<Rightarrow> nat \<Rightarrow> stmtPart list" where
  "emitPart q start end =
     (let text = take (end - start) (drop start q);
          lead = length text - length (dropWhile (\<lambda>c. c \<in> {CHR '' '', CHR 0x09, CHR 0x0D, newline}) text)
      in if TrimSpace text \<noteq> [] then [\<lparr>sp_text = TrimSpace text, sp_off = start + lead\<rparr>] else [])"

lemma skipLoop_ge: "i + length s \<le> n \<Longrightarrow> i \<le> skipLoop escapes quote n s i"
  by (induction escapes quote n s i rule: skipLoop.induct) auto

lemma skipQuoted_ge: "opn < length q \<Longrightarrow> opn < skipQuoted q opn"
  using skipLoop_ge [of "opn + 1" "drop (opn + 1) q" "length q"] by (simp add: skipQuoted_def Let_def Suc_le_eq)

lemma skip_measure: "Suc i < length q \<Longrightarrow> length q - Suc (skipWhile P q i) < length q - i"
  using skipWhile_bounds(1) [of i P q] by (simp add: diff_less_mono2 le_imp_less_Suc)

function splitLoop :: "string \<Rightarrow> nat \<Rightarrow> nat \<Rightarrow> nat \<Rightarrow> stmtPart list \<Rightarrow> stmtPart list" where
  "splitLoop q i depth start parts =
     (if i < length q then
        (let c = q ! i
         in if 0 < depth then
              (if c = CHR ''*'' \<and> byteAt ((=) (CHR ''/'')) q (i + 1) then splitLoop q (i + 2) (depth - 1) start parts
               else if c = CHR ''/'' \<and> byteAt ((=) (CHR ''*'')) q (i + 1) then splitLoop q (i + 2) (depth + 1) start parts
               else splitLoop q (i + 1) depth start parts)
            else if c = CHR ''/'' \<and> byteAt ((=) (CHR ''*'')) q (i + 1) then splitLoop q (i + 2) (depth + 1) start parts
            else if c = CHR ''-'' \<and> byteAt ((=) (CHR ''-'')) q (i + 1) then splitLoop q (skipWhile (\<lambda>c. c \<noteq> newline) q i + 1) depth start parts
            else if c = quoteChar \<or> c = dquote then splitLoop q (skipQuoted q i + 1) depth start parts
            else if c = CHR '';'' then splitLoop q (i + 1) depth (i + 1) (parts @ emitPart q start i)
            else splitLoop q (i + 1) depth start parts)
      else parts @ emitPart q start (length q))"
  by pat_completeness auto

termination
  by (relation "measure (\<lambda>(q, i, depth, start, parts). length q - i)") (auto simp: skip_measure skipQuoted_ge less_SucI diff_less_mono2)

declare splitLoop.simps [simp del]

definition splitStatements :: "string \<Rightarrow> stmtPart list" where
  "splitStatements q = splitLoop q 0 0 0 []"

subsection \<open>The scanner of the shell\<close>

record scanResult =
  r_stmts :: "string list"
  r_rest :: string
  r_restHasContent :: bool
  r_open :: bool

text \<open>The locals of \<open>scanSQL\<close>; \<open>quote\<close> is none for the byte 0.\<close>

record scanState =
  z_stmts :: "string list"
  z_start :: nat
  z_content :: bool
  z_depth :: nat
  z_quote :: "char option"
  z_escapes :: bool

definition shellIdentByte :: "char \<Rightarrow> bool" where
  "shellIdentByte c \<longleftrightarrow>
     (let n = (of_char c :: nat) in n = 95 \<or> n = 36 \<or> n \<ge> 0x80 \<or> 97 \<le> n \<and> n \<le> 122 \<or> 65 \<le> n \<and> n \<le> 90 \<or> 48 \<le> n \<and> n \<le> 57)"

text \<open>Whether the quote at an offset opens an escape string.\<close>

definition opensEString :: "string \<Rightarrow> nat \<Rightarrow> bool" where
  "opensEString src i \<longleftrightarrow>
     src ! i = quoteChar \<and> 0 < i \<and> (src ! (i - 1) = CHR ''e'' \<or> src ! (i - 1) = CHR ''E'') \<and> (i < 2 \<or> \<not> shellIdentByte (src ! (i - 2)))"

definition shellSpace :: "char \<Rightarrow> bool" where
  "shellSpace c \<longleftrightarrow> c \<in> {CHR '' '', CHR 0x09, newline, CHR 0x0D, CHR 0x0C, CHR 0x0B}"

function scanLoopSQL :: "string \<Rightarrow> nat \<Rightarrow> scanState \<Rightarrow> scanState" where
  "scanLoopSQL src i z =
     (if i < length src then
        (let c = src ! i
         in case z_quote z of
              Some q \<Rightarrow>
                if z_escapes z \<and> c = backslash then scanLoopSQL src (i + 2) z
                else if c = q then
                  (if byteAt ((=) q) src (i + 1) then scanLoopSQL src (i + 2) z
                   else scanLoopSQL src (i + 1) (z\<lparr>z_quote := None, z_escapes := False\<rparr>))
                else scanLoopSQL src (i + 1) z
            | None \<Rightarrow>
                if 0 < z_depth z then
                  (if c = CHR ''*'' \<and> byteAt ((=) (CHR ''/'')) src (i + 1) then scanLoopSQL src (i + 2) (z\<lparr>z_depth := z_depth z - 1\<rparr>)
                   else if c = CHR ''/'' \<and> byteAt ((=) (CHR ''*'')) src (i + 1) then scanLoopSQL src (i + 2) (z\<lparr>z_depth := z_depth z + 1\<rparr>)
                   else scanLoopSQL src (i + 1) z)
                else if c = CHR ''/'' \<and> byteAt ((=) (CHR ''*'')) src (i + 1) then scanLoopSQL src (i + 2) (z\<lparr>z_depth := z_depth z + 1\<rparr>)
                else if c = CHR ''-'' \<and> byteAt ((=) (CHR ''-'')) src (i + 1) then scanLoopSQL src (skipWhile (\<lambda>c. c \<noteq> newline) src i + 1) z
                else if c = quoteChar \<or> c = dquote
                then scanLoopSQL src (i + 1) (z\<lparr>z_quote := Some c, z_escapes := opensEString src i, z_content := True\<rparr>)
                else if c = CHR '';''
                then scanLoopSQL src (i + 1)
                       (z\<lparr>z_stmts := z_stmts z @ (if z_content z then [TrimSpace (take (i - z_start z) (drop (z_start z) src))] else []),
                          z_start := i + 1, z_content := False\<rparr>)
                else scanLoopSQL src (i + 1) (if shellSpace c then z else z\<lparr>z_content := True\<rparr>))
      else z)"
  by pat_completeness auto

termination
  by (relation "measure (\<lambda>(src, i, z). length src - i)") (auto simp: skip_measure)

declare scanLoopSQL.simps [simp del]

definition scanSQL :: "string \<Rightarrow> scanResult" where
  "scanSQL src =
     (let z = scanLoopSQL src 0 \<lparr>z_stmts = [], z_start = 0, z_content = False, z_depth = 0, z_quote = None, z_escapes = False\<rparr>
      in \<lparr>r_stmts = z_stmts z, r_rest = drop (z_start z) src, r_restHasContent = z_content z, r_open = (z_quote z \<noteq> None \<or> 0 < z_depth z)\<rparr>)"

subsection \<open>History lines of the shell\<close>

text \<open>\<open>strings.ReplaceAll(s, "*/", "* /")\<close>\<close>

fun breakCloses :: "string \<Rightarrow> string" where
  "breakCloses (c # d # s) = (if c = CHR ''*'' \<and> d = CHR ''/'' then ''* /'' @ breakCloses s else c # breakCloses (d # s))"
| "breakCloses s = s"

lemma skip_past:
  assumes "Suc i < length src" "CHR ''-'' = src ! i"
  shows "i < skipWhile (\<lambda>c. c \<noteq> newline) src i"
  by (rule skipWhile_first) (use assms(1) in \<open>simp add: byteAt_def assms(2) [symmetric]\<close>)

function historyLoop :: "string \<Rightarrow> nat \<Rightarrow> char option \<Rightarrow> bool \<Rightarrow> nat \<Rightarrow> string \<Rightarrow> string" where
  "historyLoop src i quote escapes depth b =
     (if i < length src then
        (let c = src ! i
         in case quote of
              Some q \<Rightarrow>
                if escapes \<and> c = backslash \<and> i + 1 < length src then historyLoop src (i + 2) quote escapes depth (b @ [c, src ! (i + 1)])
                else if c = q then
                  (if byteAt ((=) q) src (i + 1) then historyLoop src (i + 2) quote escapes depth (b @ [c, src ! (i + 1)])
                   else historyLoop src (i + 1) None False depth (b @ [c]))
                else historyLoop src (i + 1) quote escapes depth (b @ [c])
            | None \<Rightarrow>
                if 0 < depth then
                  (if c = newline then historyLoop src (i + 1) quote escapes depth (b @ '' '')
                   else if c = CHR ''*'' \<and> byteAt ((=) (CHR ''/'')) src (i + 1) then historyLoop src (i + 2) quote escapes (depth - 1) (b @ [c] @ ''/'')
                   else if c = CHR ''/'' \<and> byteAt ((=) (CHR ''*'')) src (i + 1) then historyLoop src (i + 2) quote escapes (depth + 1) (b @ [c] @ ''*'')
                   else historyLoop src (i + 1) quote escapes depth (b @ [c]))
                else if c = CHR ''/'' \<and> byteAt ((=) (CHR ''*'')) src (i + 1) then historyLoop src (i + 2) quote escapes (depth + 1) (b @ ''/*'')
                else if c = CHR ''-'' \<and> byteAt ((=) (CHR ''-'')) src (i + 1)
                then (let e = skipWhile (\<lambda>c. c \<noteq> newline) src i
                      in historyLoop src e quote escapes depth (b @ ''/*'' @ breakCloses (take (e - (i + 2)) (drop (i + 2) src)) @ '' */''))
                else if c = quoteChar \<or> c = dquote then historyLoop src (i + 1) (Some c) (opensEString src i) depth (b @ [c])
                else if c = newline \<or> c = CHR 0x0D then historyLoop src (i + 1) quote escapes depth (b @ '' '')
                else historyLoop src (i + 1) quote escapes depth (b @ [c]))
      else b)"
  by pat_completeness auto

termination
  by (relation "measure (\<lambda>(src, i, rest). length src - i)") (auto simp: diff_less_mono2 skip_past)

function collapseLoop :: "string \<Rightarrow> nat \<Rightarrow> char option \<Rightarrow> bool \<Rightarrow> bool \<Rightarrow> string \<Rightarrow> string" where
  "collapseLoop s i quote escapes space b =
     (if i < length s then
        (let c = s ! i
         in case quote of
              Some q \<Rightarrow>
                if escapes \<and> c = backslash \<and> i + 1 < length s then collapseLoop s (i + 2) quote escapes space (b @ [c, s ! (i + 1)])
                else if c = q then
                  (if byteAt ((=) q) s (i + 1) then collapseLoop s (i + 2) quote escapes space (b @ [c, s ! (i + 1)])
                   else collapseLoop s (i + 1) None False space (b @ [c]))
                else collapseLoop s (i + 1) quote escapes space (b @ [c])
            | None \<Rightarrow>
                if c = CHR '' '' \<or> c = CHR 0x09 then collapseLoop s (i + 1) quote escapes True b
                else (let b' = (if space \<and> b \<noteq> [] then b @ '' '' else b)
                      in if c = quoteChar \<or> c = dquote then collapseLoop s (i + 1) (Some c) (opensEString s i) False (b' @ [c])
                         else collapseLoop s (i + 1) quote escapes False (b' @ [c])))
      else b)"
  by pat_completeness auto

termination
  by (relation "measure (\<lambda>(s, i, rest). length s - i)") auto

declare historyLoop.simps [simp del] collapseLoop.simps [simp del]

definition collapseSpaces :: "string \<Rightarrow> string" where
  "collapseSpaces s = collapseLoop s 0 None False False []"

definition historyLine :: "string \<Rightarrow> string" where
  "historyLine src = collapseSpaces (historyLoop src 0 None False 0 [])"

lemma history_quote_in_comment:
  "lex (''1 -- '' @ [quoteChar, newline] @ '','' @ [quoteChar] @ ''a  b'' @ [quoteChar]) =
     Some (Inr [\<lparr>k_kind = tNumber, k_text = ''1'', k_pos = 0\<rparr>, \<lparr>k_kind = tOp, k_text = '','', k_pos = 7\<rparr>,
                \<lparr>k_kind = tString, k_text = ''a  b'', k_pos = 8\<rparr>, eofAt 14])"
  "lex (historyLine (''1 -- '' @ [quoteChar, newline] @ '','' @ [quoteChar] @ ''a  b'' @ [quoteChar])) =
     Some (Inr [\<lparr>k_kind = tNumber, k_text = ''1'', k_pos = 0\<rparr>, \<lparr>k_kind = tOp, k_text = '','', k_pos = 10\<rparr>,
                \<lparr>k_kind = tString, k_text = ''a b'', k_pos = 11\<rparr>, eofAt 16])"
  by code_simp+

lemma history_open_in_comment:
  "lex (''1 -- /*'' @ [newline] @ '',2'') \<noteq> Some (Inl (Msg ''unterminated block comment''))"
  "lex (historyLine (''1 -- /*'' @ [newline] @ '',2'')) = Some (Inl (Msg ''unterminated block comment''))"
  by code_simp+

end
