(* ===== verification/StmtCut.thy ===== *)
theory StmtCut
  imports Split
begin

text \<open>
  The lexer, the splitter of the wire protocol and the scanner of the shell agree on where a statement
  ends. Each tracks strings, quoted identifiers and comments in its own way; on a buffer the lexer
  accepts, both cut at exactly the semicolon tokens.
\<close>

subsection \<open>What the two are to do\<close>

definition isSemi :: "token \<Rightarrow> bool" where
  "isSemi t \<longleftrightarrow> k_kind t = tOp \<and> k_text t = '';''"

text \<open>The pieces between semicolon tokens: offset, text, and whether a token lies in it.\<close>

fun pieces :: "string \<Rightarrow> nat \<Rightarrow> bool \<Rightarrow> token list \<Rightarrow> (nat \<times> string \<times> bool) list" where
  "pieces q start has [] = [(start, drop start q, has)]"
| "pieces q start has (t # ts) =
     (if isSemi t then (start, take (k_pos t - start) (drop start q), has) # pieces q (k_pos t + 1) False ts
      else pieces q start (has \<or> k_kind t \<noteq> tEOF) ts)"

text \<open>No number or parameter is directly followed by a string literal.\<close>

fun apart :: "token list \<Rightarrow> bool" where
  "apart (t # u # ts) \<longleftrightarrow>
     \<not> ((k_kind t = tNumber \<or> k_kind t = tParam) \<and> k_kind u = tString \<and> k_pos u = k_pos t + length (k_text t)) \<and> apart (u # ts)"
| "apart ts \<longleftrightarrow> True"

subsection \<open>Regions\<close>

lemma drop_Cons:
  assumes "drop i q = c # s"
  shows "i < length q" "q ! i = c" "drop (Suc i) q = s"
proof -
  show l: "i < length q" using assms by (metis drop_all list.distinct(1) not_less)
  show "q ! i = c" "drop (Suc i) q = s" using Cons_nth_drop_Suc [OF l] assms by simp_all
qed

lemma drop_Cons2:
  assumes "drop i q = c # d # s"
  shows "Suc i < length q" "q ! i = c" "q ! Suc i = d" "drop (Suc i) q = d # s" "drop (Suc (Suc i)) q = s"
  using drop_Cons [OF assms] drop_Cons [of "Suc i" q d s] by auto

lemma drop_Cons1:
  assumes "drop i q = [c]"
  shows "q ! i = c" "length q = Suc i"
  using drop_Cons [OF assms] by (auto intro: le_antisym)

text \<open>The bytes of a quoted region after its opening quote, up to and with the closing one.\<close>

fun closeAt :: "bool \<Rightarrow> char \<Rightarrow> string \<Rightarrow> nat option" where
  "closeAt esc q [] = None"
| "closeAt esc q [c] = (if c = q then Some 1 else None)"
| "closeAt esc q (c # d # s) =
     (if c = q then (if d = q then map_option (\<lambda>n. n + 2) (closeAt esc q s) else Some 1)
      else if esc \<and> c = backslash then map_option (\<lambda>n. n + 2) (closeAt esc q s)
      else map_option Suc (closeAt esc q (d # s)))"

lemma quotedLoop_closeAt: "quotedLoop q s i b = Some (t, n) \<Longrightarrow> closeAt False q s = Some (n - i)"
proof (induction q s i b rule: quotedLoop.induct)
  case (3 q c d s i b)
  then show ?case using quotedLoop_bounds [of q s "i + 2" "b @ [q]" t n] quotedLoop_bounds [of q "d # s" "i + 1" "b @ [c]" t n]
    by (auto split: if_splits)
qed (auto split: if_splits)

lemma eStringLoop_closeAt: "eStringLoop s i b = Some (t, n) \<Longrightarrow> closeAt True quoteChar s = Some (n - i)"
proof (induction s i b rule: eStringLoop.induct)
  case (3 c d s i b)
  then show ?case using eStringLoop_bounds [of s "i + 2" "b @ [quoteChar]" t n] eStringLoop_bounds [of s "i + 2" "b @ [escapeOf d]" t n] eStringLoop_bounds [of "d # s" "i + 1" "b @ [c]" t n]
    by (auto split: if_splits)
qed (auto split: if_splits)

lemma closeAt_last: "closeAt esc q s = Some n \<Longrightarrow> 0 < n \<and> n \<le> length s \<and> s ! (n - 1) = q"
  by (induction esc q s arbitrary: n rule: closeAt.induct) (auto split: if_splits simp: nth_Cons split: nat.splits)

lemma skipLoop_closeAt: "closeAt esc q s = Some n \<Longrightarrow> q \<noteq> backslash \<Longrightarrow> skipLoop esc q N s i + 1 = i + n"
  by (induction esc q s arbitrary: n i rule: closeAt.induct) (auto split: if_splits)

lemma commentLoop_last: "commentLoop depth s i = Some n \<Longrightarrow> \<exists>m. n = i + Suc m \<and> m < length s \<and> s ! m = CHR ''/''"
proof (induction depth s i rule: commentLoop.induct)
  case (1 depth c d s i)
  have "\<exists>m. n = i + Suc m \<and> m < Suc (Suc (length s)) \<and> (c # d # s) ! m = CHR ''/''" if "n = i + 2 + Suc m" "m < length s" "s ! m = CHR ''/''" for m
    using that by (intro exI [of _ "m + 2"]) simp
  moreover have "\<exists>m. n = i + Suc m \<and> m < Suc (Suc (length s)) \<and> (c # d # s) ! m = CHR ''/''" if "n = i + 1 + Suc m" "m < length (d # s)" "(d # s) ! m = CHR ''/''" for m
    using that by (intro exI [of _ "m + 1"]) simp
  moreover have "\<exists>m. n = i + Suc m \<and> m < Suc (Suc (length s)) \<and> (c # d # s) ! m = CHR ''/''" if "n = i + 2" "d = CHR ''/''"
    using that by (intro exI [of _ 1]) simp
  ultimately show ?case using 1 by (auto split: if_splits)
qed auto

text \<open>A byte that opens nothing.\<close>

definition plainAt :: "string \<Rightarrow> nat \<Rightarrow> bool" where
  "plainAt q k \<longleftrightarrow> k < length q \<and> q ! k \<notin> {quoteChar, dquote, CHR '';''} \<and>
     \<not> (q ! k = CHR ''/'' \<and> byteAt ((=) (CHR ''*'')) q (k + 1)) \<and> \<not> (q ! k = CHR ''-'' \<and> byteAt ((=) (CHR ''-'')) q (k + 1))"

subsection \<open>Cutting a buffer\<close>

text \<open>Where a token begins, the bytes before it decide whether a quote opens an escape string.\<close>

abbreviation isE :: "char \<Rightarrow> bool" where
  "isE c \<equiv> c = CHR ''e'' \<or> c = CHR ''E''"

definition startsE :: "string \<Rightarrow> nat \<Rightarrow> bool" where
  "startsE q i \<longleftrightarrow> i + 1 < length q \<and> isE (q ! i) \<and> q ! (i + 1) = quoteChar"

definition boundary :: "string \<Rightarrow> nat \<Rightarrow> bool" where
  "boundary q i \<longleftrightarrow> (startsE q i \<longrightarrow> i = 0 \<or> \<not> shellIdentByte (q ! (i - 1))) \<and>
     (i < length q \<and> q ! i = quoteChar \<and> 0 < i \<and> isE (q ! (i - 1)) \<longrightarrow> 2 \<le> i \<and> isIdentByte (q ! (i - 2)))"

text \<open>What a token does to the state of a scan.\<close>

definition absorb :: "('s \<Rightarrow> 's) \<Rightarrow> (nat \<Rightarrow> 's \<Rightarrow> 's) \<Rightarrow> token \<Rightarrow> 's \<Rightarrow> 's" where
  "absorb tok cutAt t s = (if isSemi t then cutAt (k_pos t) s else if k_kind t = tEOF then s else tok s)"

subsection \<open>The bytes of a turn of the lexer\<close>

lemma ident_chars: "isIdentPart c \<longleftrightarrow> isIdentByte c" "isIdentByte c \<Longrightarrow> shellIdentByte c" "isE c \<Longrightarrow> isIdentByte c"
  by (auto simp: isIdentPart_def isIdentStart_def isDigit_def isIdentByte_def shellIdentByte_def Let_def)

lemma ident_plain:
  assumes "k < length q" "isIdentByte (q ! k) \<or> q ! k \<in> {CHR ''.'', CHR ''+'', CHR ''$''} \<or> q ! k \<in> {CHR '' '', CHR 0x09, newline, CHR 0x0D}"
  shows "plainAt q k"
proof -
  have "\<not> isIdentByte c" if "c \<in> {quoteChar, dquote, CHR '';'', CHR ''/'', CHR ''-''}" for c using that by (auto simp: isIdentByte_def)
  then show ?thesis using assms unfolding plainAt_def by fastforce
qed

lemma scanNumber_bytes:
  assumes "i \<le> k" "k < scanNumber q i"
  shows "k < length q \<and> (isDigit (q ! k) \<or> q ! k = CHR ''.'' \<or> isE (q ! k) \<or> q ! k = CHR ''+'' \<or> q ! k = CHR ''-'' \<and> byteAt isDigit q (k + 1))"
proof -
  let ?i1 = "skipWhile isDigit q i"
  let ?i2 = "if byteAt ((=) (CHR ''.'')) q ?i1 then skipWhile isDigit q (?i1 + 1) else ?i1"
  let ?j = "if byteAt (\<lambda>c. c = CHR ''+'' \<or> c = CHR ''-'') q (?i2 + 1) then ?i2 + 2 else ?i2 + 1"
  have one: "k < length q \<and> (isDigit (q ! k) \<or> q ! k = CHR ''.'')" if "k < ?i2"
  proof (cases "k < ?i1")
    case True
    then show ?thesis using skipWhile_in [OF assms(1)] by blast
  next
    case False
    then have "k = ?i1 \<or> ?i1 + 1 \<le> k" by linarith
    then show ?thesis using that False skipWhile_in [of "?i1 + 1" k isDigit q] by (auto split: if_splits)
  qed
  show ?thesis
  proof (cases "k < ?i2")
    case False
    then have n: "scanNumber q i = skipWhile isDigit q ?j" "byteAt (\<lambda>c. isE c) q ?i2" "byteAt isDigit q ?j"
      using assms(2) unfolding scanNumber_def Let_def by (auto split: if_splits)
    consider "k = ?i2" | "k = ?i2 + 1" "?j = ?i2 + 2" | "?j \<le> k" using False by (cases "byteAt (\<lambda>c. c = CHR ''+'' \<or> c = CHR ''-'') q (?i2 + 1)") fastforce+
    then show ?thesis
    proof cases
      case 1
      then show ?thesis using n(2) unfolding byteAt_def by blast
    next
      case 2
      then have "byteAt (\<lambda>c. c = CHR ''+'' \<or> c = CHR ''-'') q k" by (metis add_left_cancel one_eq_numeral_iff numeral_One semiring_norm(85))
      then show ?thesis using n(3) 2 by (auto simp: byteAt_def)
    next
      case 3
      then show ?thesis using skipWhile_in [of ?j k isDigit q] assms(2) n(1) by metis
    qed
  qed (use one in blast)
qed

text \<open>The operators, and the bytes they can be made of.\<close>

definition operators :: "string list" where
  "operators =
     [''!~*'', ''->>'', ''#>>'', ''!='', ''<>'', ''<='', ''>='', ''!~'', ''~*'', ''::'', ''||'', ''->'', ''#>'', ''@>'', ''<@'', ''?|'', ''?&''] @
     map (\<lambda>c. [c]) ''=<>(),;*.+-~[]/%?''"

lemma operators_sets:
  "{''!~*'', ''->>'', ''#>>''} \<subseteq> set operators"
  "{''!='', ''<>'', ''<='', ''>='', ''!~'', ''~*'', ''::'', ''||'', ''->'', ''#>'', ''@>'', ''<@'', ''?|'', ''?&''} \<subseteq> set operators"
  "c \<in> set ''=<>(),;*.+-~[]/%?'' \<Longrightarrow> [c] \<in> set operators"
proof -
  show "c \<in> set ''=<>(),;*.+-~[]/%?'' \<Longrightarrow> [c] \<in> set operators" unfolding operators_def set_append set_map by blast
qed code_simp+

lemma scanOp_operator:
  assumes "i < length q" "scanOp q i \<noteq> []"
  shows "scanOp q i \<in> set operators \<and> take (length (scanOp q i)) (drop i q) = scanOp q i"
proof -
  let ?three = "i + 2 < length q \<and> take 3 (drop i q) \<in> {''!~*'', ''->>'', ''#>>''}"
  let ?two = "i + 1 < length q \<and> take 2 (drop i q) \<in> {''!='', ''<>'', ''<='', ''>='', ''!~'', ''~*'', ''::'', ''||'', ''->'', ''#>'', ''@>'', ''<@'', ''?|'', ''?&''}"
  have one: "take 1 (drop i q) = [q ! i]" using assms(1) by (simp add: take_Suc_conv_app_nth)
  have t: "take (length (take n (drop i q))) (drop i q) = take n (drop i q)" for n by (simp add: min_def)
  show ?thesis
  proof (cases ?three)
    case True
    have "scanOp q i = take 3 (drop i q)" unfolding scanOp_def Let_def if_P [OF True] by (rule refl)
    then show ?thesis using subsetD [OF operators_sets(1) conjunct2 [OF True]] t [of 3] by metis
  next
    case n3: False
    show ?thesis
    proof (cases ?two)
      case True
      have "scanOp q i = take 2 (drop i q)" unfolding scanOp_def Let_def if_not_P [OF n3] if_P [OF True] by (rule refl)
      then show ?thesis using subsetD [OF operators_sets(2) conjunct2 [OF True]] t [of 2] by metis
    next
      case False
      have e: "scanOp q i = (if set (take 1 (drop i q)) \<subseteq> set ''=<>(),;*.+-~[]/%?'' then take 1 (drop i q) else [])"
        unfolding scanOp_def Let_def if_not_P [OF n3] if_not_P [OF False] by (rule refl)
      have s: "set (take 1 (drop i q)) \<subseteq> set ''=<>(),;*.+-~[]/%?''" using assms(2) unfolding e by (rule contrapos_np) (rule if_not_P)
      have "scanOp q i = [q ! i]" using trans [OF e if_P [OF s]] unfolding one .
      moreover have "[q ! i] \<in> set operators" by (rule operators_sets(3), rule subsetD [OF s]) (unfold one, rule list.set_intros)
      ultimately show ?thesis using t [of 1] one by metis
    qed
  qed
qed

lemma operator_bytes:
  "list_all (\<lambda>op. op \<noteq> [] \<and> \<not> shellIdentByte (hd op) \<and> \<not> shellIdentByte (last op) \<and> \<not> shellSpace (hd op) \<and> quoteChar \<notin> set (tl op) \<and> dquote \<notin> set (tl op) \<and>
     (op = '';'' \<or> CHR '';'' \<notin> set op) \<and> CHR ''-'' \<notin> set (tl op) \<and> CHR ''/'' \<notin> set (tl op)) operators"
  by code_simp

lemma op_byte:
  assumes "i < length q" "scanOp q i \<noteq> []" "k < length (scanOp q i)"
  shows "i + k < length q \<and> q ! (i + k) = scanOp q i ! k"
proof -
  have "length (scanOp q i) \<le> length q - i" by (rule scanOp_length)
  moreover have "q ! (i + k) = take (length (scanOp q i)) (drop i q) ! k" using assms(1,3) by simp
  ultimately show ?thesis using scanOp_operator [OF assms(1,2)] assms(3) by simp
qed

lemma op_plain:
  assumes i: "i < length q" "scanOp q i \<noteq> []" and k: "i \<le> k" "k < i + length (scanOp q i)" and "scanOp q i \<noteq> '';''"
    and "q ! i = CHR ''-'' \<Longrightarrow> \<not> byteAt ((=) (CHR ''-'')) q (i + 1)" "q ! i = CHR ''/'' \<Longrightarrow> \<not> byteAt ((=) (CHR ''*'')) q (i + 1)"
      "q ! i \<noteq> dquote" "q ! i \<noteq> quoteChar"
  shows "plainAt q k"
proof -
  let ?op = "scanOp q i"
  have o: "quoteChar \<notin> set (tl ?op)" "dquote \<notin> set (tl ?op)" "CHR '';'' \<notin> set ?op" "CHR ''-'' \<notin> set (tl ?op)" "CHR ''/'' \<notin> set (tl ?op)"
    using operator_bytes scanOp_operator [OF i] assms(5) by (auto simp: list_all_iff)
  have q: "k < length q" "q ! k = ?op ! (k - i)" using op_byte [OF i, of "k - i"] k by auto
  have "q ! k \<in> set ?op" unfolding q(2) using k by (intro nth_mem) simp
  then have s: "q ! k \<noteq> CHR '';''" using o(3) by metis
  show ?thesis
  proof (cases "k = i")
    case True
    then show ?thesis using assms(6-9) q(1) s by (simp add: plainAt_def)
  next
    case False
    then have "i < k" using k(1) by simp
    then have "?op ! (k - i) = tl ?op ! (k - i - 1)" "k - i - 1 < length (tl ?op)" using k by (auto simp: nth_tl Suc_diff_Suc)
    then have "q ! k \<in> set (tl ?op)" using q(2) by simp
    then have "q ! k \<notin> {quoteChar, dquote, CHR ''-'', CHR ''/''}" using o by (metis empty_iff insert_iff)
    then show ?thesis using q(1) s by (auto simp: plainAt_def)
  qed
qed

lemma quote_facts:
  assumes "scanQuoted (drop i q) c = Inr (t, n)" "i < length q"
  shows "\<exists>m. n = m + 1 \<and> closeAt False c (drop (i + 1) q) = Some m \<and> q ! (i + m) = c \<and> i + m < length q"
proof -
  have l: "quotedLoop c (drop (i + 1) q) 1 [] = Some (t, n)" using assms(1) by (auto simp: scanQuoted_def split: option.splits)
  note c = quotedLoop_closeAt [OF l] and e = closeAt_last [OF quotedLoop_closeAt [OF l]]
  obtain k where "n = Suc (Suc k)" using e by (cases n; cases "n - 1") auto
  then show ?thesis using c e by (intro exI [of _ "Suc k"]) auto
qed

lemma estring_facts:
  assumes "scanEString (drop (i + 1) q) = Inr (t, n)" "i + 1 < length q"
  shows "\<exists>m. n = m + 1 \<and> closeAt True quoteChar (drop (i + 2) q) = Some m \<and> q ! (i + 1 + m) = quoteChar \<and> i + 1 + m < length q"
proof -
  have l: "eStringLoop (drop (i + 2) q) 1 [] = Some (t, n)" using assms(1) by (auto simp: scanEString_def split: option.splits)
  note c = eStringLoop_closeAt [OF l] and e = closeAt_last [OF eStringLoop_closeAt [OF l]]
  obtain k where "n = Suc (Suc k)" using e by (cases n; cases "n - 1") auto
  then show ?thesis using c e by (intro exI [of _ "Suc k"]) auto
qed

lemma skipWhile_last: "i < skipWhile P q i \<Longrightarrow> P (q ! (skipWhile P q i - 1))"
  using skipWhile_in [of i "skipWhile P q i - 1" P q] by auto

lemma scanNumber_last:
  assumes "i < scanNumber q i"
  shows "isDigit (q ! (scanNumber q i - 1)) \<or> q ! (scanNumber q i - 1) = CHR ''.''"
proof -
  let ?i1 = "skipWhile isDigit q i"
  let ?i2 = "if byteAt ((=) (CHR ''.'')) q ?i1 then skipWhile isDigit q (?i1 + 1) else ?i1"
  let ?j = "if byteAt (\<lambda>c. c = CHR ''+'' \<or> c = CHR ''-'') q (?i2 + 1) then ?i2 + 2 else ?i2 + 1"
  let ?c = "byteAt (\<lambda>c. c = CHR ''e'' \<or> c = CHR ''E'') q ?i2 \<and> byteAt isDigit q ?j"
  have e: "scanNumber q i = (if ?c then skipWhile isDigit q ?j else ?i2)" unfolding scanNumber_def Let_def by (rule refl)
  show ?thesis
  proof (cases ?c)
    case True
    show ?thesis unfolding trans [OF e if_P [OF True]] using skipWhile_last [OF skipWhile_first [OF conjunct2 [OF True]]] ..
  next
    case False
    note e1 = trans [OF e if_not_P [OF False]]
    show ?thesis
    proof (cases "byteAt ((=) (CHR ''.'')) q ?i1")
      case True
      note e2 = trans [OF e1 if_P [OF True]]
      show ?thesis unfolding e2 using True skipWhile_last [of "?i1 + 1" isDigit q] skipWhile_bounds(1) [of "?i1 + 1" isDigit q]
        by (cases "skipWhile isDigit q (?i1 + 1) = ?i1 + 1") auto
    next
      case f: False
      note e2 = trans [OF e1 if_not_P [OF f]]
      show ?thesis using assms skipWhile_last [of i isDigit q] unfolding e2 by blast
    qed
  qed
qed

lemma boundaryI:
  assumes "0 < j" "\<not> shellIdentByte (q ! (j - 1))"
  shows "boundary q j"
  using assms ident_chars(2,3) [of "q ! (j - 1)"] by (auto simp: boundary_def)

lemma boundary_not: "j < length q \<Longrightarrow> \<not> isE (q ! j) \<Longrightarrow> q ! j \<noteq> quoteChar \<Longrightarrow> boundary q j"
  by (auto simp: boundary_def startsE_def)

lemma boundary_next:
  assumes i: "i < length q" and r: "lexAt q i = Inr (t, j)"
    and apart: "\<And>x. t = Some x \<Longrightarrow> k_kind x = tNumber \<or> k_kind x = tParam \<Longrightarrow> \<not> startsE q j"
  shows "boundary q j"
  using r
proof (cases rule: lexAt_cases)
  case space
  then show ?thesis by (intro boundaryI) (auto simp: shellIdentByte_def)
next
  case line
  have "newline \<noteq> quoteChar" "\<not> isE newline" by simp_all
  then show ?thesis using boundary_not [of j q] skipWhile_stop [of "\<lambda>c. c \<noteq> newline" q i] line(4) unfolding boundary_def startsE_def
    by (cases "j < length q") (auto simp del: char.inject)
next
  case (block n)
  then obtain m where "n = Suc m" "q ! (i + m) = CHR ''/''" using commentLoop_last [of 0 "drop i q" 0 n] by (auto simp: blockCommentLen_def)
  then show ?thesis using block by (intro boundaryI) (auto simp: shellIdentByte_def)
next
  case (estring tx n)
  then obtain m where "n = m + 1" "q ! (i + 1 + m) = quoteChar" using estring_facts [of i q tx n] by auto
  then show ?thesis using estring by (intro boundaryI) (auto simp: shellIdentByte_def)
next
  case (quoted c k tx n)
  then obtain m where "n = m + 1" "q ! (i + m) = c" using quote_facts [of i q c tx n] i by auto
  then show ?thesis using quoted(1,5) by (intro boundaryI) (auto simp: shellIdentByte_def)
next
  case (ident tx)
  have j: "i < j" using ident skipWhile_first [of isIdentPart q i] i by (simp add: byteAt_def isIdentPart_def)
  have st: "j < length q \<Longrightarrow> \<not> isIdentByte (q ! j)" using skipWhile_stop [of isIdentPart q i] ident(4) ident_chars(1) by simp
  have "isIdentByte (q ! (j - 2))" "2 \<le> j" if "j < length q" "q ! j = quoteChar" "isE (q ! (j - 1))"
  proof -
    have "j \<noteq> i + 1" using that ident(2) by auto
    then show "2 \<le> j" "isIdentByte (q ! (j - 2))" using j skipWhile_in [of i "j - 2" isIdentPart q] ident(4) ident_chars(1) by auto
  qed
  then show ?thesis using st ident_chars(3) [of "q ! j"] unfolding boundary_def startsE_def by auto
next
  case number
  have j: "i < j" using scanNumber_bounds [OF i] number by auto
  have "\<not> isDigit c \<or> \<not> isE c" "\<not> isE (CHR ''.'')" for c by (auto simp: isDigit_def)
  then have "\<not> isE (q ! (j - 1))" using scanNumber_last [of i q] j number(3) by metis
  then show ?thesis using apart [OF number(2)] unfolding boundary_def by simp
next
  case param
  have "isDigit (q ! (j - 1))" using skipWhile_last [OF skipWhile_first [OF param(2)]] unfolding param(4) .
  moreover have "\<not> isDigit c \<or> \<not> isE c" for c by (auto simp: isDigit_def)
  ultimately have "\<not> isE (q ! (j - 1))" by metis
  then show ?thesis using apart [OF param(3)] unfolding boundary_def by simp
next
  case (oper op)
  have o: "\<not> shellIdentByte (last op)" using operator_bytes scanOp_operator [OF i] oper(1,2) by (auto simp: list_all_iff)
  obtain m where "length op = Suc m" using oper(2) by (cases op) auto
  then have "q ! (j - 1) = last op" "0 < j" using op_byte [OF i, of m] oper(1,2,8) by (auto simp: last_conv_nth)
  then show ?thesis using o by (intro boundaryI) simp_all
qed

lemma apart_tl: "apart (t # ts) \<Longrightarrow> apart ts"
  by (cases ts) auto

lemma startsE_string:
  assumes "lexesTo q j ts" "startsE q j"
  shows "\<exists>u us. ts = u # us \<and> k_kind u = tString \<and> k_pos u = j"
  using assms(1)
proof (cases rule: lexesTo.cases)
  case (turn t k us)
  have e: "isE (q ! j)" "byteAt ((=) quoteChar) q (j + 1)" using assms(2) by (auto simp: startsE_def)
  from turn(3) show ?thesis
  proof (cases rule: lexAt_cases)
    case (estring tx n)
    then show ?thesis using turn(1) by simp
  next
    case (oper op)
    have j: "j < length q" using e(2) by simp
    have "\<not> shellIdentByte (hd op)" using operator_bytes scanOp_operator [OF j] oper(1,2) by (auto simp: list_all_iff)
    moreover have "q ! j = hd op" using op_byte [OF j, of 0] oper(1,2) by (simp add: hd_conv_nth)
    ultimately show ?thesis using ident_chars(2,3) e(1) by metis
  qed (use e in \<open>auto simp: isDigit_def\<close>)
qed (use assms(2) in \<open>simp add: startsE_def\<close>)

text \<open>
  A scan of a buffer by offset, comment depth and state. It skips comments and quoted regions, notes
  that it saw a token and cuts at a semicolon; how it does so is its own.
\<close>

locale sql_cutter =
  fixes q :: string and run :: "nat \<Rightarrow> nat \<Rightarrow> 's \<Rightarrow> 'r" and opensE :: "nat \<Rightarrow> bool" and tok :: "'s \<Rightarrow> 's" and cutAt :: "nat \<Rightarrow> 's \<Rightarrow> 's"
  assumes in_comment: "0 < d \<Longrightarrow> i < length q \<Longrightarrow> run i d s =
      (if q ! i = CHR ''*'' \<and> byteAt ((=) (CHR ''/'')) q (i + 1) then run (i + 2) (d - 1) s
       else if q ! i = CHR ''/'' \<and> byteAt ((=) (CHR ''*'')) q (i + 1) then run (i + 2) (d + 1) s else run (i + 1) d s)"
    and block: "i < length q \<Longrightarrow> q ! i = CHR ''/'' \<Longrightarrow> byteAt ((=) (CHR ''*'')) q (i + 1) \<Longrightarrow> run i 0 s = run (i + 2) 1 s"
    and line: "i < length q \<Longrightarrow> q ! i = CHR ''-'' \<Longrightarrow> byteAt ((=) (CHR ''-'')) q (i + 1) \<Longrightarrow>
      run i 0 s = run (skipWhile (\<lambda>c. c \<noteq> newline) q i + 1) 0 s"
    and plain: "plainAt q i \<Longrightarrow> run i 0 s = run (i + 1) 0 (if shellSpace (q ! i) then s else tok s)"
    and quoted_region: "i < length q \<Longrightarrow> q ! i = c \<Longrightarrow> c = quoteChar \<or> c = dquote \<Longrightarrow>
      closeAt (c = quoteChar \<and> opensE i) c (drop (i + 1) q) = Some n \<Longrightarrow> run i 0 s = run (i + 1 + n) 0 (tok s)"
    and semicolon: "i < length q \<Longrightarrow> q ! i = CHR '';'' \<Longrightarrow> run i 0 s = run (i + 1) 0 (cutAt i s)"
    and past: "length q \<le> i \<Longrightarrow> run i d s = run (length q) d s"
    and opens: "startsE q i \<Longrightarrow> i = 0 \<or> \<not> shellIdentByte (q ! (i - 1)) \<Longrightarrow> opensE (i + 1)"
    and opens_not: "i = 0 \<or> \<not> isE (q ! (i - 1)) \<or> 2 \<le> i \<and> isIdentByte (q ! (i - 2)) \<Longrightarrow> \<not> opensE i"
    and tok_tok: "tok (tok s) = tok s"
begin

lemma comment_run:
  "commentLoop (int d) rest n0 = Some n \<Longrightarrow> 0 < d \<Longrightarrow> drop i q = rest \<Longrightarrow> run i d s = run (i + (n - n0)) 0 s"
proof (induction "int d" rest n0 arbitrary: d i rule: commentLoop.induct)
  case (1 c e rest n0)
  note dr = drop_Cons2 [OF 1(6)] and step = in_comment [OF 1(5), of i s]
  have b: "i + 2 + (n - (n0 + 2)) = i + (n - n0)" if "commentLoop x rest (n0 + 2) = Some n" for x using commentLoop_bounds [OF that] by arith
  have b1: "i + 1 + (n - (n0 + 1)) = i + (n - n0)" if "commentLoop x (e # rest) (n0 + 1) = Some n" for x using commentLoop_bounds [OF that] by arith
  consider (opn) "c = CHR ''/'' \<and> e = CHR ''*''" | (close) "c = CHR ''*'' \<and> e = CHR ''/''"
    | (other) "\<not> (c = CHR ''/'' \<and> e = CHR ''*'')" "\<not> (c = CHR ''*'' \<and> e = CHR ''/'')" by blast
  then show ?case
  proof cases
    case opn
    have c: "commentLoop (int (d + 1)) rest (n0 + 2) = Some n" using 1(4) opn by (simp add: add.commute)
    have "run (i + 2) (d + 1) s = run (i + 2 + (n - (n0 + 2))) 0 s" using 1(1) [OF opn _ c, of "i + 2"] dr by simp
    then show ?thesis unfolding b [OF c] using step opn dr by simp
  next
    case close
    have st: "run i d s = run (i + 2) (d - 1) s" using step close dr by simp
    show ?thesis
    proof (cases "d = 1")
      case True
      then have "n = n0 + 2" using 1(4) close by simp
      then show ?thesis using st True by simp
    next
      case False
      have d: "int d - 1 = int (d - 1)" "int d - 1 \<noteq> 0" using False 1(5) by auto
      have "commentLoop (int d - 1) rest (n0 + 2) = Some n" using 1(4) close d(2) by simp
      then have c: "commentLoop (int (d - 1)) rest (n0 + 2) = Some n" unfolding d(1) .
      have "run (i + 2) (d - 1) s = run (i + 2 + (n - (n0 + 2))) 0 s"
        by (rule 1(2) [OF _ close d(2,1) c]) (use dr(5) close False 1(5) in simp_all)
      then show ?thesis unfolding b [OF c] using st by simp
    qed
  next
    case other
    have c: "commentLoop (int d) (e # rest) (n0 + 1) = Some n" using 1(4) other by auto
    have "run (i + 1) d s = run (i + 1 + (n - (n0 + 1))) 0 s" using 1(3) [OF other refl c 1(5), of "i + 1"] dr by simp
    then show ?thesis unfolding b1 [OF c] using step other dr by auto
  qed
qed simp_all

lemma block_run:
  assumes "i < length q" "q ! i = CHR ''/''" "byteAt ((=) (CHR ''*'')) q (i + 1)" "blockCommentLen (drop i q) = Some n"
  shows "run i 0 s = run (i + n) 0 s"
proof -
  have dr: "drop i q = CHR ''/'' # CHR ''*'' # drop (i + 2) q"
    using assms(1-3) by (simp add: Cons_nth_drop_Suc [symmetric])
  have c: "commentLoop (int 1) (drop (i + 2) q) 2 = Some n" using assms(4) unfolding blockCommentLen_def dr by (simp add: numeral_2_eq_2)
  have "run (i + 2) 1 s = run (i + 2 + (n - 2)) 0 s" by (rule comment_run [OF c]) simp_all
  moreover have "i + 2 + (n - 2) = i + n" using commentLoop_bounds [OF c] by arith
  ultimately show ?thesis using block [OF assms(1-3)] by metis
qed

lemma line_run:
  assumes "i < length q" "q ! i = CHR ''-''" "byteAt ((=) (CHR ''-'')) q (i + 1)"
  shows "run i 0 s = run (skipWhile (\<lambda>c. c \<noteq> newline) q i) 0 s"
proof -
  let ?k = "skipWhile (\<lambda>c. c \<noteq> newline) q i"
  have "run ?k 0 s = run (?k + 1) 0 s"
  proof (cases "?k < length q")
    case True
    then have "q ! ?k = newline" using skipWhile_stop by blast
    then show ?thesis using plain [of ?k s] True by (simp add: plainAt_def shellSpace_def)
  next
    case False
    then show ?thesis using past [of ?k 0 s] past [of "?k + 1" 0 s] by simp
  qed
  then show ?thesis using line [OF assms] by simp
qed

lemma plain_run:
  assumes "i \<le> j" "\<And>k. i \<le> k \<Longrightarrow> k < j \<Longrightarrow> plainAt q k"
  shows "run i 0 s = run j 0 (if \<forall>k. i \<le> k \<and> k < j \<longrightarrow> shellSpace (q ! k) then s else tok s)"
  using assms
proof (induction j rule: dec_induct)
  case (step j)
  have "run i 0 s = run j 0 (if \<forall>k. i \<le> k \<and> k < j \<longrightarrow> shellSpace (q ! k) then s else tok s)" using step by simp
  moreover have "(\<forall>k. i \<le> k \<and> k < Suc j \<longrightarrow> shellSpace (q ! k)) \<longleftrightarrow> (\<forall>k. i \<le> k \<and> k < j \<longrightarrow> shellSpace (q ! k)) \<and> shellSpace (q ! j)"
    using step(1) less_Suc_eq by auto
  ultimately show ?case using plain [of j] step by (auto simp: tok_tok)
qed auto

lemma tok_run:
  assumes "i < j" "\<And>k. i \<le> k \<Longrightarrow> k < j \<Longrightarrow> plainAt q k" "\<not> shellSpace (q ! i)"
  shows "run i 0 s = run j 0 (tok s)"
  using plain_run [of i j s] assms by auto

lemma turn_run:
  assumes i: "i < length q" and r: "lexAt q i = Inr (t, j)" and bd: "boundary q i"
  shows "run i 0 s = run j 0 (case t of None \<Rightarrow> s | Some x \<Rightarrow> absorb tok cutAt x s)"
  using r
proof (cases rule: lexAt_cases)
  case space
  then show ?thesis using plain [of i s] ident_plain [OF i] by (auto simp: shellSpace_def)
next
  case line
  then show ?thesis using line_run [OF i] by simp
next
  case (block n)
  then show ?thesis using block_run [OF i] by simp
next
  case (estring tx n)
  have st: "startsE q i" using estring(1,2) by (auto simp: startsE_def)
  obtain m where m: "n = m + 1" "closeAt True quoteChar (drop (i + 2) q) = Some m" using estring_facts [of i q tx n] estring by auto
  have p: "isIdentByte (q ! i)" using ident_chars(3) estring(1) by blast
  have o: "opensE (i + 1)" using opens [OF st] bd st by (auto simp: boundary_def)
  have "run (i + 1) 0 (tok s) = run (i + 1 + 1 + m) 0 (tok (tok s))" by (rule quoted_region [of _ quoteChar]) (use estring(2) m(2) o in simp_all)
  moreover have "run i 0 s = run (i + 1) 0 (tok s)" using plain [of i s] ident_plain [OF i] p estring(1) by (auto simp: shellSpace_def)
  ultimately show ?thesis using estring(4,5) m(1) by (simp add: tok_tok absorb_def isSemi_def)
next
  case (ident tx)
  have b: "isIdentByte (q ! k) \<and> k < length q" if "i \<le> k" "k < j" for k using that skipWhile_in [of i k isIdentPart q] ident(4) ident_chars(1) by auto
  have j: "i < j" using lexAt_progress [OF i r] by simp
  have "\<not> shellSpace (q ! i)" using b [of i] j by (auto simp: shellSpace_def isIdentByte_def)
  then show ?thesis using tok_run [OF j, of s] ident_plain b ident(3) by (simp add: absorb_def isSemi_def)
next
  case (quoted c k tx n)
  obtain m where m: "n = m + 1" "closeAt False c (drop (i + 1) q) = Some m" using quote_facts [OF quoted(3) i] by auto
  have "\<not> (c = quoteChar \<and> opensE i)"
  proof
    assume c: "c = quoteChar \<and> opensE i"
    then have "q ! i = quoteChar" using quoted(2) by simp
    then show False using c opens_not [of i] bd i unfolding boundary_def by (metis gr0I)
  qed
  then have "run i 0 s = run (i + 1 + m) 0 (tok s)" by (intro quoted_region) (use i quoted m in auto)
  then show ?thesis using quoted(1,4,5) m(1) by (auto simp: absorb_def isSemi_def)
next
  case number
  have j: "i < j" using lexAt_progress [OF i r] by simp
  have "plainAt q k" if "i \<le> k" "k < j" for k
  proof -
    have b: "k < length q \<and> (isDigit (q ! k) \<or> q ! k = CHR ''.'' \<or> isE (q ! k) \<or> q ! k = CHR ''+'' \<or> q ! k = CHR ''-'' \<and> byteAt isDigit q (k + 1))"
      using scanNumber_bytes [of i k q] that number(3) by simp
    have "\<not> isDigit (CHR ''-'')" by (simp add: isDigit_def)
    then show ?thesis using b ident_plain [of k q] ident_chars(1,3) [of "q ! k"] by (auto simp: isIdentPart_def plainAt_def byteAt_def)
  qed
  moreover have "\<not> shellSpace (q ! i)" using number(1) by (auto simp: shellSpace_def isDigit_def)
  ultimately show ?thesis using tok_run [OF j, of s] number(2) by (simp add: absorb_def isSemi_def)
next
  case param
  have j: "i < j" using lexAt_progress [OF i r] by simp
  have "plainAt q k" if "i \<le> k" "k < j" for k
    using that skipWhile_in [of "i + 1" k isDigit q] param(1,4) ident_plain [of k q] ident_chars(1) [of "q ! k"] i
    by (cases "k = i") (auto simp: isIdentPart_def)
  moreover have "\<not> shellSpace (q ! i)" using param(1) by (auto simp: shellSpace_def)
  ultimately show ?thesis using tok_run [OF j, of s] param(3) by (simp add: absorb_def isSemi_def)
next
  case (oper op)
  have j: "i < j" using lexAt_progress [OF i r] by simp
  have q0: "q ! i = op ! 0" using op_byte [OF i, of 0] oper(1,2) by simp
  show ?thesis
  proof (cases "op = '';''")
    case True
    then show ?thesis using semicolon [OF i] q0 oper(7,8) by (simp add: absorb_def isSemi_def)
  next
    case False
    have "\<not> shellSpace (q ! i)" using operator_bytes scanOp_operator [OF i] oper(1,2) q0 by (auto simp: list_all_iff hd_conv_nth)
    then show ?thesis using tok_run [OF j, of s] op_plain [OF i] oper False by (simp add: absorb_def isSemi_def)
  qed
qed

lemma lexed_run:
  assumes "lexesTo q i ts" "i \<le> length q" "boundary q i" "apart ts"
  shows "run i 0 s = run (length q) 0 (fold (absorb tok cutAt) ts s)"
  using assms
proof (induction arbitrary: s rule: lexesTo.induct)
  case (stop i)
  then show ?case by (simp add: absorb_def isSemi_def)
next
  case (turn i t j ts)
  note pr = lexAt_progress [OF turn.hyps(1,2)]
  have apart: "apart ts" using turn.prems(3) apart_tl by (cases t) auto
  have "\<not> startsE q j" if x: "t = Some x" "k_kind x = tNumber \<or> k_kind x = tParam" for x
  proof
    assume "startsE q j"
    then obtain u us where u: "ts = u # us" "k_kind u = tString" "k_pos u = j" using startsE_string [OF turn.hyps(3)] by blast
    have "k_pos x + length (k_text x) = j" using turn.hyps(2)
    proof (cases rule: lexAt_cases)
      case number
      then show ?thesis using x pr by (auto simp: min_def)
    next
      case param
      then show ?thesis using x pr by (auto simp: min_def)
    qed (use x in auto)
    then show False using turn.prems(3) x u by auto
  qed
  then have "boundary q j" using boundary_next [OF turn.hyps(1,2)] by blast
  then have "run j 0 s' = run (length q) 0 (fold (absorb tok cutAt) ts s')" for s' using turn.IH pr apart by blast
  then show ?case using turn_run [OF turn.hyps(1,2) turn.prems(2), of s] by (cases t) simp_all
qed

end

subsection \<open>The two scans\<close>

definition splitRun :: "string \<Rightarrow> nat \<Rightarrow> nat \<Rightarrow> nat \<times> stmtPart list \<Rightarrow> stmtPart list" where
  "splitRun q i d s = splitLoop q i d (fst s) (snd s)"

definition splitCut :: "string \<Rightarrow> nat \<Rightarrow> nat \<times> stmtPart list \<Rightarrow> nat \<times> stmtPart list" where
  "splitCut q i s = (i + 1, snd s @ emitPart q (fst s) i)"

definition shellRun :: "string \<Rightarrow> nat \<Rightarrow> nat \<Rightarrow> scanState \<Rightarrow> scanState" where
  "shellRun q i d z = scanLoopSQL q i (z\<lparr>z_depth := d, z_quote := None, z_escapes := False\<rparr>)"

definition shellCut :: "string \<Rightarrow> nat \<Rightarrow> scanState \<Rightarrow> scanState" where
  "shellCut q i z =
     z\<lparr>z_stmts := z_stmts z @ (if z_content z then [TrimSpace (take (i - z_start z) (drop (z_start z) q))] else []), z_start := i + 1, z_content := False\<rparr>"

lemma shell_quoted:
  "closeAt esc c rest = Some n \<Longrightarrow> c \<noteq> backslash \<Longrightarrow> drop i q = rest \<Longrightarrow> z_quote z = Some c \<Longrightarrow> z_escapes z = esc \<Longrightarrow>
   scanLoopSQL q i z = scanLoopSQL q (i + n) (z\<lparr>z_quote := None, z_escapes := False\<rparr>)"
proof (induction esc c rest arbitrary: n i rule: closeAt.induct)
  case (2 esc c a)
  note dr = drop_Cons1 [OF 2(3)]
  have "scanLoopSQL q i z = scanLoopSQL q (i + 1) (z\<lparr>z_quote := None, z_escapes := False\<rparr>)"
    using 2 dr by (subst scanLoopSQL.simps) (auto split: if_splits)
  then show ?case using 2(1) by (auto split: if_splits)
next
  case (3 esc c a b rest)
  note dr = drop_Cons2 [OF 3(6)]
  show ?case
  proof (cases "a = c \<and> b \<noteq> c")
    case True
    have "scanLoopSQL q i z = scanLoopSQL q (i + 1) (z\<lparr>z_quote := None, z_escapes := False\<rparr>)"
      using True 3(5,7,8) dr by (subst scanLoopSQL.simps) auto
    then show ?thesis using 3(4) True by auto
  next
    case nclose: False
    show ?thesis
    proof (cases "a = c \<or> esc \<and> a = backslash")
      case True
      then obtain m where m: "closeAt esc c rest = Some m" "n = m + 2" using 3(4) nclose by (auto split: if_splits)
      have "scanLoopSQL q i z = scanLoopSQL q (i + 2) z" using True nclose 3(5,7,8) dr by (subst scanLoopSQL.simps) auto
      moreover have "scanLoopSQL q (i + 2) z = scanLoopSQL q (i + 2 + m) (z\<lparr>z_quote := None, z_escapes := False\<rparr>)"
        using 3(1,2) [of m "i + 2"] True nclose m(1) 3(5,7,8) dr by (cases "a = c") auto
      ultimately show ?thesis using m(2) by (simp add: algebra_simps)
    next
      case False
      then obtain m where m: "closeAt esc c (b # rest) = Some m" "n = Suc m" using 3(4) by (auto split: if_splits)
      have "scanLoopSQL q i z = scanLoopSQL q (i + 1) z" using False 3(7,8) dr by (subst scanLoopSQL.simps) auto
      moreover have "scanLoopSQL q (i + 1) z = scanLoopSQL q (i + 1 + m) (z\<lparr>z_quote := None, z_escapes := False\<rparr>)"
        using 3(3) [of m "i + 1"] False m(1) 3(5,7,8) dr by auto
      ultimately show ?thesis using m(2) by simp
    qed
  qed
qed simp

lemma opens_facts:
  "startsE q i \<Longrightarrow> i = 0 \<or> \<not> shellIdentByte (q ! (i - 1)) \<Longrightarrow> isEStringPrefix q (i + 1) \<and> opensEString q (i + 1)"
  "i = 0 \<or> \<not> isE (q ! (i - 1)) \<or> 2 \<le> i \<and> isIdentByte (q ! (i - 2)) \<Longrightarrow> \<not> isEStringPrefix q i \<and> \<not> opensEString q i"
  using ident_chars(2) [of "q ! (i - 1)"] ident_chars(2) [of "q ! (i - 2)"] by (auto simp: isEStringPrefix_def opensEString_def startsE_def)

interpretation splitter: sql_cutter q "splitRun q" "isEStringPrefix q" "\<lambda>s. s" "splitCut q" for q
proof (unfold_locales, goal_cases)
  case (1 d i s)
  then show ?case unfolding splitRun_def by (subst splitLoop.simps) (simp add: Let_def)
next
  case (2 i s)
  then show ?case unfolding splitRun_def by (subst splitLoop.simps) (simp add: Let_def)
next
  case (3 i s)
  then show ?case unfolding splitRun_def by (subst splitLoop.simps) (simp add: Let_def)
next
  case (4 i s)
  then show ?case unfolding splitRun_def by (subst splitLoop.simps) (auto simp: plainAt_def Let_def)
next
  case (5 i c n s)
  have e: "c \<noteq> backslash" "c \<noteq> CHR ''/''" "c \<noteq> CHR ''-''" using 5(3) by auto
  have "skipQuoted q i + 1 = i + 1 + n" unfolding skipQuoted_def Let_def 5(2) using skipLoop_closeAt [OF 5(4) e(1)] by simp
  then show ?case unfolding splitRun_def using 5(1-3) e by (subst splitLoop.simps) (auto simp: Let_def)
next
  case (6 i s)
  then show ?case unfolding splitRun_def splitCut_def by (subst splitLoop.simps) (simp add: Let_def)
next
  case (7 i d s)
  then show ?case unfolding splitRun_def by (subst (1 2) splitLoop.simps) simp
qed (use opens_facts in blast)+

interpretation shell: sql_cutter q "shellRun q" "opensEString q" "\<lambda>z. z\<lparr>z_content := True\<rparr>" "shellCut q" for q
proof (unfold_locales, goal_cases)
  case (1 d i s)
  then show ?case unfolding shellRun_def by (cases s, subst scanLoopSQL.simps) (simp add: Let_def)
next
  case (2 i s)
  then show ?case unfolding shellRun_def by (cases s, subst scanLoopSQL.simps) (simp add: Let_def)
next
  case (3 i s)
  then show ?case unfolding shellRun_def by (cases s, subst scanLoopSQL.simps) (simp add: Let_def)
next
  case (4 i s)
  then show ?case unfolding shellRun_def by (cases s, subst scanLoopSQL.simps) (auto simp: plainAt_def Let_def)
next
  case (5 i c n z)
  have e: "c \<noteq> backslash" "c \<noteq> CHR ''/''" "c \<noteq> CHR ''-''" using 5(3) by auto
  let ?z = "z\<lparr>z_depth := 0, z_quote := None, z_escapes := False\<rparr>"
  let ?y = "?z\<lparr>z_quote := Some c, z_escapes := opensEString q i, z_content := True\<rparr>"
  have o: "opensEString q i \<longleftrightarrow> c = quoteChar \<and> opensEString q i" using 5(2) by (auto simp: opensEString_def)
  have "scanLoopSQL q i ?z = scanLoopSQL q (i + 1) ?y" using 5(1-3) e by (subst scanLoopSQL.simps) (auto simp: Let_def)
  also have "\<dots> = scanLoopSQL q (i + 1 + n) (?y\<lparr>z_quote := None, z_escapes := False\<rparr>)"
    by (rule shell_quoted [OF 5(4) e(1)]) (use o in simp_all)
  finally show ?case unfolding shellRun_def by (cases z) simp
next
  case (6 i s)
  then show ?case unfolding shellRun_def shellCut_def by (cases s, subst scanLoopSQL.simps) (simp add: Let_def)
next
  case (7 i d s)
  then show ?case unfolding shellRun_def by (subst (1 2) scanLoopSQL.simps) simp
qed (use opens_facts in \<open>simp_all\<close>)

subsection \<open>Agreement\<close>

text \<open>What the splitter makes of a piece, and the shell of all of them.\<close>

definition partOf :: "nat \<times> string \<times> bool \<Rightarrow> stmtPart list" where
  "partOf = (\<lambda>(start, text, has).
     if TrimSpace text \<noteq> []
     then [\<lparr>sp_text = TrimSpace text, sp_off = start + (length text - length (dropWhile (\<lambda>c. c \<in> {CHR '' '', CHR 0x09, CHR 0x0D, newline}) text))\<rparr>]
     else [])"

definition shellOf :: "(nat \<times> string \<times> bool) list \<Rightarrow> scanResult" where
  "shellOf ps =
     \<lparr>r_stmts = map (\<lambda>p. TrimSpace (fst (snd p))) (filter (\<lambda>p. snd (snd p)) (butlast ps)),
      r_rest = fst (snd (last ps)), r_restHasContent = snd (snd (last ps)), r_open = False\<rparr>"

lemma absorb_cases:
  "isSemi t \<Longrightarrow> absorb tok c t s = c (k_pos t) s" "\<not> isSemi t \<Longrightarrow> k_kind t = tEOF \<Longrightarrow> absorb tok c t s = s"
  "\<not> isSemi t \<Longrightarrow> k_kind t \<noteq> tEOF \<Longrightarrow> absorb tok c t s = tok s" "\<not> isSemi t \<Longrightarrow> absorb (\<lambda>s. s) c t s = s"
  by (simp_all add: absorb_def)

lemma splitCut_pair: "splitCut q i (start, p) = (i + 1, p @ emitPart q start i)"
  by (simp add: splitCut_def)

lemma shellCut_fields:
  "z_stmts (shellCut q i z) = z_stmts z @ (if z_content z then [TrimSpace (take (i - z_start z) (drop (z_start z) q))] else [])"
  "z_start (shellCut q i z) = i + 1" "\<not> z_content (shellCut q i z)"
  by (simp_all add: shellCut_def)

lemma emitPart_piece: "emitPart q start end = partOf (start, take (end - start) (drop start q), has)"
  by (simp add: emitPart_def partOf_def Let_def)

lemma pieces_nonempty [simp]: "pieces q start has ts \<noteq> []"
  by (induction ts arbitrary: start has) auto

lemma split_pieces:
  "fold (absorb (\<lambda>s. s) (splitCut q)) ts (start, p) = (st', p') \<Longrightarrow>
   p' @ emitPart q st' (length q) = p @ concat (map partOf (pieces q start has ts))"
proof (induction ts arbitrary: start p has)
  case Nil
  then show ?case using emitPart_piece [of q start "length q" has] by simp
next
  case (Cons t ts)
  show ?case
  proof (cases "isSemi t")
    case True
    then have "fold (absorb (\<lambda>s. s) (splitCut q)) ts (k_pos t + 1, p @ emitPart q start (k_pos t)) = (st', p')"
      using Cons.prems by (simp add: absorb_cases splitCut_pair)
    from Cons.IH [OF this, of False] show ?thesis using True emitPart_piece [of q start "k_pos t" has] by simp
  next
    case False
    then have "fold (absorb (\<lambda>s. s) (splitCut q)) ts (start, p) = (st', p')" using Cons.prems by (simp add: absorb_cases)
    from Cons.IH [OF this] show ?thesis using False by simp
  qed
qed

lemma shell_pieces:
  fixes z :: scanState and ts q
  defines "z' \<equiv> fold (absorb (\<lambda>z. z\<lparr>z_content := True\<rparr>) (shellCut q)) ts z"
  shows "z_stmts z' = z_stmts z @ r_stmts (shellOf (pieces q (z_start z) (z_content z) ts)) \<and>
    drop (z_start z') q = r_rest (shellOf (pieces q (z_start z) (z_content z) ts)) \<and>
    z_content z' = r_restHasContent (shellOf (pieces q (z_start z) (z_content z) ts))"
  unfolding z'_def
proof (induction ts arbitrary: z)
  case (Cons t ts)
  then show ?case
    by (cases "isSemi t"; cases "k_kind t = tEOF"; cases "z_content z") (simp_all add: absorb_cases shellCut_fields shellOf_def)
qed (simp add: shellOf_def)

text \<open>C28. The lexer, the splitter and the shell cut a buffer at the same places. On a buffer the lexer accepts in which no string
  literal directly follows a number, the statements of the wire protocol are the trimmed pieces
  between the lexer's semicolon tokens that are not blank, with the offset of their first byte, and
  those of the shell are the pieces that hold a token; what follows the last semicolon is the
  shell's rest, and no string or comment is left open.\<close>

theorem statements_cut:
  assumes "lex q = Some (Inr toks)" "apart toks"
  shows "splitStatements q = concat (map partOf (pieces q 0 False toks)) \<and> scanSQL q = shellOf (pieces q 0 False toks)"
proof
  have b: "boundary q 0" by (simp add: boundary_def)
  note l = lex_lexesTo [OF assms(1)]
  obtain st p where f: "fold (absorb (\<lambda>s. s) (splitCut q)) toks (0, []) = (st, p)" by fastforce
  have "splitStatements q = splitRun q (length q) 0 (st, p)"
    using splitter.lexed_run [OF l _ b assms(2), of "(0, [])"] f by (simp add: splitStatements_def splitRun_def)
  also have "\<dots> = p @ emitPart q st (length q)" unfolding splitRun_def by (subst splitLoop.simps) simp
  finally show "splitStatements q = concat (map partOf (pieces q 0 False toks))" using split_pieces [OF f, of False] by simp
  let ?z = "\<lparr>z_stmts = [], z_start = 0, z_content = False, z_depth = 0, z_quote = None, z_escapes = False\<rparr>"
  let ?z' = "fold (absorb (\<lambda>z. z\<lparr>z_content := True\<rparr>) (shellCut q)) toks ?z"
  have "scanLoopSQL q 0 ?z = shellRun q (length q) 0 ?z'"
    using shell.lexed_run [OF l _ b assms(2), of ?z] by (simp add: shellRun_def)
  also have "\<dots> = ?z'\<lparr>z_depth := 0, z_quote := None, z_escapes := False\<rparr>" unfolding shellRun_def by (subst scanLoopSQL.simps) simp
  finally show "scanSQL q = shellOf (pieces q 0 False toks)"
    using shell_pieces [of q toks ?z] unfolding scanSQL_def Let_def by (simp add: shellOf_def)
qed

definition sampleBuffer :: string where
  "sampleBuffer = ''a'' @ [quoteChar] @ '';'' @ [quoteChar] @ '';/*;*/;e'' @ [quoteChar, backslash, quoteChar] @ '';'' @ [quoteChar]"

lemma sample_trim:
  "TrimSpace (''a'' @ [quoteChar] @ '';'' @ [quoteChar]) = ''a'' @ [quoteChar] @ '';'' @ [quoteChar]" "TrimSpace ''/*;*/'' = ''/*;*/''"
  "TrimSpace (''e'' @ [quoteChar, backslash, quoteChar] @ '';'' @ [quoteChar]) = ''e'' @ [quoteChar, backslash, quoteChar] @ '';'' @ [quoteChar]"
proof -
  have "list_all (\<lambda>p. list_all (\<lambda>c. c \<notin> set p) (''ae/'' @ [quoteChar])) goSpaces" by code_simp
  then have "CHR ''a'' \<notin> set p \<and> CHR ''e'' \<notin> set p \<and> CHR ''/'' \<notin> set p \<and> quoteChar \<notin> set p" if "p \<in> set goSpaces" for p
    using that by (simp add: list_all_iff)
  then show "TrimSpace (''a'' @ [quoteChar] @ '';'' @ [quoteChar]) = ''a'' @ [quoteChar] @ '';'' @ [quoteChar]" "TrimSpace ''/*;*/'' = ''/*;*/''"
    "TrimSpace (''e'' @ [quoteChar, backslash, quoteChar] @ '';'' @ [quoteChar]) = ''e'' @ [quoteChar, backslash, quoteChar] @ '';'' @ [quoteChar]"
    by (intro TrimSpace_id; simp)+
qed

theorem statements_cut_witness:
  "map sp_text (splitStatements sampleBuffer) =
     [''a'' @ [quoteChar] @ '';'' @ [quoteChar], ''/*;*/'', ''e'' @ [quoteChar, backslash, quoteChar] @ '';'' @ [quoteChar]] \<and>
   r_stmts (scanSQL sampleBuffer) = [''a'' @ [quoteChar] @ '';'' @ [quoteChar]] \<and> r_restHasContent (scanSQL sampleBuffer) \<and> \<not> r_open (scanSQL sampleBuffer)"
proof -
  let ?s = "\<lambda>i. \<lparr>k_kind = tOp, k_text = '';'', k_pos = i\<rparr>"
  let ?ts = "[\<lparr>k_kind = tIdent, k_text = ''a'', k_pos = 0\<rparr>, \<lparr>k_kind = tString, k_text = '';'', k_pos = 1\<rparr>, ?s 4, ?s 10,
    \<lparr>k_kind = tString, k_text = [quoteChar] @ '';'', k_pos = 11\<rparr>, eofAt 17]"
  have l: "lex sampleBuffer = Some (Inr ?ts)" "apart ?ts" by code_simp+
  have p: "pieces sampleBuffer 0 False ?ts =
      [(0, ''a'' @ [quoteChar] @ '';'' @ [quoteChar], True), (5, ''/*;*/'', False), (11, ''e'' @ [quoteChar, backslash, quoteChar] @ '';'' @ [quoteChar], True)]"
    by code_simp
  show ?thesis using statements_cut [OF l] unfolding p by (simp add: shellOf_def partOf_def sample_trim [simplified])
qed

end
