(* ===== verification/Spec2Isabelle.thy ===== *)
theory Spec2Isabelle
  imports FkSim StmtCut
begin

text \<open>
  bytdb is a relational engine on btypedb, an ordered key-value store with transactions. Tables, rows,
  secondary indexes, sequences and the catalog are keys and values of one key space; a PostgreSQL-like
  SQL layer and a wire protocol sit on top. This development models the engine below the SQL layer, schema changes included,
  and proves that its key-level operations are operations on tables of rows. Of the layers above it
  models the lexer and the two scans that cut a buffer into statements.

  \<^bold>\<open>Parameters.\<close> btypedb is not part of the sources. \<open>Kv\<close> gives its transactions and store as records of
  operations (\<open>kvops\<close>, \<open>dbops\<close>) with the laws the engine relies on in the locales \<open>kv_tx\<close>, \<open>kv_rw\<close>,
  \<open>kv_save\<close>, \<open>kv_tracking\<close> and \<open>kv_db\<close>; a sorted association list is an instance of all of them and
  serves the concrete instances of the theorems. The JSON codecs of descriptors, the time package, the
  clock, the heap figures of the runtime and the goroutine identity are fields of \<open>deps\<close> and \<open>golib\<close>.

  \<^bold>\<open>Conventions.\<close> A Go byte is an 8-bit word, int64 and uint64 are 64-bit words (signed comparisons are
  written as such), a float64 is its bit pattern, a string is a list of bytes as characters. An error is
  a value of \<open>err\<close>, a result \<open>err + 'a\<close>; a panic that escapes is the error \<open>GoPanic\<close>. Stateful code is an
  action \<open>'s \<Rightarrow> 'a res \<times> 's\<close>, so a failing operation shows what it had changed. Loops are structural
  recursion, have a measure or carry the code's own retry bounds, so no fuel is needed; the loop of
  the lexer is a partial function whose return is proved. Error messages keep their text
  and drop the attributes that serr attaches.

  \<^bold>\<open>Theories.\<close>
  \<^item> \<open>Prelude\<close>, \<open>Values\<close>: results, orders on byte lists, the values of a column.
  \<^item> \<open>Tuple\<close> (\<open>tuple/tuple.go\<close>): the key encoding. Encodings order as \<open>Compare\<close> does, decode back, and
    \<open>PrefixEnd\<close> bounds exactly the keys with a prefix.
  \<^item> \<open>Types\<close>, \<open>Utf8\<close> (\<open>types.go\<close>): text forms of dates, UUIDs, arrays and JSON, with round trips.
  \<^item> \<open>Catalog\<close> (\<open>engine.go\<close>): descriptors and the key layout, whose regions are disjoint.
  \<^item> \<open>Rows\<close>, \<open>Store\<close>, \<open>Index\<close>, \<open>Scan\<close> (\<open>dml.go\<close>, \<open>index.go\<close>): coercion, row and index encodings, and scans;
    \<open>stores d R m\<close> says that the content \<open>m\<close> holds exactly the rows \<open>R\<close> of table \<open>d\<close> with their index
    entries. Scans return the rows of a range in order, and the read set determines them.
  \<^item> \<open>Counter\<close>, \<open>SeqObj\<close>, \<open>SeqAlloc\<close>, \<open>SeqEng\<close> (\<open>seq.go\<close>, \<open>seqobj.go\<close>, \<open>seqalloc.go\<close>, \<open>sql/sequence.go\<close>): counters and
    sequences, stored and through the batch allocators of concurrent-writes mode, whose interleavings
    are the step relation \<open>alloc_step\<close>. No value is handed out twice.
  \<^item> \<open>MemGuard\<close> (\<open>memguard.go\<close>): the sampled memory ceiling and the limits.
  \<^item> \<open>Engine\<close> (\<open>engine.go\<close>): opening, the parse cache, and the transaction wrappers with their retries.
  \<^item> \<open>Dml\<close>, \<open>DmlEng\<close> (\<open>dml.go\<close>, \<open>identity.go\<close>): insert, update, delete, lookup, inside a transaction and as
    one-shot operations; they refine operations on sets of rows, atomically.
  \<^item> \<open>Txn\<close>, \<open>TxnSim\<close> (\<open>txn.go\<close>): transactions, savepoints and the write cap; a whole transaction refines an
    atomic change of all tables.
  \<^item> \<open>Default\<close> (\<open>default.go\<close>, with the rendering in \<open>sql/parser.go\<close> and \<open>sql/sql.go\<close>): the stored text of a column
    default decodes back to its value, except a byte string, which is lost.
  \<^item> \<open>DdlBase\<close>, \<open>Ddl\<close>, \<open>IndexDdl\<close>, \<open>Fk\<close>, \<open>View\<close> (\<open>ddl.go\<close>, \<open>index.go\<close>, \<open>fk.go\<close>, \<open>view.go\<close>): every schema change, with
    a Hoare logic for the closures that run in a schema transaction (\<open>spec\<close>).
  \<^item> \<open>Schema\<close>, \<open>Reshape\<close>, \<open>DdlSim\<close>, \<open>ColumnSim\<close>, \<open>IndexSim\<close>, \<open>FkSim\<close>: \<open>schemaRep C cat m R\<close> says that the content
    \<open>m\<close> holds the tables \<open>cat\<close> with the rows \<open>R\<close> and nothing of a table not yet created. Creating and
    dropping a table, adding and dropping a column, NOT NULL, creating an index and adding a foreign
    key lead from such a content to the one for the changed schema, or leave it as it was (\<open>ddlDone\<close>).
  \<^item> \<open>Lexer\<close>, \<open>Split\<close>, \<open>StmtCut\<close> (\<open>sql/lexer.go\<close>, \<open>pgwire/split.go\<close>, \<open>pgwire/cmd/bytdb/scan.go\<close>): the lexer
    returns on every input, and the splitter of the wire protocol and the scanner of the shell, two
    instances of the interface \<open>sql_cutter\<close>, cut a buffer where the lexer has its semicolons.
  \<^item> \<open>Sample\<close>, \<open>SampleSchema\<close>: tables and rows for the concrete instances.

  \<^bold>\<open>Not modelled.\<close> The changes that rebuild a table (\<open>alter.go\<close>: the type of a column, the primary
  key), whose casts between types are not modelled, and the statistics of the engine. The parser, plans and
  execution of the SQL layer, except the sequence statements and the rendering of defaults: they work
  on the syntax tree, whose 1,100 lines come with a parser of 4,000. The connections, authentication
  and value formats of the wire protocol; the shell beyond its scanner; the driver, replication, the
  file lock and benchmarks, which are input and output around the engine.
\<close>

end
